(* ===== verification/Prelude.thy ===== *)
theory Prelude
  imports Main "HOL-Library.Word"
begin

text \<open>
  Shared material of the development: the machine integer types of the C++ sources, the outcome
  type of an operation (a normal return, a thrown \<open>std::exception\<close>, or undefined behaviour such
  as \<open>operator[]\<close> past the end of a vector), the sequencing of operations that keep their state
  when they throw, and the lemmas on words, lists and outcomes that the component theories use.
\<close>

unbundle bit_operations_syntax

section \<open>Types\<close>

type_synonym u8 = "8 word"
type_synonym u16 = "16 word"
type_synonym u32 = "32 word"
type_synonym u64 = "64 word"
type_synonym bytes = "8 word list"

text \<open>
  \<open>Ret\<close> is a normal return, \<open>Exc\<close> a thrown exception with its kind of message, \<open>Ub\<close> an access
  that the C++ standard leaves undefined.
\<close>

datatype 'a outcome = Ret 'a | Exc string | Ub

text \<open>
  An operation returns its outcome together with the state it leaves behind: C++ mutates the
  object in place, so an exception does not undo the writes made before it was thrown.
  \<open>andthen\<close> continues after a normal return only.
\<close>

definition andthen ::
  "'a outcome \<times> 's \<Rightarrow> ('a \<Rightarrow> 's \<Rightarrow> 'b outcome \<times> 's) \<Rightarrow> 'b outcome \<times> 's" where
  "andthen m f = (case m of
      (Ret a, s) \<Rightarrow> f a s
    | (Exc e, s) \<Rightarrow> (Exc e, s)
    | (Ub, s) \<Rightarrow> (Ub, s))"

text \<open>The same for pure computations that may throw.\<close>

definition obind :: "'a outcome \<Rightarrow> ('a \<Rightarrow> 'b outcome) \<Rightarrow> 'b outcome" where
  "obind m f = (case m of Ret a \<Rightarrow> f a | Exc e \<Rightarrow> Exc e | Ub \<Rightarrow> Ub)"

text \<open>\<open>vector::operator[]\<close>: an index past the end is undefined behaviour.\<close>

definition vec_at :: "'a list \<Rightarrow> u64 \<Rightarrow> 'a outcome" where
  "vec_at xs i = (if unat i < length xs then Ret (xs ! unat i) else Ub)"

text \<open>\<open>std::to_string\<close> of an integer.\<close>

fun decimal :: "nat \<Rightarrow> string" where
  "decimal n = (if n < 10 then [char_of (48 + n)] else decimal (n div 10) @ [char_of (48 + n mod 10)])"

declare decimal.simps [simp del]

definition to_string :: "int \<Rightarrow> string" where
  "to_string i = (if i < 0 then CHR ''-'' # decimal (nat (- i)) else decimal (nat i))"

section \<open>Collections\<close>

named_theorems u64_nat \<open>rewriting 64-bit comparisons and arithmetic to natural numbers\<close>
named_theorems server_frame \<open>fields an operation leaves unchanged\<close>

section \<open>Outcomes\<close>

lemma andthen_Ret [simp]: "andthen (Ret a, s) f = f a s"
  by (simp add: andthen_def)

lemma andthen_Exc [simp]: "andthen (Exc e, s) f = (Exc e, s)"
  by (simp add: andthen_def)

lemma andthen_Ub [simp]: "andthen (Ub, s) f = (Ub, s)"
  by (simp add: andthen_def)

lemma obind_simps [simp]:
  "obind (Ret a) f = f a" "obind (Exc e) f = Exc e" "obind Ub f = Ub"
  by (simp_all add: obind_def)

text \<open>A state predicate that the first operation establishes and every continuation keeps.\<close>

lemma andthen_state:
  assumes "P (snd m)" and "\<And>a. fst m = Ret a \<Longrightarrow> P (snd (f a (snd m)))"
  shows "P (snd (andthen m f))"
  using assms by (cases m; cases "fst m") auto

lemma andthen_eq_Ret:
  "andthen m f = (Ret b, t) \<longleftrightarrow> (\<exists>a s. m = (Ret a, s) \<and> f a s = (Ret b, t))"
  by (cases m; cases "fst m") auto

lemma obind_eq_Ret: "obind m f = Ret b \<longleftrightarrow> (\<exists>a. m = Ret a \<and> f a = Ret b)"
  by (cases m) auto

lemma vec_at_Ret: "vec_at xs i = Ret x \<longleftrightarrow> unat i < length xs \<and> x = xs ! unat i"
  by (auto simp: vec_at_def)

lemma vec_at_in_range [simp]: "unat i < length xs \<Longrightarrow> vec_at xs i = Ret (xs ! unat i)"
  by (simp add: vec_at_def)

section \<open>64-bit words as natural numbers\<close>

lemma unat_u64_less [simp]: "unat (x :: u64) < 18446744073709551616"
  using unsigned_less [of x, where ?'a = nat] by simp

lemma unat_u64_add:
  "unat a + unat b < 18446744073709551616 \<Longrightarrow> unat (a + b :: u64) = unat a + unat b"
  by (simp add: unat_word_ariths)

lemma unat_u64_mult:
  "unat a * unat b < 18446744073709551616 \<Longrightarrow> unat (a * b :: u64) = unat a * unat b"
  by (simp add: unat_word_ariths)

lemma unat_u64_sub: "b \<le> a \<Longrightarrow> unat (a - b :: u64) = unat a - unat b"
  by (simp add: unat_sub)

lemma unat_u64_of_nat: "n < 18446744073709551616 \<Longrightarrow> unat (of_nat n :: u64) = n"
  by (simp add: unat_of_nat)

lemma unat_u64_div: "unat (a div b :: u64) = unat a div unat b"
  by (simp add: unat_div)

lemma unat_u64_mod: "unat (a mod b :: u64) = unat a mod unat b"
  by (simp add: unat_mod)

lemma unat_u64_numeral:
  "numeral k < (18446744073709551616 :: nat) \<Longrightarrow> unat (numeral k :: u64) = numeral k"
  using unat_u64_of_nat [of "numeral k"] by simp

lemma u64_zero_iff: "(x :: u64) = 0 \<longleftrightarrow> unat x = 0"
  by (simp add: unat_eq_0)

lemma u64_eq_iff: "(x :: u64) = y \<longleftrightarrow> unat x = unat y"
  by (simp add: word_unat_eq_iff)

lemma unat_u64_inc: "unat (a :: u64) < unat (b :: u64) \<Longrightarrow> unat (a + 1) = Suc (unat a)"
proof -
  assume "unat a < unat b"
  then have "unat a + unat (1 :: u64) < 18446744073709551616"
    using unat_u64_less [of b] by (simp only: unsigned_1)
  from unat_u64_add [OF this] show ?thesis by simp
qed

declare word_less_nat_alt [u64_nat] word_le_nat_alt [u64_nat]

lemma u64_max_unat: "unat (max a b :: u64) = max (unat a) (unat b)"
  by (simp add: max_def word_le_nat_alt)

lemma u64_min_unat: "unat (min a b :: u64) = min (unat a) (unat b)"
  by (simp add: min_def word_le_nat_alt)

section \<open>Invariants along runs\<close>

text \<open>A step relation that keeps an invariant and moves forward in a preorder.\<close>

locale forward_steps =
  fixes step :: "'s \<Rightarrow> 's \<Rightarrow> bool" and inv :: "'s \<Rightarrow> bool" and fwd :: "'s \<Rightarrow> 's \<Rightarrow> bool"
  assumes keeps: "step s t \<Longrightarrow> inv s \<Longrightarrow> inv t \<and> fwd s t"
    and fwd_refl: "fwd s s" and fwd_trans: "fwd s t \<Longrightarrow> fwd t u \<Longrightarrow> fwd s u"
begin

lemma run:
  assumes "step\<^sup>*\<^sup>* s t" "inv s"
  shows "inv t \<and> fwd s t"
  using assms
proof (induction rule: rtranclp_induct)
  case (step t u)
  then show ?case using keeps fwd_trans by blast
qed (simp add: fwd_refl)

lemma stable:
  assumes "step\<^sup>*\<^sup>* s t" "inv s" "\<And>t u. fwd t u \<Longrightarrow> P t \<Longrightarrow> P u" "P s"
  shows "P t"
  using run [OF assms(1,2)] assms(3,4) by blast

end

end
