(* ===== verification/Basics.thy ===== *)
theory Basics
  imports Prelude
begin

text \<open>
  \<open>blockio/block_geometry.h\<close>, \<open>core/include/raft_constants.h\<close> and
  \<open>core/include/raft_basics.h\<close>: the sizes of the on-disk layout, the little-endian 64-bit fields
  of the entry header and of the file header, and the alignment helper.
  A byte buffer is a list, and a pointer into it is an offset.
\<close>

section \<open>Sizes\<close>

definition kSectorSize :: u64 where "kSectorSize = 512"
definition kPageSize :: u64 where "kPageSize = 4096"

definition SECTOR_SIZE :: u64 where "SECTOR_SIZE = kSectorSize"
definition PAGE_SIZE :: u64 where "PAGE_SIZE = kPageSize"
definition HEADER_SIZE :: u64 where "HEADER_SIZE = SECTOR_SIZE"
definition RING_OFFSET :: u64 where "RING_OFFSET = HEADER_SIZE"
definition ENTRY_META_SIZE :: u64 where "ENTRY_META_SIZE = 32"
definition SLOTS_PER_PAGE :: u64 where "SLOTS_PER_PAGE = PAGE_SIZE div SECTOR_SIZE"
definition DEFAULT_NUM_PAGES :: u64 where "DEFAULT_NUM_PAGES = 8 * 1024 * 1024"
definition DEFAULT_MAX_AE_BATCH :: u64 where "DEFAULT_MAX_AE_BATCH = 1000000"
definition DEFAULT_MAX_AE_BATCH_BYTES :: u64 where
  "DEFAULT_MAX_AE_BATCH_BYTES = 5 * 1024 * 1024 * 1024"
definition MaxPBACopyChunkBytes :: u64 where "MaxPBACopyChunkBytes = 256 * 1024 * 1024"

lemmas size_defs = kSectorSize_def kPageSize_def SECTOR_SIZE_def PAGE_SIZE_def HEADER_SIZE_def
  RING_OFFSET_def ENTRY_META_SIZE_def SLOTS_PER_PAGE_def DEFAULT_NUM_PAGES_def
  DEFAULT_MAX_AE_BATCH_def DEFAULT_MAX_AE_BATCH_BYTES_def MaxPBACopyChunkBytes_def

lemma unat_sizes [simp]:
  "unat SECTOR_SIZE = 512" "unat PAGE_SIZE = 4096" "unat HEADER_SIZE = 512"
  "unat RING_OFFSET = 512" "unat ENTRY_META_SIZE = 32" "unat SLOTS_PER_PAGE = 8"
  "unat MaxPBACopyChunkBytes = 268435456"
  by (simp_all add: size_defs unat_u64_div unat_u64_numeral)

section \<open>Header layouts\<close>

text \<open>\<open>namespace entry_hdr\<close>: the fields of the 32 bytes at the start of an entry's first slot.\<close>

definition entry_kOffTerm :: nat where "entry_kOffTerm = 0"
definition entry_kOffCmdLen :: nat where "entry_kOffCmdLen = 8"
definition entry_kOffNumSlots :: nat where "entry_kOffNumSlots = 16"
definition entry_kOffLogIndex :: nat where "entry_kOffLogIndex = 24"

text \<open>\<open>namespace file_hdr\<close>: the fields of the 512-byte header at logical offset 0.\<close>

definition file_kOffCurrentTerm :: nat where "file_kOffCurrentTerm = 0"
definition file_kOffVotedFor :: nat where "file_kOffVotedFor = 8"
definition file_kOffTailLogIndex :: nat where "file_kOffTailLogIndex = 16"
definition file_kOffTailSlot :: nat where "file_kOffTailSlot = 24"
definition file_kOffCommitIndex :: nat where "file_kOffCommitIndex = 32"
definition file_kOffLastApplied :: nat where "file_kOffLastApplied = 40"

lemmas entry_hdr_defs = entry_kOffTerm_def entry_kOffCmdLen_def entry_kOffNumSlots_def
  entry_kOffLogIndex_def
lemmas file_hdr_defs = file_kOffCurrentTerm_def file_kOffVotedFor_def file_kOffTailLogIndex_def
  file_kOffTailSlot_def file_kOffCommitIndex_def file_kOffLastApplied_def

section \<open>Little-endian fields and alignment\<close>

text \<open>\<open>put_u64_le(p + off, v)\<close>: byte \<open>i\<close> becomes \<open>(v >> 8i) & 0xFF\<close>.\<close>

definition put_u64_le :: "bytes \<Rightarrow> nat \<Rightarrow> u64 \<Rightarrow> bytes" where
  "put_u64_le p off v =
     fold (\<lambda>i b. b[off + i := ucast (drop_bit (8 * i) v AND 0xFF)]) [0..<8] p"

definition get_u64_le :: "bytes \<Rightarrow> nat \<Rightarrow> u64" where
  "get_u64_le p off = fold (\<lambda>i v. v OR push_bit (8 * i) (ucast (p ! (off + i)))) [0..<8] 0"

definition align_up :: "u64 \<Rightarrow> u64 \<Rightarrow> u64" where
  "align_up n align = (n + align - 1) div align * align"

section \<open>A 64-bit field in a buffer\<close>

text \<open>
  What the layouts need of a field codec: a write keeps the length, a read at the same offset
  returns what was written, and a write does not disturb a disjoint field.
\<close>

locale field_codec =
  fixes put :: "bytes \<Rightarrow> nat \<Rightarrow> u64 \<Rightarrow> bytes"
    and get :: "bytes \<Rightarrow> nat \<Rightarrow> u64"
  assumes length_put: "length (put b off v) = length b"
    and get_put_same: "off + 8 \<le> length b \<Longrightarrow> get (put b off v) off = v"
    and get_put_other: "off + 8 \<le> off' \<or> off' + 8 \<le> off \<Longrightarrow> get (put b off v) off' = get b off'"
begin

text \<open>Fields written one after the other at pairwise disjoint offsets all read back.\<close>

definition put_fields :: "(nat \<times> u64) list \<Rightarrow> bytes \<Rightarrow> bytes" where
  "put_fields fs b = fold (\<lambda>(off, v) b. put b off v) fs b"

lemma length_put_fields: "length (put_fields fs b) = length b"
  by (induction fs arbitrary: b) (auto simp: put_fields_def length_put)

lemma get_put_fields_other:
  "\<forall>(off, v) \<in> set fs. off + 8 \<le> off' \<or> off' + 8 \<le> off \<Longrightarrow>
   get (put_fields fs b) off' = get b off'"
  by (induction fs arbitrary: b) (auto simp: put_fields_def get_put_other)

lemma get_put_fields:
  assumes "sorted_wrt (\<lambda>(o1, _) (o2, _). o1 + 8 \<le> o2) fs"
    and "(off, v) \<in> set fs" and "\<forall>(off, v) \<in> set fs. off + 8 \<le> length b"
  shows "get (put_fields fs b) off = v"
  using assms
proof (induction fs arbitrary: b)
  case Nil
  then show ?case by simp
next
  case (Cons f fs)
  obtain o1 v1 where f: "f = (o1, v1)" by (cases f)
  have step: "put_fields (f # fs) b = put_fields fs (put b o1 v1)"
    by (simp add: put_fields_def f)
  show ?case
  proof (cases "(off, v) \<in> set fs")
    case True
    have "get (put_fields fs (put b o1 v1)) off = v"
      by (rule Cons.IH) (use Cons.prems True in \<open>auto simp: length_put\<close>)
    then show ?thesis by (simp add: step)
  next
    case False
    with Cons.prems f have here: "off = o1" "v = v1" by auto
    have "get (put_fields fs (put b o1 v1)) o1 = get (put b o1 v1) o1"
      by (rule get_put_fields_other) (use Cons.prems f in auto)
    also have "\<dots> = v1"
      using Cons.prems f by (auto intro: get_put_same)
    finally show ?thesis by (simp add: step here)
  qed
qed

end

lemma upt_8: "[0..<8] = [0, 1, 2, 3, 4, 5, 6, 7::nat]"
  by (simp add: upt_rec)

lemma length_put_u64_le [simp]: "length (put_u64_le b off v) = length b"
  by (simp add: put_u64_le_def upt_8)

lemma nth_put_u64_le:
  assumes "off + 8 \<le> length b" and "k < length b"
  shows "put_u64_le b off v ! k =
    (if off \<le> k \<and> k < off + 8 then ucast (drop_bit (8 * (k - off)) v AND 0xFF) else b ! k)"
proof -
  have "off \<le> k \<and> k < off + 8 \<Longrightarrow> k - off \<in> {0, 1, 2, 3, 4, 5, 6, 7}"
    by auto
  with assms show ?thesis
    by (auto simp: put_u64_le_def upt_8 nth_list_update)
qed

lemma bit_fold_or:
  "bit (fold (\<lambda>i v. v OR g i) xs a) n \<longleftrightarrow> bit (a :: u64) n \<or> (\<exists>i \<in> set xs. bit (g i) n)"
  by (induction xs arbitrary: a) (auto simp: bit_or_iff)

lemma bit_get_u64_le:
  "bit (get_u64_le p off) n \<longleftrightarrow> (\<exists>i < 8. 8 * i \<le> n \<and> n < 64 \<and> bit (p ! (off + i)) (n - 8 * i))"
proof -
  have "bit (push_bit (8 * i) (ucast (x :: u8)) :: u64) n \<longleftrightarrow>
    8 * i \<le> n \<and> n < 64 \<and> bit x (n - 8 * i)" for i x
    by (auto simp: bit_simps dest: bit_imp_le_length)
  then show ?thesis
    unfolding get_u64_le_def bit_fold_or by (simp add: Bex_def)
qed

lemma bit_byte_of_u64:
  "bit (ucast (drop_bit k v AND 0xFF) :: u8) n \<longleftrightarrow> n < 8 \<and> bit (v :: u64) (k + n)"
proof -
  have "(0xFF :: u64) = mask 8" by (simp add: mask_eq_exp_minus_1)
  then show ?thesis by (simp only: bit_simps) auto
qed

lemma get_put_u64_le_same:
  assumes "off + 8 \<le> length b"
  shows "get_u64_le (put_u64_le b off v) off = v"
proof (rule bit_word_eqI)
  fix n assume "n < LENGTH(64)"
  then have n: "n < 64" by simp
  have byte: "put_u64_le b off v ! (off + i) = ucast (drop_bit (8 * i) v AND 0xFF)"
    if "i < 8" for i
    using assms that by (simp add: nth_put_u64_le)
  have "bit (get_u64_le (put_u64_le b off v) off) n \<longleftrightarrow>
    (\<exists>i < 8. 8 * i \<le> n \<and> n - 8 * i < 8 \<and> bit v n)"
    using n by (auto simp: bit_get_u64_le byte bit_byte_of_u64)
  also have "\<dots> \<longleftrightarrow> bit v n"
  proof -
    have "n div 8 < 8" "8 * (n div 8) \<le> n" "n - 8 * (n div 8) < 8"
      using n by auto
    then show ?thesis by blast
  qed
  finally show "bit (get_u64_le (put_u64_le b off v) off) n \<longleftrightarrow> bit v n" .
qed

lemma get_put_u64_le_other:
  assumes "off + 8 \<le> off' \<or> off' + 8 \<le> off"
  shows "get_u64_le (put_u64_le b off v) off' = get_u64_le b off'"
proof -
  have "put_u64_le b off v ! (off' + i) = b ! (off' + i)" if "i < 8" for i
    using assms that by (auto simp: put_u64_le_def upt_8)
  then show ?thesis unfolding get_u64_le_def by (intro fold_cong) auto
qed

interpretation le_field: field_codec put_u64_le get_u64_le
  by unfold_locales (simp_all add: get_put_u64_le_same get_put_u64_le_other)

section \<open>Alignment\<close>

lemma unat_align_up:
  assumes "0 < unat a" and "unat n + unat a - 1 < 18446744073709551616"
  shows "unat (align_up n a) = (unat n + unat a - 1) div unat a * unat a"
proof -
  have a1: "1 \<le> a" using assms(1) by (simp add: word_le_nat_alt)
  have "unat (a - 1) = unat a - 1" using a1 by (simp add: unat_sub)
  with assms have "unat (n + (a - 1)) = unat n + (unat a - 1)"
    by (subst unat_u64_add) auto
  then have s: "unat (n + a - 1) = unat n + unat a - 1"
    using assms(1) by (simp add: add_diff_eq)
  have "(unat n + unat a - 1) div unat a * unat a \<le> unat n + unat a - 1"
    by (simp add: div_times_less_eq_dividend)
  with assms(2) have "(unat n + unat a - 1) div unat a * unat a < 18446744073709551616"
    by (rule le_less_trans [rotated])
  then show ?thesis
    by (simp add: align_up_def unat_u64_mult unat_u64_div s)
qed

end
