(* ===== verification/Extents.thy ===== *)
theory Extents
  imports Basics
begin

text \<open>
  \<open>blockio/cached_fd.{h,cpp}\<close>, the address translation part: \<open>PBASegment\<close>, \<open>Extent\<close>,
  \<open>native_get_pba\<close>, and the class \<open>ExtentCache\<close> (\<open>build\<close>, \<open>from_extents\<close>, \<open>lookup\<close>,
  \<open>is_contiguous\<close>, \<open>remaining_at\<close>).
  \<open>int64_t\<close> offsets are \<open>int\<close>, \<open>uint64_t\<close> addresses and lengths are 64-bit words, and the two
  casts are \<open>sint\<close> and \<open>word_of_int\<close>. The FIEMAP ioctl is a parameter of the definitions that
  call it; \<open>fiemap_reports\<close> says what the kernel documents about it.
  The file's map from logical bytes to device bytes is \<open>phys_of\<close>; the lemmas show that the cached
  binary search and the hinted search agree with it.
\<close>

section \<open>Data\<close>

record pba_segment =
  pba :: u64
  seg_len :: u64

record extent =
  ext_logical :: int
  ext_physical :: u64
  ext_length :: u64

text \<open>The result of \<open>ioctl(fd, FS_IOC_FIEMAP, fm)\<close> with room for one extent.\<close>

datatype fiemap_result = IoctlFail | NoExtent | OneExtent u64 u64 u64

type_synonym fiemap = "u64 \<Rightarrow> u64 \<Rightarrow> fiemap_result"

section \<open>Operations\<close>

definition native_get_pba :: "fiemap \<Rightarrow> int \<Rightarrow> u64 \<Rightarrow> (u64 \<times> u64) option" where
  "native_get_pba fm logical len = (case fm (word_of_int logical) len of
      IoctlFail \<Rightarrow> None
    | NoExtent \<Rightarrow> None
    | OneExtent fe_logical fe_physical fe_length \<Rightarrow>
        let intra = word_of_int logical - fe_logical
        in Some (fe_physical + intra, fe_length - intra))"

text \<open>
  The loop of \<open>ExtentCache::build\<close>, from offset \<open>off\<close> with the extents pushed so far; \<open>None\<close> is
  a loop that does not end.
\<close>

partial_function (option) build_loop ::
  "fiemap \<Rightarrow> int \<Rightarrow> int \<Rightarrow> extent list \<Rightarrow> extent list outcome option" where
  "build_loop fm file_size off acc =
     (if off < file_size then
        (case native_get_pba fm off (word_of_int (file_size - off)) of
           None \<Rightarrow> Some (Exc ''BuildExtentCache: FIEMAP failed'')
         | Some (p, len) \<Rightarrow>
             if p = 0 then Some (Exc ''BuildExtentCache: PBA=0 (hole in file)'')
             else if len = 0 then Some (Exc ''BuildExtentCache: zero-length extent'')
             else build_loop fm file_size (off + sint len)
                    (acc @ [\<lparr>ext_logical = off, ext_physical = p, ext_length = len\<rparr>]))
      else Some (Ret acc))"

definition ExtentCache_build :: "fiemap \<Rightarrow> int \<Rightarrow> extent list outcome option" where
  "ExtentCache_build fm file_size = build_loop fm file_size 0 []"

definition from_extents :: "extent list \<Rightarrow> extent list" where
  "from_extents xs = sort_key ext_logical xs"

text \<open>\<open>std::upper_bound\<close> by logical offset, as an index: the first extent past \<open>logical\<close>.\<close>

definition upper_bound :: "extent list \<Rightarrow> int \<Rightarrow> nat" where
  "upper_bound xs logical = length (takeWhile (\<lambda>e. \<not> logical < ext_logical e) xs)"

definition lookup :: "extent list \<Rightarrow> int \<Rightarrow> u64 \<Rightarrow> pba_segment outcome" where
  "lookup xs logical len =
     (let k = upper_bound xs logical in
      if k = 0 then Exc ''ExtentCache::lookup: no extent covers offset''
      else
        let e = xs ! (k - 1);
            extent_end = ext_logical e + sint (ext_length e)
        in if logical \<ge> extent_end then Exc ''ExtentCache::lookup: offset past extent''
           else
             let intra_offset = word_of_int (logical - ext_logical e);
                 available = ext_length e - intra_offset
             in Ret \<lparr>pba = ext_physical e + intra_offset,
                     seg_len = (if available > len then len else available)\<rparr>)"

definition num_extents :: "extent list \<Rightarrow> int" where
  "num_extents xs = int (length xs)"

definition is_contiguous :: "extent list \<Rightarrow> bool" where
  "is_contiguous xs \<longleftrightarrow> length xs \<le> 1"

definition in_extent :: "extent \<Rightarrow> int \<Rightarrow> bool" where
  "in_extent e logical \<longleftrightarrow>
     logical \<ge> ext_logical e \<and> logical < ext_logical e + sint (ext_length e)"

definition remaining_slow :: "extent list \<Rightarrow> int \<Rightarrow> u64 \<times> int" where
  "remaining_slow xs logical =
     (let k = upper_bound xs logical in
      if k = 0 then (0, 0)
      else
        let e = xs ! (k - 1); idx = int (k - 1)
        in if logical \<ge> ext_logical e + sint (ext_length e) then (0, idx)
           else (ext_length e - word_of_int (logical - ext_logical e), idx))"

definition remaining_at :: "extent list \<Rightarrow> int \<Rightarrow> int \<Rightarrow> u64 \<times> int" where
  "remaining_at xs logical hint =
     (if hint \<ge> 0 \<and> nat hint < length xs then
        let e = xs ! nat hint in
        if in_extent e logical
        then (ext_length e - word_of_int (logical - ext_logical e), hint)
        else if nat (hint + 1) < length xs then
          let e2 = xs ! nat (hint + 1) in
          if in_extent e2 logical
          then (ext_length e2 - word_of_int (logical - ext_logical e2), hint + 1)
          else remaining_slow xs logical
        else remaining_slow xs logical
      else remaining_slow xs logical)"

section \<open>The map an extent list stands for\<close>

text \<open>
  The extents of a file do not overlap, are listed in order, are not empty, and end within the
  range of \<open>int64_t\<close>.
\<close>

definition ext_end :: "extent \<Rightarrow> int" where
  "ext_end e = ext_logical e + uint (ext_length e)"

definition wf_extent :: "extent \<Rightarrow> bool" where
  "wf_extent e \<longleftrightarrow> 0 \<le> ext_logical e \<and> ext_length e \<noteq> 0 \<and> ext_end e < 2 ^ 63"

definition wf_extents :: "extent list \<Rightarrow> bool" where
  "wf_extents xs \<longleftrightarrow> list_all wf_extent xs \<and> sorted_wrt (\<lambda>a b. ext_end a \<le> ext_logical b) xs"

text \<open>The device byte of a logical byte, read off the list.\<close>

definition covers :: "int \<Rightarrow> extent \<Rightarrow> bool" where
  "covers l e \<longleftrightarrow> ext_logical e \<le> l \<and> l < ext_end e"

definition phys_of :: "extent list \<Rightarrow> int \<Rightarrow> u64 option" where
  "phys_of xs l = map_option (\<lambda>e. ext_physical e + word_of_int (l - ext_logical e))
                    (find (covers l) xs)"

text \<open>
  What FIEMAP documents: asked for the range that starts at a byte of the file, it returns the
  extent that holds that byte.
\<close>

definition fiemap_reports :: "fiemap \<Rightarrow> extent list \<Rightarrow> bool" where
  "fiemap_reports fm xs \<longleftrightarrow>
     (\<forall>e \<in> set xs. \<forall>l n. covers l e \<longrightarrow> n \<noteq> 0 \<longrightarrow>
        fm (word_of_int l) n = OneExtent (word_of_int (ext_logical e)) (ext_physical e) (ext_length e))"

text \<open>The extents tile the file from byte 0, with no hole.\<close>

fun tiles :: "int \<Rightarrow> extent list \<Rightarrow> int \<Rightarrow> bool" where
  "tiles off [] file_size \<longleftrightarrow> off = file_size"
| "tiles off (e # es) file_size \<longleftrightarrow>
     ext_logical e = off \<and> wf_extent e \<and> ext_physical e \<noteq> 0 \<and> tiles (ext_end e) es file_size"

section \<open>Words and offsets\<close>

lemma sint_u64: "uint (w :: u64) < 2 ^ 63 \<Longrightarrow> sint w = uint w"
proof -
  assume "uint w < 2 ^ 63"
  moreover have "- (2 ^ 63) \<le> uint w" by (rule order_trans [of _ 0]) auto
  ultimately show ?thesis by (simp add: sint_uint signed_take_bit_int_eq_self)
qed

lemma uint_word_of_int_diff:
  assumes "a \<le> l" and "l < a + uint (n :: u64)"
  shows "uint (word_of_int (l - a) :: u64) = l - a"
proof -
  have "l - a < 2 ^ 64" using assms uint_lt2p [of n] by simp
  with assms show ?thesis
    by (simp add: unsigned_of_int take_bit_int_eq_self del: of_int_diff)
qed

lemma wf_extent_sint: "wf_extent e \<Longrightarrow> ext_logical e + sint (ext_length e) = ext_end e"
  by (auto simp: wf_extent_def ext_end_def intro!: sint_u64)

lemma in_extent_covers: "wf_extent e \<Longrightarrow> in_extent e l \<longleftrightarrow> covers l e"
  by (simp add: in_extent_def covers_def wf_extent_sint)

lemma wf_extent_pos: "wf_extent e \<Longrightarrow> ext_logical e < ext_end e"
  by (auto simp: wf_extent_def ext_end_def word_neq_0_conv word_less_def)

text \<open>The bytes left in the extent, as the code subtracts them.\<close>

lemma uint_left_in_extent:
  assumes "covers l e"
  shows "uint (ext_length e - word_of_int (l - ext_logical e)) = ext_end e - l"
proof -
  have o: "uint (word_of_int (l - ext_logical e) :: u64) = l - ext_logical e"
    using assms by (intro uint_word_of_int_diff) (auto simp: covers_def ext_end_def)
  then have "word_of_int (l - ext_logical e) \<le> ext_length e"
    using assms by (simp only: word_le_def covers_def ext_end_def) linarith
  then show ?thesis
    using o by (simp only: uint_minus_simple_alt [THEN iffD1] ext_end_def)
qed

section \<open>The searches find the extent that covers an offset\<close>

lemma wf_extents_nth:
  assumes "wf_extents xs" and "i < length xs"
  shows "wf_extent (xs ! i)"
  using assms by (simp add: wf_extents_def list_all_length)

lemma wf_extents_order:
  assumes "wf_extents xs" and "i < j" and "j < length xs"
  shows "ext_end (xs ! i) \<le> ext_logical (xs ! j)"
  using assms by (auto simp: wf_extents_def intro: sorted_wrt_nth_less)

lemma covers_unique:
  assumes "wf_extents xs" "i < length xs" "j < length xs" "covers l (xs ! i)" "covers l (xs ! j)"
  shows "i = j"
  using assms wf_extents_order [of xs i j] wf_extents_order [of xs j i]
  by (cases i j rule: linorder_cases) (auto simp: covers_def)

lemma upper_bound_covers:
  assumes wf: "wf_extents xs" and i: "i < length xs" and c: "covers l (xs ! i)"
  shows "upper_bound xs l = Suc i"
proof -
  let ?P = "\<lambda>e. \<not> l < ext_logical e"
  have before: "?P (xs ! j)" if "j \<le> i" for j
    using c wf_extents_order [OF wf, of j i] that i wf_extent_pos [OF wf_extents_nth [OF wf, of j]]
    by (cases "j = i") (auto simp: covers_def)
  have after: "\<not> ?P (xs ! Suc i)" if "Suc i < length xs"
    using c wf_extents_order [OF wf, of i "Suc i"] that by (auto simp: covers_def)
  have "takeWhile ?P xs = take (Suc i) xs"
    using before after i by (intro takeWhile_eq_take_P_nth) (auto simp: less_Suc_eq_le)
  then show ?thesis using i by (simp add: upper_bound_def)
qed

lemma upper_bound_le: "upper_bound xs l \<le> length xs"
  by (simp add: upper_bound_def length_takeWhile_le)

lemma find_covers:
  assumes "wf_extents xs" "i < length xs" "covers l (xs ! i)"
  shows "find (covers l) xs = Some (xs ! i)"
proof -
  have "\<not> covers l (xs ! j)" if "j < i" for j
    using covers_unique [OF assms(1), of j i l] assms that by auto
  with assms show ?thesis unfolding find_Some_iff by blast
qed

lemma lookup_covered:
  assumes wf: "wf_extents xs" and i: "i < length xs" and c: "covers l (xs ! i)"
  shows "lookup xs l n = Ret \<lparr>pba = ext_physical (xs ! i) + word_of_int (l - ext_logical (xs ! i)),
    seg_len = min n (ext_length (xs ! i) - word_of_int (l - ext_logical (xs ! i)))\<rparr>"
  using c wf_extent_sint [OF wf_extents_nth [OF wf i]]
  by (auto simp: lookup_def upper_bound_covers [OF wf i c] Let_def covers_def min_def)

lemma lookup_uncovered:
  assumes wf: "wf_extents xs" and n: "\<And>i. i < length xs \<Longrightarrow> \<not> covers l (xs ! i)"
  shows "\<exists>m. lookup xs l len = Exc m"
proof (cases "upper_bound xs l")
  case (Suc k)
  have k: "k < length xs" using Suc upper_bound_le [of xs l] by simp
  have "\<not> l < ext_logical (xs ! k)"
    using Suc nth_length_takeWhile set_takeWhileD
    by (metis (mono_tags, lifting) lessI nth_mem takeWhile_nth upper_bound_def)
  then show ?thesis
    using n [OF k] Suc wf_extent_sint [OF wf_extents_nth [OF wf k]]
    by (auto simp: lookup_def Let_def covers_def)
qed (simp add: lookup_def)

lemma phys_of_None:
  "phys_of xs l = None \<longleftrightarrow> (\<forall>i < length xs. \<not> covers l (xs ! i))"
  by (auto simp: phys_of_def find_None_iff in_set_conv_nth)

lemma phys_of_covered:
  assumes "wf_extents xs" "i < length xs" "covers l (xs ! i)"
  shows "phys_of xs l = Some (ext_physical (xs ! i) + word_of_int (l - ext_logical (xs ! i)))"
  using find_covers [OF assms] by (simp add: phys_of_def)

section \<open>The interface of an address map\<close>

text \<open>
  What the replication path needs of the translation from a file offset to a device address:
  every byte of a returned segment is where the file's map puts it, a mapped offset is always
  resolved to a non-empty segment that is no longer than asked for, and an unmapped one is refused.
\<close>

locale address_map =
  fixes wf :: "'m \<Rightarrow> bool"
    and look :: "'m \<Rightarrow> int \<Rightarrow> u64 \<Rightarrow> pba_segment outcome"
    and phys :: "'m \<Rightarrow> int \<Rightarrow> u64 option"
  assumes look_run: "wf m \<Longrightarrow> look m l n = Ret s \<Longrightarrow> 0 \<le> k \<Longrightarrow> k < uint (seg_len s) \<Longrightarrow>
      phys m (l + k) = Some (pba s + word_of_int k)"
    and look_total: "wf m \<Longrightarrow> phys m l \<noteq> None \<Longrightarrow> n \<noteq> 0 \<Longrightarrow>
      \<exists>s. look m l n = Ret s \<and> seg_len s \<noteq> 0 \<and> seg_len s \<le> n"
    and look_none: "wf m \<Longrightarrow> phys m l = None \<Longrightarrow> \<exists>e. look m l n = Exc e"
begin

text \<open>A segment as long as the request resolves the whole range, and does so at one address.\<close>

lemma look_whole:
  assumes "wf m" "look m l n = Ret s" "n \<le> seg_len s" "0 \<le> k" "k < uint n"
  shows "phys m (l + k) = Some (pba s + word_of_int k)"
  using assms look_run [of m l n s k] by (auto simp: word_le_def)

lemma look_no_ub: "wf m \<Longrightarrow> n \<noteq> 0 \<Longrightarrow> look m l n \<noteq> Ub"
  using look_total [of m l n] look_none [of m l n] by (cases "phys m l") auto

text \<open>Two lookups of one offset give segments that start at the same device byte.\<close>

lemma look_same_pba:
  assumes "wf m" "look m l n = Ret s" "look m l n' = Ret s'" "seg_len s \<noteq> 0" "seg_len s' \<noteq> 0"
  shows "pba s = pba s'"
proof -
  have "0 < uint (seg_len s)" "0 < uint (seg_len s')"
    using assms by (simp_all add: word_neq_0_conv word_less_def)
  then show ?thesis
    using look_run [OF assms(1,2), of 0] look_run [OF assms(1,3), of 0] by simp
qed

end

lemma lookup_run:
  assumes wf: "wf_extents xs" and s: "lookup xs l n = Ret s"
    and k: "0 \<le> k" "k < uint (seg_len s)"
  shows "phys_of xs (l + k) = Some (pba s + word_of_int k)"
proof -
  obtain i where i: "i < length xs" and c: "covers l (xs ! i)"
    using lookup_uncovered [OF wf, of l n] s by auto
  have "seg_len s \<le> ext_length (xs ! i) - word_of_int (l - ext_logical (xs ! i))"
    using s lookup_covered [OF wf i c, of n] by auto
  then have "k < ext_end (xs ! i) - l"
    using k uint_left_in_extent [OF c] by (simp add: word_le_def)
  then have "covers (l + k) (xs ! i)" using c k by (auto simp: covers_def)
  then show ?thesis
    using s lookup_covered [OF wf i c, of n]
    by (auto simp: phys_of_covered [OF wf i] algebra_simps)
qed

lemma lookup_total:
  assumes wf: "wf_extents xs" and p: "phys_of xs l \<noteq> None" and n: "n \<noteq> 0"
  shows "\<exists>s. lookup xs l n = Ret s \<and> seg_len s \<noteq> 0 \<and> seg_len s \<le> n"
proof -
  obtain i where i: "i < length xs" and c: "covers l (xs ! i)"
    using p unfolding phys_of_None by blast
  have "uint (ext_length (xs ! i) - word_of_int (l - ext_logical (xs ! i))) \<noteq> 0"
    using uint_left_in_extent [OF c] c by (simp add: covers_def)
  then have "ext_length (xs ! i) - word_of_int (l - ext_logical (xs ! i)) \<noteq> 0" by auto
  with n show ?thesis
    unfolding lookup_covered [OF wf i c] by (auto simp: min_def)
qed

lemma lookup_none:
  assumes "wf_extents xs" and "phys_of xs l = None"
  shows "\<exists>e. lookup xs l n = Exc e"
  using assms lookup_uncovered [of xs l n] by (simp add: phys_of_None)

interpretation ext_map: address_map wf_extents lookup phys_of
  by unfold_locales (fact lookup_run lookup_total lookup_none)+

text \<open>
  C40. Looking a byte up in the cached extents: a byte in an extent gives the run from there to the end
  of the extent, cut to the length asked for, and every byte of the run lies at the address the run
  says; a byte in no extent is an error.
\<close>

theorem lookup_correct:
  assumes wf: "wf_extents xs"
  shows "case lookup xs l n of
      Ret s \<Rightarrow> (\<exists>e \<in> set xs. covers l e \<and> uint (seg_len s) = min (uint n) (ext_end e - l)) \<and>
        (\<forall>k. 0 \<le> k \<and> k < uint (seg_len s) \<longrightarrow> phys_of xs (l + k) = Some (pba s + word_of_int k))
    | Exc _ \<Rightarrow> phys_of xs l = None
    | Ub \<Rightarrow> False"
proof (cases "phys_of xs l = None")
  case True
  from lookup_none [OF wf this, of n] True show ?thesis by auto
next
  case False
  then obtain i where i: "i < length xs" "covers l (xs ! i)" unfolding phys_of_None by blast
  note l = lookup_covered [OF wf i, of n]
  have "uint (min n (ext_length (xs ! i) - word_of_int (l - ext_logical (xs ! i)))) = min (uint n) (ext_end (xs ! i) - l)"
    unfolding uint_left_in_extent [OF i(2), symmetric] by (simp add: min_def word_le_def)
  with i l lookup_run [OF wf l] show ?thesis by auto
qed

definition sample_extents :: "extent list" where
  "sample_extents =
     [\<lparr>ext_logical = 0, ext_physical = 8192, ext_length = 4096\<rparr>,
      \<lparr>ext_logical = 4096, ext_physical = 65536, ext_length = 8192\<rparr>]"

definition sample_fiemap :: fiemap where
  "sample_fiemap off n = (if off < 4096 then OneExtent 0 8192 4096 else OneExtent 4096 65536 8192)"

lemma sample_extents_tile: "tiles 0 sample_extents 12288" "wf_extents sample_extents"
  by (simp_all add: sample_extents_def wf_extents_def wf_extent_def ext_end_def)

theorem lookup_correct_witness:
  "\<exists>s. lookup sample_extents 4608 16384 = Ret s \<and> uint (seg_len s) = 7680 \<and>
     phys_of sample_extents 4609 = Some (pba s + 1)"
proof -
  have p: "phys_of sample_extents 4608 \<noteq> None" by code_simp
  then obtain s where l: "lookup sample_extents 4608 16384 = Ret s"
    using lookup_total [OF sample_extents_tile(2), of 4608 16384] by auto
  have "ext_end e - 4608 = 7680" if "e \<in> set sample_extents" "covers 4608 e" for e
    using that by (auto simp: sample_extents_def covers_def ext_end_def)
  with lookup_correct [OF sample_extents_tile(2), of 4608 16384] l show ?thesis
    by (fastforce dest!: spec [of _ 1])
qed

section \<open>The hinted search\<close>

lemma remaining_slow_covered:
  assumes wf: "wf_extents xs" and i: "i < length xs" and c: "covers l (xs ! i)"
  shows "remaining_slow xs l = (ext_length (xs ! i) - word_of_int (l - ext_logical (xs ! i)), int i)"
  using c wf_extent_sint [OF wf_extents_nth [OF wf i]]
  by (simp add: remaining_slow_def upper_bound_covers [OF wf i c] Let_def covers_def)

text \<open>
  The hinted search for the bytes left in an extent gives the answer of the binary search for
  every hint, so the hint that the persist loop carries along is only a cache.
\<close>

theorem remaining_at_slow:
  assumes wf: "wf_extents xs"
  shows "remaining_at xs l h = remaining_slow xs l"
proof (cases "h \<ge> 0 \<and> nat h < length xs")
  case True
  then have h: "0 \<le> h" "nat h < length xs" by auto
  show ?thesis
  proof (cases "in_extent (xs ! nat h) l")
    case True
    then have "covers l (xs ! nat h)" using in_extent_covers [OF wf_extents_nth [OF wf h(2)]] by simp
    with h True show ?thesis
      by (simp add: remaining_at_def remaining_slow_covered [OF wf h(2)] Let_def)
  next
    case out: False
    show ?thesis
    proof (cases "nat (h + 1) < length xs \<and> in_extent (xs ! nat (h + 1)) l")
      case True
      then have n: "nat (h + 1) < length xs" and c: "covers l (xs ! nat (h + 1))"
        using in_extent_covers [OF wf_extents_nth [OF wf, of "nat (h + 1)"]] by auto
      from n c True out h show ?thesis
        by (simp add: remaining_at_def remaining_slow_covered [OF wf n c] Let_def)
    next
      case False
      with out h show ?thesis by (auto simp: remaining_at_def Let_def)
    qed
  qed
qed (auto simp: remaining_at_def)

theorem remaining_at_slow_witness:
  "remaining_at sample_extents 5120 0 = remaining_slow sample_extents 5120 \<and>
   remaining_slow sample_extents 5120 = (7168, 1)"
  using remaining_at_slow [OF sample_extents_tile(2), of 5120 0]
  by (auto simp: remaining_slow_def sample_extents_def upper_bound_def)

section \<open>Building the cache\<close>

lemma tiles_end: "tiles off es fsz \<Longrightarrow> off \<le> fsz"
  by (induction off es fsz rule: tiles.induct) (use wf_extent_pos in fastforce)+

lemma tiles_member:
  "tiles off es fsz \<Longrightarrow> e \<in> set es \<Longrightarrow> wf_extent e \<and> off \<le> ext_logical e \<and> ext_end e \<le> fsz"
proof (induction off es fsz rule: tiles.induct)
  case (2 off d es fsz)
  then show ?case using wf_extent_pos [of d] tiles_end [of "ext_end d" es fsz] by auto
qed simp

lemma tiles_wf: "tiles off es fsz \<Longrightarrow> wf_extents es"
proof (induction off es fsz rule: tiles.induct)
  case (2 off d es fsz)
  then show ?case by (auto simp: wf_extents_def dest: tiles_member)
qed (simp add: wf_extents_def)

lemma tiles_phys:
  "tiles off es fsz \<Longrightarrow> off \<le> l \<Longrightarrow> l < fsz \<Longrightarrow> phys_of es l \<noteq> None"
proof (induction off es fsz rule: tiles.induct)
  case (2 off d es fsz)
  then show ?case by (cases "l < ext_end d") (auto simp: phys_of_def covers_def)
qed simp

lemma native_get_pba_start:
  assumes "fiemap_reports fm es" "e \<in> set es" "wf_extent e" "n \<noteq> 0"
  shows "native_get_pba fm (ext_logical e) n = Some (ext_physical e, ext_length e)"
proof -
  have "covers (ext_logical e) e" using wf_extent_pos assms by (simp add: covers_def)
  with assms show ?thesis by (simp add: native_get_pba_def fiemap_reports_def)
qed

lemma build_loop_tiles:
  assumes "tiles off es fsz" "fiemap_reports fm es" "0 \<le> off" "fsz < 2 ^ 63"
  shows "build_loop fm fsz off acc = Some (Ret (acc @ es))"
  using assms
proof (induction off es fsz arbitrary: acc rule: tiles.induct)
  case (1 off fsz)
  then show ?case by (subst build_loop.simps) simp
next
  case (2 off e es fsz)
  then have e: "ext_logical e = off" "wf_extent e" "ext_physical e \<noteq> 0"
    and t: "tiles (ext_end e) es fsz" by auto
  have lt: "off < fsz" using wf_extent_pos [OF e(2)] tiles_end [OF t] e(1) by simp
  have "uint (word_of_int (fsz - off) :: u64) = fsz - off"
    using lt 2 by (simp add: unsigned_of_int take_bit_int_eq_self del: of_int_diff)
  then have "(word_of_int (fsz - off) :: u64) \<noteq> 0" using lt by auto
  then have "native_get_pba fm off (word_of_int (fsz - off)) = Some (ext_physical e, ext_length e)"
    using native_get_pba_start [of fm "e # es" e] 2 e by simp
  moreover have "ext_length e \<noteq> 0" using e by (simp add: wf_extent_def)
  moreover have "off + sint (ext_length e) = ext_end e" using wf_extent_sint [OF e(2)] e(1) by simp
  moreover have "build_loop fm fsz (ext_end e) (acc @ [e]) = Some (Ret ((acc @ [e]) @ es))"
    using 2 wf_extent_pos [OF e(2)] by (intro 2(1)) (auto simp: fiemap_reports_def)
  ultimately show ?case
    using lt e by (cases e) (subst build_loop.simps, simp)
qed

text \<open>
  Building the extent cache of a file that has no holes, from a FIEMAP that reports the
  extent of each byte: the loop ends, the cache is exactly the file's extents in order, and
  every byte of the file has a device address.
\<close>

theorem build_exact:
  assumes "tiles 0 es fsz" "fiemap_reports fm es" "fsz < 2 ^ 63"
  shows "ExtentCache_build fm fsz = Some (Ret es) \<and> wf_extents es \<and>
    (\<forall>l. 0 \<le> l \<and> l < fsz \<longrightarrow> phys_of es l \<noteq> None)"
  using build_loop_tiles [OF assms(1,2) _ assms(3)] tiles_wf [OF assms(1)] tiles_phys [OF assms(1)]
  by (simp add: ExtentCache_build_def)

lemma sample_fiemap_reports: "fiemap_reports sample_fiemap sample_extents"
proof -
  have "(word_of_int l :: u64) < 4096 \<longleftrightarrow> l < 4096" if "0 \<le> l" "l < 12288" for l
    using that by (simp add: word_less_def unsigned_of_int take_bit_int_eq_self)
  then show ?thesis
    by (auto simp: fiemap_reports_def sample_fiemap_def sample_extents_def covers_def ext_end_def)
qed

theorem build_exact_witness:
  "ExtentCache_build sample_fiemap 12288 = Some (Ret sample_extents) \<and>
   phys_of sample_extents 5000 \<noteq> None"
  using build_exact [OF sample_extents_tile(1) sample_fiemap_reports] by simp

lemma wf_extents_sorted: "wf_extents xs \<Longrightarrow> sorted_wrt (\<lambda>a b. ext_logical a < ext_logical b) xs"
  by (induction xs) (force simp: wf_extents_def dest: wf_extent_pos)+

text \<open>
  \<open>from_extents\<close> restores the order of the extents of a file, however they are given.
\<close>

theorem from_extents_order:
  assumes wf: "wf_extents ys" and perm: "distinct xs" "set xs = set ys"
  shows "from_extents xs = ys"
proof -
  have s: "sorted_wrt (<) (map ext_logical ys)"
    using wf_extents_sorted [OF wf] by (simp add: sorted_wrt_map)
  then have d: "distinct (map ext_logical ys)" "sorted (map ext_logical ys)"
    by (simp_all add: strict_sorted_iff)
  then have inj: "inj_on ext_logical (set ys)" by (simp add: distinct_map)
  then have "distinct (map ext_logical (from_extents xs))"
    using perm by (simp add: from_extents_def distinct_map)
  then show ?thesis
    using d inj perm by (intro map_sorted_distinct_set_unique) (auto simp: from_extents_def)
qed

theorem from_extents_order_witness: "from_extents (rev sample_extents) = sample_extents"
  by (rule from_extents_order [OF sample_extents_tile(2)]) (simp add: sample_extents_def, simp)

end
