(* ===== verification/State.thy ===== *)
theory State
  imports Extents "HOL-Library.AList"
begin

text \<open>
  \<open>core/include/raft_entry.h\<close>, \<open>core/include/raft_state.h\<close> and the fields of \<open>class Server\<close> of
  \<open>core/include/raft_server.h\<close>: the log entry, the RPC messages, the cluster member, and the
  groups \<open>RaftState\<close>, \<open>RingLog\<close>, \<open>StorageIo\<close>, \<open>ProfilingSink\<close>, \<open>WorkerPool\<close> that make up a
  server.

  Conventions. A \<open>std::vector\<close> is a list; \<open>unordered_map\<close> is an association list with distinct
  keys. A \<open>std::shared_ptr<EntryCommitSignal>\<close> is the index of a signal in the server's heap of
  signals, \<open>None\<close> is the null pointer; a \<open>result_sink\<close> closure is the pair of the collector it
  captured and its \<open>is_last\<close> flag. Mutexes and condition variables have no counterpart: an
  operation that holds \<open>mu\<close> is one atomic definition. What the outside world decides is in the
  state as well: the steady clock and the random engine as streams with a read position
  (\<open>environment\<close>), and the results of the system calls as a script (\<open>disk\<close>).
\<close>

section \<open>Enumerations\<close>

datatype log_entry_state = Free | Using

datatype server_state = Leader | Follower | Candidate

datatype replication_mode = DestinationSide | LeaderSide

definition to_string_LogEntryState :: "log_entry_state \<Rightarrow> string" where
  "to_string_LogEntryState st = (case st of Free \<Rightarrow> ''FREE'' | Using \<Rightarrow> ''USING'')"

definition to_string_ServerState :: "server_state \<Rightarrow> string" where
  "to_string_ServerState st =
     (case st of Leader \<Rightarrow> ''leader'' | Follower \<Rightarrow> ''follower'' | Candidate \<Rightarrow> ''candidate'')"

section \<open>Entries and messages\<close>

record apply_result =
  res_result :: bytes
  res_error :: string

record entry =
  command :: bytes
  e_term :: u64
  result_sink :: "(nat \<times> bool) option"
  committed :: "nat option"
  ring_slot :: u64
  cmd_len :: u64

record entry_meta =
  meta_term :: u64
  meta_cmd_len :: u64

record request_vote_request =
  rvq_term :: u64
  candidate_id :: u64
  last_log_index :: u64
  last_log_term :: u64

record request_vote_response =
  rvr_term :: u64
  vote_granted :: bool

record append_entries_request =
  aeq_term :: u64
  leader_id :: u64
  prev_log_index :: u64
  prev_log_term :: u64
  leader_commit :: u64
  leader_pba_src :: u64
  log_block_length :: u64
  num_entries :: u64
  slots_per_entry :: u64
  start_slot :: u64
  leader_dev_index :: int
  data_already_copied :: bool
  entry_metas :: "entry_meta list"

record append_entries_response =
  aer_term :: u64
  success :: bool
  conflict_term :: u64
  conflict_index :: u64
  handler_duration_ns :: int
  write_pba_rt_ns :: int
  storage_copy_ns :: int
  handle_ae_lock_wait_ns :: int
  handle_ae_pre_ns :: int
  handle_ae_lock_wait2_ns :: int
  handle_ae_post_ns :: int
  handle_ae_persist_ns :: int

section \<open>The state groups\<close>

record slot_record =
  sr_start :: u64
  sr_num_slots :: u64
  sr_state :: log_entry_state

record cluster_member =
  member_id :: u64
  member_address :: string
  member_device_path :: string
  storage_host :: string
  next_index :: u64
  match_index :: u64
  voted_for :: u64
  inflight :: bool
  skip_pba_last_next :: u64
  skip_pba_last_log :: int

record slot_map_trace_evt =
  evt_op :: char
  evt_idx :: u64

text \<open>\<open>AlignedBuffer\<close>: the bytes of the allocation, whose length is the capacity, and the size.\<close>

record aligned_buffer =
  buf_data :: bytes
  buf_size :: nat

record raft_state =
  current_term :: u64
  rlog :: "entry list"
  node_id :: u64
  address :: string
  election_timeout :: int
  heartbeat_timeout :: int
  heartbeat_ms :: int
  commit_index :: u64
  last_applied :: u64
  role :: server_state
  cluster :: "cluster_member list"
  cluster_index :: int

record ring_log =
  tail_log_index :: u64
  tail_slot :: u64
  head_slot :: u64
  gc_up_to :: u64
  gc_has_run :: bool
  log_slot_map :: "(u64 \<times> slot_record) list"
  run_buf :: aligned_buffer
  persisted_init :: bool
  persisted_term :: u64
  persisted_voted_for :: u64
  slot_map_trace_ring :: "slot_map_trace_evt list"
  slot_map_trace_cursor :: int
  slot_map_trace_inserts :: bool
  num_pages :: u64
  total_slots :: u64
  ring_slots :: u64
  log_trim_threshold :: u64

definition kSlotMapTraceRingSize :: nat where "kSlotMapTraceRingSize = 256"

text \<open>
  The device as the process sees it. \<open>file_extents\<close> is the file system's own map of the ring
  file; \<open>media\<close> is what a read returns, \<open>stable\<close> what survives a power cut; \<open>script\<close> is the
  result of the \<open>n\<close>-th system call and the wall time spent in it.
\<close>

datatype io_result = IoOk | IoFail | IoShort nat

record disk =
  file_extents :: "extent list"
  media :: "u64 \<Rightarrow> u8"
  stable :: "u64 \<Rightarrow> u8"
  script :: "nat \<Rightarrow> io_result \<times> int"
  calls :: nat

record cached_fd_state =
  has_extent_cache :: bool
  extent_cache :: "extent list"
  fiemap_call :: fiemap
  wr_buf_size :: u64
  fd_disk :: disk

record storage_io =
  metadata_dir :: string
  device_path :: string
  cached_fd :: "cached_fd_state option"

record profiling_sink =
  prof_enabled :: int
  ae_count :: u64
  ae_entries :: u64
  aci_lock_wait_ns :: int
  aci_quorum_ns :: int
  aci_slot_gc_ns :: int
  aci_apply_loop_ns :: int
  aci_sort_ns :: int
  aci_backpres_ns :: int
  aci_signal_ns :: int
  sample_ae_rt_ns :: int
  sample_r2_ns :: int
  sample_write_pba_rt_ns :: int
  sample_storage_copy_ns :: int
  sample_mutex_ns :: int
  sample_mutex_c_ns :: int
  ae_lock_a_held_ns :: int

text \<open>
  A replication thread is the work it was given and its \<open>done\<close> flag; the permanent threads are
  the flags that say whether they are joinable.
\<close>

datatype replication_work = VoteWork int | AppendWork int "nat option"

record replication_thread_slot =
  th_work :: replication_work
  th_done :: bool

record worker_pool =
  main_thread :: bool
  apply_thread :: bool
  slot_gc_thread :: bool
  started :: bool
  apply_notify_pending :: bool
  slot_gc_notify_pending :: bool
  slot_gc_tick :: u64
  inflight_threads :: "replication_thread_slot list"

section \<open>Heap objects and environment\<close>

record repl_sample =
  s_ae_rt_ns :: int
  s_r2_ns :: int
  s_write_pba_rt_ns :: int
  s_storage_copy_ns :: int
  s_mutex_ns :: int
  s_mutex_c_ns :: int
  s_post_rpc_wall_ns :: int
  s_lock_b_held_ns :: int
  s_slot_map_ns :: int
  s_mark_slots_ns :: int
  s_pba_lookup_ns :: int
  s_meta_build_ns :: int
  s_lock_c_held_ns :: int
  s_handle_ae_lock_wait_ns :: int
  s_handle_ae_pre_ns :: int
  s_handle_ae_lock_wait2_ns :: int
  s_handle_ae_post_ns :: int
  s_handle_ae_persist_ns :: int

record repl_sink =
  samples :: "repl_sample list"
  mutex_a_ns :: int


record apply_collector =
  col_last_result :: bytes
  col_error :: string
  col_received :: nat
  col_expected :: nat

text \<open>
  \<open>clock n\<close> is the \<open>n\<close>-th reading of the steady clock in nanoseconds, \<open>rng n\<close> the \<open>n\<close>-th raw
  output of the random engine. The injected state machine answers a command from the commands it
  has been given before.
\<close>

record environment =
  clock :: "nat \<Rightarrow> int"
  ticks :: nat
  rng :: "nat \<Rightarrow> int"
  draws :: nat

record server =
  prof :: profiling_sink
  workers :: worker_pool
  io :: storage_io
  ring :: ring_log
  srv_done :: bool
  debug_enabled :: bool
  loop_sleep_us :: int
  max_ae_batch :: u64
  max_ae_batch_bytes :: u64
  raft :: raft_state
  repl_mode :: replication_mode
  has_transport :: bool
  has_blockcopy :: bool
  ring_not_full_notified :: bool
  sm_reply :: "bytes list \<Rightarrow> bytes \<Rightarrow> apply_result"
  sm_applied :: "bytes list"
  signals :: "bool list"
  collectors :: "apply_collector list"
  sinks :: "repl_sink list"
  env :: environment

type_synonym 'a step = "'a outcome \<times> server"

section \<open>Default values\<close>

text \<open>\<open>Entry e;\<close> value-initialises the fields and allocates a fresh commit signal.\<close>

definition make_entry :: "server \<Rightarrow> entry \<times> server" where
  "make_entry s =
     (\<lparr>command = [], e_term = 0, result_sink = None, committed = Some (length (signals s)),
       ring_slot = 0, cmd_len = 0\<rparr>,
      s\<lparr>signals := signals s @ [False]\<rparr>)"

text \<open>\<open>Entry::signal_committed\<close> on a non-null signal.\<close>

definition signal_committed :: "nat \<Rightarrow> server \<Rightarrow> server" where
  "signal_committed i s = s\<lparr>signals := (signals s)[i := True]\<rparr>"

definition AppendEntriesResponse :: append_entries_response where
  "AppendEntriesResponse = \<lparr>aer_term = 0, success = False, conflict_term = 0, conflict_index = 0,
     handler_duration_ns = 0, write_pba_rt_ns = 0, storage_copy_ns = 0,
     handle_ae_lock_wait_ns = 0, handle_ae_pre_ns = 0, handle_ae_lock_wait2_ns = 0,
     handle_ae_post_ns = 0, handle_ae_persist_ns = 0\<rparr>"

definition AppendEntriesRequest :: append_entries_request where
  "AppendEntriesRequest = \<lparr>aeq_term = 0, leader_id = 0, prev_log_index = 0, prev_log_term = 0,
     leader_commit = 0, leader_pba_src = 0, log_block_length = 0, num_entries = 0,
     slots_per_entry = 0, start_slot = 0, leader_dev_index = 0, data_already_copied = False,
     entry_metas = []\<rparr>"

definition RingLog_init :: ring_log where
  "RingLog_init = \<lparr>tail_log_index = 0, tail_slot = 0, head_slot = 0, gc_up_to = 0,
     gc_has_run = False, log_slot_map = [], run_buf = \<lparr>buf_data = [], buf_size = 0\<rparr>,
     persisted_init = False, persisted_term = 0, persisted_voted_for = 0,
     slot_map_trace_ring = replicate kSlotMapTraceRingSize \<lparr>evt_op = CHR 0x00, evt_idx = 0\<rparr>,
     slot_map_trace_cursor = 0, slot_map_trace_inserts = False,
     num_pages = DEFAULT_NUM_PAGES, total_slots = DEFAULT_NUM_PAGES * SLOTS_PER_PAGE,
     ring_slots = DEFAULT_NUM_PAGES * SLOTS_PER_PAGE - 1, log_trim_threshold = 8192\<rparr>"

text \<open>
  A \<open>Server\<close> with its default member initialisers, in an environment, with an injected state
  machine; no transport and no block copy client.
\<close>

definition Server_init :: "environment \<Rightarrow> (bytes list \<Rightarrow> bytes \<Rightarrow> apply_result) \<Rightarrow> server" where
  "Server_init ev sm = \<lparr>
     prof = \<lparr>prof_enabled = 0, ae_count = 0, ae_entries = 0, aci_lock_wait_ns = 0,
       aci_quorum_ns = 0, aci_slot_gc_ns = 0, aci_apply_loop_ns = 0, aci_sort_ns = 0,
       aci_backpres_ns = 0, aci_signal_ns = 0, sample_ae_rt_ns = 0, sample_r2_ns = 0,
       sample_write_pba_rt_ns = 0, sample_storage_copy_ns = 0, sample_mutex_ns = 0,
       sample_mutex_c_ns = 0, ae_lock_a_held_ns = 0\<rparr>,
     workers = \<lparr>main_thread = False, apply_thread = False, slot_gc_thread = False,
       started = False, apply_notify_pending = False, slot_gc_notify_pending = False,
       slot_gc_tick = 0, inflight_threads = []\<rparr>,
     io = \<lparr>metadata_dir = [], device_path = [], cached_fd = None\<rparr>,
     ring = RingLog_init,
     srv_done = False, debug_enabled = False, loop_sleep_us = 200, max_ae_batch = DEFAULT_MAX_AE_BATCH,
     max_ae_batch_bytes = DEFAULT_MAX_AE_BATCH_BYTES,
     raft = \<lparr>current_term = 0, rlog = [], node_id = 0, address = [], election_timeout = 0,
       heartbeat_timeout = 0, heartbeat_ms = 0, commit_index = 0, last_applied = 0,
       role = Follower, cluster = [], cluster_index = 0\<rparr>,
     repl_mode = DestinationSide, has_transport = False, has_blockcopy = False,
     ring_not_full_notified = False, sm_reply = sm, sm_applied = [], signals = [],
     collectors = [], sinks = [], env = ev\<rparr>"

definition ClusterMember :: "u64 \<Rightarrow> cluster_member" where
  "ClusterMember i = \<lparr>member_id = i, member_address = [], member_device_path = [],
     storage_host = [], next_index = 0, match_index = 0, voted_for = 0, inflight = False,
     skip_pba_last_next = NOT 0, skip_pba_last_log = 0\<rparr>"

section \<open>Accessors\<close>

text \<open>\<open>elapsed\<close> readings aside, the clock is read once per call of \<open>clock_type::now()\<close>.\<close>

definition now :: "server \<Rightarrow> int \<times> server" where
  "now s = (clock (env s) (ticks (env s)), s\<lparr>env := (env s)\<lparr>ticks := Suc (ticks (env s))\<rparr>\<rparr>)"

text \<open>
  \<open>std::uniform_int_distribution<int>(a, b)(rng)\<close>: a value of \<open>[a, b]\<close> that the engine's next
  output decides.
\<close>

definition uniform_int :: "int \<Rightarrow> int \<Rightarrow> server \<Rightarrow> int \<times> server" where
  "uniform_int a b s =
     (a + rng (env s) (draws (env s)) mod (b - a + 1),
      s\<lparr>env := (env s)\<lparr>draws := Suc (draws (env s))\<rparr>\<rparr>)"

text \<open>\<open>cluster.at(cluster_index)\<close> throws \<open>out_of_range\<close>; the cast to \<open>size_t\<close> makes a negative
  index large.\<close>

definition cluster_at :: "raft_state \<Rightarrow> cluster_member outcome" where
  "cluster_at r =
     (if 0 \<le> cluster_index r \<and> cluster_index r < int (length (cluster r))
      then Ret (cluster r ! nat (cluster_index r)) else Exc ''out_of_range'')"

definition get_voted_for :: "server \<Rightarrow> u64 outcome" where
  "get_voted_for s = obind (cluster_at (raft s)) (\<lambda>m. Ret (voted_for m))"

definition update_member :: "nat \<Rightarrow> (cluster_member \<Rightarrow> cluster_member) \<Rightarrow> server \<Rightarrow> server" where
  "update_member i f s =
     s\<lparr>raft := (raft s)\<lparr>cluster := (cluster (raft s))[i := f (cluster (raft s) ! i)]\<rparr>\<rparr>"

definition set_voted_for :: "u64 \<Rightarrow> server \<Rightarrow> unit step" where
  "set_voted_for v s = (case cluster_at (raft s) of
      Ret m \<Rightarrow> (Ret (), update_member (nat (cluster_index (raft s))) (\<lambda>m. m\<lparr>voted_for := v\<rparr>) s)
    | Exc e \<Rightarrow> (Exc e, s)
    | Ub \<Rightarrow> (Ub, s))"

text \<open>\<open>raft.cluster[fi]\<close>\<close>

definition member_ok :: "server \<Rightarrow> nat \<Rightarrow> bool" where
  "member_ok s i \<longleftrightarrow> i < length (cluster (raft s))"

end
