(* ===== verification/Samples.thy ===== *)
theory Samples
  imports State
begin

text \<open>
  A concrete node on which the theorems of the component theories are instantiated: member 0 of a
  three-node cluster in term 1, with two one-sector entries in its log, a ring file of sixteen
  pages in a single extent, and system calls that all succeed.
\<close>

definition sample_env :: environment where
  "sample_env = \<lparr>clock = int, ticks = 0, rng = (\<lambda>n. 7 * int n), draws = 0\<rparr>"

definition sample_sm :: "bytes list \<Rightarrow> bytes \<Rightarrow> apply_result" where
  "sample_sm past cmd = \<lparr>res_result = cmd, res_error = []\<rparr>"

definition sample_extent :: extent where
  "sample_extent = \<lparr>ext_logical = 0, ext_physical = 4096, ext_length = 65536\<rparr>"

definition sample_fd :: cached_fd_state where
  "sample_fd = \<lparr>has_extent_cache = True, extent_cache = [sample_extent],
     fiemap_call = (\<lambda>_ _. OneExtent 0 4096 65536),
     wr_buf_size = 4096,
     fd_disk = \<lparr>file_extents = [sample_extent], media = (\<lambda>_. 0), stable = (\<lambda>_. 0),
       script = (\<lambda>_. (IoOk, 5)), calls = 0\<rparr>\<rparr>"

definition sample_entry :: "u64 \<Rightarrow> bytes \<Rightarrow> entry" where
  "sample_entry t cmd = \<lparr>command = cmd, e_term = t, result_sink = None, committed = None,
     ring_slot = 0, cmd_len = 0\<rparr>"

definition sample_slot :: "u64 \<Rightarrow> slot_record" where
  "sample_slot i = \<lparr>sr_start = i, sr_num_slots = 1, sr_state = Using\<rparr>"

definition sample_node :: server where
  "sample_node = (Server_init sample_env sample_sm)
     \<lparr>io := \<lparr>metadata_dir = ''/mnt'', device_path = ''/dev/nvme0n1'', cached_fd = Some sample_fd\<rparr>,
      ring := RingLog_init\<lparr>tail_log_index := 3, tail_slot := 2, num_pages := 16,
        total_slots := 128, ring_slots := 127,
        log_slot_map := [(1, sample_slot 0), (2, sample_slot 1)]\<rparr>,
      raft := (raft (Server_init sample_env sample_sm))
        \<lparr>current_term := 1, rlog := [sample_entry 0 [], sample_entry 1 [7], sample_entry 1 [8, 9]],
         node_id := 1, heartbeat_ms := 50, last_applied := 1,
         cluster := map (\<lambda>i. (ClusterMember i)\<lparr>next_index := 1\<rparr>) [1, 2, 3], cluster_index := 0\<rparr>\<rparr>"

lemmas sample_defs = sample_node_def Server_init_def RingLog_init_def ClusterMember_def
  sample_entry_def sample_slot_def sample_fd_def sample_extent_def sample_env_def

lemma sample_node_fields [simp]:
  "tail_log_index (ring sample_node) = 3" "tail_slot (ring sample_node) = 2"
  "head_slot (ring sample_node) = 0" "ring_slots (ring sample_node) = 127"
  "log_slot_map (ring sample_node) = [(1, sample_slot 0), (2, sample_slot 1)]"
  "rlog (raft sample_node) = [sample_entry 0 [], sample_entry 1 [7], sample_entry 1 [8, 9]]"
  "current_term (raft sample_node) = 1" "commit_index (raft sample_node) = 0"
  "last_applied (raft sample_node) = 1" "role (raft sample_node) = Follower"
  "cluster_index (raft sample_node) = 0" "node_id (raft sample_node) = 1"
  "cluster (raft sample_node) = map (\<lambda>i. (ClusterMember i)\<lparr>next_index := 1\<rparr>) [1, 2, 3]"
  "heartbeat_ms (raft sample_node) = 50" "env sample_node = sample_env" "sm_applied sample_node = []"
  "cached_fd (io sample_node) = Some sample_fd" "repl_mode sample_node = DestinationSide"
  "collectors sample_node = []" "signals sample_node = []" "persisted_init (ring sample_node) = False"
  "gc_has_run (ring sample_node) = False" "gc_up_to (ring sample_node) = 0"
  "log_trim_threshold (ring sample_node) = 8192"
  by (simp_all add: sample_defs)

lemma sample_slot_fields [simp]:
  "sr_start (sample_slot i) = i" "sr_num_slots (sample_slot i) = 1" "sr_state (sample_slot i) = Using"
  by (simp_all add: sample_slot_def)

lemma sample_entry_fields [simp]:
  "command (sample_entry t c) = c" "e_term (sample_entry t c) = t"
  "result_sink (sample_entry t c) = None" "committed (sample_entry t c) = None"
  "ring_slot (sample_entry t c) = 0" "cmd_len (sample_entry t c) = 0"
  by (simp_all add: sample_entry_def)

end
