(* ===== verification/Ring.thy ===== *)
theory Ring
  imports Samples
begin

text \<open>
  \<open>core/src/raft_ring_helpers.cpp\<close>, \<open>RingLog::configure\<close> and \<open>RingLog::file_size_bytes\<close>, and the
  diagnostic trace ring of \<open>core/src/raft_diagnostics.cpp\<close>: slot arithmetic, the translation from
  absolute log indices to positions of the in-memory log, the admission test for a batch, and the
  book-keeping of the oldest live slot.
\<close>

section \<open>Slot arithmetic\<close>

definition slots_for_entry :: "u64 \<Rightarrow> u64" where
  "slots_for_entry n = (ENTRY_META_SIZE + n + SECTOR_SIZE - 1) div SECTOR_SIZE"

definition command_size :: "bytes \<Rightarrow> u64" where
  "command_size c = of_nat (length c)"

definition entry_slots :: "entry \<Rightarrow> u64" where
  "entry_slots e =
     (if command e \<noteq> [] then slots_for_entry (command_size (command e))
      else slots_for_entry (cmd_len e))"

definition slot_offset :: "u64 \<Rightarrow> int" where
  "slot_offset slot = sint RING_OFFSET + sint slot * sint SECTOR_SIZE"

definition configure :: "u64 \<Rightarrow> ring_log \<Rightarrow> ring_log" where
  "configure pages g =
     (let pages = (if pages < 2 then 2 else pages);
          slots = pages * SLOTS_PER_PAGE
      in g\<lparr>num_pages := pages, total_slots := slots, ring_slots := slots - 1\<rparr>)"

definition file_size_bytes :: "ring_log \<Rightarrow> u64" where
  "file_size_bytes g = num_pages g * PAGE_SIZE"

section \<open>Log indices\<close>

definition log_size :: "server \<Rightarrow> u64" where
  "log_size s = of_nat (length (rlog (raft s)))"

definition oldest_log_index :: "server \<Rightarrow> u64" where
  "oldest_log_index s =
     (let real = (if rlog (raft s) = [] then 0 else log_size s - 1)
      in tail_log_index (ring s) - real)"

definition is_leader :: "server \<Rightarrow> bool" where
  "is_leader s \<longleftrightarrow> role (raft s) = Leader"

definition log_slice :: "server \<Rightarrow> u64 \<Rightarrow> u64" where
  "log_slice s log_idx = 1 + (log_idx - oldest_log_index s)"

text \<open>\<open>raft.log[log_slice(idx)]\<close>\<close>

definition log_at :: "server \<Rightarrow> u64 \<Rightarrow> entry outcome" where
  "log_at s log_idx = vec_at (rlog (raft s)) (log_slice s log_idx)"

definition slots_for_log_index :: "server \<Rightarrow> u64 \<Rightarrow> u64 outcome" where
  "slots_for_log_index s log_idx =
     (case map_of (log_slot_map (ring s)) log_idx of
        Some r \<Rightarrow> Ret (sr_num_slots r)
      | None \<Rightarrow> obind (log_at s log_idx) (\<lambda>e. Ret (entry_slots e)))"

section \<open>Slot states\<close>

text \<open>The loop of \<open>can_write_all\<close>, from write position \<open>slot\<close>.\<close>

fun can_write_from :: "u64 \<Rightarrow> u64 \<Rightarrow> u64 \<Rightarrow> bool \<Rightarrow> bytes list \<Rightarrow> bool" where
  "can_write_from nring head slot wrapped [] = True"
| "can_write_from nring head slot wrapped (cmd # cmds) =
     (let needed = slots_for_entry (command_size cmd);
          over = slot + needed > nring;
          slot = (if over then 0 else slot);
          wrapped = (wrapped \<or> over)
      in if wrapped \<and> slot + needed > head then False
         else can_write_from nring head (slot + needed) wrapped cmds)"

definition can_write_all :: "server \<Rightarrow> bytes list \<Rightarrow> bool" where
  "can_write_all s commands =
     (let g = ring s in
      if log_slot_map g = [] then True
      else can_write_from (ring_slots g) (head_slot g) (tail_slot g)
             (tail_slot g < head_slot g) commands)"

text \<open>\<open>~uint64_t(0)\<close> stands for ``no start slot seen yet''.\<close>

definition no_slot :: u64 where "no_slot = NOT 0"

definition min_starts :: "u64 \<Rightarrow> (u64 \<times> slot_record) list \<Rightarrow> u64 \<times> u64" where
  "min_starts tslot kvs = fold (\<lambda>(k, sr) (min_ahead, min_wrap).
     if sr_start sr \<ge> tslot
     then (if sr_start sr < min_ahead then sr_start sr else min_ahead, min_wrap)
     else (min_ahead, if sr_start sr < min_wrap then sr_start sr else min_wrap))
   kvs (no_slot, no_slot)"

definition recompute_head_slot :: "ring_log \<Rightarrow> ring_log" where
  "recompute_head_slot g =
     (if log_slot_map g = [] then g\<lparr>head_slot := tail_slot g\<rparr>
      else let (min_ahead, min_wrap) = min_starts (tail_slot g) (log_slot_map g)
           in if min_ahead \<noteq> no_slot then g\<lparr>head_slot := min_ahead\<rparr>
              else g\<lparr>head_slot := min_wrap\<rparr>)"

definition init_slot_states :: "ring_log \<Rightarrow> ring_log" where
  "init_slot_states g = g\<lparr>log_slot_map := [], head_slot := 0, gc_up_to := 0, gc_has_run := False\<rparr>"

definition rebuild_slot_states_from_map :: "ring_log \<Rightarrow> ring_log" where
  "rebuild_slot_states_from_map g =
     recompute_head_slot
       (g\<lparr>log_slot_map := map (\<lambda>(k, sr). (k, sr\<lparr>sr_state := Using\<rparr>)) (log_slot_map g)\<rparr>)"

section \<open>The trace of slot map changes\<close>

definition trace_slot_map :: "char \<Rightarrow> u64 \<Rightarrow> ring_log \<Rightarrow> ring_log" where
  "trace_slot_map op idx g =
     (if op = CHR ''I'' \<and> \<not> slot_map_trace_inserts g then g
      else g\<lparr>slot_map_trace_ring :=
               (slot_map_trace_ring g)[nat (slot_map_trace_cursor g) := \<lparr>evt_op = op, evt_idx = idx\<rparr>],
             slot_map_trace_cursor :=
               (slot_map_trace_cursor g + 1) mod int kSlotMapTraceRingSize\<rparr>)"

definition trace_pos :: "ring_log \<Rightarrow> nat \<Rightarrow> nat" where
  "trace_pos g i = nat ((slot_map_trace_cursor g - 1 - int i + 2 * int kSlotMapTraceRingSize)
                        mod int kSlotMapTraceRingSize)"

definition find_slot_map_trace :: "ring_log \<Rightarrow> u64 \<Rightarrow> char" where
  "find_slot_map_trace g idx =
     (case find (\<lambda>i. let e = slot_map_trace_ring g ! trace_pos g i
                     in evt_idx e = idx \<and> evt_op e \<noteq> CHR 0x00)
             [0..<kSlotMapTraceRingSize] of
        Some i \<Rightarrow> evt_op (slot_map_trace_ring g ! trace_pos g i)
      | None \<Rightarrow> CHR 0x00)"

section \<open>Slots of an entry\<close>

text \<open>
  The command length that the slot arithmetic does not wrap for: \<open>ENTRY_META_SIZE + SECTOR_SIZE - 1\<close>
  bytes below the top of \<open>size_t\<close>.
\<close>

definition cmd_len_ok :: "u64 \<Rightarrow> bool" where
  "cmd_len_ok n \<longleftrightarrow> unat n + 543 < 18446744073709551616"

lemma unat_slots_for_entry:
  assumes "cmd_len_ok n"
  shows "unat (slots_for_entry n) = (unat n + 543) div 512"
proof -
  have "unat (n + 543) = unat n + 543"
    using assms by (simp add: cmd_len_ok_def unat_u64_add unat_u64_numeral)
  moreover have eq: "ENTRY_META_SIZE + n + SECTOR_SIZE - 1 = n + 543" by (simp add: size_defs)
  ultimately show ?thesis
    unfolding slots_for_entry_def unat_u64_div eq by simp
qed

lemma slots_for_entry_pos: "cmd_len_ok n \<Longrightarrow> 0 < unat (slots_for_entry n)"
  by (simp add: unat_slots_for_entry)

lemma slots_for_entry_bytes:
  assumes "cmd_len_ok n"
  shows "unat n + 32 \<le> 512 * unat (slots_for_entry n)"
    and "512 * unat (slots_for_entry n) < unat n + 32 + 512"
  using assms by (simp_all add: unat_slots_for_entry)

lemma unat_command_size: "length c < 18446744073709551616 \<Longrightarrow> unat (command_size c) = length c"
  by (simp add: command_size_def unat_u64_of_nat)

section \<open>The log as an interval of indices\<close>

text \<open>
  The in-memory log starts with the sentinel, and its real entries are the absolute indices from
  \<open>oldest_log_index\<close> (at least 1) up to \<open>tail_log_index\<close> exclusive.
\<close>

definition wf_log :: "server \<Rightarrow> bool" where
  "wf_log s \<longleftrightarrow> rlog (raft s) \<noteq> [] \<and> length (rlog (raft s)) \<le> unat (tail_log_index (ring s))"

lemma wf_log_length: "wf_log s \<Longrightarrow> length (rlog (raft s)) < 18446744073709551616"
  unfolding wf_log_def using unat_u64_less [of "tail_log_index (ring s)"] by linarith

lemma unat_log_size: "wf_log s \<Longrightarrow> unat (log_size s) = length (rlog (raft s))"
  by (simp add: log_size_def unat_u64_of_nat wf_log_length)

lemma unat_log_size_1: "wf_log s \<Longrightarrow> unat (log_size s - 1) = length (rlog (raft s)) - 1"
  by (subst unat_u64_sub)
    (auto simp: unat_log_size word_le_nat_alt wf_log_def Suc_le_eq)

lemma unat_oldest:
  assumes "wf_log s"
  shows "unat (oldest_log_index s) + length (rlog (raft s)) = unat (tail_log_index (ring s)) + 1"
proof -
  have le: "log_size s - 1 \<le> tail_log_index (ring s)"
    using assms unat_log_size_1 [OF assms] by (auto simp: word_le_nat_alt wf_log_def)
  have "rlog (raft s) \<noteq> []" using assms by (simp add: wf_log_def)
  then have "unat (oldest_log_index s) = unat (tail_log_index (ring s)) - (length (rlog (raft s)) - 1)"
    by (simp add: oldest_log_index_def unat_u64_sub [OF le] unat_log_size_1 [OF assms])
  with assms show ?thesis by (cases "rlog (raft s)") (auto simp: wf_log_def)
qed

lemma oldest_pos: "wf_log s \<Longrightarrow> 1 \<le> unat (oldest_log_index s)"
  using unat_oldest [of s] by (simp add: wf_log_def)

text \<open>\<open>in_log s i\<close>: the index \<open>i\<close> is held in memory.\<close>

lemma log_view_cong:
  assumes "length (rlog (raft s)) = length (rlog (raft t))"
    and "tail_log_index (ring s) = tail_log_index (ring t)"
  shows "wf_log s = wf_log t" "oldest_log_index s = oldest_log_index t"
proof -
  have e: "rlog (raft s) = [] \<longleftrightarrow> rlog (raft t) = []" using assms(1) by (metis length_0_conv)
  then show "wf_log s = wf_log t" by (simp add: wf_log_def assms)
  show "oldest_log_index s = oldest_log_index t"
    by (simp add: oldest_log_index_def log_size_def assms e)
qed

definition in_log :: "server \<Rightarrow> u64 \<Rightarrow> bool" where
  "in_log s i \<longleftrightarrow> oldest_log_index s \<le> i \<and> i < tail_log_index (ring s)"

lemma unat_log_slice:
  assumes "wf_log s" "in_log s i"
  shows "unat (log_slice s i) = Suc (unat i - unat (oldest_log_index s))"
    and "unat (log_slice s i) < length (rlog (raft s))"
proof -
  have le: "oldest_log_index s \<le> i" and lt: "unat i < unat (tail_log_index (ring s))"
    using assms by (simp_all add: in_log_def word_less_nat_alt)
  have d: "unat (i - oldest_log_index s) = unat i - unat (oldest_log_index s)"
    by (rule unat_u64_sub [OF le])
  have b: "unat i - unat (oldest_log_index s) + 1 < length (rlog (raft s))"
    using unat_oldest [OF assms(1)] lt le by (simp add: word_le_nat_alt)
  have "unat (1 + (i - oldest_log_index s)) = 1 + (unat i - unat (oldest_log_index s))"
    using b wf_log_length [OF assms(1)] by (subst unat_u64_add) (simp_all add: d)
  then show "unat (log_slice s i) = Suc (unat i - unat (oldest_log_index s))"
    by (simp add: log_slice_def)
  with b show "unat (log_slice s i) < length (rlog (raft s))" by simp
qed

lemma log_at_Ret:
  "wf_log s \<Longrightarrow> in_log s i \<Longrightarrow> log_at s i = Ret (rlog (raft s) ! unat (log_slice s i))"
  by (simp add: log_at_def unat_log_slice(2))

text \<open>
  The index arithmetic of the in-memory log is exact: the absolute indices from the oldest one
  up to the tail correspond one to one to the positions after the sentinel.
\<close>

theorem log_slice_bij:
  assumes "wf_log s"
  shows "bij_betw (\<lambda>i. unat (log_slice s i)) {i. in_log s i} {1..<length (rlog (raft s))}"
proof (rule bij_betw_byWitness [where f' = "\<lambda>k. oldest_log_index s + of_nat (k - 1)"])
  let ?n = "length (rlog (raft s))"
  have k: "in_log s (oldest_log_index s + of_nat (k - 1)) \<and>
    unat (oldest_log_index s + of_nat (k - 1)) = unat (oldest_log_index s) + (k - 1)"
    if "k \<in> {1..<?n}" for k
  proof -
    have kn: "unat (of_nat (k - 1) :: u64) = k - 1"
      by (rule unat_u64_of_nat) (use that wf_log_length [OF assms] in auto)
    have lt: "unat (oldest_log_index s) + (k - 1) < unat (tail_log_index (ring s))"
      using that unat_oldest [OF assms] by auto
    have "unat (oldest_log_index s + of_nat (k - 1)) = unat (oldest_log_index s) + (k - 1)"
      using lt unat_u64_less [of "tail_log_index (ring s)"]
        unat_u64_add [of "oldest_log_index s" "of_nat (k - 1)", unfolded kn] by linarith
    with lt show ?thesis by (simp add: in_log_def word_le_nat_alt word_less_nat_alt)
  qed
  show "\<forall>i \<in> {i. in_log s i}. oldest_log_index s + of_nat (unat (log_slice s i) - 1) = i"
  proof
    fix i assume "i \<in> {i. in_log s i}"
    then have i: "in_log s i" and le: "oldest_log_index s \<le> i" by (simp_all add: in_log_def)
    have "unat (log_slice s i) - 1 = unat (i - oldest_log_index s)"
      by (simp add: unat_log_slice(1) [OF assms i] unat_u64_sub [OF le])
    then show "oldest_log_index s + of_nat (unat (log_slice s i) - 1) = i" by (simp only:) simp
  qed
  show "\<forall>k \<in> {1..<?n}. unat (log_slice s (oldest_log_index s + of_nat (k - 1))) = k"
    using k unat_log_slice(1) [OF assms] by auto
  show "(\<lambda>i. unat (log_slice s i)) ` {i. in_log s i} \<subseteq> {1..<?n}"
    using unat_log_slice [OF assms] by auto
  show "(\<lambda>k. oldest_log_index s + of_nat (k - 1)) ` {1..<?n} \<subseteq> {i. in_log s i}"
    using k by auto
qed

theorem log_slice_bij_witness:
  "bij_betw (\<lambda>i. unat (log_slice sample_node i)) {i. in_log sample_node i} {1..<3}"
proof -
  have "wf_log sample_node" "length (rlog (raft sample_node)) = 3" by (simp_all add: wf_log_def)
  with log_slice_bij [of sample_node] show ?thesis by (simp only:)
qed

section \<open>Admission of a batch\<close>

text \<open>
  Where \<open>persist_circular\<close> puts the commands on a contiguous file: at the write position, or at
  slot 0 when they would pass the end of the ring.
\<close>

fun placements :: "u64 \<Rightarrow> u64 \<Rightarrow> bytes list \<Rightarrow> (u64 \<times> u64) list" where
  "placements nring slot [] = []"
| "placements nring slot (cmd # cmds) =
     (let needed = slots_for_entry (command_size cmd);
          p = (if slot + needed > nring then 0 else slot)
      in (p, needed) # placements nring (p + needed) cmds)"

text \<open>A command that fits between the oldest live slot and the end of the ring.\<close>

definition fits_after :: "u64 \<Rightarrow> u64 \<Rightarrow> bytes \<Rightarrow> bool" where
  "fits_after nring head cmd \<longleftrightarrow> length cmd < 9223372036854775808 \<and>
     unat head + unat (slots_for_entry (command_size cmd)) \<le> unat nring"

lemma fits_after_cmd_len_ok: "fits_after nring head cmd \<Longrightarrow> cmd_len_ok (command_size cmd)"
  by (simp add: fits_after_def cmd_len_ok_def unat_command_size)

lemma can_write_from_sound:
  assumes "can_write_from nring head slot wrapped cmds"
    and "list_all (fits_after nring head) cmds"
    and "unat nring < 9223372036854775808" and "unat slot \<le> unat nring"
    and "wrapped \<Longrightarrow> unat slot \<le> unat head"
    and "(p, n) \<in> set (placements nring slot cmds)"
  shows "unat p + unat n \<le> unat nring \<and>
    (unat slot \<le> unat p \<and> (wrapped \<longrightarrow> unat p + unat n \<le> unat head)
     \<or> \<not> wrapped \<and> unat p + unat n \<le> unat head)"
  using assms
proof (induction nring head slot wrapped cmds rule: can_write_from.induct)
  case (2 nring head slot wrapped cmd cmds)
  let ?need = "slots_for_entry (command_size cmd)"
  have need: "unat head + unat ?need \<le> unat nring" using 2(3) by (simp add: fits_after_def)
  have add: "unat (x + ?need) = unat x + unat ?need" if "unat x \<le> unat nring" for x
    using that need 2(4) by (intro unat_u64_add) linarith
  have over: "slot + ?need > nring \<longleftrightarrow> unat nring < unat slot + unat ?need"
    using add [OF 2(5)] by (simp add: word_less_nat_alt)
  show ?case
  proof (cases "slot + ?need > nring")
    case True
    then have nw: "\<not> wrapped" using over need 2(6) by auto
    have le: "unat ?need \<le> unat head" and rest: "can_write_from nring head ?need True cmds"
      using 2(2) True by (auto simp: Let_def word_less_nat_alt split: if_splits)
    have mem: "(p, n) = (0, ?need) \<or> (p, n) \<in> set (placements nring ?need cmds)"
      using 2(7) True by (simp add: Let_def)
    then show ?thesis
    proof
      assume "(p, n) = (0, ?need)"
      with le need nw show ?thesis by auto
    next
      assume pn: "(p, n) \<in> set (placements nring ?need cmds)"
      have "unat p + unat n \<le> unat nring \<and>
        (unat ?need \<le> unat p \<and> (True \<longrightarrow> unat p + unat n \<le> unat head) \<or> \<not> True \<and> unat p + unat n \<le> unat head)"
        using 2(1) [of ?need True 0 True] True rest 2(3,4) need le pn 2(2)
        by (auto simp: Let_def split: if_splits)
      with nw show ?thesis by auto
    qed
  next
    case False
    then have fit: "unat slot + unat ?need \<le> unat nring" using over by simp
    have chk: "wrapped \<Longrightarrow> unat slot + unat ?need \<le> unat head"
      and rest: "can_write_from nring head (slot + ?need) wrapped cmds"
      using 2(2) False add [OF 2(5)] by (auto simp: Let_def word_less_nat_alt split: if_splits)
    have mem: "(p, n) = (slot, ?need) \<or> (p, n) \<in> set (placements nring (slot + ?need) cmds)"
      using 2(7) False by (simp add: Let_def)
    then show ?thesis
    proof
      assume "(p, n) = (slot, ?need)"
      with fit chk show ?thesis by auto
    next
      assume pn: "(p, n) \<in> set (placements nring (slot + ?need) cmds)"
      have "unat p + unat n \<le> unat nring \<and>
        (unat (slot + ?need) \<le> unat p \<and> (wrapped \<longrightarrow> unat p + unat n \<le> unat head)
         \<or> \<not> wrapped \<and> unat p + unat n \<le> unat head)"
        using 2(1) [of ?need False slot wrapped] False rest 2(2,3,4) fit chk pn add [OF 2(5)]
        by (auto simp: Let_def split: if_splits)
      with add [OF 2(5)] show ?thesis by auto
    qed
  qed
qed simp

text \<open>
  The live slots of a ring that is not exactly full: between \<open>head_slot\<close> and \<open>tail_slot\<close>, or, after
  a wrap, everything but the gap between \<open>tail_slot\<close> and \<open>head_slot\<close>.
\<close>

definition live_slots_ok :: "ring_log \<Rightarrow> bool" where
  "live_slots_ok g \<longleftrightarrow>
     tail_slot g \<noteq> head_slot g \<and> unat (tail_slot g) \<le> unat (ring_slots g) \<and>
     unat (ring_slots g) < 9223372036854775808 \<and>
     list_all (\<lambda>(k, sr).
       if head_slot g < tail_slot g
       then unat (head_slot g) \<le> unat (sr_start sr) \<and>
            unat (sr_start sr) + unat (sr_num_slots sr) \<le> unat (tail_slot g)
       else unat (head_slot g) \<le> unat (sr_start sr) \<or>
            unat (sr_start sr) + unat (sr_num_slots sr) \<le> unat (tail_slot g))
     (log_slot_map g)"

definition slot_ranges_disjoint :: "u64 \<Rightarrow> u64 \<Rightarrow> u64 \<Rightarrow> u64 \<Rightarrow> bool" where
  "slot_ranges_disjoint p n q m \<longleftrightarrow> unat p + unat n \<le> unat q \<or> unat q + unat m \<le> unat p"

text \<open>
  Admission to the ring: when \<open>can_write_all\<close> accepts a batch, the slots at which the persist
  loop will place the entries stay inside the ring and meet no live entry, provided the live
  slots lie between head and tail and each entry fits after the head.
\<close>

theorem can_write_all_placements:
  assumes ok: "can_write_all s cmds" and live: "live_slots_ok (ring s)"
    and fit: "list_all (fits_after (ring_slots (ring s)) (head_slot (ring s))) cmds"
    and p: "(p, n) \<in> set (placements (ring_slots (ring s)) (tail_slot (ring s)) cmds)"
    and k: "(k, sr) \<in> set (log_slot_map (ring s))"
  shows "unat p + unat n \<le> unat (ring_slots (ring s)) \<and>
    slot_ranges_disjoint p n (sr_start sr) (sr_num_slots sr)"
proof -
  let ?g = "ring s"
  have cw: "can_write_from (ring_slots ?g) (head_slot ?g) (tail_slot ?g) (tail_slot ?g < head_slot ?g) cmds"
    using ok k by (cases "log_slot_map ?g") (auto simp: can_write_all_def Let_def)
  have r: "unat p + unat n \<le> unat (ring_slots ?g) \<and>
    (unat (tail_slot ?g) \<le> unat p \<and> (tail_slot ?g < head_slot ?g \<longrightarrow> unat p + unat n \<le> unat (head_slot ?g))
     \<or> \<not> tail_slot ?g < head_slot ?g \<and> unat p + unat n \<le> unat (head_slot ?g))"
    by (rule can_write_from_sound [OF cw fit _ _ _ p])
      (use live in \<open>auto simp: live_slots_ok_def word_less_nat_alt\<close>)
  have "if head_slot ?g < tail_slot ?g
       then unat (head_slot ?g) \<le> unat (sr_start sr) \<and>
            unat (sr_start sr) + unat (sr_num_slots sr) \<le> unat (tail_slot ?g)
       else unat (head_slot ?g) \<le> unat (sr_start sr) \<or>
            unat (sr_start sr) + unat (sr_num_slots sr) \<le> unat (tail_slot ?g)"
    using live k by (auto simp: live_slots_ok_def list_all_iff)
  moreover have "unat (tail_slot ?g) \<noteq> unat (head_slot ?g)"
    using live by (auto simp: live_slots_ok_def u64_eq_iff)
  ultimately show ?thesis
    using r by (auto simp: slot_ranges_disjoint_def word_less_nat_alt split: if_splits)
qed

theorem can_write_all_placements_witness:
  "can_write_all sample_node [[1], replicate 600 2] \<and>
   placements 127 2 [[1], replicate 600 2] = [(2, 1), (3, 2)] \<and>
   slot_ranges_disjoint 3 2 1 1"
proof -
  note d = command_size_def slots_for_entry_def size_defs
  have c: "can_write_all sample_node [[1], replicate 600 2]"
    by (simp add: can_write_all_def d)
  have p: "placements 127 2 [[1], replicate 600 2] = [(2, 1), (3, 2)]" by (simp add: d)
  have "live_slots_ok (ring sample_node)"
    "list_all (fits_after (ring_slots (ring sample_node)) (head_slot (ring sample_node)))
       [[1], replicate 600 2]" by (simp_all add: live_slots_ok_def fits_after_def d)
  from can_write_all_placements [OF c this, of 3 2 2 "sample_slot 1"] c p show ?thesis by simp
qed

section \<open>The oldest live slot\<close>

lemma min_starts_fold:
  "fold (\<lambda>(k, sr) (min_ahead, min_wrap).
     if sr_start sr \<ge> t
     then (if sr_start sr < min_ahead then sr_start sr else min_ahead, min_wrap)
     else (min_ahead, if sr_start sr < min_wrap then sr_start sr else min_wrap)) kvs (a, w) =
   (Min (insert a {sr_start sr |k sr. (k, sr) \<in> set kvs \<and> t \<le> sr_start sr}),
    Min (insert w {sr_start sr |k sr. (k, sr) \<in> set kvs \<and> sr_start sr < t}))"
proof (induction kvs arbitrary: a w)
  case (Cons kv kvs)
  obtain k sr where kv: "kv = (k, sr)" by (cases kv)
  have fin: "finite {sr_start sr |k sr. (k, sr) \<in> set kvs \<and> P sr}" for P
    by (rule finite_subset [of _ "(\<lambda>(k, sr). sr_start sr) ` set kvs"]) force+
  have mins: "Min (insert (if x < a then x else a) S) = Min (insert a (insert x S))"
    if "finite S" for x a :: u64 and S
    using that by (cases "S = {}") (auto simp: min_def not_less)
  have ins: "{sr_start r |j r. (j, r) \<in> set (kv # kvs) \<and> P r} =
      (if P sr then insert (sr_start sr) {sr_start r |j r. (j, r) \<in> set kvs \<and> P r}
       else {sr_start r |j r. (j, r) \<in> set kvs \<and> P r})" for P
    by (auto simp: kv)
  show ?case
    unfolding ins using fin by (simp add: kv Cons.IH mins not_le)
qed simp

text \<open>
  The head of the ring after a recomputation: the first live slot at or after the tail, or,
  when there is none, the first live slot of the ring.
\<close>

theorem recompute_head_slot_min:
  assumes ne: "log_slot_map g \<noteq> []"
    and lt: "\<forall>(k, sr) \<in> set (log_slot_map g). sr_start sr \<noteq> no_slot"
  shows "head_slot (recompute_head_slot g) =
    (let A = {sr_start sr |k sr. (k, sr) \<in> set (log_slot_map g) \<and> tail_slot g \<le> sr_start sr};
         W = {sr_start sr |k sr. (k, sr) \<in> set (log_slot_map g) \<and> sr_start sr < tail_slot g}
     in if A \<noteq> {} then Min A else Min W)"
proof -
  let ?A = "{sr_start sr |k sr. (k, sr) \<in> set (log_slot_map g) \<and> tail_slot g \<le> sr_start sr}"
  let ?W = "{sr_start sr |k sr. (k, sr) \<in> set (log_slot_map g) \<and> sr_start sr < tail_slot g}"
  have top: "x \<le> no_slot" for x by (simp add: no_slot_def)
  have fin: "finite ?A" "finite ?W"
    by (rule finite_subset [of _ "(\<lambda>(k, sr). sr_start sr) ` set (log_slot_map g)"]; force)+
  have m: "Min (insert no_slot S) = (if S = {} then no_slot else Min S)" if "finite S" for S
    using that top Min_insert [OF that] by (simp add: min_absorb2)
  have inA: "Min ?A \<noteq> no_slot" if "?A \<noteq> {}"
    using Min_in [OF fin(1) that] lt by auto
  have "?W \<noteq> {}" if "?A = {}"
    using that ne by (cases "log_slot_map g") (auto simp: not_le)
  with ne inA show ?thesis
    by (auto simp: recompute_head_slot_def min_starts_def min_starts_fold m fin Let_def
        simp del: Min_insert)
qed

theorem recompute_head_slot_min_witness:
  "head_slot (recompute_head_slot ((ring sample_node)\<lparr>tail_slot := 1\<rparr>)) = 1"
proof -
  let ?g = "(ring sample_node)\<lparr>tail_slot := 1\<rparr>"
  have "{sr_start sr |k sr. (k, sr) \<in> set (log_slot_map ?g) \<and> tail_slot ?g \<le> sr_start sr} = {1}"
    by (force intro: exI [of _ 2])
  moreover have "log_slot_map ?g \<noteq> []"
    "\<forall>(k, sr) \<in> set (log_slot_map ?g). sr_start sr \<noteq> no_slot" by (simp_all add: no_slot_def)
  ultimately show ?thesis
    using recompute_head_slot_min [of ?g] by (simp only: Let_def) simp
qed

section \<open>Configuration and trace\<close>

lemma configure_sizes:
  assumes "unat p < 2 ^ 50"
  shows "2 \<le> unat (num_pages (configure p g))"
    and "unat (ring_slots (configure p g)) + 1 = 8 * unat (num_pages (configure p g))"
    and "unat (file_size_bytes (configure p g)) = 4096 * unat (num_pages (configure p g))"
proof -
  let ?q = "if p < 2 then 2 else p"
  have q: "2 \<le> unat ?q" "unat ?q < 2 ^ 50"
    using assms by (auto simp: word_less_nat_alt unat_u64_numeral)
  have t: "unat (?q * SLOTS_PER_PAGE) = unat ?q * 8"
    using q by (subst unat_u64_mult) auto
  have r: "unat (?q * SLOTS_PER_PAGE - 1) = unat ?q * 8 - 1"
    using q t by (subst unat_u64_sub) (auto simp: word_le_nat_alt)
  have f: "unat (?q * PAGE_SIZE) = unat ?q * 4096"
    using q by (subst unat_u64_mult) auto
  have n: "num_pages (configure p g) = ?q" "ring_slots (configure p g) = ?q * SLOTS_PER_PAGE - 1"
    by (simp_all add: configure_def Let_def)
  show "2 \<le> unat (num_pages (configure p g))"
    unfolding n by (rule q(1))
  show "unat (ring_slots (configure p g)) + 1 = 8 * unat (num_pages (configure p g))"
    unfolding n r using q(1) by linarith
  show "unat (file_size_bytes (configure p g)) = 4096 * unat (num_pages (configure p g))"
    unfolding file_size_bytes_def n f by simp
qed

lemma uint_u64_unat: "uint (w :: u64) = int (unat w)"
  by simp

lemma slot_offset_unat:
  assumes "unat slot < 2 ^ 63"
  shows "slot_offset slot = 512 + int (unat slot) * 512"
proof -
  have "int (unat slot) < int (2 ^ 63)" using assms by (simp only: of_nat_less_iff)
  then have "uint slot < 2 ^ 63" unfolding uint_u64_unat by (simp only: of_nat_power of_nat_numeral)
  then have "sint slot = int (unat slot)" unfolding uint_u64_unat [symmetric] by (rule sint_u64)
  moreover have "sint SECTOR_SIZE = 512" "sint RING_OFFSET = 512" by (simp_all add: size_defs)
  ultimately show ?thesis by (simp add: slot_offset_def)
qed

text \<open>
  The sizes that \<open>configure\<close> derives fit together: the slot after the last ring slot starts
  exactly at the end of the file.
\<close>

theorem ring_fills_file:
  assumes "unat p < 2 ^ 50"
  shows "slot_offset (ring_slots (configure p g)) = int (unat (file_size_bytes (configure p g)))"
proof -
  have "unat (num_pages (configure p g)) < 2 ^ 50"
    using assms by (auto simp: configure_def Let_def word_less_nat_alt unat_u64_numeral)
  then have "unat (ring_slots (configure p g)) < 2 ^ 63"
    using configure_sizes(2) [OF assms, of g] by simp
  then show ?thesis
    using configure_sizes(2,3) [OF assms, of g] by (simp only: slot_offset_unat)
qed

theorem ring_fills_file_witness:
  "slot_offset (ring_slots (configure 16 RingLog_init)) = 65536"
proof -
  have "unat (file_size_bytes (configure 16 RingLog_init)) = 65536"
    by (simp add: file_size_bytes_def configure_def size_defs)
  with ring_fills_file [of 16 RingLog_init] show ?thesis by simp
qed

definition wf_trace :: "ring_log \<Rightarrow> bool" where
  "wf_trace g \<longleftrightarrow> length (slot_map_trace_ring g) = kSlotMapTraceRingSize \<and>
     0 \<le> slot_map_trace_cursor g \<and> slot_map_trace_cursor g < int kSlotMapTraceRingSize"

lemma wf_trace_slot_map: "wf_trace g \<Longrightarrow> wf_trace (trace_slot_map op idx g)"
  by (auto simp: wf_trace_def trace_slot_map_def kSlotMapTraceRingSize_def)

text \<open>
  The slot-map trace reports the last operation recorded for an index.
\<close>

theorem find_trace_latest:
  assumes wf: "wf_trace g" and op: "op \<noteq> CHR 0x00"
    and rec: "op = CHR ''I'' \<longrightarrow> slot_map_trace_inserts g"
  shows "find_slot_map_trace (trace_slot_map op idx g) idx = op"
proof -
  let ?g = "trace_slot_map op idx g"
  have pos: "trace_pos ?g 0 = nat (slot_map_trace_cursor g)"
  proof -
    have "((slot_map_trace_cursor g + 1) mod 256 - 1 + 512) mod 256 = slot_map_trace_cursor g"
      using wf mod_mult_self2 [of "slot_map_trace_cursor g" 256 2]
      by (cases "slot_map_trace_cursor g = 255") (auto simp: wf_trace_def kSlotMapTraceRingSize_def)
    then show ?thesis using rec
      by (auto simp: trace_pos_def trace_slot_map_def kSlotMapTraceRingSize_def algebra_simps)
  qed
  have at: "slot_map_trace_ring ?g ! nat (slot_map_trace_cursor g) = \<lparr>evt_op = op, evt_idx = idx\<rparr>"
    using wf rec by (auto simp: trace_slot_map_def wf_trace_def kSlotMapTraceRingSize_def)
  have "[0..<kSlotMapTraceRingSize] = 0 # [1..<kSlotMapTraceRingSize]"
    by (simp add: upt_conv_Cons kSlotMapTraceRingSize_def)
  then show ?thesis
    using op by (simp add: find_slot_map_trace_def pos at Let_def)
qed

theorem find_trace_latest_witness:
  "find_slot_map_trace (trace_slot_map (CHR ''F'') 5 RingLog_init) 5 = CHR ''F''"
  using find_trace_latest [of RingLog_init "CHR ''F''" 5]
  by (simp add: wf_trace_def RingLog_init_def kSlotMapTraceRingSize_def)

end
