(* ===== verification/Device.thy ===== *)
theory Device
  imports Ring
begin

text \<open>
  The input and output half of \<open>blockio/cached_fd.{h,cpp}\<close> (\<open>write_at_file\<close>, \<open>read_at_file\<close>,
  \<open>fdatasync\<close>, \<open>cache_extents\<close>, \<open>get_pba\<close>, \<open>remaining_at\<close>, \<open>write\<close>, \<open>read\<close>, \<open>create_ring_file\<close>)
  and \<open>AlignedBuffer\<close> of \<open>core/src/raft_types.cpp\<close>.

  A system call takes its result and its duration from the script of the \<open>disk\<close>. A \<open>pwrite\<close> on
  the ring file stores each byte where the file system's own extents put it; \<open>fdatasync\<close> makes
  what was written stable. Memory allocation is taken to succeed.
\<close>

section \<open>System calls\<close>

definition syscall :: "disk \<Rightarrow> io_result \<times> int \<times> disk" where
  "syscall d = (fst (script d (calls d)), snd (script d (calls d)), d\<lparr>calls := Suc (calls d)\<rparr>)"

text \<open>The number of bytes a transfer of \<open>len\<close> bytes reports, \<open>None\<close> for an error.\<close>

definition transferred :: "io_result \<Rightarrow> nat \<Rightarrow> nat option" where
  "transferred r len = (case r of IoOk \<Rightarrow> Some len | IoFail \<Rightarrow> None | IoShort n \<Rightarrow> Some (min n len))"

text \<open>Storing bytes at a file offset, through the file's extents, and loading them.\<close>

definition file_store :: "extent list \<Rightarrow> int \<Rightarrow> bytes \<Rightarrow> (u64 \<Rightarrow> u8) \<Rightarrow> u64 \<Rightarrow> u8" where
  "file_store xs off data m = fold (\<lambda>k m. case phys_of xs (off + int k) of
       Some a \<Rightarrow> m(a := data ! k) | None \<Rightarrow> m) [0..<length data] m"

definition file_load :: "extent list \<Rightarrow> int \<Rightarrow> nat \<Rightarrow> (u64 \<Rightarrow> u8) \<Rightarrow> bytes" where
  "file_load xs off len m = map (\<lambda>k. case phys_of xs (off + int k) of
       Some a \<Rightarrow> m a | None \<Rightarrow> 0) [0..<len]"

definition dev_store :: "u64 \<Rightarrow> bytes \<Rightarrow> (u64 \<Rightarrow> u8) \<Rightarrow> u64 \<Rightarrow> u8" where
  "dev_store a data m = fold (\<lambda>k m. m(a + of_nat k := data ! k)) [0..<length data] m"

definition dev_load :: "u64 \<Rightarrow> nat \<Rightarrow> (u64 \<Rightarrow> u8) \<Rightarrow> bytes" where
  "dev_load a len m = map (\<lambda>k. m (a + of_nat k)) [0..<len]"

section \<open>CachedFD\<close>

definition write_at_file ::
  "bytes \<Rightarrow> int \<Rightarrow> cached_fd_state \<Rightarrow> int outcome \<times> cached_fd_state" where
  "write_at_file data offset c =
     (let (r, ns, d) = syscall (fd_disk c) in
      case transferred r (length data) of
        None \<Rightarrow> (Exc ''CachedFD::write_at_file: pwrite'', c\<lparr>fd_disk := d\<rparr>)
      | Some n \<Rightarrow>
          let d = d\<lparr>media := file_store (file_extents d) offset (take n data) (media d)\<rparr>
          in if n \<noteq> length data
             then (Exc ''CachedFD::write_at_file: short pwrite'', c\<lparr>fd_disk := d\<rparr>)
             else (Ret ns, c\<lparr>fd_disk := d\<rparr>))"

definition read_at_file ::
  "nat \<Rightarrow> int \<Rightarrow> cached_fd_state \<Rightarrow> bytes outcome \<times> cached_fd_state" where
  "read_at_file len offset c =
     (let (r, ns, d) = syscall (fd_disk c) in
      case transferred r len of
        None \<Rightarrow> (Exc ''CachedFD::read_at_file: pread'', c\<lparr>fd_disk := d\<rparr>)
      | Some n \<Rightarrow>
          if n \<noteq> len then (Exc ''CachedFD::read_at_file: short pread'', c\<lparr>fd_disk := d\<rparr>)
          else (Ret (file_load (file_extents d) offset len (media d)), c\<lparr>fd_disk := d\<rparr>))"

definition fdatasync :: "cached_fd_state \<Rightarrow> int outcome \<times> cached_fd_state" where
  "fdatasync c =
     (let (r, ns, d) = syscall (fd_disk c) in
      if r \<noteq> IoOk then (Exc ''CachedFD::fdatasync'', c\<lparr>fd_disk := d\<rparr>)
      else (Ret ns, c\<lparr>fd_disk := d\<lparr>stable := media d\<rparr>\<rparr>))"

definition cache_extents ::
  "int \<Rightarrow> cached_fd_state \<Rightarrow> (unit outcome \<times> cached_fd_state) option" where
  "cache_extents file_size c = (case ExtentCache_build (fiemap_call c) file_size of
      None \<Rightarrow> None
    | Some (Ret xs) \<Rightarrow> Some (Ret (), c\<lparr>extent_cache := xs, has_extent_cache := True\<rparr>)
    | Some (Exc e) \<Rightarrow> Some (Exc e, c)
    | Some Ub \<Rightarrow> Some (Ub, c))"

definition extent_cache_info :: "cached_fd_state \<Rightarrow> int" where
  "extent_cache_info c = (if has_extent_cache c then num_extents (extent_cache c) else 0)"

definition fd_is_contiguous :: "cached_fd_state \<Rightarrow> bool" where
  "fd_is_contiguous c \<longleftrightarrow> has_extent_cache c \<and> is_contiguous (extent_cache c)"

definition fd_remaining_at :: "cached_fd_state \<Rightarrow> int \<Rightarrow> int \<Rightarrow> u64 \<times> int" where
  "fd_remaining_at c logical hint =
     (if \<not> has_extent_cache c then (NOT 0, 0) else remaining_at (extent_cache c) logical hint)"

definition get_pba :: "cached_fd_state \<Rightarrow> int \<Rightarrow> u64 \<Rightarrow> pba_segment outcome" where
  "get_pba c logical len =
     (if has_extent_cache c then lookup (extent_cache c) logical len
      else case native_get_pba (fiemap_call c) logical len of
             None \<Rightarrow> Exc ''CachedFD::get_pba: FIEMAP failed''
           | Some (p, n) \<Rightarrow> Ret \<lparr>pba = p, seg_len = n\<rparr>)"

text \<open>\<open>CachedFD::write\<close>: aligned ranges that fit the write buffer only.\<close>

definition fd_write ::
  "u64 \<Rightarrow> bytes \<Rightarrow> cached_fd_state \<Rightarrow> unit outcome \<times> cached_fd_state" where
  "fd_write p data c =
     (if data = [] then (Ret (), c)
      else if p mod kSectorSize = 0 \<and> length data mod unat kSectorSize = 0 \<and>
              length data \<le> unat (wr_buf_size c)
      then let (r, ns, d) = syscall (fd_disk c) in
           case transferred r (length data) of
             None \<Rightarrow> (Exc ''CachedFD::write: pwrite failed'', c\<lparr>fd_disk := d\<rparr>)
           | Some n \<Rightarrow>
               let d = d\<lparr>media := dev_store p (take n data) (media d)\<rparr>
               in if n \<noteq> length data
                  then (Exc ''CachedFD::write: pwrite failed'', c\<lparr>fd_disk := d\<rparr>)
                  else (Ret (), c\<lparr>fd_disk := d\<rparr>)
      else (Exc ''CachedFD::write: unaligned/oversized slow path not yet ported'', c))"

definition fd_read ::
  "u64 \<Rightarrow> u64 \<Rightarrow> cached_fd_state \<Rightarrow> bytes outcome \<times> cached_fd_state" where
  "fd_read p nbytes c =
     (let aligned_len = unat (align_up nbytes kSectorSize);
          (r, ns, d) = syscall (fd_disk c)
      in case transferred r aligned_len of
           None \<Rightarrow> (Exc ''CachedFD::read: pread'', c\<lparr>fd_disk := d\<rparr>)
         | Some n \<Rightarrow>
             if n \<noteq> aligned_len then (Exc ''CachedFD::read: pread'', c\<lparr>fd_disk := d\<rparr>)
             else (Ret (dev_load p aligned_len (media d)), c\<lparr>fd_disk := d\<rparr>))"

section \<open>The descriptor of a server\<close>

text \<open>An operation through \<open>io.cached_fd\<close>; dereferencing a null pointer is undefined.\<close>

definition with_fd ::
  "(cached_fd_state \<Rightarrow> 'a outcome \<times> cached_fd_state) \<Rightarrow> server \<Rightarrow> 'a step" where
  "with_fd f s = (case cached_fd (io s) of
      None \<Rightarrow> (Ub, s)
    | Some c \<Rightarrow> let (r, c') = f c in (r, s\<lparr>io := (io s)\<lparr>cached_fd := Some c'\<rparr>\<rparr>))"

definition fd_query :: "(cached_fd_state \<Rightarrow> 'a outcome) \<Rightarrow> server \<Rightarrow> 'a outcome" where
  "fd_query f s = (case cached_fd (io s) of None \<Rightarrow> Ub | Some c \<Rightarrow> f c)"

section \<open>AlignedBuffer\<close>

definition capacity :: "aligned_buffer \<Rightarrow> nat" where
  "capacity b = length (buf_data b)"

definition buf_clear :: "aligned_buffer \<Rightarrow> aligned_buffer" where
  "buf_clear b = b\<lparr>buf_size := 0\<rparr>"

definition buf_resize :: "nat \<Rightarrow> nat \<Rightarrow> aligned_buffer \<Rightarrow> aligned_buffer" where
  "buf_resize new_size align b =
     (if new_size > capacity b then
        let aligned_cap = (new_size + align - 1) div align * align
        in \<lparr>buf_data = take (buf_size b) (buf_data b) @ replicate (aligned_cap - buf_size b) 0,
            buf_size = new_size\<rparr>
      else if new_size > buf_size b then
        \<lparr>buf_data = take (buf_size b) (buf_data b) @ replicate (new_size - buf_size b) 0
                    @ drop new_size (buf_data b),
         buf_size = new_size\<rparr>
      else b\<lparr>buf_size := new_size\<rparr>)"

definition buf_reset :: "aligned_buffer \<Rightarrow> aligned_buffer" where
  "buf_reset b = \<lparr>buf_data = [], buf_size = 0\<rparr>"

text \<open>The bytes below the size, as a caller sees them.\<close>

definition buf_bytes :: "aligned_buffer \<Rightarrow> bytes" where
  "buf_bytes b = take (buf_size b) (buf_data b)"

definition wf_buffer :: "aligned_buffer \<Rightarrow> bool" where
  "wf_buffer b \<longleftrightarrow> buf_size b \<le> capacity b"

section \<open>Buffers\<close>

lemma div_mult_ge: "0 < (a :: nat) \<Longrightarrow> n \<le> (n + a - 1) div a * a"
  using minus_mod_eq_div_mult [of "n + a - 1" a] mod_less_divisor [of a "n + a - 1"] by linarith

text \<open>
  Resizing the aligned buffer is a vector resize: the bytes up to the new size are kept, the
  new ones are zero, and the size stays within the allocation.
\<close>

theorem buf_resize_bytes:
  assumes "wf_buffer b" and "0 < a"
  shows "wf_buffer (buf_resize n a b) \<and>
    buf_bytes (buf_resize n a b) = take n (buf_bytes b) @ replicate (n - length (buf_bytes b)) 0"
proof -
  have cap: "n \<le> (n + a - 1) div a * a" by (rule div_mult_ge [OF assms(2)])
  have "wf_buffer (buf_resize n a b)"
    using assms cap by (auto simp: wf_buffer_def buf_resize_def capacity_def Let_def)
  moreover have "buf_bytes (buf_resize n a b) =
      take n (buf_bytes b) @ replicate (n - length (buf_bytes b)) 0"
    using assms cap
    by (auto simp: wf_buffer_def buf_resize_def capacity_def buf_bytes_def Let_def min_def)
  ultimately show ?thesis by blast
qed

theorem buf_resize_bytes_witness:
  "buf_bytes (buf_resize 6 4 \<lparr>buf_data = [1, 2, 3, 4], buf_size = 3\<rparr>) = [1, 2, 3, 0, 0, 0]"
  using buf_resize_bytes [of "\<lparr>buf_data = [1, 2, 3, 4], buf_size = 3\<rparr>" 4 6]
  by (simp add: wf_buffer_def capacity_def buf_bytes_def eval_nat_numeral)

section \<open>The interface of a byte file\<close>

text \<open>
  What the layouts on the ring file need of it: a read after a write returns the bytes written, and
  bytes outside the written range are not disturbed.
\<close>

locale byte_file =
  fixes wf :: "'x \<Rightarrow> bool"
    and mapped :: "'x \<Rightarrow> int \<Rightarrow> bool"
    and rd :: "'x \<Rightarrow> 'm \<Rightarrow> int \<Rightarrow> u8"
    and wr :: "'x \<Rightarrow> int \<Rightarrow> bytes \<Rightarrow> 'm \<Rightarrow> 'm"
  assumes rd_wr: "wf x \<Longrightarrow> \<forall>k < length data. mapped x (off + int k) \<Longrightarrow>
    rd x (wr x off data m) l =
      (if off \<le> l \<and> l < off + int (length data) then data ! nat (l - off) else rd x m l)"
begin

definition load :: "'x \<Rightarrow> 'm \<Rightarrow> int \<Rightarrow> nat \<Rightarrow> bytes" where
  "load x m off n = map (\<lambda>k. rd x m (off + int k)) [0..<n]"

lemma length_load: "length (load x m off n) = n"
  by (simp add: load_def)

text \<open>Any part of the range just written reads back.\<close>

lemma load_wr_inside:
  assumes "wf x" "\<forall>k < length data. mapped x (off + int k)"
    and "o' + n \<le> length data"
  shows "load x (wr x off data m) (off + int o') n = take n (drop o' data)"
  using assms by (intro nth_equalityI) (auto simp: load_def rd_wr nat_add_distrib)

lemma load_wr: "wf x \<Longrightarrow> \<forall>k < length data. mapped x (off + int k) \<Longrightarrow>
    load x (wr x off data m) off (length data) = data"
  using load_wr_inside [of x data off 0 "length data" m] by simp

lemma load_wr_other:
  assumes "wf x" "\<forall>k < length data. mapped x (off + int k)"
    and "off' + int n \<le> off \<or> off + int (length data) \<le> off'"
  shows "load x (wr x off data m) off' n = load x m off' n"
  using assms by (auto simp: load_def rd_wr)

end

text \<open>The ring file: no two logical bytes share a device byte.\<close>

definition wf_file :: "extent list \<Rightarrow> bool" where
  "wf_file xs \<longleftrightarrow> inj_on (phys_of xs) {l. phys_of xs l \<noteq> None}"

definition file_byte :: "extent list \<Rightarrow> (u64 \<Rightarrow> u8) \<Rightarrow> int \<Rightarrow> u8" where
  "file_byte xs m l = (case phys_of xs l of Some a \<Rightarrow> m a | None \<Rightarrow> 0)"

definition file_mapped :: "extent list \<Rightarrow> int \<Rightarrow> bool" where
  "file_mapped xs l \<longleftrightarrow> phys_of xs l \<noteq> None"

lemma file_store_Nil [simp]: "file_store xs off [] m = m"
  by (simp add: file_store_def)

lemma file_store_snoc:
  "file_store xs off (data @ [b]) m =
     (case phys_of xs (off + int (length data)) of
        Some a \<Rightarrow> (file_store xs off data m)(a := b) | None \<Rightarrow> file_store xs off data m)"
proof -
  have "fold (\<lambda>k m. case phys_of xs (off + int k) of Some a \<Rightarrow> m(a := (data @ [b]) ! k) | None \<Rightarrow> m)
      [0..<length data] m =
    fold (\<lambda>k m. case phys_of xs (off + int k) of Some a \<Rightarrow> m(a := data ! k) | None \<Rightarrow> m)
      [0..<length data] m"
    by (intro fold_cong) (auto simp: nth_append split: option.splits)
  then show ?thesis by (simp add: file_store_def split: option.splits)
qed

lemma file_byte_store:
  assumes wf: "wf_file xs"
  shows "file_byte xs (file_store xs off data m) l =
    (if off \<le> l \<and> l < off + int (length data) \<and> file_mapped xs l then data ! nat (l - off)
     else file_byte xs m l)"
proof (induction data rule: rev_induct)
  case (snoc b data)
  show ?case
  proof (cases "phys_of xs (off + int (length data))")
    case None
    then show ?thesis
      using snoc by (cases "l = off + int (length data)")
        (auto simp: file_store_snoc nth_append file_mapped_def)
  next
    case (Some a)
    show ?thesis
    proof (cases "l = off + int (length data)")
      case True
      with Some show ?thesis by (simp add: file_store_snoc file_byte_def file_mapped_def)
    next
      case False
      then have "phys_of xs l \<noteq> Some a"
        using wf Some unfolding wf_file_def inj_on_def by fastforce
      then have "file_byte xs (file_store xs off (data @ [b]) m) l =
        file_byte xs (file_store xs off data m) l"
        using Some by (auto simp: file_store_snoc file_byte_def split: option.splits)
      with False snoc show ?thesis by (auto simp: nth_append nat_less_iff)
    qed
  qed
qed auto

interpretation ring_file: byte_file wf_file file_mapped file_byte file_store
proof
  fix x :: "extent list" and data :: bytes and off l :: int and m :: "u64 \<Rightarrow> u8"
  assume wf: "wf_file x" and "\<forall>k < length data. file_mapped x (off + int k)"
  then have "off \<le> l \<and> l < off + int (length data) \<Longrightarrow> file_mapped x l"
    by (auto dest!: spec [of _ "nat (l - off)"])
  then show "file_byte x (file_store x off data m) l =
      (if off \<le> l \<and> l < off + int (length data) then data ! nat (l - off) else file_byte x m l)"
    by (auto simp: file_byte_store [OF wf])
qed

lemma file_load_eq: "file_load xs off n m = ring_file.load xs m off n"
  by (simp add: file_load_def ring_file.load_def file_byte_def)

lemma wf_file_single:
  assumes "wf_extents [x]"
  shows "wf_file [x]"
proof -
  have "l = l'" if "covers l x" "covers l' x"
    "(word_of_int (l - ext_logical x) :: u64) = word_of_int (l' - ext_logical x)" for l l'
  proof -
    have "\<bar>l - l'\<bar> < 18446744073709551616"
      using that(1,2) assms by (auto simp: covers_def wf_extents_def wf_extent_def)
    moreover have "l mod 18446744073709551616 = l' mod 18446744073709551616"
      using that(3) by (simp add: word_of_int_eq_iff take_bit_eq_mod)
    then have "18446744073709551616 dvd (l - l')" by (simp add: mod_eq_dvd_iff)
    ultimately show ?thesis using zdvd_imp_le [of 18446744073709551616 "\<bar>l - l'\<bar>"] by fastforce
  qed
  then show ?thesis by (auto simp: wf_file_def inj_on_def phys_of_def split: if_splits)
qed

end
