(* ===== verification/Persist.thy ===== *)
theory Persist
  imports Device
begin

text \<open>
  \<open>core/src/raft_persist.cpp\<close>: \<open>persist_circular\<close> encodes the new entries of the log into the run
  buffer, writes the runs to the ring, and writes the file header when the term or the vote
  changed; \<open>core/src/raft_pba.cpp\<close>: \<open>leader_pba_for_range\<close> and \<open>read_entry_direct\<close>.

  The local variables of \<open>persist_circular\<close> that its loop carries are the record
  \<open>persist_locals\<close>. \<open>nvme_ns\<close> adds up the durations of the system calls.
\<close>

section \<open>Encoding\<close>

text \<open>The slots of one entry: header fields, command, zero padding.\<close>

definition encode_entry :: "entry \<Rightarrow> u64 \<Rightarrow> u64 \<Rightarrow> bytes \<Rightarrow> bytes" where
  "encode_entry e needed log_idx region =
     (let region = put_u64_le region entry_kOffTerm (e_term e);
          region = put_u64_le region entry_kOffCmdLen (command_size (command e));
          region = put_u64_le region entry_kOffNumSlots needed;
          region = put_u64_le region entry_kOffLogIndex log_idx;
          meta = unat ENTRY_META_SIZE;
          region = (if command e \<noteq> []
                    then take meta region @ command e @ drop (meta + length (command e)) region
                    else region);
          pad_start = meta + length (command e)
      in take pad_start region @ replicate (length region - pad_start) 0)"

definition encode_header :: "u64 \<Rightarrow> u64 \<Rightarrow> server \<Rightarrow> bytes" where
  "encode_header cur_term cur_vote s =
     (let h = replicate (unat HEADER_SIZE) 0;
          h = put_u64_le h file_kOffCurrentTerm cur_term;
          h = put_u64_le h file_kOffVotedFor cur_vote;
          h = put_u64_le h file_kOffTailLogIndex (tail_log_index (ring s));
          h = put_u64_le h file_kOffTailSlot (tail_slot (ring s));
          h = put_u64_le h file_kOffCommitIndex (commit_index (raft s));
          h = put_u64_le h file_kOffLastApplied (last_applied (raft s))
      in h)"

section \<open>persist_circular\<close>

record persist_locals =
  p_run_off :: int
  p_ext_hint :: int
  p_nvme_ns :: int
  p_flush_count :: int

definition upd_ring :: "(ring_log \<Rightarrow> ring_log) \<Rightarrow> server \<Rightarrow> server" where
  "upd_ring f s = s\<lparr>ring := f (ring s)\<rparr>"

definition upd_raft :: "(raft_state \<Rightarrow> raft_state) \<Rightarrow> server \<Rightarrow> server" where
  "upd_raft f s = s\<lparr>raft := f (raft s)\<rparr>"

definition flush_run :: "persist_locals \<Rightarrow> server \<Rightarrow> persist_locals step" where
  "flush_run l s =
     (let b = run_buf (ring s) in
      if buf_size b = 0 then (Ret l, s)
      else andthen (with_fd (write_at_file (buf_bytes b) (p_run_off l)) s)
        (\<lambda>ns s. (Ret (l\<lparr>p_flush_count := p_flush_count l + 1,
                        p_nvme_ns := p_nvme_ns l + ns,
                        p_run_off := p_run_off l + int (buf_size b)\<rparr>),
                 upd_ring (\<lambda>g. g\<lparr>run_buf := buf_clear (run_buf g)\<rparr>) s)))"

text \<open>The per-entry extent skip: an entry is never split over two extents.\<close>

definition extent_skip :: "u64 \<Rightarrow> persist_locals \<Rightarrow> server \<Rightarrow> persist_locals step" where
  "extent_skip needed l s =
     (case cached_fd (io s) of
        None \<Rightarrow> (Ub, s)
      | Some c \<Rightarrow>
          let (rem, hint) = fd_remaining_at c (slot_offset (tail_slot (ring s))) (p_ext_hint l);
              l = l\<lparr>p_ext_hint := hint\<rparr>
          in if rem < needed * SECTOR_SIZE then
               andthen (flush_run l s) (\<lambda>l s.
                 let skip_slots = rem div SECTOR_SIZE;
                     ts = tail_slot (ring s) + skip_slots;
                     ts = (if ts + needed > ring_slots (ring s) then 0 else ts);
                     (rem2, hint2) = fd_remaining_at c (slot_offset ts) (p_ext_hint l)
                 in (Ret (l\<lparr>p_ext_hint := hint2\<rparr>), upd_ring (\<lambda>g. g\<lparr>tail_slot := ts\<rparr>) s))
             else (Ret l, s))"

text \<open>One iteration of the loop over the new entries: entry number \<open>i\<close> of the log vector.\<close>

definition append_region :: "entry \<Rightarrow> u64 \<Rightarrow> u64 \<Rightarrow> aligned_buffer \<Rightarrow> aligned_buffer" where
  "append_region e needed log_idx b =
     (let entry_bytes = unat needed * unat SECTOR_SIZE;
          off = buf_size b;
          b = buf_resize (off + entry_bytes) (unat SECTOR_SIZE) b;
          d = buf_data b
      in b\<lparr>buf_data := take off d
                        @ encode_entry e needed log_idx (take entry_bytes (drop off d))
                        @ drop (off + entry_bytes) d\<rparr>)"

definition wrap_tail :: "u64 \<Rightarrow> persist_locals \<Rightarrow> server \<Rightarrow> persist_locals step" where
  "wrap_tail needed l s =
     (if tail_slot (ring s) + needed > ring_slots (ring s)
      then andthen (flush_run l s) (\<lambda>l s. (Ret l, upd_ring (\<lambda>g. g\<lparr>tail_slot := 0\<rparr>) s))
      else (Ret l, s))"

definition place_entry :: "entry \<Rightarrow> u64 \<Rightarrow> u64 \<Rightarrow> persist_locals \<Rightarrow> server \<Rightarrow> persist_locals step" where
  "place_entry e needed log_idx l s =
     (let l = (if buf_size (run_buf (ring s)) = 0
               then l\<lparr>p_run_off := slot_offset (tail_slot (ring s))\<rparr> else l);
          first = tail_slot (ring s);
          s = upd_ring (\<lambda>g. g\<lparr>run_buf := append_region e needed log_idx (run_buf g),
                               tail_slot := first + needed\<rparr>) s;
          s = (if role (raft s) = Leader
               then upd_ring (\<lambda>g. trace_slot_map (CHR ''I'') log_idx
                      (g\<lparr>log_slot_map := AList.update log_idx
                           \<lparr>sr_start = first, sr_num_slots = needed, sr_state = Using\<rparr>
                           (log_slot_map g)\<rparr>)) s
               else s)
      in (Ret l, s))"

definition persist_entry :: "bool \<Rightarrow> nat \<Rightarrow> persist_locals \<Rightarrow> server \<Rightarrow> persist_locals step" where
  "persist_entry contiguous i l s =
     (let n = length (rlog (raft s));
          log_idx = tail_log_index (ring s) - of_nat (n - i);
          e = rlog (raft s) ! i;
          needed = slots_for_entry (command_size (command e))
      in andthen (wrap_tail needed l s) (\<lambda>l s.
         andthen (if \<not> contiguous then extent_skip needed l s else (Ret l, s))
           (place_entry e needed log_idx)))"

fun persist_entries ::
  "bool \<Rightarrow> nat list \<Rightarrow> persist_locals \<Rightarrow> server \<Rightarrow> persist_locals step" where
  "persist_entries contiguous [] l s = (Ret l, s)"
| "persist_entries contiguous (i # js) l s =
     andthen (persist_entry contiguous i l s) (persist_entries contiguous js)"

definition est_size :: "entry list \<Rightarrow> nat" where
  "est_size es = sum_list (map (\<lambda>e. unat (slots_for_entry (command_size (command e)))
                                     * unat SECTOR_SIZE) es)"

definition persist_log :: "int \<Rightarrow> server \<Rightarrow> int step" where
  "persist_log n_new_entries s =
     (let log = rlog (raft s);
          start = nat (max 1 (int (length log) - n_new_entries));
          est = est_size (drop start log);
          s = upd_ring (\<lambda>g. g\<lparr>run_buf :=
                buf_clear (if capacity (run_buf g) < est
                           then buf_clear (buf_resize est (unat SECTOR_SIZE) (run_buf g))
                           else run_buf g)\<rparr>) s
      in case cached_fd (io s) of
           None \<Rightarrow> (Ub, s)
         | Some c \<Rightarrow>
             andthen (persist_entries (fd_is_contiguous c) [start..<length log]
                        \<lparr>p_run_off = 0, p_ext_hint = 0, p_nvme_ns = 0, p_flush_count = 0\<rparr> s)
               (\<lambda>l s. andthen (flush_run l s) (\<lambda>l s. (Ret (p_nvme_ns l), s))))"

definition needs_header :: "u64 \<Rightarrow> u64 \<Rightarrow> ring_log \<Rightarrow> bool" where
  "needs_header cur_term cur_vote g \<longleftrightarrow>
     \<not> persisted_init g \<or> cur_term \<noteq> persisted_term g \<or> cur_vote \<noteq> persisted_voted_for g"

definition persist_header :: "u64 \<Rightarrow> u64 \<Rightarrow> server \<Rightarrow> int step" where
  "persist_header cur_term cur_vote s =
     andthen (with_fd (write_at_file (encode_header cur_term cur_vote s) 0) s)
       (\<lambda>ns s. (Ret ns, upd_ring (\<lambda>g. g\<lparr>persisted_init := True, persisted_term := cur_term,
                                        persisted_voted_for := cur_vote\<rparr>) s))"

definition persist_circular :: "bool \<Rightarrow> int \<Rightarrow> server \<Rightarrow> int step" where
  "persist_circular write_log n_new_entries s =
     (let n_new = (if n_new_entries = 0 \<and> write_log then int (length (rlog (raft s))) - 1
                   else n_new_entries);
          write_entries = (write_log \<and> n_new > 0)
      in andthen (if write_entries then persist_log n_new s else (Ret 0, s)) (\<lambda>nvme_ns s.
         let cur_term = current_term (raft s) in
         case get_voted_for s of
           Exc e \<Rightarrow> (Exc e, s)
         | Ub \<Rightarrow> (Ub, s)
         | Ret cur_vote \<Rightarrow>
             let write_header = needs_header cur_term cur_vote (ring s) in
             andthen (if write_header then persist_header cur_term cur_vote s else (Ret 0, s))
               (\<lambda>hdr_ns s.
                  if write_entries \<or> write_header
                  then andthen (with_fd fdatasync s)
                         (\<lambda>sync_ns s. (Ret (nvme_ns + hdr_ns + sync_ns), s))
                  else (Ret (nvme_ns + hdr_ns), s))))"

section \<open>Reading back\<close>

definition leader_pba_for_range :: "u64 \<Rightarrow> u64 \<Rightarrow> server \<Rightarrow> (u64 \<times> u64) outcome" where
  "leader_pba_for_range first nslots s =
     (if nslots = 0 then Ret (0, 0)
      else let nbytes = align_up (nslots * SECTOR_SIZE) PAGE_SIZE in
           obind (fd_query (\<lambda>c. get_pba c (slot_offset first) nbytes) s) (\<lambda>seg.
             if pba seg = 0 then Exc ''leader_pba_for_range: PBA=0 (hole in ring file)''
             else Ret (pba seg, if seg_len seg > 0 \<and> seg_len seg < nbytes
                                then align_up (seg_len seg) PAGE_SIZE else nbytes)))"

text \<open>
  One O_DIRECT page read that contains the sector of a slot: the 4 KiB page below the slot's
  device address, and the bytes from the slot's offset in it on.
\<close>

definition read_slot_page :: "u64 \<Rightarrow> server \<Rightarrow> bytes step" where
  "read_slot_page slot s =
     (case fd_query (\<lambda>c. get_pba c (slot_offset slot) SECTOR_SIZE) s of
        Exc e \<Rightarrow> (Exc e, s)
      | Ub \<Rightarrow> (Ub, s)
      | Ret seg \<Rightarrow>
          let raw_pba = pba seg;
              aligned_pba = raw_pba AND NOT (PAGE_SIZE - 1);
              offset_in_page = unat (raw_pba - aligned_pba)
          in andthen (with_fd (fd_read aligned_pba PAGE_SIZE) s)
               (\<lambda>buf s. (Ret (drop offset_in_page buf), s)))"

text \<open>The loop over the slots after the first; a copy past the end of a page is undefined.\<close>

fun read_payload :: "u64 list \<Rightarrow> u64 \<Rightarrow> u64 \<Rightarrow> bytes \<Rightarrow> server \<Rightarrow> bytes step" where
  "read_payload [] header_slot clen cmd s = (Ret cmd, s)"
| "read_payload (i # js) header_slot clen cmd s =
     (if of_nat (length cmd) < clen then
        andthen (read_slot_page ((header_slot + i) mod ring_slots (ring s)) s) (\<lambda>page s.
          let copied = (of_nat (length cmd) :: u64);
              chunk = (if copied + SECTOR_SIZE > clen then clen - copied else SECTOR_SIZE)
          in if unat chunk \<le> length page
             then read_payload js header_slot clen (cmd @ take (unat chunk) page) s
             else (Ub, s))
      else (Ret cmd, s))"

definition read_entry_direct :: "u64 \<Rightarrow> server \<Rightarrow> (entry \<times> u64) step" where
  "read_entry_direct header_slot s =
     andthen (read_slot_page header_slot s) (\<lambda>header s.
       if length header < unat ENTRY_META_SIZE then (Ub, s)
       else
         let t = get_u64_le header entry_kOffTerm;
             clen = get_u64_le header entry_kOffCmdLen;
             num_slots = get_u64_le header entry_kOffNumSlots;
             first = min (SECTOR_SIZE - ENTRY_META_SIZE) clen
         in if length header < unat ENTRY_META_SIZE + unat first then (Ub, s)
            else andthen
              (read_payload (map of_nat [1..<unat num_slots]) header_slot clen
                 (take (unat first) (drop (unat ENTRY_META_SIZE) header)) s)
              (\<lambda>cmd s.
                 let (e, s) = make_entry s;
                     cmd = cmd @ replicate (unat clen - length cmd) 0
                 in (Ret (e\<lparr>e_term := t, command := cmd\<rparr>,
                          (header_slot + num_slots) mod ring_slots (ring s)), s)))"

section \<open>What persisting leaves alone\<close>

text \<open>
  \<open>persist_circular\<close> writes the write position, the slot map, the buffer, the header cache, the
  trace and the device; every other field of the server is kept.
\<close>

definition persist_rest :: "server \<Rightarrow> server" where
  "persist_rest s = s\<lparr>io := (io s)\<lparr>cached_fd := None\<rparr>,
     ring := (ring s)\<lparr>tail_slot := 0, log_slot_map := [], run_buf := \<lparr>buf_data = [], buf_size = 0\<rparr>,
       persisted_init := False, persisted_term := 0, persisted_voted_for := 0,
       slot_map_trace_ring := [], slot_map_trace_cursor := 0\<rparr>\<rparr>"

definition persist_frame :: "server \<Rightarrow> server \<Rightarrow> bool" where
  "persist_frame s t \<longleftrightarrow> persist_rest t = persist_rest s"

lemma persist_frame_refl [simp]: "persist_frame s s"
  by (simp add: persist_frame_def)

lemma persist_frame_trans: "persist_frame s t \<Longrightarrow> persist_frame t u \<Longrightarrow> persist_frame s u"
  by (simp add: persist_frame_def)

lemma persist_frame_andthen:
  assumes "persist_frame s (snd m)" and "\<And>a t. persist_frame t (snd (f a t))"
  shows "persist_frame s (snd (andthen m f))"
  using assms by (cases m; cases "fst m") (auto intro: persist_frame_trans)

lemma persist_frame_eq: "persist_frame s t \<Longrightarrow> (\<And>u. f (persist_rest u) = f u) \<Longrightarrow> f t = f s"
  unfolding persist_frame_def by metis

lemma persist_frame_ring [server_frame]:
  assumes "persist_frame s t"
  shows
    "head_slot (ring t) = head_slot (ring s)" "gc_up_to (ring t) = gc_up_to (ring s)"
    "gc_has_run (ring t) = gc_has_run (ring s)" "ring_slots (ring t) = ring_slots (ring s)"
    "num_pages (ring t) = num_pages (ring s)" "total_slots (ring t) = total_slots (ring s)"
    "log_trim_threshold (ring t) = log_trim_threshold (ring s)"
    "tail_log_index (ring t) = tail_log_index (ring s)"
    "slot_map_trace_inserts (ring t) = slot_map_trace_inserts (ring s)"
  using
    persist_frame_eq [OF assms, of "\<lambda>s. head_slot (ring s)"]
    persist_frame_eq [OF assms, of "\<lambda>s. gc_up_to (ring s)"]
    persist_frame_eq [OF assms, of "\<lambda>s. gc_has_run (ring s)"]
    persist_frame_eq [OF assms, of "\<lambda>s. ring_slots (ring s)"]
    persist_frame_eq [OF assms, of "\<lambda>s. num_pages (ring s)"]
    persist_frame_eq [OF assms, of "\<lambda>s. total_slots (ring s)"]
    persist_frame_eq [OF assms, of "\<lambda>s. log_trim_threshold (ring s)"]
    persist_frame_eq [OF assms, of "\<lambda>s. tail_log_index (ring s)"]
    persist_frame_eq [OF assms, of "\<lambda>s. slot_map_trace_inserts (ring s)"]
  by (simp_all add: persist_rest_def)

lemma persist_frame_server [server_frame]:
  assumes "persist_frame s t"
  shows
    "raft t = raft s" "workers t = workers s" "prof t = prof s" "srv_done t = srv_done s"
    "sm_reply t = sm_reply s" "sm_applied t = sm_applied s" "signals t = signals s"
    "collectors t = collectors s" "sinks t = sinks s" "env t = env s" "repl_mode t = repl_mode s"
    "max_ae_batch t = max_ae_batch s" "max_ae_batch_bytes t = max_ae_batch_bytes s"
    "has_transport t = has_transport s" "has_blockcopy t = has_blockcopy s"
  using
    persist_frame_eq [OF assms, of raft] persist_frame_eq [OF assms, of workers]
    persist_frame_eq [OF assms, of prof] persist_frame_eq [OF assms, of srv_done]
    persist_frame_eq [OF assms, of sm_reply] persist_frame_eq [OF assms, of sm_applied]
    persist_frame_eq [OF assms, of signals] persist_frame_eq [OF assms, of collectors] persist_frame_eq [OF assms, of sinks]
    persist_frame_eq [OF assms, of env] persist_frame_eq [OF assms, of repl_mode]
    persist_frame_eq [OF assms, of max_ae_batch]
    persist_frame_eq [OF assms, of max_ae_batch_bytes]
    persist_frame_eq [OF assms, of has_transport] persist_frame_eq [OF assms, of has_blockcopy]
  by (simp_all add: persist_rest_def)

lemma with_fd_frame: "persist_frame s (snd (with_fd f s))"
  by (auto simp: persist_frame_def persist_rest_def with_fd_def split: option.splits prod.splits)

lemma flush_run_frame: "persist_frame s (snd (flush_run l s))"
  unfolding flush_run_def Let_def
  by (auto intro!: persist_frame_andthen with_fd_frame)
    (simp add: persist_frame_def persist_rest_def upd_ring_def)

lemma upd_ring_frame:
  assumes "\<And>g. persist_rest (s\<lparr>ring := f (ring s)\<rparr>) = persist_rest s"
  shows "persist_frame s (upd_ring f s)"
  using assms by (simp add: persist_frame_def upd_ring_def)

lemma extent_skip_frame: "persist_frame s (snd (extent_skip needed l s))"
  unfolding extent_skip_def Let_def
  by (auto split: option.splits prod.splits intro!: persist_frame_andthen flush_run_frame
      upd_ring_frame simp: persist_rest_def)

lemma trace_slot_map_frame:
  "persist_rest (s\<lparr>ring := trace_slot_map op idx g\<rparr>) = persist_rest (s\<lparr>ring := g\<rparr>)"
  by (simp add: trace_slot_map_def persist_rest_def)

lemma wrap_tail_frame: "persist_frame s (snd (wrap_tail needed l s))"
  unfolding wrap_tail_def
  by (auto intro!: persist_frame_andthen flush_run_frame upd_ring_frame simp: persist_rest_def)

lemma place_entry_frame: "persist_frame s (snd (place_entry e needed idx l s))"
  by (simp add: place_entry_def Let_def persist_frame_def persist_rest_def upd_ring_def
      trace_slot_map_def)

lemma persist_entry_frame: "persist_frame s (snd (persist_entry contig i l s))"
  unfolding persist_entry_def Let_def
  by (intro persist_frame_andthen wrap_tail_frame) (auto intro: extent_skip_frame place_entry_frame)

lemma persist_entries_frame: "persist_frame s (snd (persist_entries contig js l s))"
  by (induction contig js l s rule: persist_entries.induct)
    (auto intro!: persist_frame_andthen persist_entry_frame)

lemma persist_log_frame: "persist_frame s (snd (persist_log n s))"
proof -
  have u: "persist_frame s (upd_ring (\<lambda>g. g\<lparr>run_buf := f g\<rparr>) s)" for f
    by (rule upd_ring_frame) (simp add: persist_rest_def)
  show ?thesis
    unfolding persist_log_def Let_def
    by (auto split: option.splits intro!: u persist_frame_andthen flush_run_frame
        persist_frame_trans [OF u persist_entries_frame])
qed

lemma persist_header_frame: "persist_frame s (snd (persist_header t v s))"
  unfolding persist_header_def
  by (intro persist_frame_andthen with_fd_frame)
    (simp add: upd_ring_frame persist_rest_def)

lemma persist_circular_frame: "persist_frame s (snd (persist_circular write_log n s))"
  unfolding persist_circular_def Let_def
  by (intro persist_frame_andthen)
    (auto intro!: persist_frame_andthen persist_log_frame persist_header_frame with_fd_frame
      split: outcome.splits)

lemmas persist_fields =
  persist_frame_ring [OF persist_circular_frame] persist_frame_server [OF persist_circular_frame]

section \<open>The file header\<close>

lemma encode_header_fields:
  "encode_header t v s = le_field.put_fields
     [(file_kOffCurrentTerm, t), (file_kOffVotedFor, v),
      (file_kOffTailLogIndex, tail_log_index (ring s)), (file_kOffTailSlot, tail_slot (ring s)),
      (file_kOffCommitIndex, commit_index (raft s)), (file_kOffLastApplied, last_applied (raft s))]
     (replicate 512 0)"
  by (simp add: encode_header_def le_field.put_fields_def Let_def)

lemma length_encode_header [simp]: "length (encode_header t v s) = 512"
  by (simp add: encode_header_fields le_field.length_put_fields)

text \<open>Every field of the header reads back at its own offset.\<close>

lemma get_encode_header:
  "get_u64_le (encode_header t v s) file_kOffCurrentTerm = t"
  "get_u64_le (encode_header t v s) file_kOffVotedFor = v"
  "get_u64_le (encode_header t v s) file_kOffTailLogIndex = tail_log_index (ring s)"
  "get_u64_le (encode_header t v s) file_kOffTailSlot = tail_slot (ring s)"
  "get_u64_le (encode_header t v s) file_kOffCommitIndex = commit_index (raft s)"
  "get_u64_le (encode_header t v s) file_kOffLastApplied = last_applied (raft s)"
  unfolding encode_header_fields
  by (rule le_field.get_put_fields; simp add: file_hdr_defs)+

text \<open>The term and the vote that a restart would read from a medium.\<close>

definition header_on :: "extent list \<Rightarrow> (u64 \<Rightarrow> u8) \<Rightarrow> u64 \<times> u64" where
  "header_on xs m =
     (let h = file_load xs 0 (unat HEADER_SIZE) m
      in (get_u64_le h file_kOffCurrentTerm, get_u64_le h file_kOffVotedFor))"

definition disk_of :: "server \<Rightarrow> disk" where
  "disk_of s = fd_disk (the (cached_fd (io s)))"

definition stable_header :: "server \<Rightarrow> u64 \<times> u64" where
  "stable_header s = header_on (file_extents (disk_of s)) (stable (disk_of s))"

text \<open>The ring file is open and its first sector is mapped.\<close>

definition wf_disk :: "server \<Rightarrow> bool" where
  "wf_disk s \<longleftrightarrow> cached_fd (io s) \<noteq> None \<and> wf_file (file_extents (disk_of s)) \<and>
     (\<forall>k < 512. file_mapped (file_extents (disk_of s)) (int k))"

text \<open>The header cache only claims what is on the device, and stable.\<close>

definition header_cache_ok :: "server \<Rightarrow> bool" where
  "header_cache_ok s \<longleftrightarrow>
     (persisted_init (ring s) \<longrightarrow>
        (let h = (persisted_term (ring s), persisted_voted_for (ring s))
         in header_on (file_extents (disk_of s)) (media (disk_of s)) = h \<and> stable_header s = h))"

lemma header_on_store:
  assumes "wf_file xs" "\<forall>k < 512. file_mapped xs (int k)"
  shows "header_on xs (file_store xs 0 (encode_header t v s) m) = (t, v)"
proof -
  have "file_load xs 0 512 (file_store xs 0 (encode_header t v s) m) = encode_header t v s"
    using ring_file.load_wr [OF assms(1), of "encode_header t v s" 0 m] assms(2)
    by (simp add: file_load_eq)
  then show ?thesis by (simp add: header_on_def get_encode_header)
qed

lemma write_at_file_Ret:
  assumes "write_at_file data off c = (Ret ns, c')"
  shows "c' = c\<lparr>fd_disk := (fd_disk c)\<lparr>calls := Suc (calls (fd_disk c)),
    media := file_store (file_extents (fd_disk c)) off data (media (fd_disk c))\<rparr>\<rparr>"
  using assms by (auto simp: write_at_file_def syscall_def Let_def split: option.splits if_splits)

lemma fdatasync_Ret:
  assumes "fdatasync c = (Ret ns, c')"
  shows "c' = c\<lparr>fd_disk := (fd_disk c)\<lparr>calls := Suc (calls (fd_disk c)),
    stable := media (fd_disk c)\<rparr>\<rparr>"
  using assms by (auto simp: fdatasync_def syscall_def Let_def split: if_splits)

lemma with_fd_Ret:
  assumes "with_fd f s = (Ret a, t)"
  obtains c c' where "cached_fd (io s) = Some c" "f c = (Ret a, c')"
    "t = s\<lparr>io := (io s)\<lparr>cached_fd := Some c'\<rparr>\<rparr>"
  using assms by (auto simp: with_fd_def Let_def split: option.splits prod.splits)

lemma persist_header_Ret:
  assumes "wf_disk s" "persist_header ct cv s = (Ret ns, t)"
  shows "wf_disk t \<and> file_extents (disk_of t) = file_extents (disk_of s) \<and>
    header_on (file_extents (disk_of t)) (media (disk_of t)) = (ct, cv) \<and>
    stable (disk_of t) = stable (disk_of s) \<and>
    persisted_init (ring t) \<and> persisted_term (ring t) = ct \<and> persisted_voted_for (ring t) = cv"
proof -
  obtain u where w: "with_fd (write_at_file (encode_header ct cv s) 0) s = (Ret ns, u)"
    and t: "t = upd_ring (\<lambda>g. g\<lparr>persisted_init := True, persisted_term := ct,
       persisted_voted_for := cv\<rparr>) u"
    using assms(2) by (auto simp: persist_header_def andthen_eq_Ret)
  obtain c c' where c: "cached_fd (io s) = Some c"
    and f: "write_at_file (encode_header ct cv s) 0 c = (Ret ns, c')"
    and u: "u = s\<lparr>io := (io s)\<lparr>cached_fd := Some c'\<rparr>\<rparr>"
    by (rule with_fd_Ret [OF w])
  show ?thesis
    using assms(1) header_on_store [of "file_extents (fd_disk c)"]
    by (simp add: t u c write_at_file_Ret [OF f] wf_disk_def disk_of_def upd_ring_def)
qed

text \<open>
  A header persist that returns leaves the current term and vote on stable storage, whether it
  wrote the header or skipped it.
\<close>

lemma persist_header_durable:
  assumes wf: "wf_disk s" and ok: "header_cache_ok s"
    and run: "persist_circular False n s = (Ret ns, t)"
  shows "wf_disk t \<and> header_cache_ok t \<and>
    get_voted_for t = Ret (snd (stable_header t)) \<and> fst (stable_header t) = current_term (raft t)"
proof -
  obtain v where v: "get_voted_for s = Ret v"
    using run by (cases "get_voted_for s") (auto simp: persist_circular_def Let_def)
  have raft: "raft t = raft s"
    using persist_fields(10) [of False n s] run by simp
  show ?thesis
  proof (cases "needs_header (current_term (raft s)) v (ring s)")
    case False
    with run v have "t = s" by (auto simp: persist_circular_def Let_def)
    with False ok wf v show ?thesis
      by (auto simp: needs_header_def header_cache_ok_def Let_def)
  next
    case True
    then obtain hns u sns where h: "persist_header (current_term (raft s)) v s = (Ret hns, u)"
      and y: "with_fd fdatasync u = (Ret sns, t)"
      using run v by (auto simp: persist_circular_def Let_def andthen_eq_Ret)
    obtain c c' where c: "cached_fd (io u) = Some c" and f: "fdatasync c = (Ret sns, c')"
      and t: "t = u\<lparr>io := (io u)\<lparr>cached_fd := Some c'\<rparr>\<rparr>"
      by (rule with_fd_Ret [OF y])
    show ?thesis
      using persist_header_Ret [OF wf h] raft v c
      by (auto simp: t fdatasync_Ret [OF f] wf_disk_def disk_of_def header_cache_ok_def
          stable_header_def Let_def get_voted_for_def)
  qed
qed

section \<open>Persisting returns when the system calls succeed\<close>

definition io_healthy :: "server \<Rightarrow> bool" where
  "io_healthy s \<longleftrightarrow> cached_fd (io s) \<noteq> None \<and> (\<forall>n. fst (script (disk_of s) n) = IoOk)"

lemma io_healthy_cong: "io s = io t \<Longrightarrow> io_healthy s = io_healthy t"
  by (simp add: io_healthy_def disk_of_def)

definition returns :: "'a step \<Rightarrow> bool" where
  "returns m \<longleftrightarrow> (\<exists>a t. m = (Ret a, t) \<and> io_healthy t)"

lemma returns_Ret [simp]: "returns (Ret a, t) = io_healthy t"
  by (simp add: returns_def)

lemma returns_andthen:
  assumes "returns m" and "\<And>a t. m = (Ret a, t) \<Longrightarrow> io_healthy t \<Longrightarrow> returns (f a t)"
  shows "returns (andthen m f)"
  using assms by (auto simp: returns_def)

lemma io_healthy_upd [simp]:
  "io_healthy (upd_ring f s) = io_healthy s" "io_healthy (upd_raft h s) = io_healthy s"
  by (simp_all add: io_healthy_def upd_ring_def upd_raft_def disk_of_def)

lemma io_healthy_fd: "io_healthy s \<Longrightarrow> \<exists>c. cached_fd (io s) = Some c"
  by (auto simp: io_healthy_def)

lemma with_fd_returns:
  assumes "io_healthy s"
    and "\<And>c. \<forall>n. fst (script (fd_disk c) n) = IoOk \<Longrightarrow>
      \<exists>a c'. f c = (Ret a, c') \<and> script (fd_disk c') = script (fd_disk c)"
  shows "returns (with_fd f s)"
proof -
  obtain c where c: "cached_fd (io s) = Some c" "\<forall>n. fst (script (fd_disk c) n) = IoOk"
    using assms(1) by (auto simp: io_healthy_def disk_of_def)
  with assms(2) [OF c(2)] show ?thesis by (auto simp: with_fd_def io_healthy_def disk_of_def)
qed

lemma write_returns: "io_healthy s \<Longrightarrow> returns (with_fd (write_at_file data off) s)"
  by (rule with_fd_returns)
    (auto simp: write_at_file_def syscall_def transferred_def Let_def split: option.splits)

lemma fdatasync_returns: "io_healthy s \<Longrightarrow> returns (with_fd fdatasync s)"
  by (rule with_fd_returns) (auto simp: fdatasync_def syscall_def Let_def)

lemma flush_run_returns: "io_healthy s \<Longrightarrow> returns (flush_run l s)"
  by (auto simp: flush_run_def Let_def intro!: returns_andthen write_returns)

lemma extent_skip_returns: "io_healthy s \<Longrightarrow> returns (extent_skip needed l s)"
  using io_healthy_fd [of s]
  by (auto simp: extent_skip_def Let_def intro!: returns_andthen flush_run_returns
      split: prod.splits)

lemma persist_entry_returns: "io_healthy s \<Longrightarrow> returns (persist_entry contiguous i l s)"
  unfolding persist_entry_def Let_def
  by (intro returns_andthen)
    (auto simp: wrap_tail_def place_entry_def Let_def
      intro!: returns_andthen flush_run_returns extent_skip_returns)

lemma persist_entries_returns: "io_healthy s \<Longrightarrow> returns (persist_entries contiguous js l s)"
  by (induction js arbitrary: l s) (auto intro!: returns_andthen persist_entry_returns)

lemma persist_log_returns:
  assumes "io_healthy s"
  shows "returns (persist_log n s)"
proof -
  obtain c where "cached_fd (io s) = Some c" using io_healthy_fd [OF assms] by blast
  then have "cached_fd (io (upd_ring f s)) = Some c" for f by (simp add: upd_ring_def)
  with assms show ?thesis
    by (auto simp: persist_log_def Let_def intro!: returns_andthen flush_run_returns
        persist_entries_returns)
qed

lemma persist_circular_returns:
  assumes "io_healthy s" "get_voted_for s = Ret v"
  shows "returns (persist_circular write_log n s)"
proof -
  have g: "get_voted_for t = Ret v" if "persist_log n' s = (Ret a, t)" for n' a t
    using that assms(2) persist_frame_server [OF persist_log_frame, of n' s]
    by (simp add: get_voted_for_def)
  show ?thesis
    using assms unfolding persist_circular_def persist_header_def Let_def
    by (intro returns_andthen)
      (auto simp: g intro!: returns_andthen persist_log_returns write_returns fdatasync_returns
        split: if_splits)
qed

text \<open>
  Persisting the header without entries, on a healthy device, returns and leaves the current
  term and vote on stable storage, whether the header was written or skipped because the cache
  says it is there; and the cache stays true.
\<close>

theorem persist_term_vote:
  assumes "io_healthy s" "wf_disk s" "header_cache_ok s" "get_voted_for s = Ret v"
  shows "\<exists>ns t. persist_circular False n s = (Ret ns, t) \<and> header_cache_ok t \<and>
    stable_header t = (current_term (raft s), v)"
proof -
  obtain ns t where run: "persist_circular False n s = (Ret ns, t)"
    using persist_circular_returns [OF assms(1,4), of False n] by (auto simp: returns_def)
  moreover have "raft t = raft s" using persist_fields(10) [of False n s] run by simp
  ultimately show ?thesis
    using persist_header_durable [OF assms(2,3) run] assms(4)
    by (cases "stable_header t") (auto simp: get_voted_for_def)
qed

lemma sample_wf_disk: "wf_disk sample_node"
proof -
  have "wf_extents [sample_extent]"
    by (simp add: wf_extents_def wf_extent_def ext_end_def sample_extent_def)
  then have "wf_file [sample_extent]" by (rule wf_file_single)
  moreover have "file_mapped [sample_extent] (int k)" if "k < 512" for k
    using that by (simp add: file_mapped_def phys_of_def covers_def ext_end_def sample_extent_def)
  ultimately show ?thesis by (simp add: wf_disk_def disk_of_def sample_fd_def)
qed

lemma sample_io_ok: "io_healthy sample_node" "header_cache_ok sample_node"
  by (simp_all add: io_healthy_def disk_of_def header_cache_ok_def sample_fd_def)

theorem persist_term_vote_witness:
  "\<exists>ns t. persist_circular False 0 sample_node = (Ret ns, t) \<and> stable_header t = (1, 0)"
proof -
  have "get_voted_for sample_node = Ret 0"
    by (simp add: get_voted_for_def cluster_at_def ClusterMember_def)
  from persist_term_vote [OF sample_io_ok(1) sample_wf_disk sample_io_ok(2) this, of 0]
  show ?thesis by auto
qed

end
