(* ===== verification/Election.thy ===== *)
theory Election
  imports Persist
begin

text \<open>
  \<open>core/src/raft_election.cpp\<close>: the election timer, the candidate and voter sides of RequestVote,
  the change of term, the promotion to leader, the heartbeat timer. The worker that asks one peer
  for its vote releases the lock around the RPC, so it is two definitions: building the request
  and handling the response. A spawned thread is recorded in \<open>inflight_threads\<close>.
\<close>

section \<open>Threads\<close>

definition reap_finished_threads :: "server \<Rightarrow> server" where
  "reap_finished_threads s = s\<lparr>workers := (workers s)\<lparr>inflight_threads :=
     filter (\<lambda>th. \<not> th_done th) (inflight_threads (workers s))\<rparr>\<rparr>"

definition spawn_replication_thread :: "replication_work \<Rightarrow> server \<Rightarrow> server" where
  "spawn_replication_thread w s =
     (let s = reap_finished_threads s
      in s\<lparr>workers := (workers s)\<lparr>inflight_threads :=
            inflight_threads (workers s) @ [\<lparr>th_work = w, th_done = False\<rparr>]\<rparr>\<rparr>)"

definition join_all_replication_threads :: "server \<Rightarrow> server" where
  "join_all_replication_threads s = s\<lparr>workers := (workers s)\<lparr>inflight_threads := []\<rparr>\<rparr>"

text \<open>The cluster indices other than this node's own, in order.\<close>

definition peers :: "server \<Rightarrow> int list" where
  "peers s = filter (\<lambda>i. i \<noteq> cluster_index (raft s)) (map int [0..<length (cluster (raft s))])"

section \<open>Timers\<close>

definition kElectionTimeoutMinMult :: int where "kElectionTimeoutMinMult = 20"
definition kElectionTimeoutJitterMult :: int where "kElectionTimeoutJitterMult = 10"

definition milliseconds :: "int \<Rightarrow> int" where "milliseconds n = n * 1000000"

definition reset_election_timeout :: "server \<Rightarrow> server" where
  "reset_election_timeout s =
     (let hb = heartbeat_ms (raft s);
          (interval_ms, s) =
            (if hb > 0
             then let (d, s) = uniform_int 0 (hb * kElectionTimeoutJitterMult - 1) s
                  in (d + hb * kElectionTimeoutMinMult, s)
             else (0, s));
          (t, s) = now s
      in upd_raft (\<lambda>r. r\<lparr>election_timeout := t + milliseconds interval_ms\<rparr>) s)"

section \<open>Terms and votes\<close>

definition update_term :: "u64 \<Rightarrow> server \<Rightarrow> bool step" where
  "update_term msg_term s =
     (if msg_term > current_term (raft s) then
        let s = upd_raft (\<lambda>r. r\<lparr>current_term := msg_term, role := Follower\<rparr>) s in
        andthen (set_voted_for 0 s) (\<lambda>_ s.
        andthen (persist_circular False 0 (reset_election_timeout s)) (\<lambda>_ s. (Ret True, s)))
      else (Ret False, s))"

text \<open>\<open>request_vote\<close> starts one worker per peer.\<close>

definition request_vote :: "server \<Rightarrow> server" where
  "request_vote s = fold (\<lambda>i. spawn_replication_thread (VoteWork i)) (peers s) s"

definition timeout :: "server \<Rightarrow> unit step" where
  "timeout s =
     (let (t, s) = now s in
      if t > election_timeout (raft s) then
        let s = upd_raft (\<lambda>r. r\<lparr>role := Candidate, current_term := current_term r + 1,
                  cluster := map (\<lambda>(i, m). m\<lparr>voted_for :=
                      (if int i = cluster_index r then node_id r else 0)\<rparr>)
                    (enumerate 0 (cluster r))\<rparr>) s
        in andthen (persist_circular False 0 (reset_election_timeout s))
             (\<lambda>_ s. (Ret (), request_vote s))
      else (Ret (), s))"

definition last_term :: "server \<Rightarrow> u64" where
  "last_term s = (if length (rlog (raft s)) > 1 then e_term (last (rlog (raft s))) else 0)"

definition request_vote_build :: "server \<Rightarrow> request_vote_request" where
  "request_vote_build s =
     \<lparr>rvq_term = current_term (raft s), candidate_id = node_id (raft s),
      last_log_index = tail_log_index (ring s) - 1, last_log_term = last_term s\<rparr>"

text \<open>The second critical section of \<open>request_vote_worker\<close>; \<open>None\<close> is a failed call.\<close>

definition request_vote_finish ::
  "nat \<Rightarrow> request_vote_request \<Rightarrow> request_vote_response option \<Rightarrow> server \<Rightarrow> unit step" where
  "request_vote_finish i req rsp s =
     (case rsp of
        None \<Rightarrow> (Ret (), s)
      | Some rsp \<Rightarrow>
          andthen (update_term (rvr_term rsp) s) (\<lambda>stepped_down s.
            if stepped_down then (Ret (), s)
            else if rvr_term rsp \<noteq> rvq_term req then (Ret (), s)
            else if vote_granted rsp then
              (if member_ok s i
               then (Ret (), update_member i (\<lambda>m. m\<lparr>voted_for := node_id (raft s)\<rparr>) s)
               else (Ub, s))
            else (Ret (), s)))"

definition log_up_to_date :: "request_vote_request \<Rightarrow> server \<Rightarrow> bool" where
  "log_up_to_date req s \<longleftrightarrow>
     last_log_term req > last_term s \<or>
     last_log_term req = last_term s \<and> last_log_index req \<ge> tail_log_index (ring s) - 1"

definition handle_request_vote_request ::
  "request_vote_request \<Rightarrow> server \<Rightarrow> request_vote_response step" where
  "handle_request_vote_request req s =
     andthen (update_term (rvq_term req) s) (\<lambda>_ s.
       let rsp = \<lparr>rvr_term = current_term (raft s), vote_granted = False\<rparr> in
       if rvq_term req < current_term (raft s) then (Ret rsp, s)
       else if rvq_term req = current_term (raft s) \<and> log_up_to_date req s then
         (case get_voted_for s of
            Exc e \<Rightarrow> (Exc e, s)
          | Ub \<Rightarrow> (Ub, s)
          | Ret v \<Rightarrow>
              if v = 0 \<or> v = candidate_id req then
                andthen (set_voted_for (candidate_id req) s) (\<lambda>_ s.
                andthen (persist_circular False 0 (reset_election_timeout s)) (\<lambda>_ s.
                  (Ret (rsp\<lparr>vote_granted := True\<rparr>), s)))
              else (Ret rsp, s))
       else (Ret rsp, s))"

section \<open>Leadership\<close>

text \<open>The votes still missing for a majority; the loop stops counting at 0.\<close>

definition quorum_missing :: "raft_state \<Rightarrow> nat" where
  "quorum_missing r =
     fold (\<lambda>m q. if voted_for m = node_id r \<and> q > 0 then q - 1 else q) (cluster r)
       (length (cluster r) div 2 + 1)"

text \<open>Loading the commands of deferred entries; a failed read is skipped.\<close>

fun load_deferred :: "nat list \<Rightarrow> server \<Rightarrow> unit step" where
  "load_deferred [] s = (Ret (), s)"
| "load_deferred (i # js) s =
     (let e = rlog (raft s) ! i in
      if command e = [] \<and> ring_slot e \<noteq> 0 then
        (case read_entry_direct (ring_slot e) s of
           (Ret (e', _), s) \<Rightarrow>
             load_deferred js (upd_raft (\<lambda>r. r\<lparr>rlog := (rlog r)[i :=
               (rlog r ! i)\<lparr>command := command e', ring_slot := 0\<rparr>]\<rparr>) s)
         | (Exc _, s) \<Rightarrow> load_deferred js s
         | (Ub, s) \<Rightarrow> (Ub, s))
      else load_deferred js s)"

definition sm_apply :: "bytes \<Rightarrow> server \<Rightarrow> apply_result \<times> server" where
  "sm_apply cmd s = (sm_reply s (sm_applied s) cmd, s\<lparr>sm_applied := sm_applied s @ [cmd]\<rparr>)"

definition apply_ready :: "u64 \<Rightarrow> server \<Rightarrow> bool" where
  "apply_ready oldest s \<longleftrightarrow> last_applied (raft s) \<ge> oldest \<and>
     last_applied (raft s) < tail_log_index (ring s) \<and>
     last_applied (raft s) \<le> commit_index (raft s)"

text \<open>The loop that applies what is committed; each round moves \<open>last_applied\<close> below the tail.\<close>

function apply_on_promotion :: "u64 \<Rightarrow> server \<Rightarrow> unit step" where
  "apply_on_promotion oldest s =
     (if apply_ready oldest s then
        (case log_at s (last_applied (raft s)) of
           Ret e \<Rightarrow>
             let s = (if command e \<noteq> [] then snd (sm_apply (command e) s) else s)
             in apply_on_promotion oldest (upd_raft (\<lambda>r. r\<lparr>last_applied := last_applied r + 1\<rparr>) s)
         | Exc x \<Rightarrow> (Exc x, s)
         | Ub \<Rightarrow> (Ub, s))
      else (Ret (), s))"
  by auto

definition unapplied :: "server \<Rightarrow> nat" where
  "unapplied s = unat (tail_log_index (ring s)) - unat (last_applied (raft s))"

lemma unapplied_step:
  assumes "last_applied (raft s) < tail_log_index (ring s)"
    and "last_applied (raft t) = last_applied (raft s) + 1"
    and "tail_log_index (ring t) = tail_log_index (ring s)"
  shows "unapplied t < unapplied s"
proof -
  have lt: "unat (last_applied (raft s)) < unat (tail_log_index (ring s))"
    using assms(1) by (simp add: word_less_nat_alt)
  then have "unat (last_applied (raft s) + 1) = unat (last_applied (raft s)) + 1"
    by (simp add: unat_u64_inc)
  with lt assms show ?thesis by (simp add: unapplied_def)
qed

termination apply_on_promotion
  by (relation "measure (\<lambda>(o', s). unapplied s)")
    (auto intro!: unapplied_step simp: apply_ready_def upd_raft_def sm_apply_def)

declare apply_on_promotion.simps [simp del]

definition become_leader :: "server \<Rightarrow> unit step" where
  "become_leader s =
     (if quorum_missing (raft s) = 0 then
        let s = upd_raft (\<lambda>r. r\<lparr>role := Leader\<rparr>) s;
            s = upd_ring (\<lambda>g. (rebuild_slot_states_from_map g)\<lparr>gc_up_to := 0, gc_has_run := False\<rparr>) s
        in andthen (load_deferred [1..<length (rlog (raft s))] s) (\<lambda>_ s.
           andthen (apply_on_promotion (oldest_log_index s) s) (\<lambda>_ s.
           let (noop, s) = make_entry s;
               s = upd_raft (\<lambda>r. r\<lparr>rlog := rlog r @ [noop\<lparr>e_term := current_term r\<rparr>]\<rparr>) s;
               s = upd_ring (\<lambda>g. g\<lparr>tail_log_index := tail_log_index g + 1\<rparr>) s
           in andthen (persist_circular True 1 s) (\<lambda>_ s.
              let s = upd_raft (\<lambda>r. r\<lparr>cluster := map (\<lambda>m. m\<lparr>next_index := tail_log_index (ring s) - 1,
                        match_index := 0\<rparr>) (cluster r)\<rparr>) s;
                  (t, s) = now s
              in (Ret (), upd_raft (\<lambda>r. r\<lparr>heartbeat_timeout := t\<rparr>) s))))
      else (Ret (), s))"

definition append_entries :: "nat option \<Rightarrow> server \<Rightarrow> server" where
  "append_entries sink s = fold (\<lambda>fi. spawn_replication_thread (AppendWork fi sink)) (peers s) s"

definition heartbeat :: "server \<Rightarrow> server" where
  "heartbeat s =
     (let (t, s) = now s in
      if t < heartbeat_timeout (raft s) then s
      else let (t, s) = now s;
               s = upd_raft (\<lambda>r. r\<lparr>heartbeat_timeout := t + milliseconds (heartbeat_ms r)\<rparr>) s
           in append_entries None s)"

section \<open>Threads and timers\<close>

lemma spawn_fields [simp]:
  "raft (spawn_replication_thread w s) = raft s" "ring (spawn_replication_thread w s) = ring s"
  "io (spawn_replication_thread w s) = io s" "env (spawn_replication_thread w s) = env s"
  by (simp_all add: spawn_replication_thread_def reap_finished_threads_def Let_def)

lemma spawn_fold_fields [simp]:
  "raft (fold (\<lambda>i. spawn_replication_thread (w i)) js s) = raft s"
  "ring (fold (\<lambda>i. spawn_replication_thread (w i)) js s) = ring s"
  "io (fold (\<lambda>i. spawn_replication_thread (w i)) js s) = io s"
  "env (fold (\<lambda>i. spawn_replication_thread (w i)) js s) = env s"
  by (induction js arbitrary: s) simp_all

lemma request_vote_fields [simp]:
  "raft (request_vote s) = raft s" "ring (request_vote s) = ring s" "io (request_vote s) = io s"
  by (simp_all add: request_vote_def)

lemma append_entries_fields [simp]:
  "raft (append_entries sink s) = raft s" "ring (append_entries sink s) = ring s"
  "io (append_entries sink s) = io s"
  by (simp_all add: append_entries_def)

text \<open>Finished threads are joined on the next spawn; running ones are never lost.\<close>

lemma spawn_fold_threads:
  "inflight_threads (workers (fold (\<lambda>i. spawn_replication_thread (w i)) js s)) =
     (if js = [] then inflight_threads (workers s)
      else filter (\<lambda>th. \<not> th_done th) (inflight_threads (workers s))
           @ map (\<lambda>i. \<lparr>th_work = w i, th_done = False\<rparr>) js)"
  by (induction js arbitrary: s)
    (auto simp: spawn_replication_thread_def reap_finished_threads_def Let_def)

lemma reset_fields [simp]:
  "ring (reset_election_timeout s) = ring s" "io (reset_election_timeout s) = io s"
  "current_term (raft (reset_election_timeout s)) = current_term (raft s)"
  "rlog (raft (reset_election_timeout s)) = rlog (raft s)"
  "node_id (raft (reset_election_timeout s)) = node_id (raft s)"
  "commit_index (raft (reset_election_timeout s)) = commit_index (raft s)"
  "last_applied (raft (reset_election_timeout s)) = last_applied (raft s)"
  "role (raft (reset_election_timeout s)) = role (raft s)"
  "cluster (raft (reset_election_timeout s)) = cluster (raft s)"
  "cluster_index (raft (reset_election_timeout s)) = cluster_index (raft s)"
  "heartbeat_ms (raft (reset_election_timeout s)) = heartbeat_ms (raft s)"
  "signals (reset_election_timeout s) = signals s" "sm_applied (reset_election_timeout s) = sm_applied s"
  "workers (reset_election_timeout s) = workers s" "sm_reply (reset_election_timeout s) = sm_reply s"
  by (simp_all add: reset_election_timeout_def now_def uniform_int_def upd_raft_def Let_def
      split: prod.splits)

lemma reset_timeout_bounds:
  assumes "0 < heartbeat_ms (raft s)"
  shows "clock (env s) (ticks (env s)) + 20 * milliseconds (heartbeat_ms (raft s)) \<le>
      election_timeout (raft (reset_election_timeout s)) \<and>
    election_timeout (raft (reset_election_timeout s)) <
      clock (env s) (ticks (env s)) + 30 * milliseconds (heartbeat_ms (raft s))"
proof -
  let ?h = "heartbeat_ms (raft s)" and ?r = "rng (env s) (draws (env s))"
  have "election_timeout (raft (reset_election_timeout s)) =
    clock (env s) (ticks (env s)) + milliseconds (?r mod (?h * 10) + ?h * 20)"
    using assms by (simp add: reset_election_timeout_def now_def uniform_int_def upd_raft_def
        kElectionTimeoutJitterMult_def kElectionTimeoutMinMult_def Let_def)
  moreover have "0 \<le> ?r mod (?h * 10)" "?r mod (?h * 10) < ?h * 10"
    using assms by simp_all
  ultimately show ?thesis by (simp add: milliseconds_def)
qed

text \<open>
  Resetting the election timer sets it at least 20 and less than 30 heartbeats after the
  clock reading, whatever the random engine returns.
\<close>

theorem reset_election_timeout_range:
  assumes "0 < heartbeat_ms (raft s)"
  shows "clock (env s) (ticks (env s)) + 20 * milliseconds (heartbeat_ms (raft s)) \<le>
      election_timeout (raft (reset_election_timeout s)) \<and>
    election_timeout (raft (reset_election_timeout s)) <
      clock (env s) (ticks (env s)) + 30 * milliseconds (heartbeat_ms (raft s))"
  by (rule reset_timeout_bounds [OF assms])

theorem reset_election_timeout_range_witness:
  "1000000000 \<le> election_timeout (raft (reset_election_timeout sample_node)) \<and>
   election_timeout (raft (reset_election_timeout sample_node)) < 1500000000"
  using reset_election_timeout_range [of sample_node] by (simp add: sample_defs milliseconds_def)

section \<open>Votes\<close>

text \<open>The node's own slot of the membership table exists.\<close>

definition wf_cluster :: "raft_state \<Rightarrow> bool" where
  "wf_cluster r \<longleftrightarrow> 0 \<le> cluster_index r \<and> cluster_index r < int (length (cluster r))"

definition my_vote :: "server \<Rightarrow> u64" where
  "my_vote s = voted_for (cluster (raft s) ! nat (cluster_index (raft s)))"

lemma get_voted_for_eq: "wf_cluster (raft s) \<Longrightarrow> get_voted_for s = Ret (my_vote s)"
  by (simp add: get_voted_for_def cluster_at_def wf_cluster_def my_vote_def)

lemma set_voted_for_eq:
  "wf_cluster (raft s) \<Longrightarrow> set_voted_for v s =
     (Ret (), update_member (nat (cluster_index (raft s))) (\<lambda>m. m\<lparr>voted_for := v\<rparr>) s)"
  by (simp add: set_voted_for_def cluster_at_def wf_cluster_def)

lemma update_member_fields [simp]:
  "ring (update_member i f s) = ring s" "io (update_member i f s) = io s"
  "current_term (raft (update_member i f s)) = current_term (raft s)"
  "rlog (raft (update_member i f s)) = rlog (raft s)"
  "role (raft (update_member i f s)) = role (raft s)"
  "node_id (raft (update_member i f s)) = node_id (raft s)"
  "commit_index (raft (update_member i f s)) = commit_index (raft s)"
  "last_applied (raft (update_member i f s)) = last_applied (raft s)"
  "cluster_index (raft (update_member i f s)) = cluster_index (raft s)"
  "cluster (raft (update_member i f s)) = (cluster (raft s))[i := f (cluster (raft s) ! i)]"
  by (simp_all add: update_member_def)

lemma wf_cluster_update_member [simp]:
  "wf_cluster (raft (update_member i f s)) = wf_cluster (raft s)"
  by (simp add: wf_cluster_def)

text \<open>
  The persistent voting state only moves forward: to a higher term, or within a term from no vote
  to a vote that then stays.
\<close>

definition vote_le :: "server \<Rightarrow> server \<Rightarrow> bool" where
  "vote_le s t \<longleftrightarrow> current_term (raft s) < current_term (raft t) \<or>
     current_term (raft s) = current_term (raft t) \<and> (my_vote s = 0 \<or> my_vote t = my_vote s)"

lemma vote_le_refl [simp]: "vote_le s s"
  by (simp add: vote_le_def)

lemma vote_le_trans: "vote_le s t \<Longrightarrow> vote_le t u \<Longrightarrow> vote_le s u"
  by (auto simp: vote_le_def)

lemma vote_le_same:
  "current_term (raft t) = current_term (raft s) \<Longrightarrow> my_vote t = my_vote s \<Longrightarrow> vote_le s t"
  by (simp add: vote_le_def)

lemma my_vote_persist [simp]: "my_vote (snd (persist_circular w n s)) = my_vote s"
  by (simp add: my_vote_def persist_fields)

lemma my_vote_reset [simp]: "my_vote (reset_election_timeout s) = my_vote s"
  by (simp add: my_vote_def)

lemma wf_cluster_nat: "wf_cluster r \<Longrightarrow> nat (cluster_index r) < length (cluster r)"
  by (auto simp: wf_cluster_def)

lemma my_vote_set:
  "wf_cluster (raft s) \<Longrightarrow>
   my_vote (update_member (nat (cluster_index (raft s))) (\<lambda>m. m\<lparr>voted_for := v\<rparr>) s) = v"
  by (simp add: my_vote_def wf_cluster_nat)

lemma andthen_const_snd:
  "(\<And>a t. snd (f a t) = t) \<Longrightarrow> snd (andthen m f) = snd m"
  by (cases m; cases "fst m") auto

lemma wf_cluster_reset [simp]: "wf_cluster (raft (reset_election_timeout s)) = wf_cluster (raft s)"
  by (simp add: wf_cluster_def)

lemma update_term_stay: "msg \<le> current_term (raft s) \<Longrightarrow> update_term msg s = (Ret False, s)"
  by (auto simp: update_term_def)

text \<open>The state \<open>update_term\<close> persists when it steps down.\<close>

definition stepped_down :: "u64 \<Rightarrow> server \<Rightarrow> server" where
  "stepped_down msg s = reset_election_timeout
     (update_member (nat (cluster_index (raft s))) (\<lambda>m. m\<lparr>voted_for := 0\<rparr>)
       (upd_raft (\<lambda>r. r\<lparr>current_term := msg, role := Follower\<rparr>) s))"

lemma update_term_step:
  assumes "wf_cluster (raft s)" "current_term (raft s) < msg"
  shows "update_term msg s =
    andthen (persist_circular False 0 (stepped_down msg s)) (\<lambda>_ s. (Ret True, s))"
proof -
  have "wf_cluster (raft (upd_raft (\<lambda>r. r\<lparr>current_term := msg, role := Follower\<rparr>) s))"
    using assms by (simp add: wf_cluster_def upd_raft_def)
  from set_voted_for_eq [OF this] assms show ?thesis
    by (simp add: update_term_def stepped_down_def Let_def) (simp add: upd_raft_def)
qed

lemma stepped_down_fields [simp]:
  "current_term (raft (stepped_down msg s)) = msg" "role (raft (stepped_down msg s)) = Follower"
  "rlog (raft (stepped_down msg s)) = rlog (raft s)" "ring (stepped_down msg s) = ring s"
  "io (stepped_down msg s) = io s" "node_id (raft (stepped_down msg s)) = node_id (raft s)"
  "commit_index (raft (stepped_down msg s)) = commit_index (raft s)"
  "last_applied (raft (stepped_down msg s)) = last_applied (raft s)"
  "cluster_index (raft (stepped_down msg s)) = cluster_index (raft s)"
  "wf_cluster (raft (stepped_down msg s)) = wf_cluster (raft s)"
  "length (cluster (raft (stepped_down msg s))) = length (cluster (raft s))"
  by (simp_all add: stepped_down_def upd_raft_def wf_cluster_def)

lemma stepped_down_vote: "wf_cluster (raft s) \<Longrightarrow> my_vote (stepped_down msg s) = 0"
  by (simp add: stepped_down_def upd_raft_def my_vote_def wf_cluster_nat)

lemma update_term_snd:
  "wf_cluster (raft s) \<Longrightarrow> snd (update_term msg s) =
     (if current_term (raft s) < msg then snd (persist_circular False 0 (stepped_down msg s)) else s)"
  by (auto simp: update_term_stay update_term_step andthen_const_snd)

text \<open>Whatever the outcome, the term is the larger one, and a change of term clears the vote.\<close>

lemma update_term_raft:
  fixes s :: server and msg :: u64
  assumes "wf_cluster (raft s)"
  defines "t \<equiv> snd (update_term msg s)"
  shows "current_term (raft t) = max msg (current_term (raft s))" "wf_cluster (raft t)"
    "rlog (raft t) = rlog (raft s)" "node_id (raft t) = node_id (raft s)"
    "commit_index (raft t) = commit_index (raft s)" "last_applied (raft t) = last_applied (raft s)"
    "cluster_index (raft t) = cluster_index (raft s)"
    "length (cluster (raft t)) = length (cluster (raft s))"
    "tail_log_index (ring t) = tail_log_index (ring s)"
    "my_vote t = (if msg > current_term (raft s) then 0 else my_vote s)"
    "role (raft t) = (if msg > current_term (raft s) then Follower else role (raft s))"
  using assms(1) unfolding t_def
  by (auto simp: update_term_snd persist_fields stepped_down_vote max_def)

lemma update_term_vote_le: "wf_cluster (raft s) \<Longrightarrow> vote_le s (snd (update_term msg s))"
  by (auto simp: vote_le_def update_term_raft max_def)

lemma update_term_Ret:
  assumes "wf_cluster (raft s)" "update_term msg s = (Ret b, t)"
  shows "b \<longleftrightarrow> msg > current_term (raft s)"
  using assms by (cases "msg \<le> current_term (raft s)")
    (auto simp: update_term_stay update_term_step not_le andthen_eq_Ret)

lemma update_term_durable:
  assumes "wf_cluster (raft s)" "wf_disk s" "header_cache_ok s" "update_term msg s = (Ret b, t)"
  shows "wf_disk t \<and> header_cache_ok t"
proof (cases "msg \<le> current_term (raft s)")
  case False
  have io: "wf_disk (stepped_down msg s)" "header_cache_ok (stepped_down msg s)"
    using assms by (simp_all add: wf_disk_def header_cache_ok_def disk_of_def stable_header_def)
  obtain ns where "persist_circular False 0 (stepped_down msg s) = (Ret ns, t)"
    using assms False by (auto simp: update_term_step not_le andthen_eq_Ret)
  with persist_header_durable [OF io] show ?thesis by blast
qed (use assms in \<open>simp add: update_term_stay\<close>)

section \<open>Granting a vote\<close>

text \<open>The state that a granted vote persists.\<close>

definition voted :: "u64 \<Rightarrow> server \<Rightarrow> server" where
  "voted cand s = reset_election_timeout
     (update_member (nat (cluster_index (raft s))) (\<lambda>m. m\<lparr>voted_for := cand\<rparr>) s)"

definition would_grant :: "request_vote_request \<Rightarrow> server \<Rightarrow> bool" where
  "would_grant req s \<longleftrightarrow> rvq_term req = current_term (raft s) \<and> log_up_to_date req s \<and>
     (my_vote s = 0 \<or> my_vote s = candidate_id req)"

lemma log_up_to_date_cong:
  "rlog (raft t) = rlog (raft s) \<Longrightarrow> tail_log_index (ring t) = tail_log_index (ring s) \<Longrightarrow>
   log_up_to_date req t = log_up_to_date req s"
  unfolding log_up_to_date_def last_term_def by (simp only:)

lemma handle_request_vote_cases:
  assumes "wf_cluster (raft s)"
  shows "handle_request_vote_request req s = andthen (update_term (rvq_term req) s) (\<lambda>_ t.
    if would_grant req t
    then andthen (persist_circular False 0 (voted (candidate_id req) t))
           (\<lambda>_ u. (Ret \<lparr>rvr_term = current_term (raft t), vote_granted = True\<rparr>, u))
    else (Ret \<lparr>rvr_term = current_term (raft t), vote_granted = False\<rparr>, t))"
proof (cases "update_term (rvq_term req) s")
  case (Pair r t)
  then have "wf_cluster (raft t)" using update_term_raft(2) [OF assms, of "rvq_term req"] by simp
  with Pair show ?thesis
    by (cases r) (auto simp: handle_request_vote_request_def would_grant_def get_voted_for_eq
        set_voted_for_eq voted_def Let_def)
qed

lemma voted_fields [simp]:
  "current_term (raft (voted c s)) = current_term (raft s)" "role (raft (voted c s)) = role (raft s)"
  "rlog (raft (voted c s)) = rlog (raft s)" "ring (voted c s) = ring s" "io (voted c s) = io s"
  "node_id (raft (voted c s)) = node_id (raft s)"
  "commit_index (raft (voted c s)) = commit_index (raft s)"
  "last_applied (raft (voted c s)) = last_applied (raft s)"
  "cluster_index (raft (voted c s)) = cluster_index (raft s)"
  "wf_cluster (raft (voted c s)) = wf_cluster (raft s)"
  "length (cluster (raft (voted c s))) = length (cluster (raft s))"
  by (simp_all add: voted_def wf_cluster_def)

lemma voted_vote: "wf_cluster (raft s) \<Longrightarrow> my_vote (voted c s) = c"
  by (simp add: voted_def my_vote_set)

lemma handle_request_vote_vote_le:
  assumes "wf_cluster (raft s)"
  shows "vote_le s (snd (handle_request_vote_request req s))"
proof -
  let ?m = "update_term (rvq_term req) s"
  have t: "vote_le s (snd ?m)" "wf_cluster (raft (snd ?m))"
    using update_term_vote_le [OF assms] update_term_raft(2) [OF assms] by simp_all
  have "vote_le t (snd (andthen (persist_circular False 0 (voted (candidate_id req) t))
      (\<lambda>_ u. (Ret \<lparr>rvr_term = current_term (raft t), vote_granted = True\<rparr>, u))))"
    if "would_grant req t" "wf_cluster (raft t)" for t
    using that by (auto simp: andthen_const_snd vote_le_def persist_fields voted_vote would_grant_def)
  with t show ?thesis
    unfolding handle_request_vote_cases [OF assms]
    by (cases ?m; cases "fst ?m") (auto intro: vote_le_trans)
qed

lemma update_term_healthy:
  assumes "wf_cluster (raft s)" "io_healthy s"
  shows "\<exists>b t. update_term msg s = (Ret b, t) \<and> io_healthy t"
proof (cases "msg \<le> current_term (raft s)")
  case False
  have "io_healthy (stepped_down msg s)" using assms(2) by (simp add: io_healthy_def disk_of_def)
  moreover have "get_voted_for (stepped_down msg s) = Ret (my_vote (stepped_down msg s))"
    using assms(1) by (intro get_voted_for_eq) simp
  ultimately obtain ns t where "persist_circular False 0 (stepped_down msg s) = (Ret ns, t)"
    "io_healthy t" using persist_circular_returns [unfolded returns_def] by blast
  with False assms(1) show ?thesis by (auto simp: update_term_step not_le)
qed (use assms in \<open>auto simp: update_term_stay\<close>)

definition may_vote :: "request_vote_request \<Rightarrow> server \<Rightarrow> bool" where
  "may_vote req s \<longleftrightarrow> current_term (raft s) \<le> rvq_term req \<and> log_up_to_date req s \<and>
     (current_term (raft s) < rvq_term req \<or> my_vote s = 0 \<or> my_vote s = candidate_id req)"

lemma vote_handler_result:
  assumes wf: "wf_cluster (raft s)" and io: "io_healthy s"
  shows "\<exists>rsp t. handle_request_vote_request req s = (Ret rsp, t) \<and> io_healthy t \<and>
    (vote_granted rsp \<longleftrightarrow> may_vote req s) \<and>
    rvr_term rsp = max (rvq_term req) (current_term (raft s)) \<and> current_term (raft t) = rvr_term rsp \<and>
    my_vote t = (if vote_granted rsp then candidate_id req
                 else if rvq_term req > current_term (raft s) then 0 else my_vote s)"
proof -
  obtain b u where u: "update_term (rvq_term req) s = (Ret b, u)" and iou: "io_healthy u"
    using update_term_healthy [OF wf io] by blast
  note ur = update_term_raft [OF wf, of "rvq_term req", unfolded u snd_conv]
  have w: "would_grant req u \<longleftrightarrow> may_vote req s"
    using ur(1,10) log_up_to_date_cong [OF ur(3,9)]
    by (auto simp: would_grant_def may_vote_def max_def split: if_splits)
  show ?thesis
  proof (cases "would_grant req u")
    case True
    let ?v = "voted (candidate_id req) u"
    have "io_healthy ?v" "get_voted_for ?v = Ret (my_vote ?v)"
      using iou ur(2) by (simp_all add: io_healthy_def disk_of_def get_voted_for_eq)
    then obtain ns t where p: "persist_circular False 0 ?v = (Ret ns, t)" and iot: "io_healthy t"
      using persist_circular_returns [unfolded returns_def] by blast
    have "my_vote t = candidate_id req" "current_term (raft t) = current_term (raft u)"
      using my_vote_persist [of False 0 ?v] persist_fields(10) [of False 0 ?v] p voted_vote [OF ur(2)]
      by simp_all
    with True p iot w ur(1) u show ?thesis by (simp add: handle_request_vote_cases [OF wf])
  next
    case False
    with iou w ur(1,10) u show ?thesis by (simp add: handle_request_vote_cases [OF wf])
  qed
qed

text \<open>
  C36. When the system calls succeed, the vote handler answers every request; it grants exactly
  the requests of a current or later term, from a candidate whose log is up to date, when no
  other vote was given in that term; the answer carries the larger term; and the node's vote
  afterwards is the candidate on a grant, cleared on a new term, unchanged otherwise.
\<close>

theorem vote_decision:
  assumes wf: "wf_cluster (raft s)" and io: "io_healthy s"
  shows "\<exists>rsp t. handle_request_vote_request req s = (Ret rsp, t) \<and> io_healthy t \<and>
    (vote_granted rsp \<longleftrightarrow> may_vote req s) \<and>
    rvr_term rsp = max (rvq_term req) (current_term (raft s)) \<and> current_term (raft t) = rvr_term rsp \<and>
    my_vote t = (if vote_granted rsp then candidate_id req
                 else if rvq_term req > current_term (raft s) then 0 else my_vote s)"
  by (rule vote_handler_result [OF assms])

definition sample_vote :: request_vote_request where
  "sample_vote = \<lparr>rvq_term = 2, candidate_id = 3, last_log_index = 2, last_log_term = 1\<rparr>"

lemma sample_wf_cluster: "wf_cluster (raft sample_node)"
  by (simp add: wf_cluster_def)

lemmas sample_node_ok = sample_wf_cluster sample_io_ok

lemma sample_may_vote: "may_vote sample_vote sample_node"
  by (simp add: sample_defs may_vote_def sample_vote_def log_up_to_date_def last_term_def my_vote_def)

theorem vote_decision_witness:
  "\<exists>rsp t. handle_request_vote_request sample_vote sample_node = (Ret rsp, t) \<and>
     vote_granted rsp \<and> my_vote t = 3"
  using vote_decision [OF sample_node_ok(1,2), of sample_vote] sample_may_vote
  by (auto simp: sample_vote_def)

text \<open>
  What a header persist that returns has done to the device: it has made the term and the vote
  stable, or it has trusted the cache of the persisted fields and touched nothing.
\<close>

lemma persist_header_exact:
  assumes wf: "wf_disk s" and v: "get_voted_for s = Ret v"
    and run: "persist_circular False n s = (Ret ns, t)"
  shows "if needs_header (current_term (raft s)) v (ring s)
    then wf_disk t \<and> header_cache_ok t \<and> stable_header t = (current_term (raft s), v) \<and>
      persisted_init (ring t) \<and> persisted_term (ring t) = current_term (raft s) \<and> persisted_voted_for (ring t) = v
    else t = s"
proof (cases "needs_header (current_term (raft s)) v (ring s)")
  case False
  with run v show ?thesis by (auto simp: persist_circular_def Let_def)
next
  case True
  then obtain hns u sns where h: "persist_header (current_term (raft s)) v s = (Ret hns, u)"
    and y: "with_fd fdatasync u = (Ret sns, t)"
    using run v by (auto simp: persist_circular_def Let_def andthen_eq_Ret)
  obtain c c' where c: "cached_fd (io u) = Some c" and f: "fdatasync c = (Ret sns, c')"
    and t: "t = u\<lparr>io := (io u)\<lparr>cached_fd := Some c'\<rparr>\<rparr>"
    by (rule with_fd_Ret [OF y])
  show ?thesis
    using True persist_header_Ret [OF wf h] c
    by (auto simp: t fdatasync_Ret [OF f] wf_disk_def disk_of_def header_cache_ok_def stable_header_def)
qed

lemma stepped_down_disk [simp]:
  "disk_of (stepped_down m s) = disk_of s" "wf_disk (stepped_down m s) = wf_disk s"
  "disk_of (voted c s) = disk_of s" "wf_disk (voted c s) = wf_disk s"
  "header_cache_ok (voted c s) = header_cache_ok s" "header_cache_ok (stepped_down m s) = header_cache_ok s"
  by (simp_all add: disk_of_def wf_disk_def header_cache_ok_def stable_header_def)

text \<open>A step down either trusts the cache or leaves a cache that says what is stable.\<close>

lemma update_term_exact:
  assumes wf: "wf_cluster (raft s)" "wf_disk s" and run: "update_term msg s = (Ret b, t)"
  shows "wf_disk t \<and> (ring t = ring s \<and> disk_of t = disk_of s \<or> header_cache_ok t)"
proof (cases "msg \<le> current_term (raft s)")
  case False
  then obtain ns where p: "persist_circular False 0 (stepped_down msg s) = (Ret ns, t)"
    using wf(1) run by (auto simp: update_term_step not_le andthen_eq_Ret)
  have "get_voted_for (stepped_down msg s) = Ret 0"
    using wf(1) by (simp add: get_voted_for_eq stepped_down_vote)
  from persist_header_exact [OF _ this p] wf(2) show ?thesis by (auto split: if_splits)
qed (use wf run in \<open>simp add: update_term_stay\<close>)

text \<open>
  C4. What a granted vote has made durable, whatever the system calls do: when the handler returns
  a grant, the node is in the request's term, its vote is the candidate, the candidate's log was up
  to date, and either the header on stable storage holds that term and vote, or the handler found
  them in the cache of the persisted header fields and left the device as it was. When the cache
  told the truth before the request, the term and the vote are stable, and the cache is still true.
\<close>

theorem grant_durable:
  assumes wf: "wf_cluster (raft s)" "wf_disk s"
    and run: "handle_request_vote_request req s = (Ret rsp, t)" and g: "vote_granted rsp"
  shows "rvr_term rsp = rvq_term req \<and> current_term (raft t) = rvq_term req \<and>
    my_vote t = candidate_id req \<and> log_up_to_date req s \<and> wf_disk t \<and>
    (stable_header t = (rvq_term req, candidate_id req) \<or>
     persisted_init (ring s) \<and> persisted_term (ring s) = rvq_term req \<and>
     persisted_voted_for (ring s) = candidate_id req \<and> disk_of t = disk_of s) \<and>
    (header_cache_ok s \<longrightarrow> stable_header t = (rvq_term req, candidate_id req) \<and> header_cache_ok t)"
proof -
  obtain b u where u: "update_term (rvq_term req) s = (Ret b, u)"
    and rest: "(if would_grant req u
      then andthen (persist_circular False 0 (voted (candidate_id req) u))
             (\<lambda>_ u'. (Ret \<lparr>rvr_term = current_term (raft u), vote_granted = True\<rparr>, u'))
      else (Ret \<lparr>rvr_term = current_term (raft u), vote_granted = False\<rparr>, u)) = (Ret rsp, t)"
    using run unfolding handle_request_vote_cases [OF wf(1)] andthen_eq_Ret by blast
  have wu: "wf_cluster (raft u)" "rlog (raft u) = rlog (raft s)"
    "tail_log_index (ring u) = tail_log_index (ring s)"
    using update_term_raft(2,3,9) [OF wf(1), of "rvq_term req"] u by simp_all
  have gr: "would_grant req u" using rest g by (auto split: if_splits)
  then obtain ns where p: "persist_circular False 0 (voted (candidate_id req) u) = (Ret ns, t)"
    and rsp: "rsp = \<lparr>rvr_term = current_term (raft u), vote_granted = True\<rparr>"
    using rest by (auto simp: andthen_eq_Ret)
  have t: "raft t = raft (voted (candidate_id req) u)"
    using persist_fields(10) [of False 0 "voted (candidate_id req) u"] p by simp
  then have v: "my_vote t = candidate_id req" using voted_vote [OF wu(1)] by (simp add: my_vote_def)
  have l: "log_up_to_date req s" and T: "current_term (raft u) = rvq_term req"
    using gr log_up_to_date_cong [OF wu(2,3)] by (simp_all add: would_grant_def)
  have du: "wf_disk u" "ring u = ring s \<and> disk_of u = disk_of s \<or> header_cache_ok u"
    using update_term_exact [OF wf u] by simp_all
  have "get_voted_for (voted (candidate_id req) u) = Ret (candidate_id req)"
    using wu(1) by (simp add: get_voted_for_eq voted_vote)
  note e = persist_header_exact [OF _ this p, simplified, OF du(1)]
  have "stable_header t = (rvq_term req, candidate_id req) \<and> header_cache_ok t" if "header_cache_ok u"
    using that e T by (auto simp: needs_header_def header_cache_ok_def stable_header_def Let_def split: if_splits)
  moreover have "header_cache_ok u" if "header_cache_ok s"
    using that update_term_durable [OF wf _ u] by simp
  ultimately show ?thesis
    using du e T t v l rsp by (auto simp: needs_header_def split: if_splits)
qed

theorem grant_durable_witness:
  "\<exists>rsp t. handle_request_vote_request sample_vote sample_node = (Ret rsp, t) \<and>
     vote_granted rsp \<and> stable_header t = (2, 3)"
proof -
  obtain rsp t where run: "handle_request_vote_request sample_vote sample_node = (Ret rsp, t)"
    and g: "vote_granted rsp"
    using vote_handler_result [OF sample_node_ok(1,2), of sample_vote] sample_may_vote by blast
  from grant_durable [OF sample_node_ok(1) sample_wf_disk run g] sample_node_ok(3) run g
  show ?thesis by (auto simp: sample_vote_def)
qed

lemma with_fd_Exc:
  assumes "with_fd f s = (Exc e, t)"
  obtains c c' where "cached_fd (io s) = Some c" "f c = (Exc e, c')"
    "t = s\<lparr>io := (io s)\<lparr>cached_fd := Some c'\<rparr>\<rparr>"
  using assms by (auto simp: with_fd_def Let_def split: option.splits prod.splits)

text \<open>A header persist whose \<open>fdatasync\<close> fails has updated the cache, and nothing is stable.\<close>

lemma persist_failed_sync:
  assumes v: "get_voted_for s = Ret v"
    and run: "persist_circular False n s = (Exc ''CachedFD::fdatasync'', t)"
  shows "\<not> needs_header (current_term (raft s)) v (ring t) \<and> stable_header t = stable_header s"
proof -
  have w: "fst (write_at_file d off c) \<noteq> Exc ''CachedFD::fdatasync''" for d off c
    by (auto simp: write_at_file_def syscall_def Let_def split: option.splits)
  have "fst (persist_header (current_term (raft s)) v s) \<noteq> Exc ''CachedFD::fdatasync''"
    using w by (auto simp: persist_header_def with_fd_def andthen_def split: option.splits prod.splits outcome.splits)
      (metis fst_conv)
  then obtain ns u where h: "persist_header (current_term (raft s)) v s = (Ret ns, u)"
    and y: "with_fd fdatasync u = (Exc ''CachedFD::fdatasync'', t)"
    using run v by (auto simp: persist_circular_def Let_def andthen_def split: if_splits outcome.splits prod.splits)
  obtain c c' where c: "cached_fd (io u) = Some c" "fdatasync c = (Exc ''CachedFD::fdatasync'', c')"
    "t = u\<lparr>io := (io u)\<lparr>cached_fd := Some c'\<rparr>\<rparr>" by (rule with_fd_Exc [OF y])
  obtain u' where w: "with_fd (write_at_file (encode_header (current_term (raft s)) v s) 0) s = (Ret ns, u')"
    and u: "u = upd_ring (\<lambda>g. g\<lparr>persisted_init := True, persisted_term := current_term (raft s),
       persisted_voted_for := v\<rparr>) u'"
    using h by (auto simp: persist_header_def andthen_eq_Ret)
  obtain b b' where b: "cached_fd (io s) = Some b"
    "write_at_file (encode_header (current_term (raft s)) v s) 0 b = (Ret ns, b')"
    "u' = s\<lparr>io := (io s)\<lparr>cached_fd := Some b'\<rparr>\<rparr>" by (rule with_fd_Ret [OF w])
  show ?thesis
    using c b write_at_file_Ret [OF b(2)] unfolding u
    by (auto simp: upd_ring_def needs_header_def stable_header_def disk_of_def fdatasync_def syscall_def Let_def split: if_splits)
qed

text \<open>The sample node on a device whose second system call fails, and a request of its own term.\<close>

definition unsynced_node :: server where
  "unsynced_node = sample_node\<lparr>io := (io sample_node)\<lparr>cached_fd :=
     Some (sample_fd\<lparr>fd_disk := (fd_disk sample_fd)\<lparr>script := (\<lambda>n. (if n = 1 then IoFail else IoOk, 5))\<rparr>\<rparr>)\<rparr>\<rparr>"

definition retried_vote :: request_vote_request where
  "retried_vote = \<lparr>rvq_term = 1, candidate_id = 3, last_log_index = 2, last_log_term = 1\<rparr>"

text \<open>
  A vote can be granted without being durable: when the \<open>fdatasync\<close> of a grant fails, the
  handler answers with the error, and the same request, sent again, is granted although the header
  on stable storage is still the one from before both requests.
\<close>

theorem failed_sync_grant:
  assumes wf: "wf_cluster (raft s)" and same: "rvq_term req = current_term (raft s)"
    and run: "handle_request_vote_request req s = (Exc ''CachedFD::fdatasync'', u)"
  shows "\<exists>t. handle_request_vote_request req u = (Ret \<lparr>rvr_term = rvq_term req, vote_granted = True\<rparr>, t) \<and>
    my_vote t = candidate_id req \<and> stable_header t = stable_header s"
proof -
  let ?v = "voted (candidate_id req) s"
  have p: "persist_circular False 0 ?v = (Exc ''CachedFD::fdatasync'', u)" and g: "would_grant req s"
    using run same unfolding handle_request_vote_cases [OF wf]
    by (cases "persist_circular False 0 ?v"; cases "fst (persist_circular False 0 ?v)";
        auto simp: update_term_stay split: if_splits)+
  have "get_voted_for ?v = Ret (candidate_id req)" using wf by (simp add: get_voted_for_eq voted_vote)
  from persist_failed_sync [OF this p]
  have n: "\<not> needs_header (current_term (raft s)) (candidate_id req) (ring u)"
    and h: "stable_header u = stable_header s" by (simp_all add: stable_header_def)
  have r: "raft u = raft ?v" "tail_log_index (ring u) = tail_log_index (ring s)"
    using persist_fields(8,10) [of False 0 ?v] p by simp_all
  then have wu: "wf_cluster (raft u)" "my_vote u = candidate_id req" "current_term (raft u) = current_term (raft s)"
    using wf voted_vote [OF wf, of "candidate_id req"] by (simp_all add: my_vote_def)
  have "log_up_to_date req u = log_up_to_date req s" by (rule log_up_to_date_cong) (use r in simp_all)
  then have gu: "would_grant req u" using g wu same by (simp add: would_grant_def)
  have "get_voted_for (voted (candidate_id req) u) = Ret (candidate_id req)"
    using wu by (simp add: get_voted_for_eq voted_vote)
  then have "persist_circular False 0 (voted (candidate_id req) u) = (Ret 0, voted (candidate_id req) u)"
    using n wu by (simp add: persist_circular_def Let_def)
  with gu wu same h show ?thesis
    by (simp add: handle_request_vote_cases update_term_stay voted_vote) (simp add: stable_header_def)
qed

lemma unsynced_fields:
  "wf_cluster (raft unsynced_node)" "would_grant retried_vote unsynced_node"
  "stable_header unsynced_node = (0, 0)"
proof -
  have "file_load xs off n (\<lambda>_. 0) = replicate n 0" for xs off n
    by (rule nth_equalityI) (auto simp: file_load_def split: option.splits)
  moreover have "get_u64_le (replicate 512 0) off = 0" if "off \<le> 504" for off
    using that by (intro bit_word_eqI) (auto simp: bit_get_u64_le)
  ultimately show "stable_header unsynced_node = (0, 0)"
    by (simp add: stable_header_def header_on_def disk_of_def unsynced_node_def sample_fd_def Let_def file_hdr_defs)
qed (simp_all add: unsynced_node_def retried_vote_def would_grant_def wf_cluster_def log_up_to_date_def last_term_def my_vote_def
    ClusterMember_def)

lemma unsynced_fails:
  "\<exists>u. handle_request_vote_request retried_vote unsynced_node = (Exc ''CachedFD::fdatasync'', u)"
proof -
  have "needs_header 1 3 (ring (voted 3 unsynced_node))" by (simp add: needs_header_def unsynced_node_def)
  moreover have "get_voted_for (voted 3 unsynced_node) = Ret 3" using unsynced_fields(1)
    by (simp add: get_voted_for_eq voted_vote)
  ultimately have "\<exists>u. persist_circular False 0 (voted 3 unsynced_node) = (Exc ''CachedFD::fdatasync'', u)"
    by (simp add: persist_circular_def persist_header_def with_fd_def write_at_file_def fdatasync_def syscall_def
        transferred_def unsynced_node_def sample_fd_def upd_ring_def Let_def)
  with unsynced_fields(1,2) show ?thesis
    by (auto simp: handle_request_vote_cases update_term_stay retried_vote_def unsynced_node_def)
qed

theorem failed_sync_grant_witness:
  "\<exists>u t. handle_request_vote_request retried_vote unsynced_node = (Exc ''CachedFD::fdatasync'', u) \<and>
     handle_request_vote_request retried_vote u = (Ret \<lparr>rvr_term = 1, vote_granted = True\<rparr>, t) \<and>
     my_vote t = 3 \<and> stable_header t = (0, 0)"
proof -
  obtain u where u: "handle_request_vote_request retried_vote unsynced_node = (Exc ''CachedFD::fdatasync'', u)"
    using unsynced_fails by blast
  have "rvq_term retried_vote = current_term (raft unsynced_node)" by (simp add: retried_vote_def unsynced_node_def)
  from failed_sync_grant [OF unsynced_fields(1) this u] u unsynced_fields(3) show ?thesis
    by (auto simp: retried_vote_def)
qed

section \<open>Candidates\<close>

lemma now_fields [simp]:
  "raft (snd (now s)) = raft s" "ring (snd (now s)) = ring s" "io (snd (now s)) = io s"
  by (simp_all add: now_def)

text \<open>The state \<open>timeout\<close> persists when the timer has expired.\<close>

definition candidacy :: "server \<Rightarrow> server" where
  "candidacy s = reset_election_timeout (upd_raft (\<lambda>r. r\<lparr>role := Candidate,
     current_term := current_term r + 1,
     cluster := map (\<lambda>(i, m). m\<lparr>voted_for := (if int i = cluster_index r then node_id r else 0)\<rparr>)
       (enumerate 0 (cluster r))\<rparr>) (snd (now s)))"

lemma timeout_cases:
  "timeout s = (if fst (now s) > election_timeout (raft s)
     then andthen (persist_circular False 0 (candidacy s)) (\<lambda>_ s. (Ret (), request_vote s))
     else (Ret (), snd (now s)))"
  by (auto simp: timeout_def candidacy_def now_def Let_def)

lemma candidacy_fields:
  assumes "wf_cluster (raft s)"
  shows "current_term (raft (candidacy s)) = current_term (raft s) + 1"
    "role (raft (candidacy s)) = Candidate" "my_vote (candidacy s) = node_id (raft s)"
    "wf_cluster (raft (candidacy s))"
    "\<And>i. i < length (cluster (raft s)) \<Longrightarrow> int i \<noteq> cluster_index (raft s) \<Longrightarrow>
       voted_for (cluster (raft (candidacy s)) ! i) = 0"
  using assms wf_cluster_nat [OF assms]
  by (auto simp: candidacy_def upd_raft_def my_vote_def wf_cluster_def nth_enumerate_eq)

lemma u64_Suc_gt: "unat (t :: u64) + 1 < 18446744073709551616 \<Longrightarrow> t < t + 1"
  using unat_u64_add [of t 1] by (simp add: word_less_nat_alt)

lemma timeout_vote_le:
  assumes "wf_cluster (raft s)" "unat (current_term (raft s)) + 1 < 18446744073709551616"
  shows "vote_le s (snd (timeout s))"
proof (cases "fst (now s) > election_timeout (raft s)")
  case True
  have "current_term (raft (snd (andthen (persist_circular False 0 (candidacy s))
      (\<lambda>_ s. (Ret (), request_vote s))))) = current_term (raft s) + 1"
    using persist_fields(10) [of False 0 "candidacy s"] candidacy_fields(1) [OF assms(1)]
    by (cases "persist_circular False 0 (candidacy s)"; cases "fst (persist_circular False 0 (candidacy s))")
      auto
  with True u64_Suc_gt [OF assms(2)] show ?thesis by (simp add: timeout_cases vote_le_def)
qed (simp add: timeout_cases vote_le_def my_vote_def)

lemma request_vote_finish_vote_le:
  assumes "wf_cluster (raft s)" "int i \<noteq> cluster_index (raft s)"
  shows "vote_le s (snd (request_vote_finish i req rsp s))"
proof (cases rsp)
  case (Some r)
  let ?m = "update_term (rvr_term r) s"
  have t: "vote_le s (snd ?m)" "cluster_index (raft (snd ?m)) = cluster_index (raft s)"
    "wf_cluster (raft (snd ?m))"
    using update_term_vote_le [OF assms(1)] update_term_raft(2,7) [OF assms(1)] by simp_all
  have ne: "i \<noteq> nat (cluster_index (raft (snd ?m)))"
    using assms t(2) by (auto simp: wf_cluster_def)
  have "vote_le (snd ?m) (update_member i (\<lambda>m. m\<lparr>voted_for := v\<rparr>) (snd ?m))" for v
    using ne by (intro vote_le_same) (simp_all add: my_vote_def)
  with t(1) Some show ?thesis
    by (cases ?m; cases "fst ?m") (auto simp: request_vote_finish_def intro: vote_le_trans)
qed (simp add: request_vote_finish_def)

section \<open>Becoming leader\<close>

definition votes :: "raft_state \<Rightarrow> nat" where
  "votes r = length (filter (\<lambda>m. voted_for m = node_id r) (cluster r))"

lemma quorum_missing_votes: "quorum_missing r = length (cluster r) div 2 + 1 - votes r"
proof -
  have "fold (\<lambda>m q. if voted_for m = i \<and> q > 0 then q - 1 else q) ms q =
    q - length (filter (\<lambda>m. voted_for m = i) ms)" for i ms and q :: nat
    by (induction ms arbitrary: q) auto
  then show ?thesis by (simp add: quorum_missing_def votes_def)
qed

lemma quorum_majority: "quorum_missing r = 0 \<longleftrightarrow> length (cluster r) < 2 * votes r"
  unfolding quorum_missing_votes by linarith

lemma with_fd_fields:
  "raft (snd (with_fd f s)) = raft s" "ring (snd (with_fd f s)) = ring s"
  "sm_applied (snd (with_fd f s)) = sm_applied s"
  by (auto simp: with_fd_def split: option.splits prod.splits)

lemma read_slot_page_fields:
  "raft (snd (read_slot_page slot s)) = raft s" "ring (snd (read_slot_page slot s)) = ring s"
  "sm_applied (snd (read_slot_page slot s)) = sm_applied s"
  by (auto simp: read_slot_page_def Let_def andthen_const_snd with_fd_fields split: outcome.splits)

lemma read_payload_fields:
  "raft (snd (read_payload js h c cmd s)) = raft s \<and> ring (snd (read_payload js h c cmd s)) = ring s \<and>
   sm_applied (snd (read_payload js h c cmd s)) = sm_applied s"
proof (induction js arbitrary: cmd s)
  case (Cons i js)
  show ?case
    using read_slot_page_fields [of "(h + i) mod ring_slots (ring s)" s]
    by (cases "read_slot_page ((h + i) mod ring_slots (ring s)) s";
        cases "fst (read_slot_page ((h + i) mod ring_slots (ring s)) s)")
      (auto simp: Let_def Cons.IH)
qed simp

lemma read_entry_direct_fields:
  "raft (snd (read_entry_direct h s)) = raft s \<and> ring (snd (read_entry_direct h s)) = ring s \<and>
   sm_applied (snd (read_entry_direct h s)) = sm_applied s"
  unfolding read_entry_direct_def Let_def
proof (rule andthen_state, goal_cases)
  case 1
  then show ?case by (simp add: read_slot_page_fields)
next
  case (2 header)
  then show ?case
    by (auto intro!: andthen_state [where P = "\<lambda>t. raft t = raft s \<and> ring t = ring s \<and> sm_applied t = sm_applied s"]
        simp: read_slot_page_fields read_payload_fields make_entry_def)
qed

text \<open>Loading deferred commands changes commands only: the terms and the indices stay.\<close>

lemma load_deferred_fields:
  "map e_term (rlog (raft (snd (load_deferred js s)))) = map e_term (rlog (raft s)) \<and>
   raft (snd (load_deferred js s)) = (raft s)\<lparr>rlog := rlog (raft (snd (load_deferred js s)))\<rparr> \<and>
   ring (snd (load_deferred js s)) = ring s \<and> sm_applied (snd (load_deferred js s)) = sm_applied s"
proof (induction js arbitrary: s)
  case (Cons i js)
  let ?e = "rlog (raft s) ! i"
  show ?case
  proof (cases "command ?e = [] \<and> ring_slot ?e \<noteq> 0")
    case True
    obtain r t where rt: "read_entry_direct (ring_slot ?e) s = (r, t)" by fastforce
    with read_entry_direct_fields [of "ring_slot ?e" s]
    have t: "raft t = raft s" "ring t = ring s" "sm_applied t = sm_applied s" by auto
    have m: "map e_term (xs[i := (xs ! i)\<lparr>command := c, ring_slot := 0\<rparr>]) = map e_term xs" for xs c
      by (cases "i < length xs") (simp_all add: map_update list_update_same_conv list_update_beyond not_less)
    show ?thesis
    proof (cases r)
      case (Ret p)
      obtain e' n where p: "p = (e', n)" by fastforce
      let ?u = "upd_raft (\<lambda>r. r\<lparr>rlog := (rlog r)[i := (rlog r ! i)\<lparr>command := command e', ring_slot := 0\<rparr>]\<rparr>) t"
      have "load_deferred (i # js) s = load_deferred js ?u"
        using True rt Ret p by simp
      with Cons.IH [of ?u] t m show ?thesis by (simp add: upd_raft_def)
    qed (use True rt t Cons.IH [of t] in auto)
  next
    case False
    then have "load_deferred (i # js) s = load_deferred js s" by auto
    with Cons.IH show ?thesis by simp
  qed
qed simp

lemma apply_on_promotion_fields:
  "rlog (raft (snd (apply_on_promotion oldest s))) = rlog (raft s) \<and>
   raft (snd (apply_on_promotion oldest s)) =
     (raft s)\<lparr>last_applied := last_applied (raft (snd (apply_on_promotion oldest s)))\<rparr> \<and>
   ring (snd (apply_on_promotion oldest s)) = ring s \<and>
   last_applied (raft s) \<le> last_applied (raft (snd (apply_on_promotion oldest s)))"
proof (induction oldest s rule: apply_on_promotion.induct)
  case (1 oldest s)
  show ?case
  proof (cases "apply_ready oldest s")
    case ready: True
    show ?thesis
    proof (cases "log_at s (last_applied (raft s))")
      case (Ret e)
      let ?s = "if command e \<noteq> [] then snd (sm_apply (command e) s) else s"
      let ?u = "upd_raft (\<lambda>r. r\<lparr>last_applied := last_applied r + 1\<rparr>) ?s"
      have step: "apply_on_promotion oldest s = apply_on_promotion oldest ?u"
        using ready Ret by (subst apply_on_promotion.simps) (simp add: Let_def)
      have u: "raft ?u = (raft s)\<lparr>last_applied := last_applied (raft s) + 1\<rparr>" "ring ?u = ring s"
        by (simp_all add: upd_raft_def sm_apply_def)
      have "unat (last_applied (raft s)) < unat (tail_log_index (ring s))"
        using ready by (simp add: apply_ready_def word_less_nat_alt)
      then have "last_applied (raft s) \<le> last_applied (raft s) + 1"
        by (simp add: word_le_nat_alt unat_u64_inc)
      with 1 [OF ready Ret refl] u show ?thesis unfolding step by auto
    next
      case (Exc x)
      then have "snd (apply_on_promotion oldest s) = s"
        using ready by (subst apply_on_promotion.simps) simp
      then show ?thesis by simp
    next
      case Ub
      then have "snd (apply_on_promotion oldest s) = s"
        using ready by (subst apply_on_promotion.simps) simp
      then show ?thesis by simp
    qed
  next
    case False
    then have "snd (apply_on_promotion oldest s) = s" by (subst apply_on_promotion.simps) simp
    then show ?thesis by simp
  qed
qed

lemma rebuild_ring_fields [simp]:
  "tail_log_index (rebuild_slot_states_from_map g) = tail_log_index g"
  "ring_slots (rebuild_slot_states_from_map g) = ring_slots g"
  "tail_slot (rebuild_slot_states_from_map g) = tail_slot g"
  by (auto simp: rebuild_slot_states_from_map_def recompute_head_slot_def Let_def split: prod.splits)

text \<open>Without a majority nothing happens; with one, the new leader has appended its no-op.\<close>

lemma become_leader_minority: "quorum_missing (raft s) \<noteq> 0 \<Longrightarrow> become_leader s = (Ret (), s)"
  by (simp add: become_leader_def)

lemma become_leader_majority:
  assumes q: "quorum_missing (raft s) = 0" and run: "become_leader s = (Ret (), t)"
  shows "role (raft t) = Leader \<and> current_term (raft t) = current_term (raft s) \<and>
    tail_log_index (ring t) = tail_log_index (ring s) + 1 \<and>
    map e_term (rlog (raft t)) = map e_term (rlog (raft s)) @ [current_term (raft s)] \<and>
    map voted_for (cluster (raft t)) = map voted_for (cluster (raft s)) \<and>
    list_all (\<lambda>m. next_index m = tail_log_index (ring s) \<and> match_index m = 0) (cluster (raft t))"
proof -
  define s1 where "s1 = upd_ring (\<lambda>g. (rebuild_slot_states_from_map g)\<lparr>gc_up_to := 0, gc_has_run := False\<rparr>)
    (upd_raft (\<lambda>r. r\<lparr>role := Leader\<rparr>) s)"
  obtain s2 s3 where l: "load_deferred [1..<length (rlog (raft s1))] s1 = (Ret (), s2)"
    and a: "apply_on_promotion (oldest_log_index s2) s2 = (Ret (), s3)"
    and rest: "(let (noop, s) = make_entry s3;
               s = upd_raft (\<lambda>r. r\<lparr>rlog := rlog r @ [noop\<lparr>e_term := current_term r\<rparr>]\<rparr>) s;
               s = upd_ring (\<lambda>g. g\<lparr>tail_log_index := tail_log_index g + 1\<rparr>) s
           in andthen (persist_circular True 1 s) (\<lambda>_ s.
              let s = upd_raft (\<lambda>r. r\<lparr>cluster := map (\<lambda>m. m\<lparr>next_index := tail_log_index (ring s) - 1,
                        match_index := 0\<rparr>) (cluster r)\<rparr>) s;
                  (t, s) = now s
              in (Ret (), upd_raft (\<lambda>r. r\<lparr>heartbeat_timeout := t\<rparr>) s))) = (Ret (), t)"
    using run q by (auto simp: become_leader_def s1_def Let_def andthen_eq_Ret)
  define s4 where "s4 = upd_ring (\<lambda>g. g\<lparr>tail_log_index := tail_log_index g + 1\<rparr>)
    (upd_raft (\<lambda>r. r\<lparr>rlog := rlog r @ [(fst (make_entry s3))\<lparr>e_term := current_term r\<rparr>]\<rparr>)
      (snd (make_entry s3)))"
  obtain ns s5 where p: "persist_circular True 1 s4 = (Ret ns, s5)"
    and t: "t = upd_raft (\<lambda>r. r\<lparr>heartbeat_timeout := fst (now s5)\<rparr>)
       (snd (now (upd_raft (\<lambda>r. r\<lparr>cluster := map (\<lambda>m. m\<lparr>next_index := tail_log_index (ring s5) - 1,
          match_index := 0\<rparr>) (cluster r)\<rparr>) s5)))"
    using rest by (auto simp: s4_def Let_def andthen_eq_Ret now_def upd_raft_def split: prod.splits)
  have s5: "raft s5 = raft s4" "tail_log_index (ring s5) = tail_log_index (ring s4)"
    using persist_fields(10,8) [of True 1 s4] p by simp_all
  have s3: "raft s3 = (raft s2)\<lparr>last_applied := last_applied (raft s3)\<rparr>" "ring s3 = ring s2"
    using apply_on_promotion_fields [of "oldest_log_index s2" s2] a by auto
  have s2: "map e_term (rlog (raft s2)) = map e_term (rlog (raft s1))"
    "raft s2 = (raft s1)\<lparr>rlog := rlog (raft s2)\<rparr>" "ring s2 = ring s1"
    using load_deferred_fields [of "[1..<length (rlog (raft s1))]" s1] l by auto
  have s1: "raft s1 = (raft s)\<lparr>role := Leader\<rparr>" "tail_log_index (ring s1) = tail_log_index (ring s)"
    by (simp_all add: s1_def upd_ring_def upd_raft_def)
  have r2: "rlog (raft s3) = rlog (raft s2)" "cluster (raft s3) = cluster (raft s)"
    "current_term (raft s3) = current_term (raft s)" "role (raft s3) = Leader"
    using s3 s2 s1 by (metis raft_state.select_convs raft_state.surjective raft_state.update_convs)+
  show ?thesis
    using s5 s3(2) s2(1,3) s1 r2
    by (simp add: t s4_def upd_ring_def upd_raft_def make_entry_def comp_def list_all_iff)
qed

text \<open>
  C30. A candidate becomes leader exactly when more than half of the cluster voted for it. It then
  keeps its term, appends one entry of its term (the no-op) after the entries it had, and
  restarts every member at the no-op's index with nothing known to match; otherwise nothing
  changes.
\<close>

theorem become_leader_promotion:
  assumes "role (raft s) = Candidate" "become_leader s = (Ret (), t)"
  shows "if length (cluster (raft s)) < 2 * votes (raft s)
    then role (raft t) = Leader \<and> current_term (raft t) = current_term (raft s) \<and>
      tail_log_index (ring t) = tail_log_index (ring s) + 1 \<and>
      map e_term (rlog (raft t)) = map e_term (rlog (raft s)) @ [current_term (raft s)] \<and>
      map voted_for (cluster (raft t)) = map voted_for (cluster (raft s)) \<and>
      list_all (\<lambda>m. next_index m = tail_log_index (ring s) \<and> match_index m = 0) (cluster (raft t))
    else t = s"
  using assms become_leader_minority [of s] become_leader_majority [of s t]
  by (auto simp: quorum_majority)

text \<open>When nothing is deferred and the system calls succeed, the promotion returns.\<close>

lemma load_deferred_none:
  "list_all (\<lambda>e. command e = [] \<longrightarrow> ring_slot e = 0) (rlog (raft s)) \<Longrightarrow>
   set js \<subseteq> {..<length (rlog (raft s))} \<Longrightarrow> load_deferred js s = (Ret (), s)"
  by (induction js) (auto simp: list_all_length Let_def)

lemma apply_on_promotion_Ret:
  "wf_log s \<Longrightarrow> oldest = oldest_log_index s \<Longrightarrow>
   \<exists>t. apply_on_promotion oldest s = (Ret (), t) \<and> io t = io s"
proof (induction oldest s rule: apply_on_promotion.induct)
  case (1 oldest s)
  show ?case
  proof (cases "apply_ready oldest s")
    case True
    then have "in_log s (last_applied (raft s))" using 1(3) by (simp add: in_log_def apply_ready_def)
    from log_at_Ret [OF 1(2) this] obtain e where e: "log_at s (last_applied (raft s)) = Ret e" by simp
    let ?s = "if command e \<noteq> [] then snd (sm_apply (command e) s) else s"
    let ?u = "upd_raft (\<lambda>r. r\<lparr>last_applied := last_applied r + 1\<rparr>) ?s"
    have u: "rlog (raft ?u) = rlog (raft s)" "ring ?u = ring s" "io ?u = io s"
      by (simp_all add: upd_raft_def sm_apply_def)
    then have "wf_log ?u" "oldest = oldest_log_index ?u"
      using 1(2,3) log_view_cong [of ?u s] by simp_all
    from 1(1) [OF True e refl this] u(3) True e show ?thesis
      by (subst apply_on_promotion.simps) (simp add: Let_def)
  next
    case False
    then show ?thesis by (subst apply_on_promotion.simps) simp
  qed
qed

lemma become_leader_returns:
  assumes wf: "wf_log s" "wf_cluster (raft s)" and io: "io_healthy s"
    and nd: "list_all (\<lambda>e. command e = [] \<longrightarrow> ring_slot e = 0) (rlog (raft s))"
  shows "\<exists>t. become_leader s = (Ret (), t)"
proof -
  let ?a = "upd_ring (\<lambda>g. (rebuild_slot_states_from_map g)\<lparr>gc_up_to := 0, gc_has_run := False\<rparr>)
    (upd_raft (\<lambda>r. r\<lparr>role := Leader\<rparr>) s)"
  have a: "rlog (raft ?a) = rlog (raft s)" "io ?a = io s" "wf_log ?a"
    using wf(1) by (simp_all add: upd_ring_def upd_raft_def wf_log_def)
  have l: "load_deferred [1..<length (rlog (raft ?a))] ?a = (Ret (), ?a)"
    using nd a by (intro load_deferred_none) auto
  obtain b where b: "apply_on_promotion (oldest_log_index ?a) ?a = (Ret (), b)" "io b = io s"
    using apply_on_promotion_Ret [OF a(3) refl] a(2) by auto
  let ?b = "upd_ring (\<lambda>g. g\<lparr>tail_log_index := tail_log_index g + 1\<rparr>) (upd_raft (\<lambda>r. r\<lparr>rlog :=
    rlog r @ [(fst (make_entry b))\<lparr>e_term := current_term r\<rparr>]\<rparr>) (snd (make_entry b)))"
  have r: "raft b = (raft ?a)\<lparr>last_applied := last_applied (raft b)\<rparr>"
    using apply_on_promotion_fields [of "oldest_log_index ?a" ?a] b(1) by simp
  have "cluster (raft b) = cluster (raft s)" "cluster_index (raft b) = cluster_index (raft s)"
    using arg_cong [OF r, of cluster] arg_cong [OF r, of cluster_index]
    by (simp_all add: upd_raft_def upd_ring_def)
  then have "get_voted_for ?b = Ret (my_vote ?b)"
    using wf(2) by (intro get_voted_for_eq)
      (simp add: wf_cluster_def upd_ring_def upd_raft_def make_entry_def)
  moreover have "io_healthy ?b"
    using io b(2) io_healthy_cong [of ?b s] by (simp add: upd_ring_def upd_raft_def make_entry_def)
  ultimately have "returns (persist_circular True 1 ?b)" by (intro persist_circular_returns)
  then show ?thesis
    unfolding become_leader_def Let_def l
    using l b(1) by (auto simp: returns_def split: prod.splits)
qed

definition sample_candidate :: server where
  "sample_candidate = upd_raft (\<lambda>r. r\<lparr>role := Candidate, current_term := 2, cluster :=
     map (\<lambda>m. m\<lparr>voted_for := (if member_id m = 3 then 0 else 1)\<rparr>) (cluster r)\<rparr>) sample_node"

theorem become_leader_promotion_witness:
  "\<exists>t. become_leader sample_candidate = (Ret (), t) \<and> role (raft t) = Leader \<and>
     tail_log_index (ring t) = 4"
proof -
  have "wf_log sample_candidate" "wf_cluster (raft sample_candidate)" "io_healthy sample_candidate"
    "list_all (\<lambda>e. command e = [] \<longrightarrow> ring_slot e = 0) (rlog (raft sample_candidate))"
    using sample_node_ok(2)
    by (simp_all add: sample_candidate_def wf_log_def wf_cluster_def upd_raft_def io_healthy_def
        disk_of_def sample_defs)
  then obtain t where t: "become_leader sample_candidate = (Ret (), t)"
    using become_leader_returns by blast
  have s: "role (raft sample_candidate) = Candidate" "tail_log_index (ring sample_candidate) = 3"
    "length (cluster (raft sample_candidate)) < 2 * votes (raft sample_candidate)"
    by (simp_all add: sample_candidate_def sample_defs upd_raft_def votes_def)
  from become_leader_promotion [OF s(1) t] s t show ?thesis by simp
qed

end
