(* ===== verification/PbaCopy.thy ===== *)
theory PbaCopy
  imports Persist
begin

text \<open>
  \<open>Server::do_pba_copy\<close> of \<open>core/src/raft_handle_append_entries.cpp\<close>: the destination range of a
  block copy is cut into chunks at the extents of the ring file, at the end of the ring and at the
  chunk limit, and handed to the storage node in one batch. The block copy client
  (\<open>core/include/raft_transport.h\<close>) is an argument: it answers a batch with the measured round
  trip and copy times, or with an error.
\<close>

type_synonym chunk = "u64 \<times> u64 \<times> u64"
type_synonym blockcopy_client = "chunk list \<Rightarrow> int \<Rightarrow> int \<Rightarrow> string + int \<times> int"

section \<open>Operations\<close>

definition next_chunk :: "server \<Rightarrow> u64 \<Rightarrow> u64 \<Rightarrow> (u64 \<times> u64) outcome" where
  "next_chunk s remaining cur_slot =
     obind (fd_query (\<lambda>c. get_pba c (slot_offset cur_slot) remaining) s) (\<lambda>seg.
       if pba seg = 0 then Exc ''do_pba_copy: PBA=0 (hole in ring file)''
       else
         let max_before_wrap = (ring_slots (ring s) - cur_slot) * SECTOR_SIZE;
             chunk = seg_len seg;
             chunk = (if chunk > remaining then remaining else chunk);
             chunk = (if chunk > max_before_wrap then max_before_wrap else chunk);
             chunk = (if chunk > MaxPBACopyChunkBytes then MaxPBACopyChunkBytes else chunk)
         in if chunk = 0 then Exc ''do_pba_copy: zero-size chunk'' else Ret (pba seg, chunk))"

lemma next_chunk_size: "next_chunk s remaining cur_slot = Ret (d, n) \<Longrightarrow> n \<noteq> 0 \<and> n \<le> remaining"
  by (auto simp: next_chunk_def Let_def obind_eq_Ret split: if_splits)

function pba_chunks :: "server \<Rightarrow> u64 \<Rightarrow> u64 \<Rightarrow> u64 \<Rightarrow> chunk list outcome" where
  "pba_chunks s remaining cur_slot cur_src =
     (if remaining > 0 then
        let cur_slot = (if cur_slot \<ge> ring_slots (ring s) then 0 else cur_slot) in
        (case next_chunk s remaining cur_slot of
           Ret (dst, chunk) \<Rightarrow>
             obind (pba_chunks s (remaining - chunk) (cur_slot + chunk div SECTOR_SIZE) (cur_src + chunk))
               (\<lambda>cs. Ret ((cur_src, dst, chunk) # cs))
         | Exc e \<Rightarrow> Exc e
         | Ub \<Rightarrow> Ub)
      else Ret [])"
  by auto

lemma remaining_decreases:
  "n \<noteq> 0 \<Longrightarrow> n \<le> r \<Longrightarrow> unat (r - n :: u64) < unat r"
  by (simp add: unat_u64_sub word_le_nat_alt u64_zero_iff)

termination pba_chunks
  by (relation "measure (\<lambda>(s, r, c, src). unat r)")
    (auto dest!: next_chunk_size intro!: remaining_decreases)

declare pba_chunks.simps [simp del]

definition do_pba_copy ::
  "blockcopy_client \<Rightarrow> u64 \<Rightarrow> u64 \<Rightarrow> u64 \<Rightarrow> int \<Rightarrow> int \<Rightarrow> server \<Rightarrow> (int \<times> int) outcome" where
  "do_pba_copy bc src_pba nblocks dst_slot src_dev dst_dev s =
     (if src_pba = 0 \<or> nblocks = 0 then Ret (0, 0)
      else if \<not> has_blockcopy s then Exc ''do_pba_copy: no block copy client configured''
      else
        let nbytes = align_up (nblocks * SECTOR_SIZE) PAGE_SIZE in
        obind (pba_chunks s nbytes dst_slot src_pba) (\<lambda>cs.
          case bc cs src_dev dst_dev of
            Inl e \<Rightarrow> Exc (''do_pba_copy: '' @ e)
          | Inr r \<Rightarrow> Ret r))"

section \<open>The chunks cover the destination range\<close>

text \<open>The file offset of the \<open>k\<close>-th byte after the start of a slot, around a ring of \<open>n\<close> slots.\<close>

definition ring_byte :: "nat \<Rightarrow> nat \<Rightarrow> nat \<Rightarrow> int" where
  "ring_byte n slot k = 512 + int ((512 * slot + k) mod (512 * n))"

text \<open>The single byte copies a chunk stands for, source address and destination address.\<close>

definition chunk_bytes :: "chunk \<Rightarrow> (u64 \<times> u64) list" where
  "chunk_bytes c = (case c of (s, d, n) \<Rightarrow> map (\<lambda>i. (s + of_nat i, d + of_nat i)) [0..<unat n])"

text \<open>
  The ring file's cached extents are cut at sector boundaries, and every byte of the ring is
  mapped, to an address other than 0.
\<close>

definition ring_mapped :: "extent list \<Rightarrow> u64 \<Rightarrow> bool" where
  "ring_mapped xs n \<longleftrightarrow> wf_extents xs \<and> 0 < unat n \<and> unat n < 2 ^ 50 \<and>
     list_all (\<lambda>e. 512 dvd ext_logical e \<and> 512 dvd uint (ext_length e)) xs \<and>
     (\<forall>l. 512 \<le> l \<and> l < 512 + 512 * int (unat n) \<longrightarrow> phys_of xs l \<noteq> None \<and> phys_of xs l \<noteq> Some 0)"

lemma ring_mapped_at:
  "ring_mapped xs n \<Longrightarrow> 512 \<le> l \<Longrightarrow> l < 512 + 512 * int (unat n) \<Longrightarrow>
   phys_of xs l \<noteq> None \<and> phys_of xs l \<noteq> Some 0"
  unfolding ring_mapped_def by blast

lemma dvd_uint_unat: "512 dvd uint (w :: u64) \<longleftrightarrow> 512 dvd unat w"
  using int_dvd_int_iff [of 512 "unat w"] unfolding uint_u64_unat by (simp only: of_nat_numeral)

definition cache_of :: "server \<Rightarrow> extent list option" where
  "cache_of s = (case cached_fd (io s) of
     Some c \<Rightarrow> if has_extent_cache c then Some (extent_cache c) else None | None \<Rightarrow> None)"

lemma fd_query_cache:
  "cache_of s = Some xs \<Longrightarrow> fd_query (\<lambda>c. get_pba c l n) s = lookup xs l n"
  by (auto simp: cache_of_def fd_query_def get_pba_def split: option.splits if_splits)

lemma lookup_len_aligned:
  assumes m: "ring_mapped xs n" and l: "512 dvd l" and r: "512 dvd uint r" and s: "lookup xs l r = Ret seg"
  shows "512 dvd uint (seg_len seg)"
proof -
  have wf: "wf_extents xs" using m by (simp add: ring_mapped_def)
  obtain i where i: "i < length xs" and c: "covers l (xs ! i)"
    using lookup_uncovered [OF wf, of l r] s by auto
  have "512 dvd ext_logical (xs ! i)" "512 dvd uint (ext_length (xs ! i))"
    using m i by (simp_all add: ring_mapped_def list_all_length)
  then have "512 dvd uint (ext_length (xs ! i) - word_of_int (l - ext_logical (xs ! i)))"
    unfolding uint_left_in_extent [OF c] ext_end_def using l by (simp add: dvd_diff)
  moreover have "seg_len seg = min r (ext_length (xs ! i) - word_of_int (l - ext_logical (xs ! i)))"
    using s lookup_covered [OF wf i c, of r] by auto
  ultimately show ?thesis using r by (simp add: min_def)
qed

lemma next_chunk_spec:
  assumes m: "ring_mapped xs (ring_slots (ring s))" and x: "cache_of s = Some xs"
    and slot: "unat slot < unat (ring_slots (ring s))" and r: "512 dvd unat r" "r \<noteq> 0"
  obtains d n where "next_chunk s r slot = Ret (d, n)" "512 dvd unat n"
    "unat n \<le> 512 * (unat (ring_slots (ring s)) - unat slot)"
    "\<And>k. k < unat n \<Longrightarrow> phys_of xs (slot_offset slot + int k) = Some (d + of_nat k)"
proof -
  let ?N = "unat (ring_slots (ring s))" and ?l = "slot_offset slot"
  have N: "?N < 2 ^ 50" and wf: "wf_extents xs" using m by (simp_all add: ring_mapped_def)
  have l: "?l = 512 + int (unat slot) * 512"
    using slot N by (intro slot_offset_unat) simp
  have "int (unat slot) < int ?N" using slot by (simp only: of_nat_less_iff)
  then have mp: "phys_of xs ?l \<noteq> None \<and> phys_of xs ?l \<noteq> Some 0"
    unfolding l by (intro ring_mapped_at [OF m]) linarith+
  obtain seg where seg: "lookup xs ?l r = Ret seg" "seg_len seg \<noteq> 0" "seg_len seg \<le> r"
    using ext_map.look_total [OF wf conjunct1 [OF mp] r(2)] by blast
  have run: "phys_of xs (?l + int k) = Some (pba seg + of_nat k)" if "k < unat (seg_len seg)" for k
  proof -
    have "int k < uint (seg_len seg)"
      unfolding uint_u64_unat using that by (simp only: of_nat_less_iff)
    from ext_map.look_run [OF wf seg(1) _ this] show ?thesis by simp
  qed
  have p0: "pba seg \<noteq> 0"
    using run [of 0] conjunct2 [OF mp] seg(2) by (auto simp: u64_zero_iff)
  have al: "512 dvd unat (seg_len seg)"
    using lookup_len_aligned [OF m _ _ seg(1)] r(1) unfolding dvd_uint_unat l by simp
  let ?w = "(ring_slots (ring s) - slot) * SECTOR_SIZE"
  have sub: "unat (ring_slots (ring s) - slot) = ?N - unat slot"
    using slot by (intro unat_u64_sub) (simp add: word_le_nat_alt)
  have w: "unat ?w = (?N - unat slot) * 512"
    using N by (subst unat_u64_mult) (simp_all add: sub)
  let ?n = "min (min (seg_len seg) ?w) MaxPBACopyChunkBytes"
  have n: "next_chunk s r slot = Ret (pba seg, ?n)"
    using p0 seg slot w
    by (auto simp: next_chunk_def fd_query_cache [OF x] Let_def min_def not_less u64_zero_iff
        MaxPBACopyChunkBytes_def word_le_nat_alt word_less_nat_alt)
  have un: "unat ?n = min (min (unat (seg_len seg)) ((?N - unat slot) * 512)) 268435456"
    by (simp add: u64_min_unat w)
  show ?thesis
  proof (rule that [OF n])
    show "512 dvd unat ?n" unfolding un using al by (auto simp: min_def)
    show "unat ?n \<le> 512 * (?N - unat slot)" unfolding un by simp
    show "phys_of xs (?l + int k) = Some (pba seg + of_nat k)" if "k < unat ?n" for k
      using that unfolding un by (intro run) simp
  qed
qed

lemma ring_byte_in_ring:
  "slot < n \<Longrightarrow> k < 512 * (n - slot) \<Longrightarrow> ring_byte n slot k = 512 + int (512 * slot + k)"
  by (simp add: ring_byte_def diff_mult_distrib2)

lemma ring_byte_shift: "ring_byte n (slot + m) k = ring_byte n slot (512 * m + k)"
  by (simp add: ring_byte_def algebra_simps)

lemma ring_byte_wrap: "ring_byte n n k = ring_byte n 0 k"
  by (simp add: ring_byte_def)

lemma pba_chunks_ok:
  assumes m: "ring_mapped xs (ring_slots (ring s))" and x: "cache_of s = Some xs"
    and "unat slot \<le> unat (ring_slots (ring s))" and "512 dvd unat r"
  shows "\<exists>cs. pba_chunks s r slot src = Ret cs \<and>
    concat (map chunk_bytes cs) =
      map (\<lambda>k. (src + of_nat k, the (phys_of xs (ring_byte (unat (ring_slots (ring s))) (unat slot) k))))
        [0..<unat r]"
  using assms(3,4)
proof (induction "unat r" arbitrary: r slot src rule: less_induct)
  case less
  let ?N = "unat (ring_slots (ring s))"
  show ?case
  proof (cases "r = 0")
    case True
    then show ?thesis by (subst pba_chunks.simps) simp
  next
    case False
    let ?c = "if slot \<ge> ring_slots (ring s) then 0 else slot"
    have c: "unat ?c < ?N" "ring_byte ?N (unat slot) k = ring_byte ?N (unat ?c) k" for k
      using less(2) m by (auto simp: ring_mapped_def word_le_nat_alt ring_byte_wrap dest: antisym)
    obtain d n where n: "next_chunk s r ?c = Ret (d, n)" "512 dvd unat n"
      "unat n \<le> 512 * (?N - unat ?c)"
      and ph: "\<And>k. k < unat n \<Longrightarrow> phys_of xs (slot_offset ?c + int k) = Some (d + of_nat k)"
      using next_chunk_spec [OF m x c(1) less(3) False] by blast
    have nr: "n \<noteq> 0" "n \<le> r" using next_chunk_size [OF n(1)] by auto
    have sub: "unat (r - n) = unat r - unat n" by (rule unat_u64_sub [OF nr(2)])
    have N: "?N < 1125899906842624" using m by (simp add: ring_mapped_def)
    obtain q where q: "unat n = 512 * q" using n(2) by auto
    have div: "unat (n div SECTOR_SIZE) = q" by (simp add: unat_u64_div q)
    have slot': "unat (?c + n div SECTOR_SIZE) = unat ?c + q"
    proof -
      have "unat ?c + unat (n div SECTOR_SIZE) < 18446744073709551616"
        unfolding div using n(3) c(1) N q by linarith
      from unat_u64_add [OF this] show ?thesis unfolding div .
    qed
    have "unat (r - n) < unat r" using remaining_decreases [OF nr] .
    moreover have "unat (?c + n div SECTOR_SIZE) \<le> ?N" using slot' n(3) c(1) q by linarith
    moreover have "512 dvd unat (r - n)" using less(3) n(2) by (simp add: sub)
    ultimately obtain cs where cs: "pba_chunks s (r - n) (?c + n div SECTOR_SIZE) (src + n) = Ret cs"
      "concat (map chunk_bytes cs) = map (\<lambda>k. (src + n + of_nat k,
         the (phys_of xs (ring_byte ?N (unat (?c + n div SECTOR_SIZE)) k)))) [0..<unat (r - n)]"
      using less(1) by blast
    have eq: "pba_chunks s r slot src = Ret ((src, d, n) # cs)"
      using False n(1) cs(1) by (subst pba_chunks.simps) (simp add: word_neq_0_conv)
    have so: "slot_offset ?c = 512 + int (512 * unat ?c)"
      using slot_offset_unat [of ?c] c(1) N by simp
    have first: "chunk_bytes (src, d, n) =
        map (\<lambda>k. (src + of_nat k, the (phys_of xs (ring_byte ?N (unat slot) k)))) [0..<unat n]"
      unfolding chunk_bytes_def using n(3) ph c
      by (auto simp: ring_byte_in_ring so algebra_simps)
    have rest: "concat (map chunk_bytes cs) =
        map (\<lambda>k. (src + of_nat k, the (phys_of xs (ring_byte ?N (unat slot) k)))) [unat n..<unat r]"
    proof -
      have "[unat n..<unat r] = map (\<lambda>k. k + unat n) [0..<unat r - unat n]"
        using nr(2) by (simp add: map_add_upt word_le_nat_alt)
      then show ?thesis
        unfolding cs(2) sub c(2) slot' ring_byte_shift q [symmetric]
        by (simp add: ac_simps)
    qed
    have "[0..<unat r] = [0..<unat n] @ [unat n..<unat r]"
      using upt_add_eq_append [of 0 "unat n" "unat r - unat n"] nr(2) by (simp add: word_le_nat_alt)
    then show ?thesis using eq first rest by simp
  qed
qed

text \<open>
  The chunk list of a block copy into the ring: on a mapped ring the loop ends without an
  error, and its chunks, byte for byte and in order, copy the source range to the device
  addresses of the ring bytes from the destination slot on, around the end of the ring.
\<close>

theorem pba_chunks_bytes:
  assumes m: "ring_mapped xs (ring_slots (ring s))" and x: "cache_of s = Some xs"
    and "unat slot \<le> unat (ring_slots (ring s))" and "512 dvd unat r"
  shows "\<exists>cs. pba_chunks s r slot src = Ret cs \<and>
    concat (map chunk_bytes cs) =
      map (\<lambda>k. (src + of_nat k, the (phys_of xs (ring_byte (unat (ring_slots (ring s))) (unat slot) k))))
        [0..<unat r]"
  by (rule pba_chunks_ok [OF assms])

lemma sample_ring_mapped: "ring_mapped [sample_extent] (ring_slots (ring sample_node))"
proof -
  have "4096 + (word_of_int l :: u64) \<noteq> 0" if "0 \<le> l" "l < 65536" for l
  proof -
    have "uint (word_of_int (4096 + l) :: u64) = 4096 + l"
      using that by (simp add: unsigned_of_int take_bit_int_eq_self del: of_int_add)
    then show ?thesis using that by auto
  qed
  then show ?thesis
    by (auto simp: ring_mapped_def wf_extents_def wf_extent_def ext_end_def sample_extent_def
        phys_of_def covers_def)
qed

theorem pba_chunks_bytes_witness:
  "\<exists>cs. pba_chunks sample_node 1024 126 81920 = Ret cs \<and> length (concat (map chunk_bytes cs)) = 1024"
proof -
  have "cache_of sample_node = Some [sample_extent]" by (simp add: cache_of_def sample_fd_def)
  from pba_chunks_bytes [OF sample_ring_mapped this, of 126 1024 81920] show ?thesis
    by (auto simp: dvd_def intro!: exI [of _ "2 :: nat"])
qed

end
