(* ===== verification/LeaderAE.thy ===== *)
theory LeaderAE
  imports Election PbaCopy
begin

text \<open>
  \<open>core/src/raft_append_entries.cpp\<close>: one round of \<open>append_entries_worker\<close> for one follower.
  The worker holds the lock while it builds the request (``Lock B''), drops it for the block copy
  of leader-side replication and for the RPC, and takes it again for the book-keeping
  (``Lock C''); the two critical sections are \<open>ae_build\<close> and \<open>ae_finish\<close>. A nested block of the
  function is a definition of its own. The measured durations of a round are the argument
  \<open>round_times\<close>.
\<close>

section \<open>Lock B: choosing the batch\<close>

text \<open>A follower that is ahead of the leader is taken back to the end of the log.\<close>

definition clamp_next :: "nat \<Rightarrow> server \<Rightarrow> u64 \<times> server" where
  "clamp_next fi s =
     (let next = next_index (cluster (raft s) ! fi);
          last = tail_log_index (ring s) - 1
      in if next > last + 1
         then (last + 1, update_member fi (\<lambda>m. m\<lparr>next_index := last + 1\<rparr>) s)
         else (next, s))"

definition prev_log :: "u64 \<Rightarrow> server \<Rightarrow> (u64 \<times> u64) outcome" where
  "prev_log next s =
     (if next > 0 then
        let p = next - 1 in
        if p \<ge> oldest_log_index s \<and> p < tail_log_index (ring s)
        then obind (log_at s p) (\<lambda>e. Ret (p, e_term e))
        else Ret (p, 0)
      else Ret (0, 0))"

text \<open>The number of entries to send; \<open>None\<close> when a data-bearing RPC is still in flight.\<close>

definition batch_len :: "nat \<Rightarrow> u64 \<Rightarrow> server \<Rightarrow> u64 option" where
  "batch_len fi next s =
     (let last = tail_log_index (ring s) - 1 in
      if last \<ge> next then
        if inflight (cluster (raft s) ! fi) then None
        else Some (min (last - next + 1) (max_ae_batch s))
      else Some 0)"

text \<open>The start slot of the batch; a freed or unknown index turns it into a heartbeat.\<close>

definition find_start_slot :: "u64 \<Rightarrow> u64 \<Rightarrow> server \<Rightarrow> u64 \<times> u64" where
  "find_start_slot next len s =
     (if len > 0 then
        if gc_has_run (ring s) \<and> next \<le> gc_up_to (ring s) then (0, 0)
        else case map_of (log_slot_map (ring s)) next of
               Some r \<Rightarrow> (len, sr_start r)
             | None \<Rightarrow> (0, 0)
      else (0, 0))"

text \<open>Accumulating slots up to the byte cap: \<open>n\<close> entries are left, \<open>acc\<close> accepted.\<close>

fun accept_batch :: "server \<Rightarrow> u64 \<Rightarrow> nat \<Rightarrow> u64 \<Rightarrow> u64 \<Rightarrow> (u64 \<times> u64) outcome" where
  "accept_batch s next 0 acc tot = Ret (acc, tot)"
| "accept_batch s next (Suc n) acc tot =
     obind (slots_for_log_index s (next + acc)) (\<lambda>needed.
       if acc > 0 \<and> (tot + needed) * SECTOR_SIZE > max_ae_batch_bytes s then Ret (acc, tot)
       else accept_batch s next n (acc + 1) (tot + needed))"

text \<open>The recount when the batch would pass the end of the ring; \<open>n\<close> entries up to \<open>last\<close>.\<close>

fun clamp_ring_end :: "server \<Rightarrow> u64 \<Rightarrow> u64 \<Rightarrow> nat \<Rightarrow> u64 \<Rightarrow> u64 \<Rightarrow> (u64 \<times> u64) outcome" where
  "clamp_ring_end s next until_end 0 len tot = Ret (len, tot)"
| "clamp_ring_end s next until_end (Suc n) len tot =
     obind (slots_for_log_index s (next + len)) (\<lambda>needed.
       if tot + needed > until_end then Ret (len, tot)
       else if len > 0 \<and> (tot + needed) * SECTOR_SIZE > max_ae_batch_bytes s then Ret (len, tot)
       else clamp_ring_end s next until_end n (len + 1) (tot + needed))"

definition entries_to_last :: "u64 \<Rightarrow> server \<Rightarrow> nat" where
  "entries_to_last next s =
     (let last = tail_log_index (ring s) - 1
      in if next \<le> last then Suc (unat (last - next)) else 0)"

text \<open>The batch after byte cap and ring end: its length, its slots, the slots per entry.\<close>

definition size_batch :: "u64 \<Rightarrow> u64 \<Rightarrow> u64 \<Rightarrow> server \<Rightarrow> (u64 \<times> u64 \<times> u64) outcome" where
  "size_batch next len first s =
     (if len > 0 then
        obind (accept_batch s next (unat len) 0 0) (\<lambda>(len, tot).
          let spe = (tot + len - 1) div len;
              until_end = ring_slots (ring s) - first
          in if tot > until_end then
               obind (clamp_ring_end s next until_end (entries_to_last next s) 0 0) (\<lambda>(len, tot).
                 Ret (len, tot, if len > 0 then (tot + len - 1) div len else spe))
             else Ret (len, tot, spe))
      else Ret (0, 0, 0))"

fun clamp_extent :: "server \<Rightarrow> u64 \<Rightarrow> u64 \<Rightarrow> nat \<Rightarrow> u64 \<Rightarrow> u64 \<Rightarrow> (u64 \<times> u64) outcome" where
  "clamp_extent s next actual_slots 0 len counted = Ret (len, counted)"
| "clamp_extent s next actual_slots (Suc n) len counted =
     obind (slots_for_log_index s (next + len)) (\<lambda>needed.
       if counted + needed > actual_slots then Ret (len, counted)
       else clamp_extent s next actual_slots n (len + 1) (counted + needed))"

text \<open>The device address of the batch, clamped to the extent: length, slots, address.\<close>

definition locate_batch :: "u64 \<Rightarrow> u64 \<Rightarrow> u64 \<Rightarrow> u64 \<Rightarrow> server \<Rightarrow> (u64 \<times> u64 \<times> u64) outcome" where
  "locate_batch next len tot first s =
     (if len > 0 then
        obind (leader_pba_for_range first tot s) (\<lambda>(src, actual_bytes).
          let actual_slots = actual_bytes div SECTOR_SIZE in
          if actual_slots < tot
          then obind (clamp_extent s next actual_slots (entries_to_last next s) 0 0)
                 (\<lambda>(len, counted). Ret (len, counted, src))
          else Ret (len, tot, src))
      else Ret (0, 0, 0))"

fun build_metas :: "server \<Rightarrow> u64 \<Rightarrow> nat \<Rightarrow> u64 \<Rightarrow> entry_meta list outcome" where
  "build_metas s next 0 k = Ret []"
| "build_metas s next (Suc n) k =
     obind (log_at s (next + k)) (\<lambda>e.
       let cl = (if command e = [] \<and> ring_slot e \<noteq> 0 then cmd_len e else command_size (command e))
       in obind (build_metas s next n (k + 1)) (\<lambda>ms.
            Ret (\<lparr>meta_term = e_term e, meta_cmd_len = cl\<rparr> # ms)))"

text \<open>What a round remembers between its critical sections.\<close>

record ae_round =
  round_req :: append_entries_request
  round_next :: u64
  round_len :: u64

definition round_has_entries :: "ae_round \<Rightarrow> bool" where
  "round_has_entries r \<longleftrightarrow> round_len r > 0"

text \<open>The first critical section as a whole; \<open>Ret None\<close> is the early return.\<close>

definition ae_build :: "nat \<Rightarrow> server \<Rightarrow> ae_round option step" where
  "ae_build fi s =
     (if \<not> member_ok s fi then (Ub, s)
      else
        let (next, s) = clamp_next fi s in
        case prev_log next s of
          Exc e \<Rightarrow> (Exc e, s) | Ub \<Rightarrow> (Ub, s)
        | Ret (pidx, pterm) \<Rightarrow>
        (case batch_len fi next s of
           None \<Rightarrow> (Ret None, s)
         | Some len0 \<Rightarrow>
             let (len1, first) = find_start_slot next len0 s in
             (case obind (size_batch next len1 first s) (\<lambda>(len2, tot2, spe).
                    obind (locate_batch next len2 tot2 first s) (\<lambda>(len, nblocks, src).
                    obind (build_metas s next (unat len) 0) (\<lambda>metas.
                    Ret (len, nblocks, src, spe, metas)))) of
                Exc e \<Rightarrow> (Exc e, s) | Ub \<Rightarrow> (Ub, s)
              | Ret (len, nblocks, src, spe, metas) \<Rightarrow>
                  let s = (if len > 0 then update_member fi (\<lambda>m. m\<lparr>inflight := True\<rparr>) s else s)
                  in case cluster_at (raft s) of
                       Ret me \<Rightarrow>
                         (Ret (Some \<lparr>round_req =
                            \<lparr>aeq_term = current_term (raft s), leader_id = member_id me,
                             prev_log_index = pidx, prev_log_term = pterm,
                             leader_commit = commit_index (raft s), leader_pba_src = src,
                             log_block_length = nblocks, num_entries = len, slots_per_entry = spe,
                             start_slot = first, leader_dev_index = cluster_index (raft s),
                             data_already_copied = False, entry_metas = metas\<rparr>,
                            round_next = next, round_len = len\<rparr>), s)
                     | _ \<Rightarrow> (Ub, s))))"

section \<open>Between the locks: leader-side copy and the send counters\<close>

definition ae_leader_copy ::
  "blockcopy_client \<Rightarrow> nat \<Rightarrow> ae_round \<Rightarrow> server \<Rightarrow> (append_entries_request \<times> int \<times> int) option step" where
  "ae_leader_copy bc fi r s =
     (let req = round_req r in
      if round_has_entries r \<and> repl_mode s = LeaderSide then
        (case do_pba_copy bc (leader_pba_src req) (log_block_length req) (start_slot req)
                (cluster_index (raft s)) (int fi) s of
           Ret (rt, cp) \<Rightarrow> (Ret (Some (req\<lparr>data_already_copied := True\<rparr>, rt, cp)), s)
         | Exc _ \<Rightarrow> (Ret None, update_member fi (\<lambda>m. m\<lparr>inflight := False\<rparr>) s)
         | Ub \<Rightarrow> (Ub, s))
      else (Ret (Some (req, 0, 0)), s))"

definition ae_count_send :: "ae_round \<Rightarrow> server \<Rightarrow> server" where
  "ae_count_send r s =
     (if round_has_entries r
      then s\<lparr>prof := (prof s)\<lparr>ae_count := ae_count (prof s) + 1,
                             ae_entries := ae_entries (prof s) + round_len r\<rparr>\<rparr>
      else s)"

section \<open>Lock C: the response\<close>

definition apply_ae_success :: "nat \<Rightarrow> u64 \<Rightarrow> u64 \<Rightarrow> bool \<Rightarrow> server \<Rightarrow> server" where
  "apply_ae_success fi next len has_entries s =
     (let new_next = max (next + len) 1;
          s = update_member fi (\<lambda>m.
                let m = (if new_next > next_index m then m\<lparr>next_index := new_next\<rparr> else m)
                in m\<lparr>match_index := next_index m - 1\<rparr>) s
      in if has_entries \<and> role (raft s) = Leader \<and>
            tail_log_index (ring s) - 1 \<ge> next_index (cluster (raft s) ! fi)
         then upd_raft (\<lambda>r. r\<lparr>heartbeat_timeout := 0\<rparr>) s else s)"

text \<open>The search of the leader's log for the conflicting term, downwards from \<open>j\<close>.\<close>

function backoff_search :: "server \<Rightarrow> u64 \<Rightarrow> u64 \<Rightarrow> u64 \<Rightarrow> u64 \<Rightarrow> u64 outcome" where
  "backoff_search s cterm oldest new_next j =
     (if j \<ge> 1 \<and> j \<ge> oldest then
        (case log_at s j of
           Ret e \<Rightarrow>
             if e_term e = cterm then Ret (j + 1)
             else if e_term e < cterm then Ret new_next
             else if j = oldest then Ret new_next
             else backoff_search s cterm oldest new_next (j - 1)
         | Exc x \<Rightarrow> Exc x
         | Ub \<Rightarrow> Ub)
      else Ret new_next)"
  by auto

lemma u64_dec: "1 \<le> (j :: u64) \<Longrightarrow> unat (j - 1) < unat j"
  by (simp add: unat_u64_sub word_le_nat_alt)

termination backoff_search
  by (relation "measure (\<lambda>(s, c, o', n, j). unat j)") (auto intro: u64_dec)

declare backoff_search.simps [simp del]

definition apply_ae_failure_backoff ::
  "nat \<Rightarrow> u64 \<Rightarrow> u64 \<Rightarrow> u64 \<Rightarrow> u64 \<Rightarrow> server \<Rightarrow> bool step" where
  "apply_ae_failure_backoff fi pidx cterm cidx sent_next s =
     (let m = cluster (raft s) ! fi; prev = next_index m in
      if prev \<noteq> sent_next then (Ret False, s)
      else
        case (if cterm = 0 \<and> cidx = 0 then Ret (prev - 1)
              else if cterm = 0 then Ret cidx
              else backoff_search s cterm (oldest_log_index s) cidx pidx) of
          Exc e \<Rightarrow> (Exc e, s)
        | Ub \<Rightarrow> (Ub, s)
        | Ret new_next \<Rightarrow>
            let new_next = (if new_next \<ge> prev then (if prev > 0 then prev - 1 else 0) else new_next);
                floor = match_index m + 1
            in (Ret True, update_member fi (\<lambda>m. m\<lparr>next_index := max (max new_next 1) floor\<rparr>) s))"

record round_times =
  t_mutex_b :: int
  t_mutex_c :: int
  t_rt :: int
  t_lock_b_held :: int
  t_slot_map :: int
  t_mark_slots :: int
  t_pba_lookup :: int
  t_meta_build :: int
  t_copy_rt :: int
  t_copy_storage :: int

definition ae_sample ::
  "nat option \<Rightarrow> append_entries_response \<Rightarrow> round_times \<Rightarrow> server \<Rightarrow> repl_sample" where
  "ae_sample sink rsp tm s =
     \<lparr>s_ae_rt_ns = t_rt tm, s_r2_ns = handler_duration_ns rsp,
      s_write_pba_rt_ns = (if repl_mode s = LeaderSide then t_copy_rt tm else write_pba_rt_ns rsp),
      s_storage_copy_ns = (if repl_mode s = LeaderSide then t_copy_storage tm else storage_copy_ns rsp),
      s_mutex_ns = (case sink of None \<Rightarrow> 0 | Some i \<Rightarrow> mutex_a_ns (sinks s ! i))
                   + t_mutex_b tm + t_mutex_c tm,
      s_mutex_c_ns = t_mutex_c tm, s_post_rpc_wall_ns = 0, s_lock_b_held_ns = t_lock_b_held tm,
      s_slot_map_ns = t_slot_map tm, s_mark_slots_ns = t_mark_slots tm,
      s_pba_lookup_ns = t_pba_lookup tm, s_meta_build_ns = t_meta_build tm, s_lock_c_held_ns = 0,
      s_handle_ae_lock_wait_ns = handle_ae_lock_wait_ns rsp,
      s_handle_ae_pre_ns = handle_ae_pre_ns rsp,
      s_handle_ae_lock_wait2_ns = handle_ae_lock_wait2_ns rsp,
      s_handle_ae_post_ns = handle_ae_post_ns rsp,
      s_handle_ae_persist_ns = handle_ae_persist_ns rsp\<rparr>"

definition ae_record_sample :: "nat option \<Rightarrow> repl_sample \<Rightarrow> server \<Rightarrow> server" where
  "ae_record_sample sink smp s =
     (let s = s\<lparr>prof := (prof s)\<lparr>sample_ae_rt_ns := s_ae_rt_ns smp, sample_r2_ns := s_r2_ns smp,
                 sample_write_pba_rt_ns := s_write_pba_rt_ns smp,
                 sample_storage_copy_ns := s_storage_copy_ns smp,
                 sample_mutex_ns := s_mutex_ns smp, sample_mutex_c_ns := s_mutex_c_ns smp\<rparr>\<rparr>
      in case sink of
           None \<Rightarrow> s
         | Some i \<Rightarrow> s\<lparr>sinks := (sinks s)[i := (sinks s ! i)\<lparr>samples := samples (sinks s ! i) @ [smp]\<rparr>]\<rparr>)"

definition ae_finish ::
  "nat \<Rightarrow> nat option \<Rightarrow> ae_round \<Rightarrow> append_entries_response option \<Rightarrow> round_times \<Rightarrow> server \<Rightarrow> unit step" where
  "ae_finish fi sink r ok_rsp tm s =
     (let s = (if round_has_entries r then update_member fi (\<lambda>m. m\<lparr>inflight := False\<rparr>) s else s) in
      case ok_rsp of
        None \<Rightarrow> (Ret (), s)
      | Some rsp \<Rightarrow>
          if aer_term rsp > current_term (raft s) then (Ret (), s)
          else if aer_term rsp \<noteq> aeq_term (round_req r) \<and> role (raft s) = Leader then (Ret (), s)
          else
            let s = (if success rsp \<and> round_has_entries r
                     then ae_record_sample sink (ae_sample sink rsp tm s) s else s)
            in if success rsp
               then (Ret (), apply_ae_success fi (round_next r) (round_len r) (round_has_entries r) s)
               else andthen (apply_ae_failure_backoff fi (prev_log_index (round_req r))
                               (conflict_term rsp) (conflict_index rsp) (round_next r) s)
                      (\<lambda>_ s. (Ret (), s)))"

section \<open>The batch\<close>

lemma clamp_ring_end_le:
  "clamp_ring_end s next until_end n len tot = Ret (len', tot') \<Longrightarrow> tot \<le> until_end \<Longrightarrow> tot' \<le> until_end"
  by (induction s "next" until_end n len tot rule: clamp_ring_end.induct)
    (auto simp: obind_eq_Ret not_less split: if_splits)

lemma clamp_extent_le:
  "clamp_extent s next actual n len tot = Ret (len', tot') \<Longrightarrow> tot \<le> actual \<Longrightarrow> tot' \<le> actual"
  by (induction s "next" actual n len tot rule: clamp_extent.induct)
    (auto simp: obind_eq_Ret not_less split: if_splits)

text \<open>More than one entry only within the byte cap.\<close>

definition within_cap :: "server \<Rightarrow> u64 \<Rightarrow> u64 \<Rightarrow> bool" where
  "within_cap s len tot \<longleftrightarrow> unat len \<le> 1 \<or> tot * SECTOR_SIZE \<le> max_ae_batch_bytes s"

lemma accept_batch_cap:
  "accept_batch s next n acc tot = Ret (len', tot') \<Longrightarrow> within_cap s acc tot \<Longrightarrow> within_cap s len' tot'"
proof (induction s "next" n acc tot rule: accept_batch.induct)
  case (2 s nxt n acc tot)
  then obtain needed where nd: "slots_for_log_index s (nxt + acc) = Ret needed"
    and r: "(if acc > 0 \<and> (tot + needed) * SECTOR_SIZE > max_ae_batch_bytes s then Ret (acc, tot)
       else accept_batch s nxt n (acc + 1) (tot + needed)) = Ret (len', tot')"
    by (auto simp: obind_eq_Ret)
  show ?case
  proof (cases "acc > 0 \<and> (tot + needed) * SECTOR_SIZE > max_ae_batch_bytes s")
    case False
    then have "within_cap s (acc + 1) (tot + needed)"
      by (cases "acc = 0") (auto simp: within_cap_def word_neq_0_conv not_less)
    with 2(1) [OF False] r False show ?thesis by auto
  qed (use r 2(3) in auto)
qed simp

lemma clamp_ring_end_cap:
  "clamp_ring_end s next until_end n len tot = Ret (len', tot') \<Longrightarrow> within_cap s len tot \<Longrightarrow>
   within_cap s len' tot'"
proof (induction s "next" until_end n len tot rule: clamp_ring_end.induct)
  case (2 s nxt until_end n len tot)
  then obtain needed where nd: "slots_for_log_index s (nxt + len) = Ret needed"
    and r: "(if tot + needed > until_end then Ret (len, tot)
       else if len > 0 \<and> (tot + needed) * SECTOR_SIZE > max_ae_batch_bytes s then Ret (len, tot)
       else clamp_ring_end s nxt until_end n (len + 1) (tot + needed)) = Ret (len', tot')"
    by (auto simp: obind_eq_Ret)
  show ?case
  proof (cases "tot + needed > until_end \<or> len > 0 \<and> (tot + needed) * SECTOR_SIZE > max_ae_batch_bytes s")
    case False
    then have "within_cap s (len + 1) (tot + needed)"
      by (cases "len = 0") (auto simp: within_cap_def word_neq_0_conv not_less)
    with 2(1) [of needed] r False show ?thesis by auto
  qed (use r 2(3) in \<open>auto split: if_splits\<close>)
qed simp

lemma size_batch_bounds:
  assumes "size_batch next len first s = Ret (len', tot, spe)"
  shows "tot \<le> ring_slots (ring s) - first \<and> within_cap s len' tot"
proof (cases "len > 0")
  case True
  then obtain l t where a: "accept_batch s next (unat len) 0 0 = Ret (l, t)"
    and r: "(let spe = (t + l - 1) div l; until_end = ring_slots (ring s) - first
      in if t > until_end then
           obind (clamp_ring_end s next until_end (entries_to_last next s) 0 0) (\<lambda>(len, tot).
             Ret (len, tot, if len > 0 then (tot + len - 1) div len else spe))
         else Ret (l, t, spe)) = Ret (len', tot, spe)"
    using assms by (auto simp: size_batch_def obind_eq_Ret)
  have "within_cap s l t" using accept_batch_cap [OF a] by (simp add: within_cap_def)
  with r clamp_ring_end_le clamp_ring_end_cap [where len = 0] show ?thesis
    by (fastforce simp: Let_def obind_eq_Ret within_cap_def split: if_splits prod.splits)
qed (use assms in \<open>auto simp: size_batch_def within_cap_def\<close>)

lemma locate_batch_le:
  assumes "locate_batch nxt len tot first s = Ret (len', n, src)"
  shows "n \<le> tot"
proof (cases "len > 0")
  case True
  then obtain q b where "leader_pba_for_range first tot s = Ret (q, b)"
    and r: "(let actual_slots = b div SECTOR_SIZE in
          if actual_slots < tot
          then obind (clamp_extent s nxt actual_slots (entries_to_last nxt s) 0 0)
                 (\<lambda>(len, counted). Ret (len, counted, q))
          else Ret (len, tot, q)) = Ret (len', n, src)"
    using assms by (auto simp: locate_batch_def obind_eq_Ret)
  then show ?thesis
    using clamp_extent_le [of s nxt "b div SECTOR_SIZE" "entries_to_last nxt s" 0 0]
    by (fastforce simp: Let_def obind_eq_Ret split: if_splits)
qed (use assms in \<open>simp add: locate_batch_def\<close>)

text \<open>The metadata describe the entries of the batch, one by one.\<close>

definition meta_of :: "entry \<Rightarrow> entry_meta" where
  "meta_of e = \<lparr>meta_term = e_term e, meta_cmd_len =
     (if command e = [] \<and> ring_slot e \<noteq> 0 then cmd_len e else command_size (command e))\<rparr>"

lemma build_metas_nth:
  "build_metas s nxt n k = Ret ms \<Longrightarrow> length ms = n \<and>
   (\<forall>j < n. \<exists>e. log_at s (nxt + (k + of_nat j)) = Ret e \<and> ms ! j = meta_of e)"
proof (induction s nxt n k arbitrary: ms rule: build_metas.induct)
  case (2 s nxt n k)
  then obtain e ms' where e: "log_at s (nxt + k) = Ret e" and b: "build_metas s nxt n (k + 1) = Ret ms'"
    and ms: "ms = meta_of e # ms'"
    by (auto simp: obind_eq_Ret Let_def meta_of_def)
  have IH: "length ms' = n \<and> (\<forall>j < n. \<exists>e. log_at s (nxt + (k + 1 + of_nat j)) = Ret e \<and> ms' ! j = meta_of e)"
    using "2.IH" e b by blast
  show ?case
  proof (intro conjI allI impI)
    show "length ms = Suc n" using IH ms by simp
    show "\<exists>e. log_at s (nxt + (k + of_nat j)) = Ret e \<and> ms ! j = meta_of e" if "j < Suc n" for j
    proof (cases j)
      case 0
      with e ms show ?thesis by simp
    next
      case (Suc i)
      with IH that ms show ?thesis by (auto simp: add.assoc)
    qed
  qed
qed simp

text \<open>
  The request of a round: its term, the entries it announces, and a block range that stays in
  the ring.
\<close>

lemma clamp_next_fields:
  "clamp_next fi s = (nxt, t) \<Longrightarrow> ring t = ring s \<and> rlog (raft t) = rlog (raft s) \<and>
     current_term (raft t) = current_term (raft s) \<and> max_ae_batch_bytes t = max_ae_batch_bytes s"
  by (auto simp: clamp_next_def Let_def update_member_def split: if_splits)

lemma log_at_cong:
  "ring t = ring s \<Longrightarrow> rlog (raft t) = rlog (raft s) \<Longrightarrow> log_at t i = log_at s i"
  by (simp add: log_at_def log_slice_def oldest_log_index_def log_size_def)

text \<open>
  What a built request says: it carries the leader's term; its metadata are one per entry,
  with the term and length of the leader's own entry at that index; and its blocks do not pass
  the end of the ring.
\<close>

lemma built_request:
  assumes "ae_build fi s = (Ret (Some r), t)"
  shows "aeq_term (round_req r) = current_term (raft s) \<and> num_entries (round_req r) = round_len r \<and>
    length (entry_metas (round_req r)) = unat (num_entries (round_req r)) \<and>
    log_block_length (round_req r) \<le> ring_slots (ring s) - start_slot (round_req r) \<and>
    (\<forall>j < unat (num_entries (round_req r)). \<exists>e. log_at s (round_next r + of_nat j) = Ret e \<and>
       entry_metas (round_req r) ! j = meta_of e)"
    and "round_next r > 0 \<Longrightarrow> prev_log_index (round_req r) = round_next r - 1"
    and "round_next r \<le> tail_log_index (ring s)" "member_ok s fi"
    and "raft t = (if round_len r > 0 then raft (update_member fi (\<lambda>m. m\<lparr>inflight := True\<rparr>) (snd (clamp_next fi s)))
       else raft (snd (clamp_next fi s)))" "ring t = ring s"
proof -
  define q where "q = round_req r"
  have "member_ok s fi" using assms(1) by (auto simp: ae_build_def split: if_splits)
  obtain nxt u where c: "clamp_next fi s = (nxt, u)" by fastforce
  obtain pidx pterm where p: "prev_log nxt u = Ret (pidx, pterm)"
    using assms(1) c by (auto simp: ae_build_def split: if_splits outcome.splits)
  obtain len0 where b: "batch_len fi nxt u = Some len0"
    using assms(1) c p by (auto simp: ae_build_def split: if_splits option.splits)
  obtain len1 first where f: "find_start_slot nxt len0 u = (len1, first)" by fastforce
  obtain len nblocks src spe metas where
    o: "obind (size_batch nxt len1 first u) (\<lambda>(len2, tot2, spe).
          obind (locate_batch nxt len2 tot2 first u) (\<lambda>(len, nblocks, src).
          obind (build_metas u nxt (unat len) 0) (\<lambda>metas.
          Ret (len, nblocks, src, spe, metas)))) = Ret (len, nblocks, src, spe, metas)"
    using assms(1) c p b f by (auto simp: ae_build_def Let_def split: if_splits outcome.splits)
  then obtain len2 tot2 where sz: "size_batch nxt len1 first u = Ret (len2, tot2, spe)"
    and lo: "locate_batch nxt len2 tot2 first u = Ret (len, nblocks, src)"
    and bm: "build_metas u nxt (unat len) 0 = Ret metas"
    by (auto simp: obind_eq_Ret)
  have r: "round_next r = nxt" "round_len r = len" "aeq_term q = current_term (raft u)"
    "num_entries q = len" "prev_log_index q = pidx"
    "raft t = (if len > 0 then raft (update_member fi (\<lambda>m. m\<lparr>inflight := True\<rparr>) u) else raft u)" "ring t = ring u"
    "log_block_length q = nblocks" "start_slot q = first" "entry_metas q = metas"
    using assms(1) c p b f o
    by (auto simp: ae_build_def q_def Let_def split: if_splits outcome.splits)
  show "aeq_term (round_req r) = current_term (raft s) \<and> num_entries (round_req r) = round_len r \<and>
    length (entry_metas (round_req r)) = unat (num_entries (round_req r)) \<and>
    log_block_length (round_req r) \<le> ring_slots (ring s) - start_slot (round_req r) \<and>
    (\<forall>j < unat (num_entries (round_req r)). \<exists>e. log_at s (round_next r + of_nat j) = Ret e \<and>
       entry_metas (round_req r) ! j = meta_of e)"
    using size_batch_bounds [OF sz] locate_batch_le [OF lo] build_metas_nth [OF bm]
      clamp_next_fields [OF c] log_at_cong [of u s]
    unfolding r q_def [symmetric] by (auto simp: within_cap_def)
  show "round_next r > 0 \<Longrightarrow> prev_log_index (round_req r) = round_next r - 1"
    using p r by (auto simp: prev_log_def q_def Let_def obind_eq_Ret split: if_splits)
  show "round_next r \<le> tail_log_index (ring s)"
    using c r(1) by (auto simp: clamp_next_def Let_def not_less split: if_splits)
  show "member_ok s fi" by fact
  show "raft t = (if round_len r > 0 then raft (update_member fi (\<lambda>m. m\<lparr>inflight := True\<rparr>) (snd (clamp_next fi s)))
       else raft (snd (clamp_next fi s)))" "ring t = ring s"
    using r c clamp_next_fields [OF c] by simp_all
qed

definition sample_leader :: server where
  "sample_leader = upd_raft (\<lambda>r. r\<lparr>role := Leader\<rparr>) sample_node"

lemma sample_leader_fields [simp]:
  "ring sample_leader = ring sample_node" "io sample_leader = io sample_node"
  "rlog (raft sample_leader) = rlog (raft sample_node)" "role (raft sample_leader) = Leader"
  "current_term (raft sample_leader) = 1" "commit_index (raft sample_leader) = 0"
  "last_applied (raft sample_leader) = 1" "cluster_index (raft sample_leader) = 0"
  "cluster (raft sample_leader) = cluster (raft sample_node)"
  "max_ae_batch sample_leader = DEFAULT_MAX_AE_BATCH"
  "max_ae_batch_bytes sample_leader = DEFAULT_MAX_AE_BATCH_BYTES"
  by (simp_all add: sample_leader_def upd_raft_def sample_node_def Server_init_def)

lemma sample_build:
  "\<exists>r t. ae_build 1 sample_leader = (Ret (Some r), t) \<and> num_entries (round_req r) = 2 \<and>
     length (entry_metas (round_req r)) = 2"
proof -
  have o: "oldest_log_index sample_leader = 1"
    by (simp add: oldest_log_index_def log_size_def)
  have l: "log_at sample_leader 1 = Ret (sample_entry 1 [7])"
    "log_at sample_leader 2 = Ret (sample_entry 1 [8, 9])"
    by (simp_all add: log_at_def log_slice_def o)
  have n: "slots_for_log_index sample_leader 1 = Ret 1" "slots_for_log_index sample_leader 2 = Ret 1"
    by (simp_all add: slots_for_log_index_def)
  have c: "clamp_next 1 sample_leader = (1, sample_leader)" "member_ok sample_leader 1"
    by (simp_all add: clamp_next_def member_ok_def ClusterMember_def Let_def)
  have p: "prev_log 1 sample_leader = Ret (0, 0)" by (simp add: prev_log_def o)
  have b: "batch_len 1 1 sample_leader = Some 2"
    by (simp add: batch_len_def ClusterMember_def DEFAULT_MAX_AE_BATCH_def)
  have f: "find_start_slot 1 2 sample_leader = (2, 0)"
    by (simp add: find_start_slot_def sample_defs)
  have a: "accept_batch sample_leader 1 2 0 0 = Ret (2, 2)"
    unfolding numeral_2_eq_2 by (simp add: n size_defs)
  have z: "size_batch 1 2 0 sample_leader = Ret (2, 2, 1)"
    using a by (simp add: size_batch_def)
  have y: "lookup [sample_extent] 512 4096 = Ret \<lparr>pba = 4608, seg_len = 4096\<rparr>" by code_simp
  have g: "align_up (2 * SECTOR_SIZE) PAGE_SIZE = 4096" "slot_offset 0 = 512"
    by (simp_all add: align_up_def slot_offset_def size_defs)
  have x: "locate_batch 1 2 2 0 sample_leader = Ret (2, 2, 4608)"
    by (simp add: locate_batch_def leader_pba_for_range_def fd_query_def get_pba_def sample_fd_def
        y g Let_def) (simp add: size_defs)
  have m: "build_metas sample_leader 1 2 0 = Ret [meta_of (sample_entry 1 [7]), meta_of (sample_entry 1 [8, 9])]"
    unfolding numeral_2_eq_2 by (simp add: l meta_of_def)
  obtain r t where "ae_build 1 sample_leader = (Ret (Some r), t)" "num_entries (round_req r) = 2"
    using c p b f z x m by (simp add: ae_build_def cluster_at_def)
  with built_request(1) [of 1 sample_leader r t] show ?thesis by auto
qed

section \<open>Follower progress\<close>

lemma success_member:
  fixes nxt len :: u64 and has :: bool
  assumes "member_ok s fi"
  defines "m \<equiv> cluster (raft s) ! fi"
    and "m' \<equiv> cluster (raft (apply_ae_success fi nxt len has s)) ! fi"
  shows "next_index m' = max (next_index m) (max (nxt + len) 1) \<and>
    match_index m' = next_index m' - 1"
proof -
  define w where "w = max (nxt + len) 1"
  let ?n = "if w > next_index m then m\<lparr>next_index := w\<rparr> else m"
  have "m' = ?n\<lparr>match_index := next_index ?n - 1\<rparr>"
    unfolding m'_def m_def apply_ae_success_def w_def [symmetric] Let_def
    using assms(1) by (simp add: member_ok_def upd_raft_def)
  then show ?thesis
    unfolding w_def [symmetric] by (cases "w > next_index m") (auto simp: max_def)
qed

lemma success_frame:
  "ring (apply_ae_success fi nxt len has s) = ring s"
  "rlog (raft (apply_ae_success fi nxt len has s)) = rlog (raft s)"
  "current_term (raft (apply_ae_success fi nxt len has s)) = current_term (raft s)"
  "commit_index (raft (apply_ae_success fi nxt len has s)) = commit_index (raft s)"
  "i \<noteq> fi \<Longrightarrow> cluster (raft (apply_ae_success fi nxt len has s)) ! i = cluster (raft s) ! i"
  by (simp_all add: apply_ae_success_def Let_def upd_raft_def)

text \<open>
  An accepted round on a leader that is still in the request's term: the follower's next
  index grows to one past the batch and never falls, its match index is the one before, the data
  round is no longer in flight, and nothing changes for the other members, the log or the commit
  index.
\<close>

lemma finish_accepted:
  assumes ok: "member_ok s fi" and rsp: "success rsp" "aer_term rsp = aeq_term (round_req r)"
    and cur: "aeq_term (round_req r) = current_term (raft s)"
  shows "\<exists>t. ae_finish fi sink r (Some rsp) tm s = (Ret (), t) \<and>
    next_index (cluster (raft t) ! fi) =
      max (next_index (cluster (raft s) ! fi)) (max (round_next r + round_len r) 1) \<and>
    match_index (cluster (raft t) ! fi) = next_index (cluster (raft t) ! fi) - 1 \<and>
    (\<forall>i. i \<noteq> fi \<longrightarrow> cluster (raft t) ! i = cluster (raft s) ! i) \<and>
    (round_has_entries r \<longrightarrow> \<not> inflight (cluster (raft t) ! fi)) \<and>
    rlog (raft t) = rlog (raft s) \<and> commit_index (raft t) = commit_index (raft s) \<and> ring t = ring s"
proof -
  define a where "a = (if round_has_entries r then update_member fi (\<lambda>m. m\<lparr>inflight := False\<rparr>) s else s)"
  define b where "b = (if round_has_entries r then ae_record_sample sink (ae_sample sink rsp tm a) a else a)"
  let ?t = "apply_ae_success fi (round_next r) (round_len r) (round_has_entries r) b"
  have raft: "raft b = raft a" "ring b = ring s"
    by (auto simp: b_def a_def ae_record_sample_def Let_def split: option.splits)
  have a: "next_index (cluster (raft a) ! fi) = next_index (cluster (raft s) ! fi)"
    "current_term (raft a) = current_term (raft s)" "rlog (raft a) = rlog (raft s)"
    "commit_index (raft a) = commit_index (raft s)" "member_ok a fi"
    "round_has_entries r \<longrightarrow> \<not> inflight (cluster (raft a) ! fi)"
    "\<forall>i. i \<noteq> fi \<longrightarrow> cluster (raft a) ! i = cluster (raft s) ! i"
    using ok by (auto simp: a_def member_ok_def update_member_def)
  have run: "ae_finish fi sink r (Some rsp) tm s = (Ret (), ?t)"
    using rsp cur a(2) by (simp add: ae_finish_def a_def [symmetric] b_def Let_def)
  have "member_ok b fi" using a(5) raft by (simp add: member_ok_def)
  note m = success_member [OF this, of "round_next r" "round_len r" "round_has_entries r"]
  have "inflight (cluster (raft ?t) ! fi) = inflight (cluster (raft b) ! fi)"
    using \<open>member_ok b fi\<close>
    by (auto simp: apply_ae_success_def Let_def update_member_def upd_raft_def member_ok_def)
  with run m success_frame [where fi = fi and nxt = "round_next r" and len = "round_len r" and
      has = "round_has_entries r" and s = b] a raft
  show ?thesis by (auto)
qed

definition sample_round :: ae_round where
  "sample_round = \<lparr>round_req = AppendEntriesRequest\<lparr>aeq_term := 1, num_entries := 2\<rparr>,
     round_next = 1, round_len = 2\<rparr>"

definition sample_times :: round_times where
  "sample_times = \<lparr>t_mutex_b = 1, t_mutex_c = 2, t_rt = 3, t_lock_b_held = 4, t_slot_map = 5,
     t_mark_slots = 6, t_pba_lookup = 7, t_meta_build = 8, t_copy_rt = 9, t_copy_storage = 10\<rparr>"

lemma sample_finish:
  "\<exists>t. ae_finish 1 None sample_round (Some (AppendEntriesResponse\<lparr>aer_term := 1, success := True\<rparr>))
       sample_times sample_leader = (Ret (), t) \<and>
     next_index (cluster (raft t) ! 1) = 3 \<and> match_index (cluster (raft t) ! 1) = 2"
proof -
  let ?rsp = "AppendEntriesResponse\<lparr>aer_term := 1, success := True\<rparr>"
  have "member_ok sample_leader 1" "success ?rsp" "aer_term ?rsp = aeq_term (round_req sample_round)"
    "aeq_term (round_req sample_round) = current_term (raft sample_leader)"
    by (simp_all add: member_ok_def sample_round_def)
  from finish_accepted [OF this, of None sample_times] show ?thesis
    by (auto simp: sample_round_def ClusterMember_def)
qed

text \<open>The terms of a Raft log never go down from one entry to the next.\<close>

definition terms_sorted :: "server \<Rightarrow> bool" where
  "terms_sorted s \<longleftrightarrow> (\<forall>i j e e'. in_log s i \<and> in_log s j \<and> i \<le> j \<and> log_at s i = Ret e \<and> log_at s j = Ret e' \<longrightarrow>
     e_term e \<le> e_term e')"

definition indices_of_term :: "server \<Rightarrow> u64 \<Rightarrow> u64 \<Rightarrow> u64 set" where
  "indices_of_term s t j = {i. in_log s i \<and> i \<le> j \<and> (\<exists>e. log_at s i = Ret e \<and> e_term e = t)}"

lemma finite_indices [simp]: "finite (indices_of_term s t j)"
  by (rule finite_subset [of _ UNIV]) simp_all

text \<open>The search that stops early finds the last entry of the term, if there is one.\<close>

lemma backoff_search_last:
  assumes "wf_log s" "terms_sorted s" "j < tail_log_index (ring s)"
  shows "backoff_search s cterm (oldest_log_index s) d j =
    Ret (if indices_of_term s cterm j = {} then d else Max (indices_of_term s cterm j) + 1)"
  using assms
proof (induction s cterm "oldest_log_index s" d j rule: backoff_search.induct)
  case (1 s cterm d j)
  let ?L = "indices_of_term s cterm"
  show ?case
  proof (cases "j \<ge> 1 \<and> j \<ge> oldest_log_index s")
    case True
    then have j: "in_log s j" using 1(4) by (simp add: in_log_def)
    define e where "e = rlog (raft s) ! unat (log_slice s j)"
    have l: "log_at s j = Ret e" unfolding e_def by (rule log_at_Ret [OF 1(2) j])
    have step: "backoff_search s cterm (oldest_log_index s) d j =
      (if e_term e = cterm then Ret (j + 1) else if e_term e < cterm \<or> j = oldest_log_index s then Ret d
       else backoff_search s cterm (oldest_log_index s) d (j - 1))"
      using True by (subst backoff_search.simps) (simp add: l)
    have low: "e_term e' \<le> e_term e" if "in_log s i" "i \<le> j" "log_at s i = Ret e'" for i e'
      using 1(3) that j l unfolding terms_sorted_def by blast
    consider "e_term e = cterm" | "e_term e < cterm \<or> e_term e \<noteq> cterm \<and> j = oldest_log_index s"
      | "cterm < e_term e" "j \<noteq> oldest_log_index s" using linorder_less_linear by blast
    then show ?thesis
    proof cases
      case 1
      then have "j \<in> ?L j" using j l by (simp add: indices_of_term_def)
      moreover from this have "Max (?L j) = j" by (intro Max_eqI) (auto simp: indices_of_term_def)
      ultimately show ?thesis using 1 step by auto
    next
      case 2
      then have "?L j = {}" using low l by (auto simp: indices_of_term_def in_log_def not_less) fastforce
      with 2 step show ?thesis by auto
    next
      case 3
      have pred: "i \<le> j \<longleftrightarrow> i = j \<or> i \<le> j - 1" for i
        using True unat_u64_sub [of 1 j] by (auto simp: word_le_nat_alt u64_eq_iff)
      then have "?L j = ?L (j - 1)" using 3 l by (auto simp: indices_of_term_def)
      moreover have "j - 1 < tail_log_index (ring s)"
        using 1(4) u64_dec [of j] True by (simp add: word_less_nat_alt)
      ultimately show ?thesis using 1(1) [OF True l] 1(2,3) 3 step by auto
    qed
  next
    case False
    have "\<not> (in_log s i \<and> i \<le> j)" for i
      using False oldest_pos [OF 1(2)] by (auto simp: in_log_def word_le_nat_alt)
    then have "?L j = {}" by (auto simp: indices_of_term_def)
    with False show ?thesis by (subst backoff_search.simps) auto
  qed
qed

text \<open>
  C37. A rejected round: a stale rejection changes nothing. Any other one takes the follower's hint: one
  below what was tried without a hint, the end of a shorter log, or, for a conflicting term, the index
  after the leader's last entry of that term and the follower's index where the leader has none (the
  search stops early, which the order of the terms in a Raft log allows). The next index is set to it,
  at most one below what was tried, at least 1 and at least one past what the follower has confirmed.
\<close>

theorem ae_backoff:
  assumes "wf_log s" "terms_sorted s" "pidx < tail_log_index (ring s)"
  shows "apply_ae_failure_backoff fi pidx cterm cidx sent s =
    (let m = cluster (raft s) ! fi; L = indices_of_term s cterm pidx;
         hint = (if cterm = 0 then (if cidx = 0 then sent - 1 else cidx) else if L = {} then cidx else Max L + 1);
         retry = (if sent = 0 then 0 else min hint (sent - 1))
     in if next_index m \<noteq> sent then (Ret False, s)
        else (Ret True, update_member fi (\<lambda>m. m\<lparr>next_index := max retry (max 1 (match_index m + 1))\<rparr>) s))"
proof -
  have low: "(if h \<ge> sent then (if sent > 0 then sent - 1 else 0) else h) = (if sent = 0 then 0 else min h (sent - 1))" for h
    using unat_u64_sub [of 1 sent] by (auto simp: min_def word_le_nat_alt word_less_nat_alt u64_eq_iff)
  have up: "update_member fi (\<lambda>m. m\<lparr>next_index := max (max r 1) (match_index (cluster (raft s) ! fi) + 1)\<rparr>) s =
      update_member fi (\<lambda>m. m\<lparr>next_index := max r (max 1 (match_index m + 1))\<rparr>) s" for r
    by (simp add: update_member_def upd_raft_def max.assoc)
  let ?hint = "if cterm = 0 then (if cidx = 0 then sent - 1 else cidx)
    else if indices_of_term s cterm pidx = {} then cidx else Max (indices_of_term s cterm pidx) + 1"
  have hint: "(if cterm = 0 \<and> cidx = 0 then Ret (sent - 1) else if cterm = 0 then Ret cidx
      else backoff_search s cterm (oldest_log_index s) cidx pidx) = Ret ?hint"
    unfolding backoff_search_last [OF assms] by (simp only: if_distrib [of Ret] split: if_split) simp
  show ?thesis
  proof (cases "next_index (cluster (raft s) ! fi) = sent")
    case True
    then show ?thesis
      unfolding apply_ae_failure_backoff_def Let_def True hint by (simp only: outcome.case simp_thms if_False low up)
  qed (simp add: apply_ae_failure_backoff_def Let_def)
qed

theorem ae_backoff_witness:
  "apply_ae_failure_backoff 1 2 1 1 3 (update_member 1 (\<lambda>m. m\<lparr>next_index := 3\<rparr>) sample_leader) =
     (Ret True, update_member 1 (\<lambda>m. m\<lparr>next_index := 2\<rparr>) (update_member 1 (\<lambda>m. m\<lparr>next_index := 3\<rparr>) sample_leader))"
proof -
  define s where "s = update_member 1 (\<lambda>m. m\<lparr>next_index := 3\<rparr>) sample_leader"
  have wf: "wf_log s" and t: "2 < tail_log_index (ring s)" by (simp_all add: s_def wf_log_def)
  have o: "oldest_log_index s = 1" by (simp add: s_def oldest_log_index_def log_size_def)
  have f: "tail_log_index (ring s) = 3" "rlog (raft s) = rlog (raft sample_node)" by (simp_all add: s_def)
  have two: "i = 1 \<or> i = 2" if "in_log s i" for i :: u64
    using that by (auto simp: in_log_def o f word_le_nat_alt word_less_nat_alt u64_eq_iff)
  have one: "e_term e = 1" if "in_log s i" "log_at s i = Ret e" for i e
    using that(2) two [OF that(1)] by (auto simp: log_at_def log_slice_def o f)
  then have st: "terms_sorted s" unfolding terms_sorted_def by (metis order_refl)
  have "2 \<in> indices_of_term s 1 2" by (simp add: indices_of_term_def in_log_def o f log_at_def log_slice_def word_le_nat_alt)
  then have "indices_of_term s 1 2 \<noteq> {}" "Max (indices_of_term s 1 2) = 2"
    by (auto intro!: Max_eqI simp: indices_of_term_def)
  moreover have m: "next_index (cluster (raft s) ! 1) = 3" "match_index (cluster (raft s) ! 1) = 0"
    by (simp_all add: s_def ClusterMember_def)
  ultimately have "apply_ae_failure_backoff 1 2 1 1 3 s =
      (Ret True, update_member 1 (\<lambda>m. m\<lparr>next_index := max 2 (max 1 (match_index m + 1))\<rparr>) s)"
    using ae_backoff [OF wf st t, of 1 1 1 3] by (simp add: Let_def)
  moreover have "max 2 (max 1 (match_index (cluster (raft s) ! 1) + 1)) = (2 :: u64)"
    unfolding m(2) by (simp add: max_def word_le_nat_alt)
  ultimately show ?thesis unfolding s_def [symmetric] unfolding update_member_def by simp
qed

end
