(* ===== verification/FollowerAE.thy ===== *)
theory FollowerAE
  imports LeaderAE
begin

text \<open>
  \<open>Server::handle_append_entries_request\<close> of \<open>core/src/raft_handle_append_entries.cpp\<close>. The
  handler drops the lock around the block copy, so it is the two critical sections
  \<open>ae_receive\<close> (up to the copy) and \<open>ae_complete\<close> (after it), and \<open>handle_append_entries\<close> is
  their composition with nothing in between. The durations the handler measures are the argument
  \<open>handler_times\<close>.
\<close>

record handler_times =
  h_duration :: int
  h_lock_wait :: int
  h_pre :: int
  h_lock_wait2 :: int
  h_post :: int
  h_persist :: int

text \<open>\<open>finalize\<close> with the durations measured so far; the others are still 0.\<close>

definition finalize ::
  "handler_times \<Rightarrow> int \<Rightarrow> int \<Rightarrow> int \<Rightarrow> int \<Rightarrow> append_entries_response \<Rightarrow> append_entries_response" where
  "finalize tm pre wait2 post persist rsp =
     rsp\<lparr>handler_duration_ns := h_duration tm, handle_ae_lock_wait_ns := h_lock_wait tm,
         handle_ae_pre_ns := pre, handle_ae_lock_wait2_ns := wait2,
         handle_ae_post_ns := post, handle_ae_persist_ns := persist\<rparr>"

section \<open>Consistency check\<close>

text \<open>The first index of the run of entries with the conflicting term that ends at \<open>ci\<close>.\<close>

function conflict_start :: "server \<Rightarrow> u64 \<Rightarrow> u64 \<Rightarrow> u64 \<Rightarrow> u64 outcome" where
  "conflict_start s oldest local_term ci =
     (if ci > oldest then
        (case log_at s (ci - 1) of
           Ret e \<Rightarrow> if e_term e = local_term then conflict_start s oldest local_term (ci - 1) else Ret ci
         | Exc x \<Rightarrow> Exc x
         | Ub \<Rightarrow> Ub)
      else Ret ci)"
  by auto

lemma u64_dec_gt: "o' < (j :: u64) \<Longrightarrow> unat (j - 1) < unat j"
  by (rule u64_dec) (simp add: word_le_nat_alt word_less_nat_alt)

termination conflict_start
  by (relation "measure (\<lambda>(s, o', t, ci). unat ci)") (auto intro: u64_dec_gt)

declare conflict_start.simps [simp del]

text \<open>\<open>None\<close> when the check passes, otherwise the conflict term and index to report.\<close>

definition prev_log_check :: "append_entries_request \<Rightarrow> server \<Rightarrow> (u64 \<times> u64) option outcome" where
  "prev_log_check req s =
     (if prev_log_index req > 0 then
        if prev_log_index req \<ge> tail_log_index (ring s) then Ret (Some (0, tail_log_index (ring s)))
        else
          let oldest = oldest_log_index s in
          if prev_log_index req \<ge> oldest then
            obind (log_at s (prev_log_index req)) (\<lambda>e.
              if e_term e \<noteq> prev_log_term req then
                obind (conflict_start s oldest (e_term e) (prev_log_index req)) (\<lambda>ci.
                  Ret (Some (e_term e, ci)))
              else Ret None)
          else Ret None
      else Ret None)"

section \<open>Building the log\<close>

text \<open>
  One entry of the batch, number \<open>i\<close>: entries the follower already has only move the slot
  pointer.
\<close>

definition push_meta :: "u64 \<Rightarrow> u64 \<Rightarrow> entry_meta \<Rightarrow> server \<Rightarrow> server" where
  "push_meta skip i meta s =
     (let needed = slots_for_entry (meta_cmd_len meta);
          s = (if i \<ge> skip
               then let (e, s) = make_entry s;
                        e = e\<lparr>e_term := meta_term meta, ring_slot := tail_slot (ring s),
                              cmd_len := meta_cmd_len meta\<rparr>
                    in upd_raft (\<lambda>r. r\<lparr>rlog := rlog r @ [e]\<rparr>) s
               else s)
      in upd_ring (\<lambda>g. let ts = tail_slot g + needed
                       in g\<lparr>tail_slot := (if ts \<ge> ring_slots g then 0 else ts)\<rparr>) s)"

fun push_metas :: "u64 \<Rightarrow> u64 \<Rightarrow> entry_meta list \<Rightarrow> server \<Rightarrow> server" where
  "push_metas skip i [] s = s"
| "push_metas skip i (m # ms) s = push_metas skip (i + 1) ms (push_meta skip i m s)"

definition adopt_commit :: "append_entries_request \<Rightarrow> server \<Rightarrow> server" where
  "adopt_commit req s =
     (if leader_commit req > commit_index (raft s)
      then upd_raft (\<lambda>r. r\<lparr>commit_index := min (leader_commit req) (tail_log_index (ring s) - 1)\<rparr>) s
      else s)"

section \<open>The critical sections\<close>

text \<open>
  How the first section ends: with a response, or at the block copy with the values it computed
  (\<open>new_tail\<close>, \<open>skip_entries\<close>, \<open>old_tail_slot\<close>), or past it when the request carries no blocks.
\<close>

datatype ae_progress =
    Answered append_entries_response
  | CopyBlocks append_entries_response u64 u64 u64
  | NoBlocks append_entries_response

text \<open>The tail of the handler: commit index, header, success.\<close>

definition ae_accept ::
  "handler_times \<Rightarrow> int \<Rightarrow> int \<Rightarrow> int \<Rightarrow> append_entries_request \<Rightarrow> append_entries_response
   \<Rightarrow> server \<Rightarrow> append_entries_response step" where
  "ae_accept tm pre wait2 post req rsp s =
     andthen (persist_circular False 0 (adopt_commit req s)) (\<lambda>_ s.
       (Ret (finalize tm pre wait2 post (h_persist tm)
          (rsp\<lparr>storage_copy_ns := storage_copy_ns rsp + h_persist tm, success := True\<rparr>)), s))"

definition skip_count :: "append_entries_request \<Rightarrow> server \<Rightarrow> u64" where
  "skip_count req s =
     (let new_tail = prev_log_index req + 1 in
      if new_tail < tail_log_index (ring s) then tail_log_index (ring s) - new_tail else 0)"

definition ae_batch_known :: "append_entries_request \<Rightarrow> server \<Rightarrow> bool" where
  "ae_batch_known req s \<longleftrightarrow>
     prev_log_index req + 1 < tail_log_index (ring s) \<and> skip_count req s \<ge> num_entries req"

text \<open>A candidate that hears from the leader of its term follows it.\<close>

definition ae_follow :: "append_entries_request \<Rightarrow> server \<Rightarrow> server" where
  "ae_follow req s = (if aeq_term req = current_term (raft s) \<and> role (raft s) = Candidate
     then upd_raft (\<lambda>r. r\<lparr>role := Follower\<rparr>) s else s)"

definition ae_receive ::
  "handler_times \<Rightarrow> append_entries_request \<Rightarrow> server \<Rightarrow> ae_progress step" where
  "ae_receive tm req s =
     andthen (update_term (aeq_term req) s) (\<lambda>_ s.
       let s = ae_follow req s;
           rsp = AppendEntriesResponse\<lparr>aer_term := current_term (raft s)\<rparr>
       in if role (raft s) \<noteq> Follower \<or> aeq_term req < current_term (raft s)
          then (Ret (Answered (finalize tm 0 0 0 0 rsp)), s)
          else
            let s = reset_election_timeout s in
            case prev_log_check req s of
              Exc e \<Rightarrow> (Exc e, s)
            | Ub \<Rightarrow> (Ub, s)
            | Ret (Some (cterm, cidx)) \<Rightarrow>
                (Ret (Answered (finalize tm 0 0 0 0
                  (rsp\<lparr>conflict_term := cterm, conflict_index := cidx\<rparr>))), s)
            | Ret None \<Rightarrow>
                if ae_batch_known req s then
                  andthen (ae_accept tm 0 0 0 req rsp s) (\<lambda>rsp s. (Ret (Answered rsp), s))
                else if num_entries req > 0 \<and> leader_pba_src req \<noteq> 0 then
                  let skip = skip_count req s;
                      s = upd_ring (\<lambda>g. g\<lparr>tail_slot := start_slot req\<rparr>) s
                  in (Ret (CopyBlocks rsp (prev_log_index req + 1) skip (tail_slot (ring s))), s)
                else (Ret (NoBlocks rsp), s))"

text \<open>The second section, with the result of the block copy (\<open>None\<close> when it failed).\<close>

definition ae_complete ::
  "handler_times \<Rightarrow> append_entries_request \<Rightarrow> append_entries_response \<Rightarrow> u64 \<Rightarrow> u64
   \<Rightarrow> (int \<times> int) option \<Rightarrow> server \<Rightarrow> append_entries_response step" where
  "ae_complete tm req rsp new_tail skip copy s =
     (let wait2 = (if data_already_copied req then 0 else h_lock_wait2 tm) in
      case copy of
        None \<Rightarrow> (Ret (finalize tm (h_pre tm) wait2 0 0 rsp), s)
      | Some (rt, cp) \<Rightarrow>
          let rsp = rsp\<lparr>write_pba_rt_ns := rt, storage_copy_ns := cp\<rparr>;
              s = (if length (entry_metas req) = unat (num_entries req)
                   then upd_ring (\<lambda>g. g\<lparr>tail_log_index := new_tail + num_entries req\<rparr>)
                          (push_metas skip 0 (entry_metas req) s)
                   else s)
          in ae_accept tm (h_pre tm) wait2 (h_post tm) req rsp s)"

definition copy_result :: "blockcopy_client \<Rightarrow> append_entries_request \<Rightarrow> u64 \<Rightarrow> server
  \<Rightarrow> (int \<times> int) option outcome" where
  "copy_result bc req old_tail_slot s =
     (if data_already_copied req then Ret (Some (0, 0))
      else case do_pba_copy bc (leader_pba_src req) (log_block_length req) old_tail_slot
                  (leader_dev_index req) (cluster_index (raft s)) s of
             Ret r \<Rightarrow> Ret (Some r) | Exc _ \<Rightarrow> Ret None | Ub \<Rightarrow> Ub)"

definition handle_append_entries ::
  "blockcopy_client \<Rightarrow> handler_times \<Rightarrow> append_entries_request \<Rightarrow> server \<Rightarrow> append_entries_response step" where
  "handle_append_entries bc tm req s =
     andthen (ae_receive tm req s) (\<lambda>p s.
       case p of
         Answered rsp \<Rightarrow> (Ret rsp, s)
       | NoBlocks rsp \<Rightarrow> ae_accept tm 0 0 0 req rsp s
       | CopyBlocks rsp new_tail skip old_tail_slot \<Rightarrow>
           (case copy_result bc req old_tail_slot s of
              Ret copy \<Rightarrow> ae_complete tm req rsp new_tail skip copy s
            | Exc e \<Rightarrow> (Exc e, s)
            | Ub \<Rightarrow> (Ub, s)))"

section \<open>The node invariant\<close>

text \<open>
  The node's own membership slot exists, the log is an interval of indices, and the commit index
  lies in the log.
\<close>

definition node_inv :: "server \<Rightarrow> bool" where
  "node_inv s \<longleftrightarrow> wf_cluster (raft s) \<and> wf_log s \<and> commit_index (raft s) < tail_log_index (ring s)"

lemma wf_log_cong:
  "rlog (raft t) = rlog (raft s) \<Longrightarrow> tail_log_index (ring t) = tail_log_index (ring s) \<Longrightarrow>
   wf_log t = wf_log s"
  by (simp add: wf_log_def)

lemma wf_log_tail: "wf_log s \<Longrightarrow> 1 \<le> unat (tail_log_index (ring s))"
  by (cases "rlog (raft s)") (auto simp: wf_log_def)

lemma node_inv_reset [simp]: "node_inv (reset_election_timeout s) = node_inv s"
  by (simp add: node_inv_def wf_log_def)

lemma node_inv_persist [simp]: "node_inv (snd (persist_circular w n s)) = node_inv s"
  by (simp add: node_inv_def wf_log_def persist_fields)

lemma node_inv_update_term: "node_inv s \<Longrightarrow> node_inv (snd (update_term msg s))"
  using update_term_raft [of s msg] by (simp add: node_inv_def wf_log_def)

lemma unat_pred: "1 \<le> unat (t :: u64) \<Longrightarrow> unat (t - 1) = unat t - 1"
  by (subst unat_u64_sub) (auto simp: word_le_nat_alt)

lemma adopt_commit_fields [simp]:
  "ring (adopt_commit req s) = ring s" "rlog (raft (adopt_commit req s)) = rlog (raft s)"
  "current_term (raft (adopt_commit req s)) = current_term (raft s)"
  "role (raft (adopt_commit req s)) = role (raft s)"
  "cluster (raft (adopt_commit req s)) = cluster (raft s)"
  "cluster_index (raft (adopt_commit req s)) = cluster_index (raft s)" "io (adopt_commit req s) = io s"
  by (simp_all add: adopt_commit_def upd_raft_def)

text \<open>The commit index follows the leader's as far as the log goes, and never moves back.\<close>

lemma adopt_commit_value:
  assumes "wf_log s" "commit_index (raft s) < tail_log_index (ring s)"
  shows "commit_index (raft (adopt_commit req s)) =
      max (commit_index (raft s)) (min (leader_commit req) (tail_log_index (ring s) - 1))"
    and "commit_index (raft (adopt_commit req s)) < tail_log_index (ring s)"
proof -
  have t: "unat (tail_log_index (ring s) - 1) = unat (tail_log_index (ring s)) - 1"
    by (rule unat_pred [OF wf_log_tail [OF assms(1)]])
  have c: "unat (commit_index (raft s)) \<le> unat (tail_log_index (ring s) - 1)"
    using assms(2) t by (simp add: word_less_nat_alt)
  show eq: "commit_index (raft (adopt_commit req s)) =
      max (commit_index (raft s)) (min (leader_commit req) (tail_log_index (ring s) - 1))"
    using c by (auto simp: adopt_commit_def upd_raft_def max_def min_def word_le_nat_alt
        word_less_nat_alt u64_eq_iff)
  show "commit_index (raft (adopt_commit req s)) < tail_log_index (ring s)"
    unfolding eq using assms(2) t wf_log_tail [OF assms(1)]
    by (auto simp: word_less_nat_alt u64_max_unat u64_min_unat)
qed

lemma adopt_commit_inv: "node_inv s \<Longrightarrow> node_inv (adopt_commit req s)"
  using adopt_commit_value(2) [of s req] by (simp add: node_inv_def wf_cluster_def wf_log_def)

section \<open>The consistency check returns\<close>

lemma conflict_start_Ret:
  assumes "wf_log s" "ci < tail_log_index (ring s)" "oldest_log_index s \<le> ci"
  shows "\<exists>c. conflict_start s (oldest_log_index s) t ci = Ret c \<and> oldest_log_index s \<le> c \<and> c \<le> ci \<and>
    (\<forall>i. c \<le> i \<and> i < ci \<longrightarrow> (\<exists>e. log_at s i = Ret e \<and> e_term e = t)) \<and>
    (c = oldest_log_index s \<or> (\<exists>e. log_at s (c - 1) = Ret e \<and> e_term e \<noteq> t))"
  using assms
proof (induction s "oldest_log_index s" t ci rule: conflict_start.induct)
  case (1 s t ci)
  show ?case
  proof (cases "ci > oldest_log_index s")
    case True
    have d: "unat (ci - 1) = unat ci - 1" "1 \<le> unat ci"
      using True unat_pred [of ci] by (auto simp: word_less_nat_alt)
    have il: "oldest_log_index s \<le> ci - 1" "ci - 1 < tail_log_index (ring s)" "ci - 1 \<le> ci"
      using True 1(3) d by (auto simp: word_less_nat_alt word_le_nat_alt)
    then have l: "log_at s (ci - 1) = Ret (rlog (raft s) ! unat (log_slice s (ci - 1)))"
      using 1(2) by (intro log_at_Ret) (auto simp: in_log_def)
    let ?e = "rlog (raft s) ! unat (log_slice s (ci - 1))"
    show ?thesis
    proof (cases "e_term ?e = t")
      case eq: True
      have step: "conflict_start s (oldest_log_index s) t ci = conflict_start s (oldest_log_index s) t (ci - 1)"
        using True l eq by (subst conflict_start.simps) simp
      obtain c where c: "conflict_start s (oldest_log_index s) t (ci - 1) = Ret c"
        "oldest_log_index s \<le> c" "c \<le> ci - 1"
        "\<forall>i. c \<le> i \<and> i < ci - 1 \<longrightarrow> (\<exists>e. log_at s i = Ret e \<and> e_term e = t)"
        "c = oldest_log_index s \<or> (\<exists>e. log_at s (c - 1) = Ret e \<and> e_term e \<noteq> t)"
        using 1(1) [OF True l eq] 1(2) il by blast
      have "i < ci - 1 \<or> i = ci - 1" if "i < ci" for i
        using that d by (auto simp: word_less_nat_alt u64_eq_iff)
      with c il l eq show ?thesis unfolding step by (auto intro: order_trans)
    next
      case False
      then have "conflict_start s (oldest_log_index s) t ci = Ret ci"
        using True l by (subst conflict_start.simps) simp
      with False l 1 show ?thesis by auto
    qed
  next
    case False
    then have "conflict_start s (oldest_log_index s) t ci = Ret ci"
      by (subst conflict_start.simps) simp
    with False 1 show ?thesis by auto
  qed
qed

text \<open>
  The check passes, or it reports a hint: the end of a log that is too short, or the first index
  of the run of the term that conflicts.
\<close>

lemma prev_log_check_Ret:
  assumes "wf_log s"
  shows "\<exists>r. prev_log_check req s = Ret r \<and>
    (r = None \<longrightarrow> prev_log_index req < tail_log_index (ring s))"
proof -
  have pos: "0 < tail_log_index (ring s)"
    using wf_log_tail [OF assms] by (simp add: word_less_nat_alt)
  show ?thesis
  proof (cases "in_log s (prev_log_index req)")
    case True
    obtain e where e: "log_at s (prev_log_index req) = Ret e" using log_at_Ret [OF assms True] by simp
    obtain c where c: "conflict_start s (oldest_log_index s) (e_term e) (prev_log_index req) = Ret c"
      using conflict_start_Ret [OF assms, of "prev_log_index req" "e_term e"] True
      by (auto simp: in_log_def)
    from True e c show ?thesis by (simp add: prev_log_check_def in_log_def Let_def not_le)
  next
    case False
    then show ?thesis
      using pos by (auto simp: prev_log_check_def in_log_def Let_def word_neq_0_conv not_le)
  qed
qed

section \<open>What the batch adds\<close>

lemma push_meta_fields:
  "tail_log_index (ring (push_meta skip i m s)) = tail_log_index (ring s)"
  "commit_index (raft (push_meta skip i m s)) = commit_index (raft s)"
  "current_term (raft (push_meta skip i m s)) = current_term (raft s)"
  "role (raft (push_meta skip i m s)) = role (raft s)"
  "cluster (raft (push_meta skip i m s)) = cluster (raft s)"
  "cluster_index (raft (push_meta skip i m s)) = cluster_index (raft s)"
  "ring_slots (ring (push_meta skip i m s)) = ring_slots (ring s)"
  "io (push_meta skip i m s) = io s"
  by (simp_all add: push_meta_def make_entry_def upd_ring_def upd_raft_def Let_def)

lemma push_metas_fields:
  "tail_log_index (ring (push_metas skip i ms s)) = tail_log_index (ring s) \<and>
   commit_index (raft (push_metas skip i ms s)) = commit_index (raft s) \<and>
   current_term (raft (push_metas skip i ms s)) = current_term (raft s) \<and>
   role (raft (push_metas skip i ms s)) = role (raft s) \<and>
   cluster (raft (push_metas skip i ms s)) = cluster (raft s) \<and>
   cluster_index (raft (push_metas skip i ms s)) = cluster_index (raft s) \<and>
   ring_slots (ring (push_metas skip i ms s)) = ring_slots (ring s) \<and>
   io (push_metas skip i ms s) = io s"
  by (induction skip i ms s rule: push_metas.induct) (simp_all add: push_meta_fields)

text \<open>
  The slot after the entries \<open>ms\<close>, walking from \<open>slot\<close> and starting over at the end of the ring, and
  the entries that a batch adds after its first \<open>skip\<close> ones: deferred, each at the slot the walk
  has reached, each with a commit signal of its own from number \<open>sig\<close> on.
\<close>

definition slot_walk :: "u64 \<Rightarrow> u64 \<Rightarrow> entry_meta list \<Rightarrow> u64" where
  "slot_walk slots slot ms = fold (\<lambda>m c. let n = c + slots_for_entry (meta_cmd_len m)
     in if n \<ge> slots then 0 else n) ms slot"

definition batch_entries :: "u64 \<Rightarrow> u64 \<Rightarrow> nat \<Rightarrow> nat \<Rightarrow> entry_meta list \<Rightarrow> entry list" where
  "batch_entries slots slot sig skip ms = map (\<lambda>k.
     \<lparr>command = [], e_term = meta_term (ms ! k), result_sink = None, committed = Some (sig + (k - skip)),
      ring_slot = slot_walk slots slot (take k ms), cmd_len = meta_cmd_len (ms ! k)\<rparr>) [skip..<length ms]"

lemma batch_entries_Cons:
  "batch_entries slots slot sig 0 (m # ms) =
     \<lparr>command = [], e_term = meta_term m, result_sink = None, committed = Some sig, ring_slot = slot,
      cmd_len = meta_cmd_len m\<rparr> # batch_entries slots (slot_walk slots slot [m]) (Suc sig) 0 ms"
  "batch_entries slots slot sig (Suc d) (m # ms) = batch_entries slots (slot_walk slots slot [m]) sig d ms"
proof -
  have "[0..<Suc n] = 0 # map Suc [0..<n]" for n by (simp add: upt_conv_Cons map_Suc_upt del: upt_Suc)
  then show "batch_entries slots slot sig 0 (m # ms) =
     \<lparr>command = [], e_term = meta_term m, result_sink = None, committed = Some sig, ring_slot = slot,
      cmd_len = meta_cmd_len m\<rparr> # batch_entries slots (slot_walk slots slot [m]) (Suc sig) 0 ms"
    by (simp add: batch_entries_def slot_walk_def del: upt_Suc)
  have "[Suc d..<Suc n] = map Suc [d..<n]" for n by (simp add: map_Suc_upt)
  then show "batch_entries slots slot sig (Suc d) (m # ms) = batch_entries slots (slot_walk slots slot [m]) sig d ms"
    by (simp add: batch_entries_def slot_walk_def del: upt_Suc)
qed

lemma batch_entries_terms: "map e_term (batch_entries slots slot sig skip ms) = drop skip (map meta_term ms)"
  by (rule nth_equalityI) (simp_all add: batch_entries_def)

lemma length_batch_entries [simp]: "length (batch_entries slots slot sig skip ms) = length ms - skip"
  by (simp add: batch_entries_def)

lemma push_meta_log:
  "rlog (raft (push_meta skip i m s)) = rlog (raft s) @ (if i \<ge> skip
     then [\<lparr>command = [], e_term = meta_term m, result_sink = None, committed = Some (length (signals s)),
       ring_slot = tail_slot (ring s), cmd_len = meta_cmd_len m\<rparr>] else [])"
  "length (signals (push_meta skip i m s)) = length (signals s) + (if i \<ge> skip then 1 else 0)"
  "tail_slot (ring (push_meta skip i m s)) = slot_walk (ring_slots (ring s)) (tail_slot (ring s)) [m]"
  by (simp_all add: push_meta_def make_entry_def upd_ring_def upd_raft_def slot_walk_def Let_def)

text \<open>The batch appends the entries after the first \<open>skip\<close>.\<close>

lemma push_metas_log:
  "unat i + length ms < 18446744073709551616 \<Longrightarrow>
   rlog (raft (push_metas skip i ms s)) = rlog (raft s) @
     batch_entries (ring_slots (ring s)) (tail_slot (ring s)) (length (signals s)) (unat skip - unat i) ms"
proof (induction skip i ms s rule: push_metas.induct)
  case (1 skip i s)
  then show ?case by (simp add: batch_entries_def)
next
  case (2 skip i m ms s)
  have i1: "unat (i + 1) = Suc (unat i)"
    using 2(2) by (subst unat_u64_add) auto
  have IH: "rlog (raft (push_metas skip (i + 1) ms (push_meta skip i m s))) = rlog (raft (push_meta skip i m s)) @
      batch_entries (ring_slots (ring s)) (slot_walk (ring_slots (ring s)) (tail_slot (ring s)) [m])
        (length (signals (push_meta skip i m s))) (unat skip - Suc (unat i)) ms"
    using 2(1) 2(2) i1 by (simp add: push_meta_fields push_meta_log(3))
  show ?case
  proof (cases "skip \<le> i")
    case True
    then have "unat skip - unat i = 0" "unat skip - Suc (unat i) = 0" by (simp_all add: word_le_nat_alt)
    with IH True show ?thesis by (simp add: push_meta_log(1,2) batch_entries_Cons(1))
  next
    case False
    then have "unat skip - unat i = Suc (unat skip - Suc (unat i))" by (simp add: word_le_nat_alt)
    with IH False show ?thesis by (simp add: push_meta_log(1,2) batch_entries_Cons(2))
  qed
qed

section \<open>Outcome of the handler\<close>

definition ae_progress_ok :: "append_entries_request \<Rightarrow> server \<Rightarrow> ae_progress \<Rightarrow> bool" where
  "ae_progress_ok req t p = (case p of
     CopyBlocks rsp new_tail skip slot \<Rightarrow>
       new_tail = prev_log_index req + 1 \<and> unat new_tail = unat (prev_log_index req) + 1 \<and>
       unat new_tail + unat skip = unat (tail_log_index (ring t)) \<and>
       unat skip \<le> unat (num_entries req) \<and> \<not> success rsp
   | Answered rsp \<Rightarrow> success rsp \<longrightarrow> ae_batch_known req t
   | NoBlocks rsp \<Rightarrow> \<not> (num_entries req > 0 \<and> leader_pba_src req \<noteq> 0))"

lemma ae_accept_snd:
  "snd (ae_accept tm pre w2 post req rsp s) = snd (persist_circular False 0 (adopt_commit req s))"
  by (simp add: ae_accept_def andthen_const_snd)

lemma ae_accept_inv: "node_inv s \<Longrightarrow> node_inv (snd (ae_accept tm pre w2 post req rsp s))"
  by (simp add: ae_accept_snd adopt_commit_inv)

lemma ae_accept_Ret:
  "ae_accept tm pre w2 post req rsp s = (Ret rsp', t) \<Longrightarrow> success rsp' \<and> aer_term rsp' = aer_term rsp"
  by (auto simp: ae_accept_def andthen_eq_Ret finalize_def)

lemma ae_follow_fields [simp]:
  "ring (ae_follow req s) = ring s" "rlog (raft (ae_follow req s)) = rlog (raft s)"
  "current_term (raft (ae_follow req s)) = current_term (raft s)"
  "commit_index (raft (ae_follow req s)) = commit_index (raft s)"
  "cluster (raft (ae_follow req s)) = cluster (raft s)"
  "cluster_index (raft (ae_follow req s)) = cluster_index (raft s)" "io (ae_follow req s) = io s"
  by (simp_all add: ae_follow_def upd_raft_def)

lemma node_inv_follow [simp]: "node_inv (ae_follow req s) = node_inv s"
  by (simp add: node_inv_def wf_log_def wf_cluster_def)

lemma skip_count_cong:
  "tail_log_index (ring t) = tail_log_index (ring s) \<Longrightarrow> skip_count req t = skip_count req s"
  unfolding skip_count_def by (simp only:)

lemma ae_batch_known_cong:
  "tail_log_index (ring t) = tail_log_index (ring s) \<Longrightarrow> ae_batch_known req t = ae_batch_known req s"
  unfolding ae_batch_known_def skip_count_def by (simp only:)

lemma prev_index_below_tail:
  assumes "prev_log_index req < tail_log_index (ring s)"
  shows "unat (prev_log_index req + 1) = unat (prev_log_index req) + 1"
    and "unat (prev_log_index req + 1) + unat (skip_count req s) = unat (tail_log_index (ring s))"
proof -
  have lt: "unat (prev_log_index req) < unat (tail_log_index (ring s))"
    using assms by (simp add: word_less_nat_alt)
  show i: "unat (prev_log_index req + 1) = unat (prev_log_index req) + 1"
    using unat_u64_inc [OF lt] by simp
  show "unat (prev_log_index req + 1) + unat (skip_count req s) = unat (tail_log_index (ring s))"
  proof (cases "prev_log_index req + 1 < tail_log_index (ring s)")
    case True
    then have "unat (tail_log_index (ring s) - (prev_log_index req + 1)) =
      unat (tail_log_index (ring s)) - unat (prev_log_index req + 1)"
      by (intro unat_u64_sub) simp
    with True i lt show ?thesis by (simp add: skip_count_def Let_def word_less_nat_alt)
  next
    case False
    with i lt show ?thesis by (simp add: skip_count_def Let_def word_less_nat_alt)
  qed
qed

lemma ae_receive_inv:
  assumes inv: "node_inv s"
  shows "node_inv (snd (ae_receive tm req s))"
    and "ae_receive tm req s = (Ret p, t) \<Longrightarrow> ae_progress_ok req t p"
proof -
  let ?m = "update_term (aeq_term req) s"
  have u: "node_inv (snd ?m)" by (rule node_inv_update_term [OF inv])
  have w: "node_inv (reset_election_timeout (ae_follow req (snd ?m)))" using u by simp
  obtain r where r: "prev_log_check req (reset_election_timeout (ae_follow req (snd ?m))) = Ret r"
    and lt: "r = None \<longrightarrow> prev_log_index req < tail_log_index (ring (snd ?m))"
    using prev_log_check_Ret w by (fastforce simp: node_inv_def)
  have ts: "node_inv (upd_ring (\<lambda>g. g\<lparr>tail_slot := x\<rparr>) z) = node_inv z" for x z
    by (simp add: node_inv_def wf_log_def upd_ring_def)
  show "node_inv (snd (ae_receive tm req s))"
    unfolding ae_receive_def Let_def
    by (rule andthen_state [where P = node_inv, OF u])
      (use u w r in \<open>auto simp: ts ae_accept_inv andthen_const_snd split: option.splits\<close>)
  assume run: "ae_receive tm req s = (Ret p, t)"
  then obtain b u' where m: "?m = (Ret b, u')"
    by (auto simp: ae_receive_def andthen_eq_Ret)
  show "ae_progress_ok req t p"
  proof (cases r)
    case None
    then have lt: "prev_log_index req < tail_log_index (ring u')" using lt m by simp
    note nt = prev_index_below_tail [OF lt]
    have sk: "skip_count req (reset_election_timeout (ae_follow req u')) = skip_count req u'"
      "ae_batch_known req (reset_election_timeout (ae_follow req u')) = ae_batch_known req u'"
      by (rule skip_count_cong ae_batch_known_cong; simp)+
    have le: "unat (skip_count req u') \<le> unat (num_entries req)" if "\<not> ae_batch_known req u'"
      using that nt by (auto simp: ae_batch_known_def word_less_nat_alt word_le_nat_alt)
    have bk: "ae_batch_known req (snd (ae_accept tm 0 0 0 req x y)) = ae_batch_known req y" for x y
      by (rule ae_batch_known_cong) (simp add: ae_accept_snd persist_fields)
    let ?w = "reset_election_timeout (ae_follow req u')"
    let ?rsp = "AppendEntriesResponse\<lparr>aer_term := current_term (raft u')\<rparr>"
    have eq: "(if role (raft (ae_follow req u')) \<noteq> Follower \<or> aeq_term req < current_term (raft u')
        then (Ret (Answered (finalize tm 0 0 0 0 ?rsp)), ae_follow req u')
        else if ae_batch_known req u'
        then andthen (ae_accept tm 0 0 0 req ?rsp ?w) (\<lambda>rsp s. (Ret (Answered rsp), s))
        else if num_entries req > 0 \<and> leader_pba_src req \<noteq> 0
        then (Ret (CopyBlocks ?rsp (prev_log_index req + 1) (skip_count req u') (start_slot req)),
              upd_ring (\<lambda>g. g\<lparr>tail_slot := start_slot req\<rparr>) ?w)
        else (Ret (NoBlocks ?rsp), ?w)) = (Ret p, t)"
      using run m r None by (simp add: ae_receive_def Let_def sk upd_ring_def cong: if_cong)
    have fail: "\<not> success ?rsp" "\<not> success (finalize tm 0 0 0 0 ?rsp)"
      by (simp_all add: AppendEntriesResponse_def finalize_def)
    show ?thesis
    proof (cases "role (raft (ae_follow req u')) \<noteq> Follower \<or> aeq_term req < current_term (raft u')")
      case True
      with eq fail show ?thesis by (auto simp: ae_progress_ok_def)
    next
      case False
      show ?thesis
      proof (cases "ae_batch_known req u'")
        case True
        then obtain rsp' where "ae_accept tm 0 0 0 req ?rsp ?w = (Ret rsp', t)" "p = Answered rsp'"
          using eq False by (auto simp: andthen_eq_Ret)
        with bk [of ?rsp ?w] True sk show ?thesis by (simp add: ae_progress_ok_def)
      next
        case unknown: False
        with eq False nt le [OF unknown] fail show ?thesis
          by (auto simp: ae_progress_ok_def upd_ring_def split: if_splits)
      qed
    qed
  next
    case (Some c)
    then show ?thesis
      using run m r by (cases c) (auto simp: ae_receive_def ae_progress_ok_def
          AppendEntriesResponse_def finalize_def Let_def split: if_splits)
  qed
qed

text \<open>The state in which the batch has been added to the log.\<close>

definition ae_appended :: "append_entries_request \<Rightarrow> u64 \<Rightarrow> u64 \<Rightarrow> server \<Rightarrow> server" where
  "ae_appended req new_tail skip s =
     (if length (entry_metas req) = unat (num_entries req)
      then upd_ring (\<lambda>g. g\<lparr>tail_log_index := new_tail + num_entries req\<rparr>)
             (push_metas skip 0 (entry_metas req) s)
      else s)"

lemma ae_complete_snd:
  "snd (ae_complete tm req rsp new_tail skip copy s) =
     (case copy of None \<Rightarrow> s
      | Some _ \<Rightarrow> snd (persist_circular False 0 (adopt_commit req (ae_appended req new_tail skip s))))"
  by (auto simp: ae_complete_def ae_appended_def Let_def ae_accept_snd split: option.splits prod.splits)

lemma ae_appended_entries:
  assumes "length (entry_metas req) = unat (num_entries req)"
  shows "rlog (raft (ae_appended req new_tail skip s)) = rlog (raft s) @
      batch_entries (ring_slots (ring s)) (tail_slot (ring s)) (length (signals s)) (unat skip) (entry_metas req)"
  using assms push_metas_log [of 0 "entry_metas req" skip s] unat_u64_less [of "num_entries req"]
  by (simp add: ae_appended_def upd_ring_def)

lemma ae_appended_terms:
  assumes "length (entry_metas req) = unat (num_entries req)"
  shows "map e_term (rlog (raft (ae_appended req new_tail skip s))) =
      map e_term (rlog (raft s)) @ drop (unat skip) (map meta_term (entry_metas req))"
  using ae_appended_entries [OF assms] by (simp add: batch_entries_terms)

lemma ae_appended_log:
  assumes bound: "unat new_tail + unat (num_entries req) < 18446744073709551616"
    and sk: "unat new_tail + unat skip = unat (tail_log_index (ring s))"
      "unat skip \<le> unat (num_entries req)"
    and len: "length (entry_metas req) = unat (num_entries req)"
  shows "map e_term (rlog (raft (ae_appended req new_tail skip s))) =
      map e_term (rlog (raft s)) @ drop (unat skip) (map meta_term (entry_metas req))"
    and "unat (tail_log_index (ring (ae_appended req new_tail skip s))) =
      unat (tail_log_index (ring s)) + (unat (num_entries req) - unat skip)"
    and "commit_index (raft (ae_appended req new_tail skip s)) = commit_index (raft s)"
    and "wf_cluster (raft (ae_appended req new_tail skip s)) = wf_cluster (raft s)"
proof -
  show "map e_term (rlog (raft (ae_appended req new_tail skip s))) =
      map e_term (rlog (raft s)) @ drop (unat skip) (map meta_term (entry_metas req))"
    by (rule ae_appended_terms [OF len])
  show "unat (tail_log_index (ring (ae_appended req new_tail skip s))) =
      unat (tail_log_index (ring s)) + (unat (num_entries req) - unat skip)"
    using len sk unat_u64_add [OF bound] by (simp add: ae_appended_def upd_ring_def)
  show "commit_index (raft (ae_appended req new_tail skip s)) = commit_index (raft s)"
    "wf_cluster (raft (ae_appended req new_tail skip s)) = wf_cluster (raft s)"
    using push_metas_fields [of skip 0 "entry_metas req" s]
    by (simp_all add: ae_appended_def upd_ring_def wf_cluster_def)
qed

lemma ae_appended_inv:
  assumes inv: "node_inv s" and bound: "unat new_tail + unat (num_entries req) < 18446744073709551616"
    and sk: "unat new_tail + unat skip = unat (tail_log_index (ring s))"
      "unat skip \<le> unat (num_entries req)"
  shows "node_inv (ae_appended req new_tail skip s) \<and>
    commit_index (raft (ae_appended req new_tail skip s)) = commit_index (raft s)"
proof (cases "length (entry_metas req) = unat (num_entries req)")
  case True
  note a = ae_appended_log [OF bound sk True]
  have "length (rlog (raft (ae_appended req new_tail skip s))) =
      length (rlog (raft s)) + (unat (num_entries req) - unat skip)"
    using arg_cong [OF a(1), of length] True by simp
  with inv a(2-4) show ?thesis
    by (auto simp: node_inv_def wf_log_def word_less_nat_alt)
qed (use inv in \<open>simp add: ae_appended_def\<close>)

lemma update_term_commit: "node_inv s \<Longrightarrow> commit_index (raft (snd (update_term m s))) = commit_index (raft s)"
  by (simp add: node_inv_def update_term_raft)

lemma ae_accept_commit:
  assumes "node_inv s"
  shows "commit_index (raft s) \<le> commit_index (raft (snd (ae_accept tm a b c req rsp s)))"
  using adopt_commit_value(1) [of s req] assms
  by (simp add: ae_accept_snd persist_fields node_inv_def le_max_iff_disj)

lemma ae_receive_commit:
  assumes "node_inv s"
  shows "commit_index (raft s) \<le> commit_index (raft (snd (ae_receive tm req s)))"
proof -
  let ?m = "update_term (aeq_term req) s" and ?c = "commit_index (raft s)"
  have u: "node_inv (snd ?m)" "?c \<le> commit_index (raft (snd ?m))"
    using node_inv_update_term [OF assms] update_term_commit [OF assms] by simp_all
  have w: "?c \<le> commit_index (raft (snd (ae_accept tm 0 0 0 req rsp
      (reset_election_timeout (ae_follow req (snd ?m))))))" for rsp
    using ae_accept_commit [of "reset_election_timeout (ae_follow req (snd ?m))" tm 0 0 0 req rsp] u
    by simp
  show ?thesis
    unfolding ae_receive_def Let_def
    by (rule andthen_state [where P = "\<lambda>t. ?c \<le> commit_index (raft t)", OF u(2)])
      (use u(2) w in \<open>auto simp: upd_ring_def andthen_const_snd split: option.splits outcome.splits\<close>)
qed

text \<open>
  The follower's handler keeps the node invariant (its membership slot exists, the log is an
  interval of indices, the commit index lies in the log) and never lowers the commit index,
  whatever the block copy and the system calls do.
\<close>

theorem handle_append_entries_inv:
  assumes inv: "node_inv s"
    and bound: "unat (prev_log_index req) + 1 + unat (num_entries req) < 18446744073709551616"
  shows "node_inv (snd (handle_append_entries bc tm req s)) \<and>
    commit_index (raft s) \<le> commit_index (raft (snd (handle_append_entries bc tm req s)))"
  unfolding handle_append_entries_def
proof (rule andthen_state, goal_cases)
  case 1
  then show ?case using ae_receive_inv(1) [OF inv] ae_receive_commit [OF inv] by simp
next
  case (2 p)
  let ?t = "snd (ae_receive tm req s)"
  have run: "ae_receive tm req s = (Ret p, ?t)" using 2 by (metis prod.collapse)
  note ok = ae_receive_inv(2) [OF inv run]
  have t: "node_inv ?t" "commit_index (raft s) \<le> commit_index (raft ?t)"
    using ae_receive_inv(1) [OF inv] ae_receive_commit [OF inv] by simp_all
  show ?case
  proof (cases p)
    case (Answered rsp)
    with t show ?thesis by simp
  next
    case (NoBlocks rsp)
    with t ae_accept_inv [OF t(1)] ae_accept_commit [OF t(1), of tm 0 0 0 req rsp] show ?thesis
      by (auto intro: order_trans)
  next
    case (CopyBlocks rsp new_tail skip slot)
    with ok have sk: "unat new_tail + unat skip = unat (tail_log_index (ring ?t))"
      "unat skip \<le> unat (num_entries req)" "unat new_tail = unat (prev_log_index req) + 1"
      by (auto simp: ae_progress_ok_def)
    have a: "node_inv (ae_appended req new_tail skip ?t)"
      "commit_index (raft (ae_appended req new_tail skip ?t)) = commit_index (raft ?t)"
      using ae_appended_inv [OF t(1) _ sk(1,2)] bound sk(3) by auto
    have c: "commit_index (raft ?t) \<le> commit_index (raft (adopt_commit req (ae_appended req new_tail skip ?t)))"
      using adopt_commit_value(1) [of "ae_appended req new_tail skip ?t" req] a
      by (simp add: node_inv_def le_max_iff_disj)
    have "node_inv (snd (ae_complete tm req rsp new_tail skip copy ?t)) \<and>
      commit_index (raft s) \<le> commit_index (raft (snd (ae_complete tm req rsp new_tail skip copy ?t)))"
      for copy
      using t c adopt_commit_inv [OF a(1)]
      by (auto simp: ae_complete_snd persist_fields intro: order_trans split: option.splits)
    with CopyBlocks t show ?thesis by (auto split: outcome.splits)
  qed
qed

section \<open>What success means\<close>

text \<open>The previous entry exists, and where it is in memory its term is the leader's.\<close>

definition prev_ok :: "append_entries_request \<Rightarrow> server \<Rightarrow> bool" where
  "prev_ok req s \<longleftrightarrow> prev_log_index req < tail_log_index (ring s) \<and>
     (in_log s (prev_log_index req) \<longrightarrow>
        (\<exists>e. log_at s (prev_log_index req) = Ret e \<and> e_term e = prev_log_term req))"

lemma prev_log_check_None:
  assumes "wf_log s" "prev_log_check req s = Ret None"
  shows "prev_ok req s"
proof -
  have lt: "prev_log_index req < tail_log_index (ring s)"
    using prev_log_check_Ret [OF assms(1), of req] assms(2) by auto
  moreover have "\<exists>e. log_at s (prev_log_index req) = Ret e \<and> e_term e = prev_log_term req"
    if i: "in_log s (prev_log_index req)"
  proof -
    obtain e where e: "log_at s (prev_log_index req) = Ret e" using log_at_Ret [OF assms(1) i] by simp
    have "prev_log_index req > 0"
      using i oldest_pos [OF assms(1)] by (auto simp: in_log_def word_le_nat_alt word_less_nat_alt)
    with assms(2) e i lt have "e_term e = prev_log_term req"
      by (auto simp: prev_log_check_def in_log_def Let_def obind_eq_Ret not_le split: if_splits)
    with e show ?thesis by blast
  qed
  ultimately show ?thesis by (simp add: prev_ok_def)
qed

lemma prev_ok_cong:
  "rlog (raft t) = rlog (raft s) \<Longrightarrow> tail_log_index (ring t) = tail_log_index (ring s) \<Longrightarrow>
   prev_ok req t = prev_ok req s"
  unfolding prev_ok_def in_log_def log_at_def log_slice_def oldest_log_index_def log_size_def
  by (simp only:)

text \<open>Up to the copy the log is not touched, and only a request of the node's term gets through.\<close>

lemma ae_receive_log:
  assumes "node_inv s" "ae_receive tm req s = (Ret p, t)"
  shows "rlog (raft t) = rlog (raft s) \<and> tail_log_index (ring t) = tail_log_index (ring s) \<and>
    current_term (raft t) = max (aeq_term req) (current_term (raft s))"
proof -
  let ?P = "\<lambda>t. rlog (raft t) = rlog (raft s) \<and> tail_log_index (ring t) = tail_log_index (ring s) \<and>
    current_term (raft t) = max (aeq_term req) (current_term (raft s))"
  have wf: "wf_cluster (raft s)" using assms(1) by (simp add: node_inv_def)
  have u: "?P (snd (update_term (aeq_term req) s))" using update_term_raft [OF wf] by simp
  have "?P (snd (ae_receive tm req s))"
    unfolding ae_receive_def Let_def
    by (rule andthen_state [where P = ?P, OF u])
      (use u in \<open>auto simp: upd_ring_def andthen_const_snd ae_accept_snd persist_fields
        split: option.splits outcome.splits\<close>)
  with assms(2) show ?thesis by simp
qed

lemma ae_receive_accepts:
  assumes inv: "node_inv s" and run: "ae_receive tm req s = (Ret p, t)"
    and acc: "case p of Answered rsp \<Rightarrow> success rsp | _ \<Rightarrow> True"
  shows "prev_ok req s \<and> current_term (raft t) = aeq_term req"
proof -
  let ?m = "update_term (aeq_term req) s"
  obtain b u where m: "?m = (Ret b, u)"
    using run by (auto simp: ae_receive_def andthen_eq_Ret)
  have wf: "wf_cluster (raft s)" using inv by (simp add: node_inv_def)
  note ut = update_term_raft [OF wf, of "aeq_term req", unfolded m snd_conv]
  let ?w = "reset_election_timeout (ae_follow req u)"
  have fol: "\<not> (role (raft (ae_follow req u)) \<noteq> Follower \<or> aeq_term req < current_term (raft u))"
  proof
    assume "role (raft (ae_follow req u)) \<noteq> Follower \<or> aeq_term req < current_term (raft u)"
    then have "ae_receive tm req s = (Ret (Answered (finalize tm 0 0 0 0
        (AppendEntriesResponse\<lparr>aer_term := current_term (raft u)\<rparr>))), ae_follow req u)"
      using m by (simp add: ae_receive_def Let_def)
    with run acc show False by (auto simp: AppendEntriesResponse_def finalize_def)
  qed
  have "prev_log_check req ?w = Ret None"
    using run m acc fol
    by (auto simp: ae_receive_def Let_def AppendEntriesResponse_def finalize_def
        split: outcome.splits option.splits)
  moreover have "wf_log ?w"
    using node_inv_update_term [OF inv, of "aeq_term req"] m by (simp add: node_inv_def wf_log_def)
  ultimately have "prev_ok req ?w" by (intro prev_log_check_None)
  then have "prev_ok req s"
    using prev_ok_cong [of ?w s req] ut(3,9) by simp
  moreover have "max (aeq_term req) (current_term (raft s)) = aeq_term req"
    using fol ut(1) by (auto simp: max_def not_less split: if_splits)
  ultimately show ?thesis using ae_receive_log [OF inv run] by simp
qed

text \<open>At the block copy the batch starts at the leader's slot, in the ring and with the signals of before.\<close>

lemma update_term_frame:
  assumes "wf_cluster (raft s)"
  shows "ring_slots (ring (snd (update_term m s))) = ring_slots (ring s)"
    "signals (snd (update_term m s)) = signals s"
  using assms by (auto simp: update_term_snd persist_fields stepped_down_def update_member_def upd_raft_def)

lemma ae_receive_copy:
  assumes inv: "node_inv s" and run: "ae_receive tm req s = (Ret (CopyBlocks rsp new_tail skip slot), t)"
  shows "tail_slot (ring t) = start_slot req \<and> ring_slots (ring t) = ring_slots (ring s) \<and> signals t = signals s \<and>
    num_entries req > 0 \<and> leader_pba_src req \<noteq> 0 \<and> \<not> ae_batch_known req t"
proof -
  obtain b u where u: "update_term (aeq_term req) s = (Ret b, u)"
    using run by (auto simp: ae_receive_def andthen_eq_Ret)
  let ?w = "reset_election_timeout (ae_follow req u)"
  have f: "ring_slots (ring u) = ring_slots (ring s)" "signals u = signals s"
    using update_term_frame [of s "aeq_term req"] u inv by (simp_all add: node_inv_def)
  have w: "ring ?w = ring u" "signals ?w = signals u" by (simp_all add: ae_follow_def upd_raft_def)
  have "t = upd_ring (\<lambda>g. g\<lparr>tail_slot := start_slot req\<rparr>) ?w \<and> num_entries req > 0 \<and> leader_pba_src req \<noteq> 0 \<and>
      \<not> ae_batch_known req ?w"
    using run u by (auto simp: ae_receive_def Let_def andthen_eq_Ret split: if_splits outcome.splits option.splits)
  moreover from this have "ae_batch_known req t = ae_batch_known req ?w"
    by (intro ae_batch_known_cong) (simp add: upd_ring_def)
  ultimately show ?thesis using f w by (simp add: upd_ring_def)
qed

text \<open>
  A request extends the log when it carries entries and their blocks, has a descriptor for each
  entry, and ends after the log.
\<close>

definition ae_extends :: "append_entries_request \<Rightarrow> server \<Rightarrow> bool" where
  "ae_extends req s \<longleftrightarrow> num_entries req > 0 \<and> leader_pba_src req \<noteq> 0 \<and>
     length (entry_metas req) = unat (num_entries req) \<and>
     unat (tail_log_index (ring s)) < unat (prev_log_index req) + 1 + unat (num_entries req)"

lemma accepted_entries:
  assumes inv: "node_inv s" and run: "handle_append_entries bc tm req s = (Ret rsp, t)"
    and ok: "success rsp"
    and bound: "unat (prev_log_index req) + 1 + unat (num_entries req) < 18446744073709551616"
  shows "prev_ok req s \<and> current_term (raft t) = aeq_term req \<and>
    (if ae_extends req s
     then rlog (raft t) = rlog (raft s) @ batch_entries (ring_slots (ring s)) (start_slot req) (length (signals s))
         (unat (tail_log_index (ring s)) - (unat (prev_log_index req) + 1)) (entry_metas req) \<and>
       unat (tail_log_index (ring t)) = unat (prev_log_index req) + 1 + unat (num_entries req)
     else rlog (raft t) = rlog (raft s) \<and> tail_log_index (ring t) = tail_log_index (ring s))"
proof -
  obtain p u where r: "ae_receive tm req s = (Ret p, u)"
    and rest: "(case p of Answered rsp \<Rightarrow> (Ret rsp, u)
       | NoBlocks rsp \<Rightarrow> ae_accept tm 0 0 0 req rsp u
       | CopyBlocks rsp new_tail skip old_tail_slot \<Rightarrow>
           (case copy_result bc req old_tail_slot u of
              Ret copy \<Rightarrow> ae_complete tm req rsp new_tail skip copy u
            | Exc e \<Rightarrow> (Exc e, u) | Ub \<Rightarrow> (Ub, u))) = (Ret rsp, t)"
    using run by (auto simp: handle_append_entries_def andthen_eq_Ret)
  note po = ae_receive_inv(2) [OF inv r] and lg = ae_receive_log [OF inv r]
  have acc: "case p of Answered rsp \<Rightarrow> success rsp | _ \<Rightarrow> True"
    using rest ok by (auto split: ae_progress.splits)
  note pv = ae_receive_accepts [OF inv r acc]
  show ?thesis
  proof (cases p)
    case (Answered rsp')
    with rest have tu: "t = u" "success rsp'" using ok by auto
    with po Answered have k: "ae_batch_known req u" by (simp add: ae_progress_ok_def)
    have lt: "prev_log_index req < tail_log_index (ring u)" using pv lg by (simp add: prev_ok_def)
    have "unat (num_entries req) \<le> unat (skip_count req u)"
      using k by (simp add: ae_batch_known_def word_le_nat_alt)
    with prev_index_below_tail [OF lt] lg have "\<not> ae_extends req s" by (simp add: ae_extends_def)
    with lg tu pv show ?thesis by simp
  next
    case (NoBlocks rsp')
    then have "t = snd (persist_circular False 0 (adopt_commit req u))"
      using rest ae_accept_snd [of tm 0 0 0 req rsp' u] by simp
    moreover have "\<not> ae_extends req s" using po NoBlocks by (auto simp: ae_progress_ok_def ae_extends_def)
    ultimately show ?thesis using lg pv by (simp add: persist_fields)
  next
    case (CopyBlocks rsp' new_tail skip slot)
    with po have sk: "unat new_tail + unat skip = unat (tail_log_index (ring u))"
      "unat skip \<le> unat (num_entries req)" "unat new_tail = unat (prev_log_index req) + 1"
      "\<not> success rsp'" by (auto simp: ae_progress_ok_def)
    note cp = ae_receive_copy [OF inv r [unfolded CopyBlocks]]
    obtain c where c: "ae_complete tm req rsp' new_tail skip (Some c) u = (Ret rsp, t)"
      using rest CopyBlocks ok sk(4)
      by (auto simp: ae_complete_def finalize_def Let_def split: outcome.splits option.splits)
    have t: "t = snd (persist_circular False 0 (adopt_commit req (ae_appended req new_tail skip u)))"
      using ae_complete_snd [of tm req rsp' new_tail skip "Some c" u] c by simp
    have ct: "current_term (raft (ae_appended req new_tail skip u)) = current_term (raft u)"
      using push_metas_fields [of skip 0 "entry_metas req" u] by (simp add: ae_appended_def upd_ring_def)
    have k: "unat (tail_log_index (ring s)) - (unat (prev_log_index req) + 1) = unat skip"
      using sk lg by simp
    show ?thesis
    proof (cases "length (entry_metas req) = unat (num_entries req)")
      case True
      have b: "unat new_tail + unat (num_entries req) < 18446744073709551616" using bound sk(3) by simp
      have lt: "prev_log_index req < tail_log_index (ring u)" using pv lg by (simp add: prev_ok_def)
      have "unat skip < unat (num_entries req)"
        using cp sk prev_index_below_tail [OF lt]
        by (auto simp: ae_batch_known_def word_le_nat_alt word_less_nat_alt)
      then have "ae_extends req s" using True cp sk lg by (simp add: ae_extends_def)
      then show ?thesis
        unfolding k using ae_appended_entries [OF True, of new_tail skip u] ae_appended_log(2) [OF b sk(1,2) True]
          lg pv sk ct cp by (simp add: t persist_fields)
    next
      case False
      with lg pv ct show ?thesis by (simp add: t persist_fields ae_extends_def ae_appended_def)
    qed
  qed
qed

lemma accepted_log:
  assumes inv: "node_inv s" and run: "handle_append_entries bc tm req s = (Ret rsp, t)"
    and ok: "success rsp" and carry: "num_entries req > 0" "leader_pba_src req \<noteq> 0"
    and len: "length (entry_metas req) = unat (num_entries req)"
    and bound: "unat (prev_log_index req) + 1 + unat (num_entries req) < 18446744073709551616"
  shows "prev_ok req s \<and> current_term (raft t) = aeq_term req \<and>
    map e_term (rlog (raft t)) = map e_term (rlog (raft s)) @
      drop (unat (tail_log_index (ring s)) - (unat (prev_log_index req) + 1)) (map meta_term (entry_metas req)) \<and>
    unat (tail_log_index (ring t)) =
      max (unat (tail_log_index (ring s))) (unat (prev_log_index req) + 1 + unat (num_entries req))"
  using accepted_entries [OF inv run ok bound] carry len
  by (auto simp: ae_extends_def batch_entries_terms max_def split: if_splits)

text \<open>
  C5. A successful answer, for every request that does not overflow the 64-bit index: the log matched
  at the previous index and the follower is in the leader's term. When the request carries
  entries with their blocks, one descriptor per entry, and ends after the follower's log, then the
  log is what it was, followed by the entries of the batch it did not have yet, whole entries with
  term, length, ring slot and commit signal, and the tail is the end of the batch. In every other
  case (a heartbeat, entries without blocks, a number of descriptors that does not match, a batch
  that is in the log already) success leaves log and tail as they were.
\<close>

theorem handle_append_entries_log:
  assumes inv: "node_inv s" and run: "handle_append_entries bc tm req s = (Ret rsp, t)"
    and ok: "success rsp"
    and bound: "unat (prev_log_index req) + 1 + unat (num_entries req) < 18446744073709551616"
  shows "prev_ok req s \<and> current_term (raft t) = aeq_term req \<and>
    (if ae_extends req s
     then rlog (raft t) = rlog (raft s) @ batch_entries (ring_slots (ring s)) (start_slot req) (length (signals s))
         (unat (tail_log_index (ring s)) - (unat (prev_log_index req) + 1)) (entry_metas req) \<and>
       unat (tail_log_index (ring t)) = unat (prev_log_index req) + 1 + unat (num_entries req)
     else rlog (raft t) = rlog (raft s) \<and> tail_log_index (ring t) = tail_log_index (ring s))"
  by (rule accepted_entries [OF assms])

section \<open>The handler answers\<close>

lemma next_chunk_no_Ub: "cached_fd (io s) \<noteq> None \<Longrightarrow> next_chunk s r c \<noteq> Ub"
  by (auto simp: next_chunk_def fd_query_def get_pba_def lookup_def Let_def obind_def
      split: outcome.splits option.splits if_splits)

lemma pba_chunks_no_Ub: "cached_fd (io s) \<noteq> None \<Longrightarrow> pba_chunks s r c src \<noteq> Ub"
proof (induction s r c src rule: pba_chunks.induct)
  case (1 s r c src)
  let ?c = "if ring_slots (ring s) \<le> c then 0 else c"
  show ?case
  proof (cases "0 < r")
    case True
    show ?thesis
    proof (cases "next_chunk s r ?c")
      case (Ret p)
      obtain d n where p: "p = (d, n)" by fastforce
      have "pba_chunks s (r - n) (?c + n div SECTOR_SIZE) (src + n) \<noteq> Ub"
        using 1 True Ret p by blast
      then show ?thesis
        using True Ret p by (subst pba_chunks.simps) (auto simp: Let_def obind_def split: outcome.splits if_splits)
    qed (use True 1 next_chunk_no_Ub in \<open>auto simp: pba_chunks.simps Let_def\<close>)
  qed (simp add: pba_chunks.simps)
qed

lemma copy_result_Ret: "io_healthy s \<Longrightarrow> \<exists>c. copy_result bc req slot s = Ret c"
  using pba_chunks_no_Ub [of s] io_healthy_fd [of s]
  by (auto simp: copy_result_def do_pba_copy_def Let_def obind_def split: outcome.splits sum.splits)

lemma ae_accept_returns:
  assumes "wf_cluster (raft s)" "io_healthy s"
  shows "returns (ae_accept tm pre w2 post req rsp s)"
proof -
  have "wf_cluster (raft (adopt_commit req s))" using assms(1) by (simp add: wf_cluster_def)
  moreover have "io_healthy (adopt_commit req s)" using assms(2) by (simp add: adopt_commit_def)
  ultimately show ?thesis
    unfolding ae_accept_def
    by (intro returns_andthen persist_circular_returns [OF _ get_voted_for_eq]) auto
qed

lemma io_healthy_reset [simp]: "io_healthy (reset_election_timeout s) = io_healthy s"
  by (rule io_healthy_cong) simp

lemma ae_receive_returns:
  assumes "node_inv s" "io_healthy s"
  shows "returns (ae_receive tm req s)"
proof -
  obtain b u where u: "update_term (aeq_term req) s = (Ret b, u)" "io_healthy u"
    using update_term_healthy [of s "aeq_term req"] assms by (auto simp: node_inv_def)
  let ?u = "reset_election_timeout (ae_follow req u)"
  have inv: "node_inv ?u" using node_inv_update_term [OF assms(1), of "aeq_term req"] u(1) by simp
  have io: "io_healthy ?u" "io_healthy (ae_follow req u)"
    using u(2) io_healthy_cong [of "ae_follow req u" u] by simp_all
  obtain r where r: "prev_log_check req ?u = Ret r"
    using prev_log_check_Ret inv by (auto simp: node_inv_def)
  have acc: "returns (ae_accept tm a b c req rsp ?u)" for a b c rsp
    using inv io by (intro ae_accept_returns) (simp_all add: node_inv_def)
  show ?thesis
    unfolding ae_receive_def u(1) using io r acc
    by (auto simp: Let_def split: option.splits intro!: returns_andthen)
qed

lemma ae_complete_returns:
  assumes "wf_cluster (raft s)" "io_healthy s"
  shows "returns (ae_complete tm req rsp nt skip copy s)"
proof -
  let ?a = "ae_appended req nt skip s"
  have "wf_cluster (raft ?a)" "io ?a = io s"
    using assms(1) push_metas_fields [of skip 0 "entry_metas req" s]
    by (auto simp: ae_appended_def upd_ring_def wf_cluster_def)
  then have "returns (ae_accept tm a b c req rsp' ?a)" for a b c rsp'
    using assms(2) io_healthy_cong [of ?a s] by (intro ae_accept_returns) simp_all
  then show ?thesis
    using assms(2) by (auto simp: ae_complete_def ae_appended_def Let_def split: option.splits)
qed

text \<open>
  C35. The follower's handler always answers: with the node invariant and system calls that
  succeed it returns a response for every request and every result of the block copy.
\<close>

theorem handle_append_entries_returns:
  assumes "node_inv s" "io_healthy s"
  shows "\<exists>rsp t. handle_append_entries bc tm req s = (Ret rsp, t)"
proof -
  have "returns (handle_append_entries bc tm req s)"
    unfolding handle_append_entries_def
  proof (rule returns_andthen)
    show "returns (ae_receive tm req s)" by (rule ae_receive_returns [OF assms])
    fix p t assume r: "ae_receive tm req s = (Ret p, t)" and io: "io_healthy t"
    have w: "wf_cluster (raft t)" using ae_receive_inv(1) [OF assms(1), of tm req] r by (simp add: node_inv_def)
    show "returns (case p of Answered rsp \<Rightarrow> (Ret rsp, t)
       | CopyBlocks rsp new_tail skip old_tail_slot \<Rightarrow>
           (case copy_result bc req old_tail_slot t of
              Ret copy \<Rightarrow> ae_complete tm req rsp new_tail skip copy t
            | Exc e \<Rightarrow> (Exc e, t) | Ub \<Rightarrow> (Ub, t))
       | NoBlocks rsp \<Rightarrow> ae_accept tm 0 0 0 req rsp t)"
    proof (cases p)
      case (CopyBlocks rsp new_tail skip slot)
      then show ?thesis
        using copy_result_Ret [OF io, of bc req slot] ae_complete_returns [OF w io] by auto
    qed (use io w ae_accept_returns in auto)
  qed
  then show ?thesis by (auto simp: returns_def)
qed

section \<open>A concrete request\<close>

text \<open>One new entry after index 2, its blocks already copied; the header cache is up to date.\<close>

definition sample_follower :: server where
  "sample_follower = upd_ring (\<lambda>g. g\<lparr>persisted_init := True, persisted_term := 1\<rparr>) sample_node"

definition sample_append :: append_entries_request where
  "sample_append = AppendEntriesRequest\<lparr>aeq_term := 1, prev_log_index := 2, prev_log_term := 1,
     leader_commit := 3, leader_pba_src := 8192, log_block_length := 1, num_entries := 1,
     slots_per_entry := 1, start_slot := 2, data_already_copied := True,
     entry_metas := [\<lparr>meta_term = 1, meta_cmd_len = 5\<rparr>]\<rparr>"

definition sample_handler_times :: handler_times where
  "sample_handler_times = \<lparr>h_duration = 1, h_lock_wait = 2, h_pre = 3, h_lock_wait2 = 4,
     h_post = 5, h_persist = 6\<rparr>"

definition no_copy :: blockcopy_client where
  "no_copy cs src dst = Inl ''unreachable''"

lemma sample_follower_ok: "node_inv sample_follower" "io_healthy sample_follower"
  using sample_io_ok(1)
  by (simp_all add: node_inv_def wf_cluster_def wf_log_def sample_follower_def)
    (simp_all add: upd_ring_def)

lemma sample_follower_fields [simp]:
  "raft sample_follower = raft sample_node" "tail_log_index (ring sample_follower) = 3"
  "io sample_follower = io sample_node"
  by (simp_all add: sample_follower_def upd_ring_def)

lemma sample_append_run:
  "\<exists>rsp t. handle_append_entries no_copy sample_handler_times sample_append sample_follower = (Ret rsp, t) \<and>
     success rsp"
proof -
  let ?s = "reset_election_timeout sample_follower"
  let ?rsp = "AppendEntriesResponse\<lparr>aer_term := 1\<rparr>"
  let ?u = "upd_ring (\<lambda>g. g\<lparr>tail_slot := 2\<rparr>) ?s"
  have u: "update_term 1 sample_follower = (Ret False, sample_follower)"
    by (simp add: update_term_stay)
  have o: "oldest_log_index ?s = 1" by (simp add: oldest_log_index_def log_size_def)
  have p: "prev_log_check sample_append ?s = Ret None"
    by (simp add: prev_log_check_def sample_append_def o log_at_def log_slice_def)
  have r: "ae_receive sample_handler_times sample_append sample_follower =
      (Ret (CopyBlocks ?rsp 3 0 2), ?u)"
    using u p by (simp add: ae_receive_def sample_append_def ae_follow_def Let_def ae_batch_known_def
        skip_count_def) (simp add: upd_ring_def)
  have c: "copy_result no_copy sample_append 2 ?u = Ret (Some (0, 0))"
    by (simp add: copy_result_def sample_append_def)
  have w: "wf_cluster (raft ?u)" "io_healthy ?u"
    using sample_follower_ok by (simp_all add: wf_cluster_def upd_ring_def io_healthy_def disk_of_def)
  obtain rsp t where t: "ae_complete sample_handler_times sample_append ?rsp 3 0 (Some (0, 0)) ?u = (Ret rsp, t)"
    using ae_complete_returns [OF w] unfolding returns_def by blast
  then have "success rsp" by (auto simp: ae_complete_def Let_def dest: ae_accept_Ret)
  with r c t show ?thesis by (simp add: handle_append_entries_def)
qed

theorem handle_append_entries_returns_witness:
  "\<exists>rsp t. handle_append_entries no_copy sample_handler_times sample_append sample_follower = (Ret rsp, t)"
  by (rule handle_append_entries_returns [OF sample_follower_ok])

theorem handle_append_entries_inv_witness:
  "node_inv (snd (handle_append_entries no_copy sample_handler_times sample_append sample_follower))"
  using handle_append_entries_inv [OF sample_follower_ok(1), of sample_append]
  by (simp add: sample_append_def)

theorem handle_append_entries_log_witness:
  "\<exists>rsp t. handle_append_entries no_copy sample_handler_times sample_append sample_follower = (Ret rsp, t) \<and>
     success rsp \<and> rlog (raft t) = rlog (raft sample_follower) @ [\<lparr>command = [], e_term = 1, result_sink = None,
       committed = Some 0, ring_slot = 2, cmd_len = 5\<rparr>] \<and> unat (tail_log_index (ring t)) = 4"
proof -
  obtain rsp t where run: "handle_append_entries no_copy sample_handler_times sample_append
      sample_follower = (Ret rsp, t)" and ok: "success rsp" using sample_append_run by blast
  have b: "unat (prev_log_index sample_append) + 1 + unat (num_entries sample_append) < 18446744073709551616"
    by (simp add: sample_append_def)
  have "ae_extends sample_append sample_follower" "signals sample_follower = []"
    by (simp_all add: ae_extends_def sample_append_def sample_follower_def upd_ring_def)
  moreover have "batch_entries slots 2 0 0 [\<lparr>meta_term = 1, meta_cmd_len = 5\<rparr>] = [\<lparr>command = [], e_term = 1,
      result_sink = None, committed = Some 0, ring_slot = 2, cmd_len = 5\<rparr>]" for slots
    by (simp add: batch_entries_def slot_walk_def)
  ultimately show ?thesis
    using handle_append_entries_log [OF sample_follower_ok(1) run ok b] run ok by (auto simp: sample_append_def)
qed

end
