(* ===== verification/Commit.thy ===== *)
theory Commit
  imports FollowerAE
begin

text \<open>
  \<open>core/src/raft_commit.cpp\<close>: the leader's commit rule (\<open>advance_commit_index\<close>), the application
  of committed entries to the state machine (\<open>apply_pending\<close>), the freeing of ring slots
  (\<open>do_slot_gc\<close>) and the trimming of the in-memory log (\<open>trim_log_locked\<close>). Each runs under the
  server lock and is one atomic definition. The durations stored when profiling is on are
  arguments.
\<close>

definition kSlotGcTriggerPercent :: u64 where "kSlotGcTriggerPercent = 70"
definition kSlotGcFloorTicks :: u64 where "kSlotGcFloorTicks = 100"
definition kApplyBatchLimit :: nat where "kApplyBatchLimit = 64"

section \<open>The commit rule\<close>

definition match_values :: "server \<Rightarrow> u64 list" where
  "match_values s = map (\<lambda>(j, m). if int j = cluster_index (raft s)
      then tail_log_index (ring s) - 1 else match_index m) (enumerate 0 (cluster (raft s)))"

text \<open>Sorted downwards, the element at half the length; an empty cluster indexes past the end.\<close>

definition majority_index :: "server \<Rightarrow> u64 outcome" where
  "majority_index s = vec_at (rev (sort (match_values s))) (of_nat (length (match_values s) div 2))"

fun signal_range :: "u64 list \<Rightarrow> u64 \<Rightarrow> server \<Rightarrow> unit step" where
  "signal_range [] oldest s = (Ret (), s)"
| "signal_range (idx # is) oldest s =
     (if idx \<ge> oldest \<and> idx < tail_log_index (ring s) then
        (case log_at s idx of
           Ret e \<Rightarrow> signal_range is oldest
             (case committed e of Some c \<Rightarrow> signal_committed c s | None \<Rightarrow> s)
         | Exc x \<Rightarrow> (Exc x, s)
         | Ub \<Rightarrow> (Ub, s))
      else signal_range is oldest s)"

text \<open>
  The indices from \<open>a + 1\<close> up to \<open>b\<close>. The loops of the code run from \<open>a + 1\<close> while the index is at
  most \<open>b\<close>; for \<open>a\<close> and \<open>b\<close> both the largest 64-bit number that loop would start at 0, which no log
  index reaches.
\<close>

definition indices_after :: "u64 \<Rightarrow> u64 \<Rightarrow> u64 list" where
  "indices_after a b = (if a < b then map (\<lambda>k. a + 1 + of_nat k) [0..<unat (b - a)] else [])"

definition raise_commit :: "server \<Rightarrow> unit step" where
  "raise_commit s =
     (case majority_index s of
        Exc e \<Rightarrow> (Exc e, s)
      | Ub \<Rightarrow> (Ub, s)
      | Ret majority_idx \<Rightarrow>
          if majority_idx > commit_index (raft s) \<and> majority_idx < tail_log_index (ring s) then
            (case log_at s majority_idx of
               Exc e \<Rightarrow> (Exc e, s)
             | Ub \<Rightarrow> (Ub, s)
             | Ret e \<Rightarrow>
                 if e_term e = current_term (raft s) then
                   let prev_commit = commit_index (raft s);
                       s = upd_raft (\<lambda>r. r\<lparr>commit_index := majority_idx\<rparr>) s
                   in signal_range (indices_after prev_commit majority_idx) (oldest_log_index s) s
                 else (Ret (), s))
          else (Ret (), s))"

definition used_slots :: "ring_log \<Rightarrow> u64" where
  "used_slots g =
     (if log_slot_map g \<noteq> [] then
        if tail_slot g \<ge> head_slot g then tail_slot g - head_slot g
        else ring_slots g - head_slot g + tail_slot g
      else 0)"

definition wake_slot_gc :: "server \<Rightarrow> server" where
  "wake_slot_gc s =
     (let tick = slot_gc_tick (workers s) + 1;
          s = s\<lparr>workers := (workers s)\<lparr>slot_gc_tick := tick\<rparr>\<rparr>
      in if used_slots (ring s) * 100 > ring_slots (ring s) * kSlotGcTriggerPercent \<or>
            tick mod kSlotGcFloorTicks = 0
         then s\<lparr>workers := (workers s)\<lparr>slot_gc_notify_pending := True\<rparr>\<rparr> else s)"

record aci_times =
  aci_t_lock_wait :: int
  aci_t_quorum :: int
  aci_t_sort :: int
  aci_t_signal :: int

definition profiling :: "server \<Rightarrow> bool" where
  "profiling s \<longleftrightarrow> prof_enabled (prof s) \<noteq> 0"

definition advance_commit_index :: "aci_times \<Rightarrow> server \<Rightarrow> unit step" where
  "advance_commit_index tm s =
     andthen (if role (raft s) = Leader
              then andthen (raise_commit s) (\<lambda>_ s. (Ret (), wake_slot_gc s)) else (Ret (), s))
       (\<lambda>_ s'.
          let sort_ns = (if role (raft s) = Leader then aci_t_sort tm else 0);
              signal_ns = (if commit_index (raft s') \<noteq> commit_index (raft s) then aci_t_signal tm else 0);
              s = (if profiling s'
                   then s'\<lparr>prof := (prof s')\<lparr>aci_lock_wait_ns := aci_t_lock_wait tm,
                          aci_quorum_ns := aci_t_quorum tm, aci_sort_ns := sort_ns,
                          aci_signal_ns := signal_ns\<rparr>\<rparr>
                   else s')
          in (Ret (), if role (raft s) = Leader
                      then s\<lparr>workers := (workers s)\<lparr>apply_notify_pending := True\<rparr>\<rparr> else s))"

section \<open>Applying committed entries\<close>

text \<open>The closure \<open>result_sink\<close> of an entry made by \<open>apply_internal\<close>.\<close>

definition deliver_result :: "nat \<times> bool \<Rightarrow> apply_result \<Rightarrow> server \<Rightarrow> server" where
  "deliver_result sink r s =
     (let (i, is_last) = sink; c = collectors s ! i;
          c = c\<lparr>col_received := col_received c + 1\<rparr>;
          c = (if res_error r \<noteq> [] \<and> col_error c = [] then c\<lparr>col_error := res_error r\<rparr> else c);
          c = (if is_last then c\<lparr>col_last_result := res_result r\<rparr> else c)
      in s\<lparr>collectors := (collectors s)[i := c]\<rparr>)"

definition apply_entry :: "entry \<Rightarrow> server \<Rightarrow> server" where
  "apply_entry e s =
     (if command e \<noteq> [] then
        let (res, s) = sm_apply (command e) s
        in case result_sink e of Some sk \<Rightarrow> deliver_result sk res s | None \<Rightarrow> s
      else s)"

text \<open>What \<open>apply_pending\<close> leaves in the log slot of an applied entry.\<close>

definition retire_entry :: "entry \<Rightarrow> entry" where
  "retire_entry e = e\<lparr>cmd_len := command_size (command e), command := [], result_sink := None,
                      committed := None, ring_slot := 0\<rparr>"

definition apply_one :: "entry \<Rightarrow> server \<Rightarrow> server" where
  "apply_one e s =
     (let i = unat (log_slice s (last_applied (raft s)));
          s = apply_entry e s
      in upd_raft (\<lambda>r. r\<lparr>rlog := (rlog r)[i := retire_entry e],
                          last_applied := last_applied r + 1\<rparr>) s)"

function apply_loop :: "nat \<Rightarrow> u64 \<Rightarrow> server \<Rightarrow> unit step" where
  "apply_loop applied oldest s =
     (if apply_ready oldest s then
        (case log_at s (last_applied (raft s)) of
           Exc x \<Rightarrow> (Exc x, s)
         | Ub \<Rightarrow> (Ub, s)
         | Ret e \<Rightarrow>
             let s = apply_one e s in
             if applied + 1 \<ge> kApplyBatchLimit then
               let s = reset_election_timeout s in
               if role (raft s) \<noteq> Leader \<and> role (raft s) \<noteq> Follower then (Ret (), s)
               else apply_loop 0 (oldest_log_index s) s
             else apply_loop (applied + 1) oldest s)
      else (Ret (), s))"
  by auto

lemma apply_entry_fields [simp]:
  "raft (apply_entry e s) = raft s" "ring (apply_entry e s) = ring s" "io (apply_entry e s) = io s"
  by (auto simp: apply_entry_def sm_apply_def deliver_result_def Let_def split: option.splits prod.splits)

lemma apply_one_fields [simp]:
  "ring (apply_one e s) = ring s" "last_applied (raft (apply_one e s)) = last_applied (raft s) + 1"
  "commit_index (raft (apply_one e s)) = commit_index (raft s)"
  "current_term (raft (apply_one e s)) = current_term (raft s)"
  "role (raft (apply_one e s)) = role (raft s)" "cluster (raft (apply_one e s)) = cluster (raft s)"
  "cluster_index (raft (apply_one e s)) = cluster_index (raft s)"
  "length (rlog (raft (apply_one e s))) = length (rlog (raft s))"
  by (simp_all add: apply_one_def upd_raft_def Let_def)

termination apply_loop
  by (relation "measure (\<lambda>(a, o', s). unapplied s)")
    (auto intro!: unapplied_step simp: apply_ready_def)

declare apply_loop.simps [simp del]

definition apply_pending :: "int \<Rightarrow> server \<Rightarrow> unit step" where
  "apply_pending loop_ns s =
     (if role (raft s) \<noteq> Leader then (Ret (), s)
      else andthen (apply_loop 0 (oldest_log_index s) s) (\<lambda>_ s.
        (Ret (), if profiling s then s\<lparr>prof := (prof s)\<lparr>aci_apply_loop_ns := loop_ns\<rparr>\<rparr> else s)))"

section \<open>Freeing slots\<close>

definition min_match :: "server \<Rightarrow> u64" where
  "min_match s = fold (\<lambda>(j, m) mm. if int j = cluster_index (raft s) then mm
      else if match_index m < mm then match_index m else mm)
    (enumerate 0 (cluster (raft s))) (tail_log_index (ring s) - 1)"

fun free_slots :: "u64 list \<Rightarrow> bool \<Rightarrow> ring_log \<Rightarrow> bool \<times> ring_log" where
  "free_slots [] freed g = (freed, g)"
| "free_slots (idx # is) freed g =
     (case map_of (log_slot_map g) idx of
        Some r \<Rightarrow> free_slots is True (trace_slot_map (CHR ''F'') idx
                    (g\<lparr>log_slot_map := AList.delete idx (log_slot_map g)\<rparr>))
      | None \<Rightarrow> free_slots is freed g)"

definition trim_log_locked :: "u64 \<Rightarrow> server \<Rightarrow> server" where
  "trim_log_locked min_m s =
     (if log_trim_threshold (ring s) = 0 \<or> log_size s \<le> 1 then s
      else
        let trim_upto = min min_m (last_applied (raft s));
            oldest = oldest_log_index s
        in if trim_upto \<le> oldest then s
           else
             let removable = trim_upto - oldest in
             if removable < log_trim_threshold (ring s) then s
             else
               let removable = (if removable > log_size s - 1 then log_size s - 1 else removable)
               in upd_raft (\<lambda>r. r\<lparr>rlog := take 1 (rlog r) @ drop (1 + unat removable) (rlog r)\<rparr>) s)"

definition do_slot_gc :: "int \<Rightarrow> int \<Rightarrow> server \<Rightarrow> server" where
  "do_slot_gc gc_ns bp_ns s =
     (if role (raft s) \<noteq> Leader then s
      else
        let mm = min_match s;
            (freed, g) = free_slots (indices_after (gc_up_to (ring s)) mm) False (ring s);
            g = g\<lparr>gc_up_to := mm, gc_has_run := True\<rparr>;
            s = s\<lparr>ring := (if freed then recompute_head_slot g else g)\<rparr>;
            s = (if freed then s\<lparr>ring_not_full_notified := True\<rparr> else s);
            s = (if freed \<and> profiling s then s\<lparr>prof := (prof s)\<lparr>aci_backpres_ns := bp_ns\<rparr>\<rparr> else s);
            s = trim_log_locked mm s
        in if profiling s
           then s\<lparr>prof := (prof s)\<lparr>aci_slot_gc_ns :=
                  (if freed then gc_ns - aci_backpres_ns (prof s) else gc_ns)\<rparr>\<rparr>
           else s)"

section \<open>The commit rule needs a majority and the current term\<close>

lemma rev_sorted_prefix:
  assumes "k < length ys"
  shows "k < length (filter (\<lambda>y. rev (sort ys) ! k \<le> y) (ys :: u64 list))"
proof -
  let ?xs = "rev (sort ys)" and ?P = "\<lambda>y. rev (sort ys) ! k \<le> y"
  have ge: "?xs ! k \<le> ?xs ! i" if "i \<le> k" for i
    using that assms by (simp add: rev_nth sorted_nth_mono)
  have "filter ?P (take (Suc k) ?xs) = take (Suc k) ?xs"
    using ge assms by (auto simp: filter_id_conv in_set_conv_nth)
  then have "Suc k \<le> length (filter ?P (take (Suc k) ?xs))" using assms by simp
  also have "\<dots> \<le> length (filter ?P (take (Suc k) ?xs @ drop (Suc k) ?xs))"
    by (simp only: filter_append length_append)
  also have "\<dots> = length (filter ?P ys)"
    by (simp add: filter_sort flip: rev_filter)
  finally show ?thesis by simp
qed

lemma signal_range_fields [simp]:
  "raft (snd (signal_range is oldest s)) = raft s" "ring (snd (signal_range is oldest s)) = ring s"
  "workers (snd (signal_range is oldest s)) = workers s" "io (snd (signal_range is oldest s)) = io s"
  by (induction "is" oldest s rule: signal_range.induct)
    (auto simp: signal_committed_def split: outcome.splits option.splits)

lemma raise_commit_fields [simp]:
  "ring (snd (raise_commit s)) = ring s" "rlog (raft (snd (raise_commit s))) = rlog (raft s)"
  "current_term (raft (snd (raise_commit s))) = current_term (raft s)"
  "role (raft (snd (raise_commit s))) = role (raft s)"
  "cluster (raft (snd (raise_commit s))) = cluster (raft s)"
  "cluster_index (raft (snd (raise_commit s))) = cluster_index (raft s)"
  "last_applied (raft (snd (raise_commit s))) = last_applied (raft s)"
  "io (snd (raise_commit s)) = io s"
  by (auto simp: raise_commit_def Let_def upd_raft_def split: outcome.splits)

text \<open>The number of nodes known to hold the log up to an index, the leader included.\<close>

definition replicas :: "server \<Rightarrow> u64 \<Rightarrow> nat" where
  "replicas s i = length (filter (\<lambda>m. i \<le> m) (match_values s))"

lemma raise_commit_majority:
  assumes ch: "commit_index (raft (snd (raise_commit s))) \<noteq> commit_index (raft s)"
    and len: "length (cluster (raft s)) < 18446744073709551616"
  defines "i \<equiv> commit_index (raft (snd (raise_commit s)))"
  shows "commit_index (raft s) < i \<and> i < tail_log_index (ring s) \<and>
    length (cluster (raft s)) < 2 * replicas s i \<and>
    (\<exists>e. log_at s i = Ret e \<and> e_term e = current_term (raft s))"
proof -
  obtain m where m: "majority_index s = Ret m"
    using ch by (auto simp: raise_commit_def split: outcome.splits)
  have gt: "m > commit_index (raft s) \<and> m < tail_log_index (ring s)"
    using ch m by (auto simp: raise_commit_def split: if_splits)
  obtain e where e: "log_at s m = Ret e"
    using ch m gt by (auto simp: raise_commit_def split: outcome.splits)
  have et: "e_term e = current_term (raft s)" and im: "i = m"
    using ch m gt e by (auto simp: raise_commit_def i_def upd_raft_def Let_def split: if_splits)
  let ?n = "length (match_values s)"
  have n: "?n = length (cluster (raft s))" by (simp add: match_values_def)
  have k: "unat (of_nat (?n div 2) :: u64) = ?n div 2"
    using len n by (intro unat_u64_of_nat) simp
  have "?n div 2 < ?n" "m = rev (sort (match_values s)) ! (?n div 2)"
    using m unfolding majority_index_def vec_at_Ret k by auto
  with rev_sorted_prefix [of "?n div 2" "match_values s"]
  have "?n div 2 < replicas s m" by (simp add: replicas_def)
  then have "?n < 2 * replicas s m" by linarith
  with gt e et im n show ?thesis by auto
qed

lemma signal_opt_fields [simp]:
  "raft (case co of Some c \<Rightarrow> signal_committed c s | None \<Rightarrow> s) = raft s"
  "ring (case co of Some c \<Rightarrow> signal_committed c s | None \<Rightarrow> s) = ring s"
  by (simp_all add: signal_committed_def split: option.splits)

lemma signal_range_Ret:
  "wf_log t \<Longrightarrow> fst (signal_range is (oldest_log_index t) t) = Ret ()"
proof (induction "is" arbitrary: t)
  case (Cons idx "is")
  let ?t = "\<lambda>e. case committed e of Some c \<Rightarrow> signal_committed c t | None \<Rightarrow> t"
  have IH: "fst (signal_range is (oldest_log_index t) (?t e)) = Ret ()" for e
    using Cons.IH [of "?t e"] Cons.prems log_view_cong [of "?t e" t] by simp
  have "log_at t idx = Ret (rlog (raft t) ! unat (log_slice t idx))"
    if "oldest_log_index t \<le> idx \<and> idx < tail_log_index (ring t)"
    using that Cons.prems by (intro log_at_Ret) (auto simp: in_log_def)
  then show ?case using Cons.IH [OF Cons.prems] by (auto intro: IH)
qed simp

text \<open>Under the node invariant the rule never reads outside the log.\<close>

lemma raise_commit_no_ub:
  assumes "wf_log s" "wf_cluster (raft s)" "length (cluster (raft s)) < 18446744073709551616"
    and old: "unat (oldest_log_index s) \<le> unat (commit_index (raft s)) + 1"
  shows "fst (raise_commit s) = Ret ()"
proof -
  let ?n = "length (match_values s)"
  have n: "?n = length (cluster (raft s))" by (simp add: match_values_def)
  have k: "unat (of_nat (?n div 2) :: u64) = ?n div 2"
    using assms(3) n by (intro unat_u64_of_nat) simp
  have "?n div 2 < ?n" using wf_cluster_nat [OF assms(2)] n by linarith
  then obtain m where m: "majority_index s = Ret m"
    using k by (auto simp: majority_index_def vec_at_def)
  show ?thesis
  proof (cases "m > commit_index (raft s) \<and> m < tail_log_index (ring s)")
    case True
    then have "in_log s m"
      using old by (auto simp: in_log_def word_le_nat_alt word_less_nat_alt)
    from log_at_Ret [OF assms(1) this] signal_range_Ret [of "upd_raft (\<lambda>r. r\<lparr>commit_index := m\<rparr>) s"] True m assms(1)
    show ?thesis by (auto simp: raise_commit_def Let_def wf_log_def upd_raft_def)
  qed (use m in \<open>auto simp: raise_commit_def\<close>)
qed

lemma wake_slot_gc_fields [simp]:
  "raft (wake_slot_gc s) = raft s" "ring (wake_slot_gc s) = ring s" "io (wake_slot_gc s) = io s"
  by (simp_all add: wake_slot_gc_def Let_def)

lemma advance_commit_raft:
  "raft (snd (advance_commit_index tm s)) =
     (if role (raft s) = Leader then raft (snd (raise_commit s)) else raft s)"
  by (cases "raise_commit s"; cases "fst (raise_commit s)") (auto simp: advance_commit_index_def Let_def)

text \<open>
  C8. The commit rule: when \<open>advance_commit_index\<close> moves the commit index, the node is the leader,
  the index grows and stays in the log, more than half of the cluster (the leader included) is
  known to hold the log up to it, and the entry there is of the leader's current term.
\<close>

theorem advance_commit_majority:
  assumes "commit_index (raft (snd (advance_commit_index tm s))) \<noteq> commit_index (raft s)"
    and "length (cluster (raft s)) < 18446744073709551616"
  shows "role (raft s) = Leader \<and>
    commit_index (raft s) < commit_index (raft (snd (advance_commit_index tm s))) \<and>
    commit_index (raft (snd (advance_commit_index tm s))) < tail_log_index (ring s) \<and>
    length (cluster (raft s)) <
      2 * replicas s (commit_index (raft (snd (advance_commit_index tm s)))) \<and>
    (\<exists>e. log_at s (commit_index (raft (snd (advance_commit_index tm s)))) = Ret e \<and>
       e_term e = current_term (raft s))"
  using assms raise_commit_majority [of s] by (auto simp: advance_commit_raft split: if_splits)

definition sample_progress :: server where
  "sample_progress = update_member 1 (\<lambda>m. m\<lparr>match_index := 2\<rparr>) sample_leader"

lemma sample_progress_fields [simp]:
  "ring sample_progress = ring sample_node" "rlog (raft sample_progress) = rlog (raft sample_node)"
  "role (raft sample_progress) = Leader" "current_term (raft sample_progress) = 1"
  "commit_index (raft sample_progress) = 0" "cluster_index (raft sample_progress) = 0"
  "last_applied (raft sample_progress) = 1"
  by (simp_all add: sample_progress_def)

lemma sample_progress_match: "match_values sample_progress = [2, 2, 0]"
  by (simp add: match_values_def sample_progress_def ClusterMember_def update_member_def
      enumerate_eq_zip)

lemma sample_progress_cluster: "length (cluster (raft sample_progress)) = 3"
  by (simp add: sample_progress_def update_member_def)

definition sample_aci_times :: aci_times where
  "sample_aci_times = \<lparr>aci_t_lock_wait = 1, aci_t_quorum = 2, aci_t_sort = 3, aci_t_signal = 4\<rparr>"

lemma sample_advance:
  "commit_index (raft (snd (advance_commit_index sample_aci_times sample_progress))) = 2"
proof -
  have "majority_index sample_progress = Ret 2"
    by (simp add: majority_index_def sample_progress_match)
  moreover have "log_at sample_progress 2 = Ret (sample_entry 1 [8, 9])"
    by (simp add: log_at_def log_slice_def oldest_log_index_def log_size_def)
  ultimately show ?thesis
    by (simp add: advance_commit_raft raise_commit_def Let_def) (simp add: upd_raft_def)
qed

theorem advance_commit_majority_witness:
  "commit_index (raft (snd (advance_commit_index sample_aci_times sample_progress))) = 2 \<and>
   3 < 2 * replicas sample_progress 2"
  using advance_commit_majority [of sample_aci_times sample_progress]
  by (simp add: sample_advance sample_progress_cluster)

text \<open>
  The commit rule never reads outside the log: under the node invariant, with the commit index
  not trimmed away, \<open>advance_commit_index\<close> returns.
\<close>

theorem advance_commit_returns:
  assumes "node_inv s" "length (cluster (raft s)) < 18446744073709551616"
    and "unat (oldest_log_index s) \<le> unat (commit_index (raft s)) + 1"
  shows "fst (advance_commit_index tm s) = Ret ()"
  using assms raise_commit_no_ub [of s]
  by (cases "raise_commit s") (auto simp: advance_commit_index_def node_inv_def Let_def)

theorem advance_commit_returns_witness:
  "fst (advance_commit_index sample_aci_times sample_progress) = Ret ()"
  by (rule advance_commit_returns)
    (auto simp: node_inv_def wf_cluster_def wf_log_def sample_progress_cluster
      oldest_log_index_def log_size_def)

section \<open>Committed entries are applied once and in order\<close>

text \<open>The entry of an absolute index, and the index the apply loop stops at.\<close>

definition entry_at :: "server \<Rightarrow> nat \<Rightarrow> entry" where
  "entry_at s i = rlog (raft s) ! Suc (i - unat (oldest_log_index s))"

definition apply_end_index :: "server \<Rightarrow> nat" where
  "apply_end_index s = max (unat (last_applied (raft s)))
     (min (Suc (unat (commit_index (raft s)))) (unat (tail_log_index (ring s))))"

definition commands_between :: "server \<Rightarrow> nat \<Rightarrow> nat \<Rightarrow> bytes list" where
  "commands_between s a b = filter (\<lambda>c. c \<noteq> []) (map (\<lambda>i. command (entry_at s i)) [a..<b])"

lemma apply_one_view:
  "oldest_log_index (apply_one e s) = oldest_log_index s"
  "wf_log (apply_one e s) = wf_log s"
  "sm_applied (apply_one e s) = sm_applied s @ (if command e \<noteq> [] then [command e] else [])"
  using log_view_cong [of "apply_one e s" s]
  by simp_all
    (auto simp: apply_one_def apply_entry_def sm_apply_def deliver_result_def upd_raft_def Let_def
      split: option.splits prod.splits)

lemma apply_one_rlog:
  assumes "wf_log s" "in_log s (last_applied (raft s))"
  shows "rlog (raft (apply_one e s)) = (rlog (raft s))
    [Suc (unat (last_applied (raft s)) - unat (oldest_log_index s)) := retire_entry e]"
  using unat_log_slice(1) [OF assms] by (simp add: apply_one_def upd_raft_def Let_def)

lemma commands_between_cong:
  assumes "oldest_log_index t = oldest_log_index s"
    and "\<And>i. a \<le> i \<Longrightarrow> i < b \<Longrightarrow> entry_at t i = entry_at s i"
  shows "commands_between t a b = commands_between s a b"
proof -
  have "map (\<lambda>i. command (entry_at t i)) [a..<b] = map (\<lambda>i. command (entry_at s i)) [a..<b]"
    using assms(2) by (intro map_cong) auto
  then show ?thesis by (simp only: commands_between_def)
qed

lemma apply_ready_iff:
  "oldest_log_index s \<le> last_applied (raft s) \<Longrightarrow>
   apply_ready (oldest_log_index s) s \<longleftrightarrow> unat (last_applied (raft s)) < apply_end_index s"
  by (auto simp: apply_ready_def apply_end_index_def word_le_nat_alt word_less_nat_alt)

definition apply_result_ok :: "server \<Rightarrow> server \<Rightarrow> bool" where
  "apply_result_ok s t \<longleftrightarrow>
     sm_applied t = sm_applied s @
       commands_between s (unat (last_applied (raft s))) (apply_end_index s) \<and>
     unat (last_applied (raft t)) = apply_end_index s \<and>
     length (rlog (raft t)) = length (rlog (raft s)) \<and> ring t = ring s \<and>
     commit_index (raft t) = commit_index (raft s) \<and> role (raft t) = role (raft s) \<and>
     (\<forall>i. unat (oldest_log_index s) \<le> i \<longrightarrow> entry_at t i =
        (if unat (last_applied (raft s)) \<le> i \<and> i < apply_end_index s
         then retire_entry (entry_at s i) else entry_at s i))"

lemma apply_result_ok_step:
  assumes wf: "wf_log s" and lo: "oldest_log_index s \<le> last_applied (raft s)"
    and lt: "unat (last_applied (raft s)) < apply_end_index s"
    and e: "e = entry_at s (unat (last_applied (raft s)))"
    and raft: "rlog (raft t) = rlog (raft (apply_one e s))"
      "last_applied (raft t) = last_applied (raft s) + 1"
      "commit_index (raft t) = commit_index (raft s)" "role (raft t) = role (raft s)"
    and ring: "ring t = ring s"
    and sm: "sm_applied t = sm_applied (apply_one e s)"
    and ok: "apply_result_ok t u"
  shows "apply_result_ok s u"
proof -
  let ?la = "unat (last_applied (raft s))" and ?o = "unat (oldest_log_index s)"
  have inl: "in_log s (last_applied (raft s))"
    using lo lt by (auto simp: in_log_def apply_end_index_def word_less_nat_alt)
  have o: "oldest_log_index t = oldest_log_index s"
    using log_view_cong(2) [of t s] raft(1) ring by simp
  have lo': "?o \<le> ?la" using lo by (simp add: word_le_nat_alt)
  have la: "unat (last_applied (raft t)) = Suc ?la"
    using lt unat_u64_inc [of "last_applied (raft s)" "tail_log_index (ring s)"]
    by (auto simp: raft apply_end_index_def)
  then have en: "apply_end_index t = apply_end_index s"
    using lt by (auto simp: apply_end_index_def raft ring)
  have len: "Suc (?la - ?o) < length (rlog (raft s))"
    using unat_log_slice [OF wf inl] by simp
  have ent: "entry_at t i = (if i = ?la then retire_entry e else entry_at s i)" if "?o \<le> i" for i
    using that lo' len by (auto simp: entry_at_def o raft apply_one_rlog [OF wf inl] nth_list_update)
  have "commands_between t (Suc ?la) (apply_end_index s) =
    commands_between s (Suc ?la) (apply_end_index s)"
    using ent lo' by (intro commands_between_cong o) auto
  then have "sm_applied u = sm_applied s @ commands_between s ?la (apply_end_index s)"
    using ok lt by (simp add: apply_result_ok_def sm apply_one_view la en commands_between_def
        upt_conv_Cons e)
  moreover have "entry_at u i = (if ?la \<le> i \<and> i < apply_end_index s
      then retire_entry (entry_at s i) else entry_at s i)" if i: "?o \<le> i" for i
    using ok ent [OF i] i lt by (auto simp: apply_result_ok_def la en o e Suc_le_eq)
  ultimately show ?thesis
    using ok by (simp add: apply_result_ok_def la en raft ring)
qed

lemma apply_loop_ok:
  "wf_log s \<Longrightarrow> role (raft s) = Leader \<Longrightarrow> oldest = oldest_log_index s \<Longrightarrow>
   oldest \<le> last_applied (raft s) \<Longrightarrow>
   \<exists>t. apply_loop n oldest s = (Ret (), t) \<and> apply_result_ok s t"
proof (induction n oldest s rule: apply_loop.induct)
  case (1 n oldest s)
  note wf = 1(3) and lead = 1(4) and o = 1(5) and lo = 1(6)
  show ?case
  proof (cases "apply_ready oldest s")
    case ready: True
    let ?e = "entry_at s (unat (last_applied (raft s)))"
    have lt: "unat (last_applied (raft s)) < apply_end_index s"
      using ready apply_ready_iff lo o by simp
    have inl: "in_log s (last_applied (raft s))" using ready lo o by (auto simp: in_log_def apply_ready_def)
    have at: "log_at s (last_applied (raft s)) = Ret ?e"
      using log_at_Ret [OF wf inl] unat_log_slice(1) [OF wf inl] by (simp add: entry_at_def)
    let ?t = "apply_one ?e s"
    have inc: "last_applied (raft s) \<le> last_applied (raft s) + 1"
      using inl unat_u64_inc [of "last_applied (raft s)" "tail_log_index (ring s)"]
      by (simp add: in_log_def word_le_nat_alt word_less_nat_alt)
    show ?thesis
    proof (cases "n + 1 \<ge> kApplyBatchLimit")
      case True
      let ?u = "reset_election_timeout ?t"
      have wu: "wf_log ?u" "oldest_log_index ?u = oldest"
        using wf o log_view_cong [of ?u s] by simp_all
      have eq: "apply_loop n oldest s = apply_loop 0 (oldest_log_index ?u) ?u"
        using ready at True lead by (subst apply_loop.simps) (simp add: Let_def)
      have "\<exists>v. apply_loop 0 (oldest_log_index ?u) ?u = (Ret (), v) \<and> apply_result_ok ?u v"
        using 1(1) [OF ready at refl True refl] lead wu inc lo by auto
      then obtain v where v: "apply_loop n oldest s = (Ret (), v)" "apply_result_ok ?u v"
        using eq by auto
      have "apply_result_ok s v"
        using lo o by (intro apply_result_ok_step [OF wf _ lt refl _ _ _ _ _ _ v(2)]) simp_all
      with v show ?thesis by blast
    next
      case False
      have eq: "apply_loop n oldest s = apply_loop (n + 1) oldest ?t"
        using ready at False by (subst apply_loop.simps) (simp add: Let_def)
      have "\<exists>v. apply_loop (n + 1) oldest ?t = (Ret (), v) \<and> apply_result_ok ?t v"
        using 1(2) [OF ready at refl False] lead wf o inc lo by (auto simp: apply_one_view)
      then obtain v where v: "apply_loop n oldest s = (Ret (), v)" "apply_result_ok ?t v"
        using eq by auto
      have "apply_result_ok s v"
        using lo o by (intro apply_result_ok_step [OF wf _ lt refl _ _ _ _ _ _ v(2)]) simp_all
      with v show ?thesis by blast
    qed
  next
    case False
    then have "\<not> unat (last_applied (raft s)) < apply_end_index s"
      using apply_ready_iff lo o by simp
    then have "apply_result_ok s s"
      by (auto simp: apply_result_ok_def commands_between_def) (simp add: apply_end_index_def)
    with False show ?thesis by (subst apply_loop.simps) simp
  qed
qed

text \<open>
  C29. Applying: the leader hands the state machine exactly the non-empty commands of the committed
  entries from \<open>last_applied\<close> on, once and in log order; \<open>last_applied\<close> ends one past the commit
  index (or at the tail); each applied entry is retired and no other entry changes.
\<close>

theorem apply_pending_order:
  assumes "wf_log s" "role (raft s) = Leader" "oldest_log_index s \<le> last_applied (raft s)"
  shows "\<exists>t. apply_pending ns s = (Ret (), t) \<and>
    sm_applied t = sm_applied s @
      commands_between s (unat (last_applied (raft s))) (apply_end_index s) \<and>
    unat (last_applied (raft t)) = apply_end_index s \<and>
    (\<forall>i. unat (oldest_log_index s) \<le> i \<longrightarrow> entry_at t i =
       (if unat (last_applied (raft s)) \<le> i \<and> i < apply_end_index s
        then retire_entry (entry_at s i) else entry_at s i))"
proof -
  obtain t where t: "apply_loop 0 (oldest_log_index s) s = (Ret (), t)" "apply_result_ok s t"
    using apply_loop_ok [OF assms(1,2) refl assms(3)] by blast
  let ?u = "if profiling t then t\<lparr>prof := (prof t)\<lparr>aci_apply_loop_ns := ns\<rparr>\<rparr> else t"
  have "raft ?u = raft t" "ring ?u = ring t" "sm_applied ?u = sm_applied t" by simp_all
  moreover have "entry_at ?u i = entry_at t i" for i
    by (simp add: entry_at_def oldest_log_index_def log_size_def)
  moreover have "apply_pending ns s = (Ret (), ?u)" using t(1) assms(2) by (simp add: apply_pending_def)
  ultimately show ?thesis using t(2) by (auto simp: apply_result_ok_def)
qed

definition sample_committed :: server where
  "sample_committed = upd_raft (\<lambda>r. r\<lparr>commit_index := 2\<rparr>) sample_leader"

theorem apply_pending_order_witness:
  "\<exists>t. apply_pending 0 sample_committed = (Ret (), t) \<and> sm_applied t = [[7], [8, 9]] \<and>
     unat (last_applied (raft t)) = 3"
proof -
  have f: "rlog (raft sample_committed) = rlog (raft sample_node)" "ring sample_committed = ring sample_node"
    "role (raft sample_committed) = Leader" "last_applied (raft sample_committed) = 1"
    "commit_index (raft sample_committed) = 2" "sm_applied sample_committed = []"
    by (simp_all add: sample_committed_def upd_raft_def sample_leader_def)
  then have o: "oldest_log_index sample_committed = 1" "wf_log sample_committed"
    by (simp_all add: oldest_log_index_def log_size_def wf_log_def)
  have "apply_end_index sample_committed = 3" using f by (simp add: apply_end_index_def)
  moreover have "commands_between sample_committed 1 3 = [[7], [8, 9]]"
    by (simp add: commands_between_def entry_at_def f o upt_conv_Cons numeral_3_eq_3)
  ultimately show ?thesis using apply_pending_order [OF o(2) f(3), of 0] o f by auto
qed

section \<open>Slots are freed only when every follower has the entry\<close>

lemma indices_after_set: "k \<in> set (indices_after a b) \<longleftrightarrow> a < k \<and> k \<le> b"
proof
  assume k: "k \<in> set (indices_after a b)"
  then have lt: "a < b" by (auto simp: indices_after_def split: if_splits)
  with k obtain j where j: "j < unat (b - a)" "k = a + 1 + of_nat j"
    by (auto simp: indices_after_def)
  have b: "unat b = unat a + unat (b - a)"
    using lt by (subst unat_u64_sub) (auto simp: word_less_nat_alt word_le_nat_alt)
  have n: "unat (1 + of_nat j :: u64) = Suc j"
    using less_trans_Suc [OF j(1) unat_u64_less] unat_u64_of_nat [of "Suc j"] by simp
  have "unat k = unat a + Suc j"
    using j(1) b unat_u64_less [of b] n by (simp add: j(2) add.assoc unat_u64_add)
  then show "a < k \<and> k \<le> b" using j(1) b by (simp add: word_less_nat_alt word_le_nat_alt)
next
  assume k: "a < k \<and> k \<le> b"
  let ?j = "unat k - unat a - 1"
  have n: "unat a < unat k" "unat k \<le> unat b" using k by (simp_all add: word_less_nat_alt word_le_nat_alt)
  have d: "unat (b - a) = unat b - unat a"
    using n by (intro unat_u64_sub) (simp add: word_le_nat_alt)
  have "of_nat (Suc ?j) = k - a"
    using n unat_u64_less [of k] by (simp add: u64_eq_iff unat_u64_sub word_le_nat_alt unat_of_nat)
  then have "k = a + 1 + of_nat ?j" by (simp add: algebra_simps)
  moreover have "?j < unat (b - a)" using n d by linarith
  ultimately have "k \<in> (\<lambda>x. a + 1 + of_nat x) ` {0..<unat (b - a)}"
    using image_eqI [of k "\<lambda>x. a + 1 + of_nat x" ?j] by simp
  with k show "k \<in> set (indices_after a b)" by (auto simp: indices_after_def)
qed

lemma trace_slot_map_map [simp]: "log_slot_map (trace_slot_map c i g) = log_slot_map g"
  by (simp add: trace_slot_map_def Let_def)

lemma free_slots_map:
  "map_of (log_slot_map (snd (free_slots is freed g))) k =
     (if k \<in> set is then None else map_of (log_slot_map g) k)"
  by (induction "is" freed g rule: free_slots.induct) (auto simp: delete_conv' split: option.splits)

lemma min_match_fold:
  fixes xs :: "(nat \<times> cluster_member) list"
  defines "f \<equiv> \<lambda>i (j, m) mm. if int j = i then mm
      else if match_index m < mm then match_index m else mm"
  shows "fold (f i) xs a \<le> a \<and> (\<forall>(j, m) \<in> set xs. int j \<noteq> i \<longrightarrow> fold (f i) xs a \<le> match_index m)"
proof (induction xs arbitrary: a)
  case (Cons x xs)
  obtain j m where x: "x = (j, m)" by force
  have "f i x a \<le> a \<and> (int j \<noteq> i \<longrightarrow> f i x a \<le> match_index m)"
    by (auto simp: f_def x)
  then show ?case using Cons [of "f i x a"] by (fastforce simp: x)
qed simp

lemma min_match_le:
  "min_match s \<le> tail_log_index (ring s) - 1"
  "j < length (cluster (raft s)) \<Longrightarrow> int j \<noteq> cluster_index (raft s) \<Longrightarrow>
   min_match s \<le> match_index (cluster (raft s) ! j)"
proof -
  note f = min_match_fold [of "cluster_index (raft s)" "enumerate 0 (cluster (raft s))"
      "tail_log_index (ring s) - 1"]
  show "min_match s \<le> tail_log_index (ring s) - 1" using f by (simp add: min_match_def)
  assume j: "j < length (cluster (raft s))" "int j \<noteq> cluster_index (raft s)"
  then have "(j, cluster (raft s) ! j) \<in> set (enumerate 0 (cluster (raft s)))"
    by (simp add: in_set_enumerate_eq)
  with f j(2) show "min_match s \<le> match_index (cluster (raft s) ! j)"
    by (fastforce simp: min_match_def)
qed

lemma recompute_head_slot_map [simp]: "log_slot_map (recompute_head_slot g) = log_slot_map g"
  by (simp add: recompute_head_slot_def Let_def split: prod.splits)

lemma trim_log_ring [simp]: "ring (trim_log_locked mm s) = ring s"
  by (simp add: trim_log_locked_def upd_raft_def Let_def)

lemma do_slot_gc_map:
  "role (raft s) = Leader \<Longrightarrow> map_of (log_slot_map (ring (do_slot_gc gc bp s))) k =
     (if gc_up_to (ring s) < k \<and> k \<le> min_match s then None else map_of (log_slot_map (ring s)) k)"
  using free_slots_map [of "indices_after (gc_up_to (ring s)) (min_match s)" False "ring s" k]
  by (auto simp: do_slot_gc_def Let_def indices_after_set split: prod.splits)

text \<open>
  C31. Slot garbage collection: a slot of the ring is freed only when every other member is known to
  hold its entry, and every entry that is not freed keeps its slots.
\<close>

theorem slot_gc_safe:
  assumes "role (raft s) = Leader"
  shows "map_of (log_slot_map (ring (do_slot_gc gc bp s))) k = map_of (log_slot_map (ring s)) k \<or>
    map_of (log_slot_map (ring (do_slot_gc gc bp s))) k = None \<and>
    (\<forall>j < length (cluster (raft s)). int j \<noteq> cluster_index (raft s) \<longrightarrow>
       k \<le> match_index (cluster (raft s) ! j))"
  using do_slot_gc_map [OF assms] min_match_le(2) [of _ s] by (auto intro: order_trans)

theorem slot_gc_safe_witness:
  "map_of (log_slot_map (ring (do_slot_gc 0 0 sample_progress))) 2 = Some (sample_slot 1)"
proof -
  have "\<not> 2 \<le> match_index (cluster (raft sample_progress) ! 2)"
    by (simp add: sample_progress_def update_member_def ClusterMember_def)
  with slot_gc_safe [of sample_progress 0 0 2] sample_progress_cluster show ?thesis
    by (auto simp: numeral_3_eq_3)
qed

section \<open>Trimming keeps what may still be read\<close>

text \<open>Removing the first \<open>n\<close> entries after the sentinel moves the oldest index up by \<open>n\<close>.\<close>

lemma drop_oldest:
  assumes wf: "wf_log s" and n: "n \<le> length (rlog (raft s)) - 1"
  defines "t \<equiv> upd_raft (\<lambda>r. r\<lparr>rlog := take 1 (rlog r) @ drop (1 + n) (rlog r)\<rparr>) s"
  shows "wf_log t" "unat (oldest_log_index t) = unat (oldest_log_index s) + n"
    and "in_log t i \<longleftrightarrow> in_log s i \<and> unat (oldest_log_index s) + n \<le> unat i"
    and "in_log t i \<Longrightarrow> log_at t i = log_at s i"
proof -
  have ne: "rlog (raft s) \<noteq> []" using wf by (simp add: wf_log_def)
  have r: "rlog (raft t) = take 1 (rlog (raft s)) @ drop (1 + n) (rlog (raft s))"
    and g: "ring t = ring s" by (simp_all add: t_def upd_raft_def)
  have len: "length (rlog (raft t)) = length (rlog (raft s)) - n"
    using ne n by (cases "rlog (raft s)") (auto simp: r)
  show wt: "wf_log t" using wf ne by (auto simp: wf_log_def r g)
  show o: "unat (oldest_log_index t) = unat (oldest_log_index s) + n"
    using unat_oldest [OF wf] unat_oldest [OF wt] n ne len by (cases "rlog (raft s)") (auto simp: g)
  show "in_log t i \<longleftrightarrow> in_log s i \<and> unat (oldest_log_index s) + n \<le> unat i"
    using o by (auto simp: in_log_def g word_le_nat_alt)
  assume it: "in_log t i"
  then have is': "in_log s i" and le: "unat (oldest_log_index s) + n \<le> unat i"
    using o by (auto simp: in_log_def g word_le_nat_alt)
  have "rlog (raft t) ! Suc (unat i - unat (oldest_log_index t)) =
    rlog (raft s) ! Suc (unat i - unat (oldest_log_index s))"
    using ne le unat_log_slice [OF wf is'] by (cases "rlog (raft s)") (auto simp: r o nth_append)
  then show "log_at t i = log_at s i"
    by (simp add: log_at_Ret [OF wt it] log_at_Ret [OF wf is'] unat_log_slice(1) [OF wt it]
        unat_log_slice(1) [OF wf is'])
qed

lemma trim_log_locked_cases:
  assumes wf: "wf_log s"
  shows "trim_log_locked mm s = s \<or>
    (\<exists>n. n \<le> unat (min mm (last_applied (raft s))) - unat (oldest_log_index s) \<and>
       n \<le> length (rlog (raft s)) - 1 \<and>
       trim_log_locked mm s =
         upd_raft (\<lambda>r. r\<lparr>rlog := take 1 (rlog r) @ drop (1 + n) (rlog r)\<rparr>) s)"
proof -
  let ?u = "min mm (last_applied (raft s))" and ?o = "oldest_log_index s"
  let ?r = "if ?u - ?o > log_size s - 1 then log_size s - 1 else ?u - ?o"
  have "trim_log_locked mm s = s \<or> (?o < ?u \<and> trim_log_locked mm s =
      upd_raft (\<lambda>r. r\<lparr>rlog := take 1 (rlog r) @ drop (1 + unat ?r) (rlog r)\<rparr>) s)"
    by (auto simp: trim_log_locked_def Let_def not_le)
  moreover have "unat ?r \<le> unat ?u - unat ?o" if "?o < ?u"
    using unat_u64_sub [OF less_imp_le [OF that]] by (auto simp: word_less_nat_alt)
  moreover have "unat ?r \<le> length (rlog (raft s)) - 1"
    using unat_log_size_1 [OF wf] by (auto simp: word_less_nat_alt)
  ultimately show ?thesis by blast
qed

lemma trim_log_keeps:
  assumes wf: "wf_log s"
  shows "wf_log (trim_log_locked mm s)"
    and "in_log s i \<Longrightarrow> min mm (last_applied (raft s)) \<le> i \<Longrightarrow> in_log (trim_log_locked mm s) i"
    and "in_log (trim_log_locked mm s) i \<Longrightarrow> log_at (trim_log_locked mm s) i = log_at s i"
proof -
  have "wf_log (trim_log_locked mm s) \<and>
    (in_log s i \<and> min mm (last_applied (raft s)) \<le> i \<longrightarrow> in_log (trim_log_locked mm s) i) \<and>
    (in_log (trim_log_locked mm s) i \<longrightarrow> log_at (trim_log_locked mm s) i = log_at s i)"
    using trim_log_locked_cases [OF wf, of mm]
  proof (elim disjE exE conjE)
    fix n
    assume n: "n \<le> unat (min mm (last_applied (raft s))) - unat (oldest_log_index s)"
      "n \<le> length (rlog (raft s)) - 1"
      and t: "trim_log_locked mm s =
         upd_raft (\<lambda>r. r\<lparr>rlog := take 1 (rlog r) @ drop (1 + n) (rlog r)\<rparr>) s"
    have "unat (oldest_log_index s) + n \<le> unat i"
      if "in_log s i" "min mm (last_applied (raft s)) \<le> i"
      using that n(1) by (auto simp: in_log_def word_le_nat_alt)
    then show ?thesis unfolding t using drop_oldest [OF wf n(2)] by blast
  qed (use wf in simp)
  then show "wf_log (trim_log_locked mm s)"
    and "in_log s i \<Longrightarrow> min mm (last_applied (raft s)) \<le> i \<Longrightarrow> in_log (trim_log_locked mm s) i"
    and "in_log (trim_log_locked mm s) i \<Longrightarrow> log_at (trim_log_locked mm s) i = log_at s i"
    by blast+
qed

text \<open>
  C32. Trimming the in-memory log: the log stays an interval of indices, every entry that a follower
  still has to confirm, or that is still to be applied, stays, and every index that is left reads
  the same entry.
\<close>

theorem trim_log_safe:
  assumes "wf_log s"
  shows "wf_log (trim_log_locked mm s) \<and>
    (\<forall>i. in_log s i \<and> (mm \<le> i \<or> last_applied (raft s) \<le> i) \<longrightarrow> in_log (trim_log_locked mm s) i) \<and>
    (\<forall>i. in_log (trim_log_locked mm s) i \<longrightarrow> log_at (trim_log_locked mm s) i = log_at s i)"
  using trim_log_keeps(1,3) [OF assms] trim_log_keeps(2) [OF assms, where mm = mm]
  by (auto simp: min_le_iff_disj)

theorem trim_log_safe_witness:
  "log_at (trim_log_locked 2 (upd_ring (\<lambda>g. g\<lparr>log_trim_threshold := 1\<rparr>)
     (upd_raft (\<lambda>r. r\<lparr>last_applied := 3\<rparr>) sample_leader))) 2 = Ret (sample_entry 1 [8, 9])"
proof -
  let ?s = "upd_ring (\<lambda>g. g\<lparr>log_trim_threshold := 1\<rparr>) (upd_raft (\<lambda>r. r\<lparr>last_applied := 3\<rparr>) sample_leader)"
  have f: "rlog (raft ?s) = rlog (raft sample_node)" "tail_log_index (ring ?s) = 3"
    by (simp_all add: upd_ring_def upd_raft_def)
  then have o: "oldest_log_index ?s = 1" "wf_log ?s"
    by (simp_all add: oldest_log_index_def log_size_def wf_log_def)
  then have "in_log ?s 2" "log_at ?s 2 = Ret (sample_entry 1 [8, 9])"
    using f by (simp_all add: in_log_def log_at_def log_slice_def)
  with trim_log_safe [OF o(2), of 2] show ?thesis by auto
qed

end
