(* ===== verification/Timings.thy ===== *)
theory Timings
  imports Samples
begin

text \<open>
  The latency break-down of a timed client command: \<open>ApplyTimings\<close>, \<open>ApplyWalls\<close> and \<open>ReplSink\<close>
  of \<open>core/include/raft_timings.h\<close>, \<open>ReplSink\<close>'s methods and \<open>derive_apply_timings\<close> of
  \<open>core/src/raft_types.cpp\<close>. Durations are integers: nanosecond walls of one command are far
  from the bounds of \<open>int64_t\<close>.
\<close>

record apply_timings =
  at_total :: int
  at_l_handler :: int
  at_l_persist :: int
  at_ae_net :: int
  at_f_handler :: int
  at_repl_net :: int
  at_storage_io :: int
  at_quorum_wait :: int
  at_post_rpc :: int
  at_commit_wait :: int
  at_wg_scheduling :: int
  at_mutex :: int
  at_mutex_c :: int
  at_aci_lock_wait :: int
  at_aci_quorum :: int
  at_aci_slot_gc :: int
  at_aci_apply_loop :: int
  at_aci_sort :: int
  at_aci_backpres :: int
  at_aci_signal :: int
  at_pure_commit_wait :: int
  at_wait_lock_b :: int
  at_replicate_commit :: int
  at_replicate_commit_corrected :: int
  at_quorum_wait_corrected :: int

record apply_walls =
  w_nvme :: int
  w_a_held :: int
  w_replicate_commit :: int
  w_mutex_a :: int
  w_commit_wait :: int

definition ApplyTimings :: apply_timings where
  "ApplyTimings = \<lparr>at_total = 0, at_l_handler = 0, at_l_persist = 0, at_ae_net = 0, at_f_handler = 0,
     at_repl_net = 0, at_storage_io = 0, at_quorum_wait = 0, at_post_rpc = 0, at_commit_wait = 0,
     at_wg_scheduling = 0, at_mutex = 0, at_mutex_c = 0, at_aci_lock_wait = 0, at_aci_quorum = 0,
     at_aci_slot_gc = 0, at_aci_apply_loop = 0, at_aci_sort = 0, at_aci_backpres = 0,
     at_aci_signal = 0, at_pure_commit_wait = 0, at_wait_lock_b = 0, at_replicate_commit = 0,
     at_replicate_commit_corrected = 0, at_quorum_wait_corrected = 0\<rparr>"

definition ReplSample :: repl_sample where
  "ReplSample = \<lparr>s_ae_rt_ns = 0, s_r2_ns = 0, s_write_pba_rt_ns = 0, s_storage_copy_ns = 0,
     s_mutex_ns = 0, s_mutex_c_ns = 0, s_post_rpc_wall_ns = 0, s_lock_b_held_ns = 0,
     s_slot_map_ns = 0, s_mark_slots_ns = 0, s_pba_lookup_ns = 0, s_meta_build_ns = 0,
     s_lock_c_held_ns = 0, s_handle_ae_lock_wait_ns = 0, s_handle_ae_pre_ns = 0,
     s_handle_ae_lock_wait2_ns = 0, s_handle_ae_post_ns = 0, s_handle_ae_persist_ns = 0\<rparr>"

definition ReplSink_init :: repl_sink where
  "ReplSink_init = \<lparr>samples = [], mutex_a_ns = 0\<rparr>"

definition set_mutex_a :: "int \<Rightarrow> repl_sink \<Rightarrow> repl_sink" where
  "set_mutex_a d k = k\<lparr>mutex_a_ns := d\<rparr>"

definition sink_push :: "repl_sample \<Rightarrow> repl_sink \<Rightarrow> repl_sink" where
  "sink_push smp k = k\<lparr>samples := samples k @ [smp]\<rparr>"

definition first_sample :: "repl_sink \<Rightarrow> repl_sample \<times> bool" where
  "first_sample k = (case samples k of [] \<Rightarrow> (ReplSample, False) | smp # _ \<Rightarrow> (smp, True))"

definition timings_clamp0 :: "int \<Rightarrow> int" where
  "timings_clamp0 v = (if v < 0 then 0 else v)"

text \<open>The sample the derivation uses: the first one of the sink, or the last values seen.\<close>

definition pick_sample :: "repl_sink \<Rightarrow> profiling_sink \<Rightarrow> repl_sample" where
  "pick_sample k p =
     (let (smp, have) = first_sample k in
      if have then smp
      else smp\<lparr>s_ae_rt_ns := sample_ae_rt_ns p, s_r2_ns := sample_r2_ns p,
               s_write_pba_rt_ns := sample_write_pba_rt_ns p,
               s_storage_copy_ns := sample_storage_copy_ns p, s_mutex_ns := sample_mutex_ns p,
               s_mutex_c_ns := sample_mutex_c_ns p\<rparr>)"

definition derive_apply_timings ::
  "apply_walls \<Rightarrow> repl_sink \<Rightarrow> profiling_sink \<Rightarrow> apply_timings \<Rightarrow> apply_timings" where
  "derive_apply_timings w k p t =
     (let smp = pick_sample k p;
          mutex = (if s_mutex_ns smp \<noteq> 0 then s_mutex_ns smp else w_mutex_a w);
          mutex_c = s_mutex_c_ns smp;
          quorum = timings_clamp0 (w_replicate_commit w - s_ae_rt_ns smp);
          post = s_post_rpc_wall_ns smp;
          corrected = timings_clamp0 (w_replicate_commit w - mutex)
      in t\<lparr>at_l_persist := w_nvme w,
           at_l_handler := timings_clamp0 (w_a_held w - w_nvme w),
           at_replicate_commit := w_replicate_commit w,
           at_mutex := mutex,
           at_commit_wait := w_commit_wait w,
           at_ae_net := timings_clamp0 (s_ae_rt_ns smp - s_r2_ns smp),
           at_f_handler := timings_clamp0 (s_r2_ns smp - s_write_pba_rt_ns smp),
           at_repl_net := timings_clamp0 (s_write_pba_rt_ns smp - s_storage_copy_ns smp),
           at_storage_io := s_storage_copy_ns smp,
           at_quorum_wait := quorum,
           at_mutex_c := mutex_c,
           at_wait_lock_b := timings_clamp0 (mutex - mutex_c),
           at_post_rpc := post,
           at_pure_commit_wait := w_commit_wait w,
           at_replicate_commit_corrected := corrected,
           at_quorum_wait_corrected := timings_clamp0 (corrected - s_ae_rt_ns smp),
           at_aci_lock_wait := aci_lock_wait_ns p,
           at_aci_quorum := aci_quorum_ns p,
           at_aci_slot_gc := aci_slot_gc_ns p,
           at_aci_apply_loop := aci_apply_loop_ns p,
           at_aci_sort := aci_sort_ns p,
           at_aci_backpres := aci_backpres_ns p,
           at_aci_signal := aci_signal_ns p,
           at_wg_scheduling := timings_clamp0 (quorum - post - w_commit_wait w)\<rparr>)"

section \<open>The identity of the break-down\<close>

lemma timings_clamp0_nonneg [simp]: "0 \<le> timings_clamp0 v"
  by (simp add: timings_clamp0_def)

lemma timings_clamp0_ge: "v \<le> timings_clamp0 v"
  by (simp add: timings_clamp0_def)

lemma timings_clamp0_id [simp]: "0 \<le> v \<Longrightarrow> timings_clamp0 v = v"
  by (simp add: timings_clamp0_def)

text \<open>The seven terms whose sum approximates the total.\<close>

definition timing_terms :: "apply_timings \<Rightarrow> int list" where
  "timing_terms t = [at_l_handler t, at_l_persist t, at_ae_net t, at_f_handler t, at_repl_net t,
     at_storage_io t, at_quorum_wait t]"

definition nested_walls :: "apply_walls \<Rightarrow> repl_sample \<Rightarrow> bool" where
  "nested_walls w smp \<longleftrightarrow> w_nvme w \<le> w_a_held w \<and> s_storage_copy_ns smp \<le> s_write_pba_rt_ns smp \<and>
     s_write_pba_rt_ns smp \<le> s_r2_ns smp \<and> s_r2_ns smp \<le> s_ae_rt_ns smp \<and>
     s_ae_rt_ns smp \<le> w_replicate_commit w"

text \<open>
  The timing identity: the seven terms always cover the time under the apply lock and the time
  from replication to commit, and they sum up to exactly that when the measured walls are nested
  the way the calls are.
\<close>

theorem timings_identity:
  "w_a_held w + w_replicate_commit w \<le> sum_list (timing_terms (derive_apply_timings w k p t)) \<and>
   (nested_walls w (pick_sample k p) \<longrightarrow>
     sum_list (timing_terms (derive_apply_timings w k p t)) = w_a_held w + w_replicate_commit w)"
proof -
  let ?s = "pick_sample k p"
  note g = timings_clamp0_ge [of "w_a_held w - w_nvme w"] timings_clamp0_ge [of "s_ae_rt_ns ?s - s_r2_ns ?s"]
    timings_clamp0_ge [of "s_r2_ns ?s - s_write_pba_rt_ns ?s"]
    timings_clamp0_ge [of "s_write_pba_rt_ns ?s - s_storage_copy_ns ?s"]
    timings_clamp0_ge [of "w_replicate_commit w - s_ae_rt_ns ?s"]
  from g have "w_a_held w + w_replicate_commit w \<le> sum_list (timing_terms (derive_apply_timings w k p t))"
    by (simp add: timing_terms_def derive_apply_timings_def Let_def)
  moreover have "sum_list (timing_terms (derive_apply_timings w k p t)) = w_a_held w + w_replicate_commit w"
    if "nested_walls w ?s"
    using that by (simp add: timing_terms_def derive_apply_timings_def nested_walls_def Let_def)
  ultimately show ?thesis by blast
qed

theorem timings_identity_witness:
  "sum_list (timing_terms (derive_apply_timings
     \<lparr>w_nvme = 20, w_a_held = 30, w_replicate_commit = 100, w_mutex_a = 1, w_commit_wait = 50\<rparr>
     (sink_push (ReplSample\<lparr>s_ae_rt_ns := 90, s_r2_ns := 70, s_write_pba_rt_ns := 60,
        s_storage_copy_ns := 40\<rparr>) ReplSink_init) (prof sample_node) ApplyTimings)) = 130"
proof -
  let ?w = "\<lparr>w_nvme = 20, w_a_held = 30, w_replicate_commit = 100, w_mutex_a = 1, w_commit_wait = 50\<rparr>"
  let ?k = "sink_push (ReplSample\<lparr>s_ae_rt_ns := 90, s_r2_ns := 70, s_write_pba_rt_ns := 60,
        s_storage_copy_ns := 40\<rparr>) ReplSink_init"
  have "nested_walls ?w (pick_sample ?k (prof sample_node))"
    by (simp add: nested_walls_def pick_sample_def first_sample_def sink_push_def ReplSink_init_def)
  with timings_identity [of ?w ?k "prof sample_node" ApplyTimings] show ?thesis by simp
qed

end
