(* ===== verification/Apply.thy ===== *)
theory Apply
  imports Commit Timings
begin

text \<open>
  The client entry points \<open>Server::apply\<close> and \<open>Server::apply_timed\<close> of \<open>core/src/raft_apply.cpp\<close>.
  \<open>apply_internal\<close> lets go of the server lock twice, so it is a sequence of sections:
  \<open>apply_enter\<close> under ``Lock A'' up to the wait for ring space, \<open>apply_resume\<close> after that wait,
  \<open>apply_append\<close> (the rest of Lock A: log, persist, roll-back), \<open>commit_wait\<close> over the states the
  polls of the commit signal observe, and \<open>apply_collect\<close>. \<open>wait_for\<close> with a predicate returns
  the value of the predicate in the state it returns in, so the wait needs no argument of its
  own. Measured durations are arguments.
\<close>

definition kBusyRetryAfterMs :: int where "kBusyRetryAfterMs = 5"

definition apply_busy_retry_after_ms :: int where
  "apply_busy_retry_after_ms = kBusyRetryAfterMs"

section \<open>Lock A\<close>

text \<open>What a section ends with: an answer (with the busy flag), or the place to go on.\<close>

datatype apply_progress =
    Finished apply_result bool
  | AwaitRing
  | AwaitCommit nat nat "nat option" int

definition ok_result :: apply_result where
  "ok_result = \<lparr>res_result = [], res_error = []\<rparr>"

definition failed :: "string \<Rightarrow> apply_result" where
  "failed e = \<lparr>res_result = [], res_error = e\<rparr>"

text \<open>One command becomes one log entry, with a fresh commit signal and the collector as sink.\<close>

definition push_command :: "nat \<Rightarrow> bool \<Rightarrow> bytes \<Rightarrow> server \<Rightarrow> server" where
  "push_command col is_last cmd s =
     (let (e, s) = make_entry s;
          e = e\<lparr>e_term := current_term (raft s), command := cmd, result_sink := Some (col, is_last)\<rparr>
      in upd_ring (\<lambda>g. g\<lparr>tail_log_index := tail_log_index g + 1\<rparr>)
           (upd_raft (\<lambda>r. r\<lparr>rlog := rlog r @ [e]\<rparr>) s))"

fun push_commands :: "nat \<Rightarrow> bytes list \<Rightarrow> server \<Rightarrow> server" where
  "push_commands col [] s = s"
| "push_commands col (cmd # cmds) s = push_commands col cmds (push_command col (cmds = []) cmd s)"

fun roll_back :: "nat \<Rightarrow> server \<Rightarrow> server" where
  "roll_back 0 s = s"
| "roll_back (Suc n) s =
     (if log_size s > 1
      then roll_back n (upd_ring (\<lambda>g. g\<lparr>tail_log_index := tail_log_index g - 1\<rparr>)
             (upd_raft (\<lambda>r. r\<lparr>rlog := butlast (rlog r)\<rparr>) s))
      else s)"

definition new_collector :: "nat \<Rightarrow> server \<Rightarrow> nat \<times> server" where
  "new_collector n s =
     (length (collectors s),
      s\<lparr>collectors := collectors s @ [\<lparr>col_last_result = [], col_error = [], col_received = 0,
                                      col_expected = n\<rparr>]\<rparr>)"

definition new_sink :: "int \<Rightarrow> server \<Rightarrow> nat \<times> server" where
  "new_sink mutex_a s = (length (sinks s), s\<lparr>sinks := sinks s @ [set_mutex_a mutex_a ReplSink_init]\<rparr>)"

text \<open>The entries, the persist and its roll-back; \<open>timed\<close> is the sink of a timed call.\<close>

definition apply_append :: "bytes list \<Rightarrow> nat \<Rightarrow> nat option \<Rightarrow> int \<Rightarrow> server \<Rightarrow> apply_progress step" where
  "apply_append cmds col timed a_held s =
     (let n = length cmds;
          last_signal = length (signals s) + n - 1;
          s = push_commands col cmds s
      in case persist_circular True (int n) s of
           (Ret nvme_ns, s) \<Rightarrow>
             (Ret (AwaitCommit last_signal col timed nvme_ns),
              if timed \<noteq> None then s\<lparr>prof := (prof s)\<lparr>ae_lock_a_held_ns := a_held\<rparr>\<rparr> else s)
         | (Exc e, s) \<Rightarrow>
             (Ret (Finished (failed (''persist failed: '' @ e)) False), roll_back n s)
         | (Ub, s) \<Rightarrow> (Ub, s))"

definition apply_enter :: "bytes list \<Rightarrow> nat \<Rightarrow> nat option \<Rightarrow> int \<Rightarrow> server \<Rightarrow> apply_progress step" where
  "apply_enter cmds col timed a_held s =
     (if role (raft s) \<noteq> Leader then (Ret (Finished (failed ''not leader'') False), s)
      else if \<not> can_write_all s cmds then (Ret AwaitRing, s)
      else apply_append cmds col timed a_held s)"

definition ring_wait_over :: "bytes list \<Rightarrow> server \<Rightarrow> bool" where
  "ring_wait_over cmds s \<longleftrightarrow> srv_done s \<or> role (raft s) \<noteq> Leader \<or> can_write_all s cmds"

definition apply_resume :: "bytes list \<Rightarrow> nat \<Rightarrow> nat option \<Rightarrow> int \<Rightarrow> server \<Rightarrow> apply_progress step" where
  "apply_resume cmds col timed a_held s =
     (if \<not> ring_wait_over cmds s \<or> srv_done s
      then (Ret (Finished (failed ''ring buffer full'') True), s)
      else if role (raft s) \<noteq> Leader then (Ret (Finished (failed ''not leader'') False), s)
      else apply_append cmds col timed a_held s)"

text \<open>From the call to the end of the first section; no commands is a success.\<close>

definition apply_begin :: "bytes list \<Rightarrow> bool \<Rightarrow> int \<Rightarrow> int \<Rightarrow> server \<Rightarrow> apply_progress step" where
  "apply_begin cmds timed mutex_a a_held s =
     (if cmds = [] then (Ret (Finished ok_result False), s)
      else
        let (sink, s) = (if timed then (let (i, s) = new_sink mutex_a s in (Some i, s)) else (None, s));
            (col, s) = new_collector (length cmds) s
        in apply_enter cmds col sink a_held s)"

text \<open>After Lock A: the replication round for the new entries, with the sink of a timed call.\<close>

definition apply_replicate :: "apply_progress \<Rightarrow> server \<Rightarrow> server" where
  "apply_replicate p s = (case p of AwaitCommit sig col timed ns \<Rightarrow> append_entries timed s | _ \<Rightarrow> s)"

section \<open>Waiting for the commit\<close>

datatype commit_wait_result = Committed | Lost string

text \<open>One round of the polling loop: \<open>None\<close> goes round again.\<close>

definition commit_poll :: "nat \<Rightarrow> server \<Rightarrow> commit_wait_result option" where
  "commit_poll sig s =
     (if signals s ! sig then Some Committed
      else if srv_done s then Some (Lost ''server shutting down'')
      else if \<not> is_leader s then Some (Lost ''leadership lost before commit'')
      else None)"

text \<open>The loop over the states its rounds observe; \<open>None\<close> when they are used up.\<close>

fun commit_wait :: "nat \<Rightarrow> server list \<Rightarrow> commit_wait_result option" where
  "commit_wait sig [] = None"
| "commit_wait sig (s # ss) =
     (case commit_poll sig s of Some r \<Rightarrow> Some r | None \<Rightarrow> commit_wait sig ss)"

text \<open>After the wait for the result of the last entry: what the collector holds.\<close>

definition apply_collect :: "nat \<Rightarrow> server \<Rightarrow> apply_result" where
  "apply_collect col s =
     (let c = collectors s ! col in \<lparr>res_result = col_last_result c, res_error = col_error c\<rparr>)"

text \<open>The rest of \<open>apply_internal\<close> after Lock A, from the states that its waits observe.\<close>

definition apply_outcome ::
  "apply_progress \<Rightarrow> server list \<Rightarrow> server \<Rightarrow> (apply_result \<times> bool) option" where
  "apply_outcome p polls s =
     (case p of
        Finished r busy \<Rightarrow> Some (r, busy)
      | AwaitRing \<Rightarrow> None
      | AwaitCommit sig col timed ns \<Rightarrow>
          (case commit_wait sig polls of
             None \<Rightarrow> None
           | Some (Lost e) \<Rightarrow> Some (failed e, False)
           | Some Committed \<Rightarrow> Some (apply_collect col s, False)))"

text \<open>The break-down that \<open>apply_timed\<close> returns, with the total it measures around the call.\<close>

definition apply_timings_of ::
  "apply_walls \<Rightarrow> nat \<Rightarrow> int \<Rightarrow> apply_timings \<Rightarrow> server \<Rightarrow> apply_timings" where
  "apply_timings_of w sink total_ns t s =
     (derive_apply_timings w (sinks s ! sink) (prof s) t)\<lparr>at_total := total_ns\<rparr>"

section \<open>What Lock A leaves in the log\<close>

definition client_entry :: "server \<Rightarrow> nat \<Rightarrow> bytes list \<Rightarrow> nat \<Rightarrow> entry" where
  "client_entry s col cmds i =
     \<lparr>command = cmds ! i, e_term = current_term (raft s), result_sink = Some (col, Suc i = length cmds),
      committed = Some (length (signals s) + i), ring_slot = 0, cmd_len = 0\<rparr>"

lemma push_command_eq:
  "push_command col is_last cmd s = s\<lparr>
     signals := signals s @ [False],
     raft := (raft s)\<lparr>rlog := rlog (raft s) @ [\<lparr>command = cmd, e_term = current_term (raft s),
       result_sink = Some (col, is_last), committed = Some (length (signals s)), ring_slot = 0,
       cmd_len = 0\<rparr>]\<rparr>,
     ring := (ring s)\<lparr>tail_log_index := tail_log_index (ring s) + 1\<rparr>\<rparr>"
  by (simp add: push_command_def make_entry_def upd_raft_def upd_ring_def Let_def)

lemma push_commands_eq:
  "push_commands col cmds s = s\<lparr>
     signals := signals s @ replicate (length cmds) False,
     raft := (raft s)\<lparr>rlog := rlog (raft s) @ map (client_entry s col cmds) [0..<length cmds]\<rparr>,
     ring := (ring s)\<lparr>tail_log_index := tail_log_index (ring s) + of_nat (length cmds)\<rparr>\<rparr>"
proof (induction cmds arbitrary: s)
  case (Cons cmd cmds)
  let ?t = "push_command col (cmds = []) cmd s"
  have "map (client_entry s col (cmd # cmds)) [0..<length (cmd # cmds)] =
    client_entry s col (cmd # cmds) 0 # map (client_entry ?t col cmds) [0..<length cmds]"
    by (simp add: upt_conv_Cons map_Suc_upt [symmetric] client_entry_def push_command_eq del: upt_Suc)
  then show ?case
    by (simp add: Cons.IH [of ?t]) (simp add: push_command_eq client_entry_def replicate_append_same)
qed simp

lemma roll_back_eq:
  assumes "rlog (raft s) = xs @ ys" "xs \<noteq> []" "length (rlog (raft s)) < 18446744073709551616"
  shows "roll_back (length ys) s = s\<lparr>raft := (raft s)\<lparr>rlog := xs\<rparr>,
    ring := (ring s)\<lparr>tail_log_index := tail_log_index (ring s) - of_nat (length ys)\<rparr>\<rparr>"
  using assms
proof (induction ys arbitrary: s rule: rev_induct)
  case (snoc y ys)
  have "1 < length (rlog (raft s))" using snoc.prems(1,2) by (cases xs) auto
  then have "log_size s > 1"
    using snoc.prems(3) by (simp add: log_size_def word_less_nat_alt unat_u64_of_nat)
  with snoc.prems snoc.IH [of "upd_ring (\<lambda>g. g\<lparr>tail_log_index := tail_log_index g - 1\<rparr>)
      (upd_raft (\<lambda>r. r\<lparr>rlog := butlast (rlog r)\<rparr>) s)"]
  show ?case by (simp add: upd_ring_def upd_raft_def butlast_append)
qed (simp add: upd_raft_def)

text \<open>
  C38. An accepted command batch: after Lock A the leader's log is what it was followed by one entry
  per command, in order, in the current term, the tail has moved by as many indices, and the
  commit signal that the caller will wait for is that of the last entry and not yet given.
\<close>

theorem apply_append_log:
  assumes "apply_append cmds col timed a_held s = (Ret (AwaitCommit sig col' timed' ns), t)" "cmds \<noteq> []"
  shows "rlog (raft t) = rlog (raft s) @ map (client_entry s col cmds) [0..<length cmds] \<and>
    tail_log_index (ring t) = tail_log_index (ring s) + of_nat (length cmds) \<and>
    committed (last (rlog (raft t))) = Some sig \<and> \<not> signals t ! sig \<and>
    sig = length (signals s) + length cmds - 1"
proof -
  let ?p = "push_commands col cmds s"
  obtain u where p: "persist_circular True (int (length cmds)) ?p = (Ret ns, u)"
    and t: "t = (if timed \<noteq> None then u\<lparr>prof := (prof u)\<lparr>ae_lock_a_held_ns := a_held\<rparr>\<rparr> else u)"
    and sig: "sig = length (signals s) + length cmds - 1"
    using assms(1) by (auto simp: apply_append_def Let_def split: prod.splits outcome.splits)
  have "raft u = raft ?p" "tail_log_index (ring u) = tail_log_index (ring ?p)" "signals u = signals ?p"
    using persist_fields(10,8,16) [of True "int (length cmds)" ?p] p by simp_all
  then have u: "raft t = raft ?p" "tail_log_index (ring t) = tail_log_index (ring ?p)"
    "signals t = signals ?p" by (simp_all add: t)
  have "last (map (client_entry s col cmds) [0..<length cmds]) = client_entry s col cmds (length cmds - 1)"
    using assms(2) by (simp add: last_map)
  moreover have "length (signals s) + length cmds - 1 = length (signals s) + (length cmds - 1)"
    using assms(2) by (cases cmds) simp_all
  ultimately show ?thesis
    using assms(2) by (simp add: u push_commands_eq sig client_entry_def nth_append)
qed

lemma sample_leader_vote: "get_voted_for sample_leader = Ret 0"
  by (simp add: get_voted_for_def cluster_at_def ClusterMember_def)

theorem apply_append_log_witness:
  "\<exists>ns t. apply_append [[5], [6]] 0 None 0 sample_leader = (Ret (AwaitCommit 1 0 None ns), t) \<and>
     map command (rlog (raft t)) = [[], [7], [8, 9], [5], [6]] \<and> tail_log_index (ring t) = 5"
proof -
  let ?p = "push_commands 0 [[5], [6]] sample_leader"
  have sg: "signals sample_leader = []" by (simp add: sample_leader_def upd_raft_def)
  have "get_voted_for ?p = Ret 0" using sample_leader_vote
    by (simp add: push_commands_eq get_voted_for_def cluster_at_def)
  moreover have "io_healthy ?p"
    using sample_io_ok(1) io_healthy_cong [of ?p sample_node] by (simp add: push_commands_eq)
  ultimately obtain ns t where "persist_circular True 2 ?p = (Ret ns, t)"
    using persist_circular_returns [of ?p 0 True 2] by (auto simp: returns_def)
  then have run: "apply_append [[5], [6]] 0 None 0 sample_leader = (Ret (AwaitCommit 1 0 None ns), t)"
    by (simp add: apply_append_def sg)
  from apply_append_log [OF run] run show ?thesis
    by (simp add: client_entry_def upt_conv_Cons)
qed

lemma roll_back_append:
  assumes "apply_append cmds col timed a_held s = (Ret (Finished r busy), t)" "wf_log s"
    and "length (rlog (raft s)) + length cmds < 18446744073709551616"
  shows "raft t = raft s \<and> tail_log_index (ring t) = tail_log_index (ring s) \<and>
    res_error r \<noteq> [] \<and> \<not> busy"
proof -
  let ?p = "push_commands col cmds s"
  obtain e u where p: "persist_circular True (int (length cmds)) ?p = (Exc e, u)"
    and t: "t = roll_back (length cmds) u" and r: "r = failed (''persist failed: '' @ e)" "\<not> busy"
    using assms(1) by (auto simp: apply_append_def Let_def split: prod.splits outcome.splits)
  have u: "raft u = raft ?p" "tail_log_index (ring u) = tail_log_index (ring ?p)"
    using persist_fields(10,8) [of True "int (length cmds)" ?p] p by simp_all
  have "t = u\<lparr>raft := (raft u)\<lparr>rlog := rlog (raft s)\<rparr>,
    ring := (ring u)\<lparr>tail_log_index := tail_log_index (ring u) - of_nat (length cmds)\<rparr>\<rparr>"
    using roll_back_eq [of u "rlog (raft s)" "map (client_entry s col cmds) [0..<length cmds]"]
      assms(2,3) u by (simp add: t push_commands_eq wf_log_def)
  with u r show ?thesis by (simp add: push_commands_eq failed_def)
qed

text \<open>
  A failed persist is undone in the log: the log and the tail index are what they were before
  the call, and the caller gets the error.
\<close>

theorem apply_append_roll_back:
  assumes "apply_append cmds col timed a_held s = (Ret (Finished r busy), t)" "wf_log s"
    and "length (rlog (raft s)) + length cmds < 18446744073709551616"
  shows "raft t = raft s \<and> tail_log_index (ring t) = tail_log_index (ring s) \<and>
    res_error r \<noteq> [] \<and> \<not> busy"
  by (rule roll_back_append [OF assms])

text \<open>A device whose system calls all fail.\<close>

definition sample_broken :: server where
  "sample_broken = sample_leader\<lparr>io := (io sample_leader)\<lparr>cached_fd :=
     Some (sample_fd\<lparr>fd_disk := (fd_disk sample_fd)\<lparr>script := (\<lambda>_. (IoFail, 3))\<rparr>\<rparr>)\<rparr>\<rparr>"

lemma append_region_size: "buf_size (append_region e needed idx b) = buf_size b + unat needed * 512"
  by (simp add: append_region_def buf_resize_def Let_def)

lemma trace_slot_map_buf [simp]: "run_buf (trace_slot_map c i g) = run_buf g"
  by (simp add: trace_slot_map_def Let_def)

lemma place_entry_buf:
  "\<exists>l' t. place_entry e needed idx l s = (Ret l', t) \<and> io t = io s \<and>
     buf_size (run_buf (ring t)) = buf_size (run_buf (ring s)) + unat needed * 512 \<and>
     (role (raft s) = Leader \<longrightarrow> map_of (log_slot_map (ring t)) idx =
        Some \<lparr>sr_start = tail_slot (ring s), sr_num_slots = needed, sr_state = Using\<rparr>)"
  by (auto simp: place_entry_def upd_ring_def Let_def append_region_size update_conv')

lemma flush_run_broken:
  assumes "cached_fd (io s) = Some c" "fst (script (fd_disk c) (calls (fd_disk c))) = IoFail"
    "buf_size (run_buf (ring s)) \<noteq> 0"
  shows "\<exists>e t. flush_run l s = (Exc e, t) \<and> ring t = ring s"
  using assms by (simp add: flush_run_def with_fd_def write_at_file_def syscall_def transferred_def Let_def)

lemma roll_back_slots: "log_slot_map (ring (roll_back n s)) = log_slot_map (ring s)"
  by (induction n s rule: roll_back.induct) (auto simp: upd_ring_def upd_raft_def)

lemma sample_broken_run:
  "\<exists>r t. apply_append [[5]] 0 None 0 sample_broken = (Ret (Finished r False), t) \<and>
     map_of (log_slot_map (ring t)) 3 = Some (sample_slot 2)"
proof -
  define p where "p = push_commands 0 [[5]] sample_broken"
  let ?c = "sample_fd\<lparr>fd_disk := (fd_disk sample_fd)\<lparr>script := (\<lambda>_. (IoFail, 3))\<rparr>\<rparr>"
  let ?l = "\<lparr>p_run_off = 0, p_ext_hint = 0, p_nvme_ns = 0, p_flush_count = 0\<rparr>"
  have len: "length (rlog (raft p)) = 4" and tl: "tail_slot (ring p) = 2" "ring_slots (ring p) = 127"
    and c: "cached_fd (io p) = Some ?c" and ld: "role (raft p) = Leader" "tail_log_index (ring p) = 4"
    and cmd: "command (rlog (raft p) ! 3) = [5]"
    by (simp_all add: p_def push_commands_eq sample_broken_def client_entry_def nth_append)
  have n: "slots_for_entry (command_size [5]) = 1"
    by (simp add: slots_for_entry_def command_size_def size_defs)
  have ct: "fd_is_contiguous ?c" by (simp add: fd_is_contiguous_def is_contiguous_def sample_fd_def)
  have pe: "\<exists>l' t. persist_entry True 3 ?l (upd_ring f p) = (Ret l', t) \<and> io t = io p \<and>
      buf_size (run_buf (ring t)) \<noteq> 0 \<and> map_of (log_slot_map (ring t)) 3 = Some (sample_slot 2)"
    if f: "\<And>g. tail_slot (f g) = tail_slot g" "\<And>g. ring_slots (f g) = ring_slots g"
      "\<And>g. tail_log_index (f g) = tail_log_index g" for f
  proof -
    have "persist_entry True 3 ?l (upd_ring f p) = place_entry (rlog (raft p) ! 3) 1
        (tail_log_index (ring (upd_ring f p)) - 1) ?l (upd_ring f p)"
      using len tl cmd n f by (simp add: persist_entry_def wrap_tail_def upd_ring_def Let_def)
    with place_entry_buf [of "rlog (raft p) ! 3" 1 "tail_log_index (ring (upd_ring f p)) - 1" ?l "upd_ring f p"]
    show ?thesis using ld tl f by (auto simp: upd_ring_def sample_slot_def)
  qed
  define f :: "ring_log \<Rightarrow> ring_log" where "f = (\<lambda>g. g\<lparr>run_buf := buf_clear (if capacity (run_buf g) < est_size (drop 3 (rlog (raft p)))
      then buf_clear (buf_resize (est_size (drop 3 (rlog (raft p)))) (unat SECTOR_SIZE) (run_buf g))
      else run_buf g)\<rparr>)"
  obtain l' t where t: "persist_entry True 3 ?l (upd_ring f p) = (Ret l', t)" "io t = io p"
    "buf_size (run_buf (ring t)) \<noteq> 0" "map_of (log_slot_map (ring t)) 3 = Some (sample_slot 2)"
    using pe [of f] by (auto simp: f_def)
  obtain e u where u: "flush_run l' t = (Exc e, u)" "ring u = ring t"
    using flush_run_broken [of t ?c l'] t(2,3) c by auto
  have "persist_log 1 p = (Exc e, u)"
  proof -
    have "nat (max 1 (int (length (rlog (raft p))) - 1)) = 3" "[3..<length (rlog (raft p))] = [3]"
      using len by simp_all
    then have "persist_log 1 p = (case cached_fd (io (upd_ring f p)) of
        None \<Rightarrow> (Ub, upd_ring f p)
      | Some c \<Rightarrow> andthen (persist_entries (fd_is_contiguous c) [3] ?l (upd_ring f p))
          (\<lambda>l s. andthen (flush_run l s) (\<lambda>l s. (Ret (p_nvme_ns l), s))))"
      by (simp only: persist_log_def Let_def f_def)
    moreover have "cached_fd (io (upd_ring f p)) = Some ?c" using c by (simp add: upd_ring_def)
    ultimately show ?thesis using t(1) u(1) ct by simp
  qed
  then have "persist_circular True 1 p = (Exc e, u)" by (simp add: persist_circular_def)
  moreover have "map_of (log_slot_map (ring (roll_back 1 u))) 3 = Some (sample_slot 2)"
    using t(4) u(2) by (simp only: roll_back_slots)
  ultimately show ?thesis unfolding p_def
    by (simp add: apply_append_def del: roll_back.simps)
qed

theorem apply_append_roll_back_witness:
  "\<exists>r t. apply_append [[5]] 0 None 0 sample_broken = (Ret (Finished r False), t) \<and>
     raft t = raft sample_leader"
proof -
  have f: "raft sample_broken = raft sample_leader" "ring sample_broken = ring sample_node"
    by (simp_all add: sample_broken_def)
  have w: "wf_log sample_broken" "length (rlog (raft sample_broken)) + length [[5 :: u8]] < 18446744073709551616"
    by (simp_all add: wf_log_def f)
  obtain r t where run: "apply_append [[5]] 0 None 0 sample_broken = (Ret (Finished r False), t)"
    using sample_broken_run by blast
  from apply_append_roll_back [OF run w] run f show ?thesis by auto
qed

text \<open>
  The roll-back of a failed persist does not undo the slot map: on a leader whose device
  fails, the index that the log no longer holds still has a slot record.
\<close>

theorem roll_back_leaves_slots:
  "\<exists>r t. apply_append [[5]] 0 None 0 sample_broken = (Ret (Finished r False), t) \<and>
     \<not> in_log t 3 \<and> map_of (log_slot_map (ring sample_broken)) 3 = None \<and>
     map_of (log_slot_map (ring t)) 3 = Some (sample_slot 2)"
proof -
  have f: "raft sample_broken = raft sample_leader" "ring sample_broken = ring sample_node"
    by (simp_all add: sample_broken_def)
  have w: "wf_log sample_broken" by (simp add: wf_log_def f)
  obtain r t where run: "apply_append [[5]] 0 None 0 sample_broken = (Ret (Finished r False), t)"
    and m: "map_of (log_slot_map (ring t)) 3 = Some (sample_slot 2)"
    using sample_broken_run by blast
  have "tail_log_index (ring t) = 3"
    using roll_back_append [OF run w] f by simp
  then have "\<not> in_log t 3" by (simp add: in_log_def)
  with run m f show ?thesis by auto
qed

section \<open>Acknowledgements\<close>

lemma sig_upd: "xs[c := True] ! i \<Longrightarrow> \<not> xs ! i \<Longrightarrow> c = i"
  by (cases "c = i") simp_all

lemma signal_range_signals:
  assumes "signals (snd (signal_range is oldest s)) ! i" "\<not> signals s ! i"
  shows "\<exists>idx \<in> set is. \<exists>e. log_at s idx = Ret e \<and> committed e = Some i"
  using assms
proof (induction "is" arbitrary: s)
  case (Cons idx "is")
  show ?case
  proof (cases "idx \<ge> oldest \<and> idx < tail_log_index (ring s)")
    case True
    show ?thesis
    proof (cases "log_at s idx")
      case (Ret e)
      let ?t = "case committed e of Some c \<Rightarrow> signal_committed c s | None \<Rightarrow> s"
      have r: "signal_range (idx # is) oldest s = signal_range is oldest ?t"
        using True Ret by simp
      have l: "log_at ?t k = log_at s k" for k by (rule log_at_cong) simp_all
      show ?thesis
      proof (cases "signals ?t ! i")
        case False
        with Cons.IH [of ?t] Cons.prems(1) show ?thesis by (auto simp only: r l set_simps)
      next
        case True
        then have "committed e = Some i"
          using Cons.prems(2) by (cases "committed e") (auto simp: signal_committed_def sig_upd)
        with Ret show ?thesis by auto
      qed
    qed (use Cons.prems True in auto)
  next
    case False
    with Cons show ?thesis by auto
  qed
qed simp

lemma raise_commit_signals:
  assumes "signals (snd (raise_commit s)) ! i" "\<not> signals s ! i"
  shows "\<exists>idx e. commit_index (raft s) < idx \<and> idx \<le> commit_index (raft (snd (raise_commit s))) \<and>
    log_at s idx = Ret e \<and> committed e = Some i"
proof -
  obtain m e where m: "majority_index s = Ret m" "m > commit_index (raft s) \<and> m < tail_log_index (ring s)"
    "log_at s m = Ret e" "e_term e = current_term (raft s)"
    using assms by (auto simp: raise_commit_def split: outcome.splits if_splits)
  let ?t = "upd_raft (\<lambda>r. r\<lparr>commit_index := m\<rparr>) s"
  have r: "raise_commit s = signal_range (indices_after (commit_index (raft s)) m) (oldest_log_index ?t) ?t"
    using m by (simp add: raise_commit_def Let_def)
  have "signals ?t = signals s" by (simp add: upd_raft_def)
  with assms r obtain idx e' where "idx \<in> set (indices_after (commit_index (raft s)) m)"
    "log_at ?t idx = Ret e'" "committed e' = Some i"
    using signal_range_signals [of "indices_after (commit_index (raft s)) m" "oldest_log_index ?t" ?t i] by auto
  moreover have "log_at ?t k = log_at s k" for k by (rule log_at_cong) (simp_all add: upd_raft_def)
  moreover have "commit_index (raft (snd (raise_commit s))) = m" by (simp add: r) (simp add: upd_raft_def)
  ultimately show ?thesis by (auto simp: indices_after_set)
qed

text \<open>
  A client is only told that its batch is committed when it is: the commit signal it waits for
  is given by \<open>advance_commit_index\<close> on a leader, for an entry whose index the commit index has
  just passed.
\<close>

theorem commit_signal_sound:
  assumes "signals (snd (advance_commit_index tm s)) ! i" "\<not> signals s ! i"
  shows "role (raft s) = Leader \<and>
    (\<exists>idx e. commit_index (raft s) < idx \<and>
       idx \<le> commit_index (raft (snd (advance_commit_index tm s))) \<and>
       log_at s idx = Ret e \<and> committed e = Some i)"
proof -
  have "signals (snd (advance_commit_index tm s)) =
      (if role (raft s) = Leader then signals (snd (raise_commit s)) else signals s)"
    by (cases "raise_commit s"; cases "fst (raise_commit s)")
      (auto simp: advance_commit_index_def Let_def wake_slot_gc_def)
  with assms raise_commit_signals [of s i] show ?thesis
    by (auto simp: advance_commit_raft split: if_splits)
qed

lemma commit_wait_committed:
  "commit_wait sig ss = Some Committed \<Longrightarrow> \<exists>s \<in> set ss. signals s ! sig"
  by (induction ss) (auto simp: commit_poll_def split: if_splits)

lemma commit_wait_lost: "commit_wait sig ss = Some (Lost e) \<Longrightarrow> e \<noteq> []"
  by (induction ss) (auto simp: commit_poll_def split: if_splits)

definition sample_waiting :: server where
  "sample_waiting = (upd_raft (\<lambda>r. r\<lparr>rlog := [sample_entry 0 [], sample_entry 1 [7],
     (sample_entry 1 [8, 9])\<lparr>committed := Some 0\<rparr>]\<rparr>) sample_progress)\<lparr>signals := [False]\<rparr>"

theorem commit_signal_sound_witness:
  "signals (snd (advance_commit_index sample_aci_times sample_waiting)) ! 0 \<and>
   (\<exists>idx. 0 < idx \<and> idx \<le> commit_index (raft (snd (advance_commit_index sample_aci_times sample_waiting))))"
proof -
  have f: "ring sample_waiting = ring sample_node" "role (raft sample_waiting) = Leader"
    "commit_index (raft sample_waiting) = 0" "current_term (raft sample_waiting) = 1"
    "length (rlog (raft sample_waiting)) = 3" "signals sample_waiting = [False]"
    "cluster (raft sample_waiting) = cluster (raft sample_progress)"
    "cluster_index (raft sample_waiting) = cluster_index (raft sample_progress)"
    by (simp_all add: sample_waiting_def upd_raft_def)
  have "match_values sample_waiting = match_values sample_progress"
    by (simp only: match_values_def f(1,7,8) sample_progress_fields(1))
  then have "match_values sample_waiting = [2, 2, 0]" by (simp add: sample_progress_match)
  then have m: "majority_index sample_waiting = Ret 2" by (simp add: majority_index_def)
  have o: "oldest_log_index sample_waiting = 1"
    using f(5) by (auto simp: oldest_log_index_def log_size_def f(1))
  have l: "log_at sample_waiting 2 = Ret ((sample_entry 1 [8, 9])\<lparr>committed := Some 0\<rparr>)"
    "log_at sample_waiting 1 = Ret (sample_entry 1 [7])"
    by (simp_all add: log_at_def log_slice_def o) (simp_all add: sample_waiting_def upd_raft_def)
  let ?t = "upd_raft (\<lambda>r. r\<lparr>commit_index := 2\<rparr>) sample_waiting"
  have t: "log_at ?t k = log_at sample_waiting k" "oldest_log_index ?t = 1" for k
    using o by (auto simp: upd_raft_def log_at_def log_slice_def oldest_log_index_def log_size_def)
  have i: "indices_after 0 2 = [1, 2]" by (simp add: indices_after_def upt_conv_Cons)
  have "raise_commit sample_waiting = signal_range [1, 2] 1 ?t"
    using m l f t i by (simp add: raise_commit_def Let_def)
  then have "signals (snd (raise_commit sample_waiting)) ! 0"
    using l f t by (simp add: signal_committed_def) (simp add: upd_raft_def)
  moreover have "fst (raise_commit sample_waiting) = Ret ()"
    using l f t \<open>raise_commit sample_waiting = signal_range [1, 2] 1 ?t\<close>
    by (simp add: signal_committed_def)
  ultimately have g: "signals (snd (advance_commit_index sample_aci_times sample_waiting)) ! 0"
    using f by (cases "raise_commit sample_waiting")
      (auto simp: advance_commit_index_def Let_def wake_slot_gc_def)
  with commit_signal_sound [OF g] f show ?thesis by auto
qed

end
