(* ===== verification/Lifecycle.thy ===== *)
theory Lifecycle
  imports Commit
begin

text \<open>
  Start-up, shutdown and the permanent threads: \<open>core/src/raft_lifecycle.cpp\<close>, with
  \<open>create_ring_file\<close>, \<open>CachedFD::open\<close>, \<open>close_all\<close> and the move operations of
  \<open>blockio/cached_fd.cpp\<close>.

  A \<open>host\<close> is the machine as the starting process finds it: whether the metadata directory
  exists, the size of the ring file (0 when it has to be created), the extents the file system gives
  the file once it is allocated up to a size, its FIEMAP, and the disk with the script of the system
  calls. From \<open>CachedFD::open\<close> on, the disk is the server's.
\<close>

section \<open>Descriptors\<close>

text \<open>
  The four descriptors and the write buffer of a \<open>CachedFD\<close>; \<open>-1\<close> is not open. Operations give
  the list of the arguments of their calls of \<open>::close\<close>.
\<close>

record descriptors =
  meta_fd :: int
  meta_wr_fd :: int
  dev_wr_fd :: int
  dev_rd_fd :: int
  wr_buf :: bool

definition CachedFD_init :: descriptors where
  "CachedFD_init = \<lparr>meta_fd = -1, meta_wr_fd = -1, dev_wr_fd = -1, dev_rd_fd = -1, wr_buf = False\<rparr>"

definition close_all :: "descriptors \<Rightarrow> int list \<times> descriptors" where
  "close_all c =
     (filter (\<lambda>fd. fd \<ge> 0) [meta_fd c, meta_wr_fd c, dev_wr_fd c, dev_rd_fd c],
      \<lparr>meta_fd = (if meta_fd c \<ge> 0 then -1 else meta_fd c),
       meta_wr_fd = (if meta_wr_fd c \<ge> 0 then -1 else meta_wr_fd c),
       dev_wr_fd = (if dev_wr_fd c \<ge> 0 then -1 else dev_wr_fd c),
       dev_rd_fd = (if dev_rd_fd c \<ge> 0 then -1 else dev_rd_fd c), wr_buf = False\<rparr>)"

text \<open>
  The descriptor side of \<open>CachedFD::open\<close>, from the results of the four \<open>::open\<close> calls and of the
  allocation: the object or the exception, and the closes. A throw destroys the local object, whose
  destructor calls \<open>close_all\<close> after the closes written out before the throw.
\<close>

definition open_descriptors ::
  "int \<Rightarrow> int \<Rightarrow> int \<Rightarrow> int \<Rightarrow> bool \<Rightarrow> descriptors outcome \<times> int list" where
  "open_descriptors r1 r2 r3 r4 alloc_ok =
     (let c = CachedFD_init\<lparr>meta_fd := r1\<rparr> in
      if r1 < 0 then (Exc ''OpenCachedFD: open meta'', fst (close_all c))
      else
        let c = c\<lparr>meta_wr_fd := r2\<rparr> in
        if r2 < 0 then (Exc ''OpenCachedFD: open meta(wr)'', [meta_fd c] @ fst (close_all c))
        else
          let c = c\<lparr>dev_wr_fd := r3\<rparr> in
          if r3 < 0
          then (Exc ''OpenCachedFD: open device(wr)'', [meta_fd c, meta_wr_fd c] @ fst (close_all c))
          else
            let c = c\<lparr>dev_rd_fd := r4\<rparr> in
            if r4 < 0
            then (Exc ''OpenCachedFD: open device(rd)'',
                  [meta_fd c, meta_wr_fd c, dev_wr_fd c] @ fst (close_all c))
            else if \<not> alloc_ok
            then let (closed, c) = close_all c
                 in (Exc ''OpenCachedFD: posix_memalign write buffer failed'', closed @ fst (close_all c))
            else (Ret (c\<lparr>wr_buf := True\<rparr>), []))"

text \<open>The move constructor gives the new object and what is left of the old one.\<close>

definition move_construct :: "descriptors \<Rightarrow> descriptors \<times> descriptors" where
  "move_construct other =
     (other, other\<lparr>meta_fd := -1, meta_wr_fd := -1, dev_wr_fd := -1, dev_rd_fd := -1, wr_buf := False\<rparr>)"

text \<open>Move assignment between two different objects.\<close>

definition move_assign :: "descriptors \<Rightarrow> descriptors \<Rightarrow> int list \<times> descriptors \<times> descriptors" where
  "move_assign this other =
     (let (closed, this) = close_all this;
          this = this\<lparr>meta_fd := meta_fd other, meta_wr_fd := meta_wr_fd other,
            dev_wr_fd := dev_wr_fd other, dev_rd_fd := dev_rd_fd other, wr_buf := wr_buf other\<rparr>
      in (closed, this,
          other\<lparr>meta_fd := -1, meta_wr_fd := -1, dev_wr_fd := -1, dev_rd_fd := -1, wr_buf := False\<rparr>))"

text \<open>
  Moving a \<open>CachedFD\<close> neither leaks nor closes twice: over an assignment and the destruction
  of both objects, every descriptor that either object held is closed exactly once.
\<close>

theorem move_closes_once:
  "(case move_assign this other of (closed, this', other') \<Rightarrow>
      closed @ fst (close_all this') @ fst (close_all other')) =
   fst (close_all this) @ fst (close_all other)"
  by (simp add: move_assign_def close_all_def Let_def)

text \<open>
  A failing \<open>CachedFD::open\<close> closes the descriptors it had opened a second time when the local
  object is destroyed; only a failed allocation, which goes through \<open>close_all\<close>, closes them once.
\<close>

theorem open_failure_closes:
  assumes "0 \<le> r1" "0 \<le> r2" "0 \<le> r3" "0 \<le> r4"
  shows "open_descriptors r1 (-1) r3 r4 ok = (Exc ''OpenCachedFD: open meta(wr)'', [r1, r1]) \<and>
    open_descriptors r1 r2 (-1) r4 ok = (Exc ''OpenCachedFD: open device(wr)'', [r1, r2, r1, r2]) \<and>
    open_descriptors r1 r2 r3 (-1) ok =
      (Exc ''OpenCachedFD: open device(rd)'', [r1, r2, r3, r1, r2, r3]) \<and>
    snd (open_descriptors r1 r2 r3 r4 False) = [r1, r2, r3, r4] \<and>
    snd (open_descriptors r1 r2 r3 r4 True) = []"
  using assms by (simp add: open_descriptors_def close_all_def CachedFD_init_def Let_def)

theorem open_failure_closes_witness:
  "snd (open_descriptors 7 8 (-1) (-1) True) = [7, 8, 7, 8]"
proof -
  have "open_descriptors 7 8 (-1) 0 True = (Exc ''OpenCachedFD: open device(wr)'', [7, 8, 7, 8])"
    using open_failure_closes [of 7 8 0 0 True] by simp
  then show ?thesis by (simp add: open_descriptors_def Let_def)
qed

section \<open>Start-up\<close>

record host =
  dir_exists :: bool
  file_size :: u64
  allocated :: "u64 \<Rightarrow> extent list"
  host_fiemap :: "extent list \<Rightarrow> fiemap"
  host_disk :: disk

text \<open>The next system call: its result, and the host afterwards.\<close>

definition host_call :: "host \<Rightarrow> io_result \<times> host" where
  "host_call h = (let (r, ns, d) = syscall (host_disk h) in (r, h\<lparr>host_disk := d\<rparr>))"

text \<open>\<open>call err f h\<close>: a system call that throws \<open>err\<close> on failure and has effect \<open>f\<close> otherwise.\<close>

definition call :: "string \<Rightarrow> (host \<Rightarrow> host) \<Rightarrow> host \<Rightarrow> unit outcome \<times> host" where
  "call err f h = (let (r, h) = host_call h in if r \<noteq> IoOk then (Exc err, h) else (Ret (), f h))"

text \<open>
  \<open>fallocate\<close> of the missing tail: the file has the size asked for, the file system has placed
  it, and the new range reads as zeros. \<open>FALLOC_FL_ZERO_RANGE\<close>: the range reads as zeros.
\<close>

definition upd_disk :: "(disk \<Rightarrow> disk) \<Rightarrow> host \<Rightarrow> host" where
  "upd_disk f h = h\<lparr>host_disk := f (host_disk h)\<rparr>"

definition zero_file :: "u64 \<Rightarrow> u64 \<Rightarrow> disk \<Rightarrow> disk" where
  "zero_file off len d =
     d\<lparr>media := file_store (file_extents d) (uint off) (replicate (unat len) 0) (media d)\<rparr>"

definition fallocate_tail :: "u64 \<Rightarrow> host \<Rightarrow> host" where
  "fallocate_tail size_bytes h =
     upd_disk (\<lambda>d. zero_file (file_size h) (size_bytes - file_size h) (d\<lparr>file_extents := allocated h size_bytes\<rparr>))
       (h\<lparr>file_size := size_bytes\<rparr>)"

definition fallocate_zero_range :: "u64 \<Rightarrow> host \<Rightarrow> host" where
  "fallocate_zero_range size_bytes = upd_disk (zero_file 0 size_bytes)"

definition sync_host :: "host \<Rightarrow> host" where
  "sync_host = upd_disk (\<lambda>d. d\<lparr>stable := media d\<rparr>)"

definition create_ring_file :: "u64 \<Rightarrow> host \<Rightarrow> u64 outcome \<times> host" where
  "create_ring_file size_bytes h =
     andthen (call ''create_ring_file: open'' id h) (\<lambda>_ h.
     andthen (call ''create_ring_file: fstat'' id h) (\<lambda>_ h.
     andthen (if file_size h < size_bytes
              then andthen (call ''create_ring_file: fallocate'' (fallocate_tail size_bytes) h) (\<lambda>_ h.
                     call ''create_ring_file: fdatasync'' sync_host h)
              else (Ret (), h)) (\<lambda>_ h.
     andthen (call ''create_ring_file: fallocate(ZERO_RANGE)'' (fallocate_zero_range size_bytes) h) (\<lambda>_ h.
     andthen (call ''create_ring_file: fdatasync after ZERO_RANGE'' sync_host h) (\<lambda>_ h.
     andthen (call ''create_ring_file: fstat(2)'' id h) (\<lambda>_ h. (Ret (file_size h), h)))))))"

text \<open>The directory: \<open>mkdir\<close> of an existing path fails with \<open>EEXIST\<close>, which is fine.\<close>

definition ensure_dir :: "string \<Rightarrow> host \<Rightarrow> unit outcome \<times> host" where
  "ensure_dir path h =
     (if path = [] then (Ret (), h)
      else let (r, h') = host_call h in
           if r \<noteq> IoOk \<and> \<not> dir_exists h then (Exc ''ensure_dir: mkdir'', h')
           else (Ret (), h'\<lparr>dir_exists := True\<rparr>))"

text \<open>\<open>CachedFD::open\<close>: four calls of \<open>::open\<close>; the new object has no extent cache.\<close>

definition kDefaultWrBufSize :: u64 where "kDefaultWrBufSize = 2 * 1024 * 1024"

definition CachedFD_open :: "host \<Rightarrow> cached_fd_state outcome \<times> host" where
  "CachedFD_open h =
     andthen (call ''OpenCachedFD: open meta'' id h) (\<lambda>_ h.
     andthen (call ''OpenCachedFD: open meta(wr)'' id h) (\<lambda>_ h.
     andthen (call ''OpenCachedFD: open device(wr)'' id h) (\<lambda>_ h.
     andthen (call ''OpenCachedFD: open device(rd)'' id h) (\<lambda>_ h.
       (Ret \<lparr>has_extent_cache = False, extent_cache = [],
             fiemap_call = host_fiemap h (file_extents (host_disk h)),
             wr_buf_size = kDefaultWrBufSize, fd_disk = host_disk h\<rparr>, h)))))"

text \<open>The first half of \<open>init_storage\<close>: the file and its descriptor.\<close>

definition open_storage :: "string \<Rightarrow> string \<Rightarrow> u64 \<Rightarrow> host \<Rightarrow> cached_fd_state outcome \<times> host" where
  "open_storage dir dev want h =
     andthen (ensure_dir dir h) (\<lambda>_ h.
     andthen (create_ring_file want h) (\<lambda>actual h.
       if actual < want then (Exc ''init_storage: ring file too small'', h)
       else if dev = [] then (Exc ''init_storage: device_path is empty'', h)
       else CachedFD_open h))"

text \<open>Restoring term and vote; a failure to read starts from zero.\<close>

definition restore_header :: "bytes \<Rightarrow> server \<Rightarrow> unit step" where
  "restore_header hdr s =
     (let h_term = get_u64_le hdr file_kOffCurrentTerm;
          h_vote = get_u64_le hdr file_kOffVotedFor;
          s = upd_raft (\<lambda>r. r\<lparr>current_term := h_term\<rparr>) s
      in andthen (set_voted_for h_vote s) (\<lambda>_ s.
         (Ret (), if h_term \<noteq> 0 \<or> h_vote \<noteq> 0
                  then upd_ring (\<lambda>g. g\<lparr>persisted_init := True, persisted_term := h_term,
                         persisted_voted_for := h_vote\<rparr>) s
                  else s)))"

definition read_header :: "server \<Rightarrow> unit step" where
  "read_header s =
     (case andthen (with_fd (read_at_file (unat HEADER_SIZE) 0) s) restore_header of
        (Exc e, s) \<Rightarrow>
          andthen (set_voted_for 0 (upd_raft (\<lambda>r. r\<lparr>current_term := 0\<rparr>) s)) (\<lambda>_ s.
            (Ret (), upd_ring (\<lambda>g. g\<lparr>persisted_init := False\<rparr>) s))
      | r \<Rightarrow> r)"

text \<open>The log, the slots and the indices always start afresh.\<close>

definition fresh_log :: "server \<Rightarrow> server" where
  "fresh_log s =
     (let (e, s) = make_entry s
      in upd_ring init_slot_states (upd_raft (\<lambda>r. r\<lparr>rlog := [e]\<rparr>) s))"

definition fresh_indices :: "server \<Rightarrow> server" where
  "fresh_indices s = reset_election_timeout
     (upd_raft (\<lambda>r. r\<lparr>commit_index := 0, last_applied := 1, role := Follower\<rparr>)
       (upd_ring (\<lambda>g. g\<lparr>tail_log_index := 1, tail_slot := 0, head_slot := 0\<rparr>) s))"

text \<open>\<open>None\<close>: the loop that builds the extent cache does not end.\<close>

definition init_storage :: "host \<Rightarrow> server \<Rightarrow> (unit outcome \<times> server \<times> host) option" where
  "init_storage h s =
     (let want = file_size_bytes (ring s) in
      case open_storage (metadata_dir (io s)) (device_path (io s)) want h of
        (Exc e, h) \<Rightarrow> Some (Exc e, s, h)
      | (Ub, h) \<Rightarrow> Some (Ub, s, h)
      | (Ret c, h) \<Rightarrow>
          (case cache_extents (uint want) c of
             None \<Rightarrow> None
           | Some (r, c) \<Rightarrow>
               let s = s\<lparr>io := (io s)\<lparr>cached_fd := Some c\<rparr>\<rparr>;
                   (r, s) = andthen (r, s) (\<lambda>_ s.
                     andthen (fd_query (\<lambda>c. get_pba c 0 HEADER_SIZE) s, s) (\<lambda>_ s.
                     andthen (read_header (fresh_log s)) (\<lambda>_ s. (Ret (), fresh_indices s))))
               in Some (r, s, h)))"

section \<open>What start-up leaves\<close>

lemma call_Ret:
  "call err f h = (Ret u, h') \<Longrightarrow> h' = f (h\<lparr>host_disk := snd (snd (syscall (host_disk h)))\<rparr>)"
  by (auto simp: call_def host_call_def Let_def split: prod.splits if_splits)

lemma syscall_disk [simp]:
  "media (snd (snd (syscall d))) = media d" "stable (snd (snd (syscall d))) = stable d"
  "file_extents (snd (snd (syscall d))) = file_extents d" "script (snd (snd (syscall d))) = script d"
  by (simp_all add: syscall_def)

text \<open>The term and the vote that the header gives.\<close>

definition header_state :: "cached_fd_state \<Rightarrow> u64 \<times> u64" where
  "header_state c = (case fst (read_at_file (unat HEADER_SIZE) 0 c) of
     Ret hdr \<Rightarrow> (get_u64_le hdr file_kOffCurrentTerm, get_u64_le hdr file_kOffVotedFor)
   | _ \<Rightarrow> (0, 0))"

lemma read_at_file_no_Ub: "fst (read_at_file n off c) \<noteq> Ub"
  by (simp add: read_at_file_def Let_def split: option.splits prod.splits)

lemma read_header_wf:
  assumes "wf_cluster (raft s)" "cached_fd (io s) = Some c" "header_state c = (tm, v)"
  shows "\<exists>t. read_header s = (Ret (), t) \<and>
    raft t = (raft s)\<lparr>current_term := tm, cluster := (cluster (raft s))
      [nat (cluster_index (raft s)) := (cluster (raft s) ! nat (cluster_index (raft s)))\<lparr>voted_for := v\<rparr>]\<rparr> \<and>
    log_slot_map (ring t) = log_slot_map (ring s) \<and>
    cached_fd (io t) = Some (snd (read_at_file (unat HEADER_SIZE) 0 c))"
proof (cases "read_at_file (unat HEADER_SIZE) 0 c")
  case (Pair r c')
  with assms read_at_file_no_Ub [of "unat HEADER_SIZE" 0 c] show ?thesis
    by (cases r) (auto simp: read_header_def restore_header_def with_fd_def set_voted_for_eq upd_raft_def
        upd_ring_def update_member_def wf_cluster_def header_state_def set_voted_for_def cluster_at_def Let_def)
qed

lemma set_voted_for_not_wf:
  "\<not> wf_cluster (raft s) \<Longrightarrow> set_voted_for v s = (Exc ''out_of_range'', s)"
  by (auto simp: set_voted_for_def cluster_at_def wf_cluster_def)

lemma read_header_not_wf:
  assumes "\<not> wf_cluster (raft s)"
  shows "fst (read_header s) \<noteq> Ret ()"
proof -
  have n: "\<not> wf_cluster (raft (upd_raft (\<lambda>r. r\<lparr>current_term := x\<rparr>) t))" if "raft t = raft s" for x t
    using assms that by (simp add: wf_cluster_def upd_raft_def)
  have io: "raft (snd (with_fd f s)) = raft s"
    for f :: "cached_fd_state \<Rightarrow> bytes outcome \<times> cached_fd_state"
    by (simp add: with_fd_def split: option.splits prod.splits)
  define m where "m = with_fd (read_at_file (unat HEADER_SIZE) 0) s"
  have r: "raft (snd m) = raft s" unfolding m_def by (rule io)
  then have nn: "\<not> wf_cluster (raft (upd_raft (\<lambda>r. r\<lparr>current_term := x\<rparr>)
      (upd_raft (\<lambda>r. r\<lparr>current_term := y\<rparr>) (snd m))))" for x y
    using assms by (simp add: wf_cluster_def upd_raft_def)
  show ?thesis
    unfolding read_header_def m_def [symmetric]
    by (cases m; cases "fst m") (use r n nn in \<open>auto simp: restore_header_def set_voted_for_not_wf Let_def\<close>)
qed

text \<open>What \<open>init_storage\<close> went through when it returned.\<close>

lemma init_storage_Ret:
  assumes "init_storage h s = Some (Ret u, t, h')"
  obtains c c' r where "open_storage (metadata_dir (io s)) (device_path (io s)) (file_size_bytes (ring s)) h = (Ret c, h')"
    "cache_extents (uint (file_size_bytes (ring s))) c = Some (Ret (), c')"
    "read_header (fresh_log (s\<lparr>io := (io s)\<lparr>cached_fd := Some c'\<rparr>\<rparr>)) = (Ret (), r)"
    "t = fresh_indices r"
  using assms unfolding init_storage_def
  by (auto simp: Let_def andthen_eq_Ret split: prod.splits outcome.splits option.splits)

lemma fresh_log_fields:
  "io (fresh_log s) = io s" "rlog (raft (fresh_log s)) = [fst (make_entry s)]"
  "cluster (raft (fresh_log s)) = cluster (raft s)"
  "cluster_index (raft (fresh_log s)) = cluster_index (raft s)"
  "log_slot_map (ring (fresh_log s)) = []"
  by (simp_all add: fresh_log_def make_entry_def upd_ring_def upd_raft_def init_slot_states_def)

lemma fresh_indices_fields:
  "io (fresh_indices s) = io s" "rlog (raft (fresh_indices s)) = rlog (raft s)"
  "cluster (raft (fresh_indices s)) = cluster (raft s)"
  "cluster_index (raft (fresh_indices s)) = cluster_index (raft s)"
  "current_term (raft (fresh_indices s)) = current_term (raft s)"
  "log_slot_map (ring (fresh_indices s)) = log_slot_map (ring s)"
  "commit_index (raft (fresh_indices s)) = 0" "last_applied (raft (fresh_indices s)) = 1"
  "role (raft (fresh_indices s)) = Follower" "tail_log_index (ring (fresh_indices s)) = 1"
  "tail_slot (ring (fresh_indices s)) = 0" "head_slot (ring (fresh_indices s)) = 0"
  by (simp_all add: fresh_indices_def) (simp_all add: upd_ring_def upd_raft_def)

lemma init_storage_header:
  assumes "init_storage h s = Some (Ret u, t, h')"
  shows "\<exists>c c'. open_storage (metadata_dir (io s)) (device_path (io s)) (file_size_bytes (ring s)) h = (Ret c, h') \<and>
    cache_extents (uint (file_size_bytes (ring s))) c = Some (Ret (), c') \<and> wf_cluster (raft t) \<and>
    (current_term (raft t), my_vote t) = header_state c' \<and>
    rlog (raft t) = [fst (make_entry s)] \<and> log_slot_map (ring t) = [] \<and>
    length (cluster (raft t)) = length (cluster (raft s)) \<and>
    cached_fd (io t) = Some (snd (read_at_file (unat HEADER_SIZE) 0 c'))"
proof -
  from assms obtain c c' r where o: "open_storage (metadata_dir (io s)) (device_path (io s)) (file_size_bytes (ring s)) h = (Ret c, h')"
    "cache_extents (uint (file_size_bytes (ring s))) c = Some (Ret (), c')"
    and r: "read_header (fresh_log (s\<lparr>io := (io s)\<lparr>cached_fd := Some c'\<rparr>\<rparr>)) = (Ret (), r)" and t: "t = fresh_indices r"
    by (rule init_storage_Ret)
  let ?f = "fresh_log (s\<lparr>io := (io s)\<lparr>cached_fd := Some c'\<rparr>\<rparr>)"
  have w: "wf_cluster (raft ?f)" using read_header_not_wf [of ?f] r by auto
  obtain tm v where h: "header_state c' = (tm, v)" by fastforce
  have "cached_fd (io ?f) = Some c'" by (simp add: fresh_log_fields)
  from read_header_wf [OF w this h] r have f: "raft r = (raft ?f)\<lparr>current_term := tm, cluster := (cluster (raft ?f))
      [nat (cluster_index (raft ?f)) := (cluster (raft ?f) ! nat (cluster_index (raft ?f)))\<lparr>voted_for := v\<rparr>]\<rparr>"
    "log_slot_map (ring r) = log_slot_map (ring ?f)"
    "cached_fd (io r) = Some (snd (read_at_file (unat HEADER_SIZE) 0 c'))" by auto
  have "make_entry (s\<lparr>io := x\<rparr>) = (fst (make_entry s), (snd (make_entry s))\<lparr>io := x\<rparr>)" for x
    by (simp add: make_entry_def)
  with o w h f show ?thesis
    by (auto simp: t fresh_indices_fields fresh_log_fields wf_cluster_def my_vote_def)
qed

lemma init_storage_indices:
  assumes "init_storage h s = Some (Ret u, t, h')"
  shows "tail_log_index (ring t) = 1 \<and> tail_slot (ring t) = 0 \<and> head_slot (ring t) = 0 \<and>
    commit_index (raft t) = 0 \<and> last_applied (raft t) = 1 \<and> role (raft t) = Follower"
  using assms by (auto elim!: init_storage_Ret simp: fresh_indices_fields)

text \<open>
  Start-up gives a well-formed node whatever is on disk: when \<open>init_storage\<close> returns, the node
  is a follower whose log is the sentinel alone, the next entry has index 1, nothing is committed or
  applied, the ring is empty and the extent cache is built.
\<close>

theorem init_storage_fresh:
  assumes "init_storage h s = Some (Ret u, t, h')"
  shows "node_inv t \<and> role (raft t) = Follower \<and> map command (rlog (raft t)) = [[]] \<and>
    tail_log_index (ring t) = 1 \<and> tail_slot (ring t) = 0 \<and> head_slot (ring t) = 0 \<and>
    log_slot_map (ring t) = [] \<and> commit_index (raft t) = 0 \<and> last_applied (raft t) = 1 \<and>
    (\<exists>c. cached_fd (io t) = Some c \<and> has_extent_cache c)"
proof -
  from init_storage_header [OF assms] obtain c c' where c: "cache_extents (uint (file_size_bytes (ring s))) c = Some (Ret (), c')"
    and t: "wf_cluster (raft t)" "rlog (raft t) = [fst (make_entry s)]" "log_slot_map (ring t) = []"
      "cached_fd (io t) = Some (snd (read_at_file (unat HEADER_SIZE) 0 c'))" by blast
  have "has_extent_cache c'" using c by (auto simp: cache_extents_def split: option.splits outcome.splits)
  then have "has_extent_cache (snd (read_at_file (unat HEADER_SIZE) 0 c'))"
    by (simp add: read_at_file_def Let_def split: option.splits prod.splits)
  with t init_storage_indices [OF assms] show ?thesis
    by (auto simp: node_inv_def wf_log_def make_entry_def)
qed

section \<open>The header does not survive a restart\<close>

lemma file_store_zero:
  assumes "off \<le> l" "l < off + int n"
  shows "file_byte xs (file_store xs off (replicate n 0) m) l = 0"
  using assms
proof (induction n)
  case (Suc n)
  have r: "replicate (Suc n) (0 :: u8) = replicate n 0 @ [0]" by (simp add: replicate_append_same)
  from Suc show ?case unfolding r
    using file_store_snoc [of xs off "replicate n 0" 0 m]
    by (cases "l = off + int n") (auto simp: file_byte_def split: option.splits)
qed simp

definition zeroed :: "u64 \<Rightarrow> disk \<Rightarrow> bool" where
  "zeroed n d \<longleftrightarrow> (\<forall>l. 0 \<le> l \<and> l < uint n \<longrightarrow> file_byte (file_extents d) (media d) l = 0 \<and>
     file_byte (file_extents d) (stable d) l = 0)"

lemma zeroed_syscall [simp]: "zeroed n (snd (snd (syscall d))) = zeroed n d"
  by (simp add: zeroed_def)

lemma zeroed_call:
  "call err id h = (Ret u, h') \<Longrightarrow> zeroed n (host_disk h) \<Longrightarrow> zeroed n (host_disk h')"
  by (auto dest!: call_Ret)

lemma create_ring_file_zeroed:
  assumes "create_ring_file n h = (Ret a, h')"
  shows "zeroed n (host_disk h')"
proof -
  from assms obtain h1 h2 h3 where z: "call ''create_ring_file: fallocate(ZERO_RANGE)'' (fallocate_zero_range n) h1 = (Ret (), h2)"
    "call ''create_ring_file: fdatasync after ZERO_RANGE'' sync_host h2 = (Ret (), h3)"
    "call ''create_ring_file: fstat(2)'' id h3 = (Ret (), h')"
    by (auto simp: create_ring_file_def andthen_eq_Ret)
  have "zeroed n (host_disk h3)"
    using call_Ret [OF z(1)] call_Ret [OF z(2)]
    by (auto simp: zeroed_def sync_host_def upd_disk_def fallocate_zero_range_def zero_file_def
        file_store_zero)
  with z(3) show ?thesis by (rule zeroed_call)
qed

lemma CachedFD_open_zeroed:
  assumes "CachedFD_open h = (Ret c, h')" "zeroed n (host_disk h)"
  shows "zeroed n (fd_disk c)"
  using assms by (auto simp: CachedFD_open_def andthen_eq_Ret dest!: zeroed_call)

lemma open_storage_zeroed:
  assumes "open_storage dir dev n h = (Ret c, h')"
  shows "zeroed n (fd_disk c)"
  using assms by (auto simp: open_storage_def andthen_eq_Ret dest!: create_ring_file_zeroed
      split: if_splits intro: CachedFD_open_zeroed)

lemma get_u64_le_zero: "off + 8 \<le> n \<Longrightarrow> get_u64_le (replicate n 0) off = 0"
  by (rule bit_eqI) (simp add: bit_get_u64_le)

lemma zeroed_header:
  assumes "zeroed n (fd_disk c)" "512 \<le> uint n"
  shows "header_state c = (0, 0)"
proof -
  have "file_load (file_extents (fd_disk c)) 0 512 (media (fd_disk c)) = replicate 512 0"
    using assms by (intro nth_equalityI) (auto simp: file_load_def zeroed_def file_byte_def)
  then show ?thesis
    by (auto simp: header_state_def read_at_file_def Let_def syscall_def size_defs file_hdr_defs get_u64_le_zero
        split: option.splits prod.splits)
qed

text \<open>
  C33. The persisted term and vote do not survive a restart: \<open>create_ring_file\<close> zeroes the whole
  file, header included, before the header is read, so whatever term and vote the previous run
  had made stable, \<open>init_storage\<close> returns with term 0, no vote, and zeros on stable storage.
\<close>

theorem init_storage_forgets:
  assumes "init_storage h s = Some (Ret u, t, h')" "512 \<le> uint (file_size_bytes (ring s))"
  shows "current_term (raft t) = 0 \<and> my_vote t = 0 \<and>
    (\<exists>c. cached_fd (io t) = Some c \<and>
       (\<forall>l. 0 \<le> l \<and> l < 512 \<longrightarrow> file_byte (file_extents (fd_disk c)) (stable (fd_disk c)) l = 0))"
proof -
  from init_storage_header [OF assms(1)] obtain c c' where
    o: "open_storage (metadata_dir (io s)) (device_path (io s)) (file_size_bytes (ring s)) h = (Ret c, h')"
    and c: "cache_extents (uint (file_size_bytes (ring s))) c = Some (Ret (), c')"
    and t: "(current_term (raft t), my_vote t) = header_state c'"
      "cached_fd (io t) = Some (snd (read_at_file (unat HEADER_SIZE) 0 c'))" by blast
  have "fd_disk c' = fd_disk c" using c by (auto simp: cache_extents_def split: option.splits outcome.splits)
  then have z: "zeroed (file_size_bytes (ring s)) (fd_disk c')" using open_storage_zeroed [OF o] by simp
  moreover have "fd_disk (snd (read_at_file n off c')) = snd (snd (syscall (fd_disk c')))" for n off
    by (simp add: read_at_file_def Let_def split: option.splits prod.splits)
  ultimately show ?thesis
    using t zeroed_header [OF z assms(2)] assms(2) by (auto simp: zeroed_def)
qed

section \<open>Start-up on a working machine returns\<close>

definition host_ok :: "host \<Rightarrow> bool" where
  "host_ok h \<longleftrightarrow> (\<forall>n. fst (script (host_disk h) n) = IoOk)"

text \<open>The extents of the ring file once it is as long as start-up wants it.\<close>

definition ring_extents :: "u64 \<Rightarrow> host \<Rightarrow> extent list" where
  "ring_extents n h = (if file_size h < n then allocated h n else file_extents (host_disk h))"

definition after_call :: "host \<Rightarrow> host" where
  "after_call h = h\<lparr>host_disk := snd (snd (syscall (host_disk h)))\<rparr>"

lemma after_call_fields [simp]:
  "file_size (after_call h) = file_size h" "allocated (after_call h) = allocated h"
  "host_fiemap (after_call h) = host_fiemap h"
  "file_extents (host_disk (after_call h)) = file_extents (host_disk h)"
  by (simp_all add: after_call_def)

lemma call_ok: "host_ok h \<Longrightarrow> call err f h = (Ret (), f (after_call h))"
  by (simp add: call_def host_call_def host_ok_def syscall_def after_call_def)

lemma host_ok_step:
  "host_ok (after_call h) = host_ok h" "host_ok (sync_host h) = host_ok h"
  "host_ok (fallocate_tail n h) = host_ok h" "host_ok (fallocate_zero_range n h) = host_ok h"
  "host_ok (h\<lparr>dir_exists := b\<rparr>) = host_ok h"
  by (simp_all add: host_ok_def sync_host_def fallocate_tail_def fallocate_zero_range_def upd_disk_def
      zero_file_def after_call_def)

lemma host_effects [simp]:
  "file_size (fallocate_tail n h) = n" "file_size (sync_host h) = file_size h"
  "file_size (fallocate_zero_range n h) = file_size h" "host_fiemap (fallocate_tail n h) = host_fiemap h"
  "host_fiemap (sync_host h) = host_fiemap h" "host_fiemap (fallocate_zero_range n h) = host_fiemap h"
  "file_extents (host_disk (fallocate_tail n h)) = allocated h n"
  "file_extents (host_disk (sync_host h)) = file_extents (host_disk h)"
  "file_extents (host_disk (fallocate_zero_range n h)) = file_extents (host_disk h)"
  by (simp_all add: sync_host_def fallocate_tail_def fallocate_zero_range_def upd_disk_def zero_file_def)

lemma create_ring_file_ok:
  assumes "host_ok h"
  shows "\<exists>a h'. create_ring_file n h = (Ret a, h') \<and> n \<le> a \<and> host_ok h' \<and>
    file_extents (host_disk h') = ring_extents n h \<and> host_fiemap h' = host_fiemap h"
  using assms
  by (simp add: create_ring_file_def call_ok host_ok_step ring_extents_def) auto

lemma ensure_dir_ok:
  assumes "host_ok h"
  shows "\<exists>h'. ensure_dir dir h = (Ret (), h') \<and> host_ok h' \<and> ring_extents n h' = ring_extents n h \<and>
    host_fiemap h' = host_fiemap h"
  using assms by (simp add: ensure_dir_def host_call_def ring_extents_def host_ok_def syscall_def Let_def)

lemma CachedFD_open_ok:
  assumes "host_ok h"
  shows "\<exists>c h'. CachedFD_open h = (Ret c, h') \<and> fiemap_call c = host_fiemap h (file_extents (host_disk h))"
  using assms by (simp add: CachedFD_open_def call_ok host_ok_step)

lemma open_storage_ok:
  assumes "host_ok h" "dev \<noteq> []"
  shows "\<exists>c h'. open_storage dir dev n h = (Ret c, h') \<and> fiemap_call c = host_fiemap h (ring_extents n h)"
proof -
  obtain h1 where 1: "ensure_dir dir h = (Ret (), h1)" "host_ok h1" "ring_extents n h1 = ring_extents n h"
    "host_fiemap h1 = host_fiemap h" using ensure_dir_ok [OF assms(1)] by blast
  obtain a h2 where 2: "create_ring_file n h1 = (Ret a, h2)" "n \<le> a" "host_ok h2"
    "file_extents (host_disk h2) = ring_extents n h1" "host_fiemap h2 = host_fiemap h1"
    using create_ring_file_ok [OF 1(2)] by blast
  from CachedFD_open_ok [OF 2(3)] 1 2 assms(2) show ?thesis
    by (auto simp: open_storage_def)
qed

lemma init_storage_ok:
  assumes "host_ok h" "device_path (io s) \<noteq> []" "wf_cluster (raft s)"
    and "es = ring_extents (file_size_bytes (ring s)) h"
    and "tiles 0 es (uint (file_size_bytes (ring s)))" "fiemap_reports (host_fiemap h es) es"
    and "512 \<le> uint (file_size_bytes (ring s))" "uint (file_size_bytes (ring s)) < 2 ^ 63"
  shows "\<exists>t h' c. init_storage h s = Some (Ret (), t, h') \<and> cached_fd (io t) = Some c \<and> extent_cache c = es"
proof -
  let ?n = "file_size_bytes (ring s)"
  obtain c h' where o: "open_storage (metadata_dir (io s)) (device_path (io s)) ?n h = (Ret c, h')"
    "fiemap_call c = host_fiemap h es" using open_storage_ok [OF assms(1,2)] assms(4) by blast
  have b: "ExtentCache_build (fiemap_call c) (uint ?n) = Some (Ret es)" "wf_extents es" "phys_of es 0 \<noteq> None"
    using build_loop_tiles [OF assms(5) _ _ assms(8)] tiles_wf [OF assms(5)] tiles_phys [OF assms(5), of 0]
      assms(6,7) o(2) by (simp_all add: ExtentCache_build_def)
  let ?c = "c\<lparr>extent_cache := es, has_extent_cache := True\<rparr>"
  have ca: "cache_extents (uint ?n) c = Some (Ret (), ?c)" by (simp add: cache_extents_def b)
  have "(HEADER_SIZE :: u64) \<noteq> 0" by (simp add: size_defs)
  then obtain p where p: "get_pba ?c 0 HEADER_SIZE = Ret p"
    using lookup_total [OF b(2,3)] by (auto simp: get_pba_def)
  let ?f = "fresh_log (s\<lparr>io := (io s)\<lparr>cached_fd := Some ?c\<rparr>\<rparr>)"
  have w: "wf_cluster (raft ?f)" using assms(3) by (simp add: wf_cluster_def fresh_log_fields)
  obtain tm v where h: "header_state ?c = (tm, v)" by fastforce
  obtain r where r: "read_header ?f = (Ret (), r)" "cached_fd (io r) = Some (snd (read_at_file (unat HEADER_SIZE) 0 ?c))"
    using read_header_wf [OF w _ h] by (auto simp: fresh_log_fields)
  have "extent_cache (snd (read_at_file (unat HEADER_SIZE) 0 ?c)) = es"
    by (simp add: read_at_file_def Let_def split: option.splits prod.splits)
  moreover have "init_storage h s = Some (Ret (), fresh_indices r, h')"
    using o(1) ca p r(1) by (simp add: init_storage_def Let_def fd_query_def)
  ultimately show ?thesis using r(2) by (simp add: fresh_indices_fields)
qed

text \<open>
  C34. On a machine whose system calls succeed, start-up returns: with a FIEMAP that reports the
  extents of the allocated ring file, \<open>init_storage\<close> ends normally and its extent cache is exactly
  the file's extents.
\<close>

theorem init_storage_returns:
  assumes "host_ok h" "device_path (io s) \<noteq> []" "wf_cluster (raft s)"
    and "es = ring_extents (file_size_bytes (ring s)) h"
    and "tiles 0 es (uint (file_size_bytes (ring s)))" "fiemap_reports (host_fiemap h es) es"
    and "512 \<le> uint (file_size_bytes (ring s))" "uint (file_size_bytes (ring s)) < 2 ^ 63"
  shows "\<exists>t h' c. init_storage h s = Some (Ret (), t, h') \<and> cached_fd (io t) = Some c \<and> extent_cache c = es"
  by (rule init_storage_ok [OF assms])

text \<open>A machine on which an earlier run has left term 5 and a vote for node 2 in the header.\<close>

definition sample_host :: host where
  "sample_host = \<lparr>dir_exists = True, file_size = 65536, allocated = (\<lambda>_. [sample_extent]),
     host_fiemap = (\<lambda>_ _ _. OneExtent 0 4096 65536),
     host_disk = (fd_disk sample_fd)\<lparr>media := (\<lambda>a. if a = 4096 then 5 else if a = 4104 then 2 else 0),
       stable := (\<lambda>a. if a = 4096 then 5 else if a = 4104 then 2 else 0)\<rparr>\<rparr>"

lemma sample_want: "file_size_bytes (ring sample_node) = 65536"
  by (simp add: file_size_bytes_def sample_defs size_defs)

lemma sample_ring_extents: "ring_extents 65536 sample_host = [sample_extent]"
  by (simp add: ring_extents_def sample_host_def sample_fd_def)

lemma sample_tiles: "tiles 0 [sample_extent] 65536"
  by (simp only: tiles.simps sample_extent_def) (simp add: wf_extent_def ext_end_def)

lemma sample_reports: "fiemap_reports (host_fiemap sample_host es) [sample_extent]"
  by (simp add: fiemap_reports_def sample_host_def sample_extent_def)

lemma sample_host_ready: "host_ok sample_host" "device_path (io sample_node) \<noteq> []" "wf_cluster (raft sample_node)"
  by (simp_all add: host_ok_def sample_host_def sample_defs wf_cluster_def)

lemma sample_boot_ready:
  "[sample_extent] = ring_extents (file_size_bytes (ring sample_node)) sample_host"
  "tiles 0 [sample_extent] (uint (file_size_bytes (ring sample_node)))"
  "fiemap_reports (host_fiemap sample_host [sample_extent]) [sample_extent]"
  "512 \<le> uint (file_size_bytes (ring sample_node))" "uint (file_size_bytes (ring sample_node)) < 2 ^ 63"
  using sample_tiles sample_reports sample_ring_extents by (simp_all add: sample_want)

theorem init_storage_returns_witness:
  "\<exists>t h' c. init_storage sample_host sample_node = Some (Ret (), t, h') \<and>
     cached_fd (io t) = Some c \<and> extent_cache c = [sample_extent]"
  by (rule init_storage_returns [OF sample_host_ready sample_boot_ready])

lemma sample_boot: "\<exists>t h'. init_storage sample_host sample_node = Some (Ret (), t, h')"
  using init_storage_ok [OF sample_host_ready sample_boot_ready] by blast

theorem init_storage_fresh_witness:
  "\<exists>t h'. init_storage sample_host sample_node = Some (Ret (), t, h') \<and> node_inv t \<and>
     tail_log_index (ring t) = 1"
  using sample_boot init_storage_fresh by blast

theorem init_storage_forgets_witness:
  "\<exists>t h'. init_storage sample_host sample_node = Some (Ret (), t, h') \<and>
     file_byte [sample_extent] (stable (host_disk sample_host)) 0 = 5 \<and> current_term (raft t) = 0 \<and>
     my_vote t = 0"
proof -
  obtain t h' where run: "init_storage sample_host sample_node = Some (Ret (), t, h')"
    using sample_boot by blast
  have "file_byte [sample_extent] (stable (host_disk sample_host)) 0 = 5"
    by (simp add: file_byte_def phys_of_def covers_def ext_end_def sample_extent_def sample_host_def)
  with run init_storage_forgets [OF run sample_boot_ready(4)] show ?thesis by auto
qed

section \<open>The permanent threads\<close>

definition start :: "server \<Rightarrow> server" where
  "start s =
     (if started (workers s) then s
      else s\<lparr>srv_done := False,
             workers := (workers s)\<lparr>started := True, main_thread := True, apply_thread := True,
               slot_gc_thread := True\<rparr>\<rparr>)"

text \<open>
  \<open>stop\<close> up to the joins: the flag and the wake-ups. Then, once the threads have ended, the joins.
\<close>

definition stop_signal :: "server \<Rightarrow> server" where
  "stop_signal s = s\<lparr>srv_done := True, ring_not_full_notified := True,
     workers := (workers s)\<lparr>apply_notify_pending := True, slot_gc_notify_pending := True\<rparr>\<rparr>"

definition stop_join :: "server \<Rightarrow> server" where
  "stop_join s =
     (let s = join_all_replication_threads
            (s\<lparr>workers := (workers s)\<lparr>main_thread := False, apply_thread := False,
               slot_gc_thread := False\<rparr>\<rparr>)
      in s\<lparr>workers := (workers s)\<lparr>started := False\<rparr>\<rparr>)"

definition stop :: "server \<Rightarrow> server" where
  "stop s = stop_join (stop_signal s)"

text \<open>
  One round of \<open>main_loop\<close>. \<open>st\<close> is the state it read under its own lock: another thread may have
  changed the state since.
\<close>

definition main_loop_body :: "server_state \<Rightarrow> aci_times \<Rightarrow> server \<Rightarrow> unit step" where
  "main_loop_body st tm s =
     (case st of
        Leader \<Rightarrow> advance_commit_index tm (heartbeat s)
      | Follower \<Rightarrow> andthen (timeout s) (\<lambda>_ s. advance_commit_index tm s)
      | Candidate \<Rightarrow> andthen (timeout s) (\<lambda>_ s. become_leader s))"

text \<open>
  One round of the apply worker and of the slot GC worker after their wait; \<open>None\<close> ends the thread.
\<close>

definition apply_worker_wake :: "server \<Rightarrow> server" where
  "apply_worker_wake s = s\<lparr>workers := (workers s)\<lparr>apply_notify_pending := False\<rparr>\<rparr>"

definition apply_worker_body :: "int \<Rightarrow> server \<Rightarrow> unit step option" where
  "apply_worker_body loop_ns s = (if srv_done s then None else Some (apply_pending loop_ns s))"

definition slot_gc_worker_wake :: "server \<Rightarrow> server" where
  "slot_gc_worker_wake s = s\<lparr>workers := (workers s)\<lparr>slot_gc_notify_pending := False\<rparr>\<rparr>"

definition slot_gc_worker_body :: "int \<Rightarrow> int \<Rightarrow> server \<Rightarrow> server option" where
  "slot_gc_worker_body gc_ns bp_ns s = (if srv_done s then None else Some (do_slot_gc gc_ns bp_ns s))"

end
