(* ===== verification/Node.thy ===== *)
theory Node
  imports Apply Lifecycle
begin

text \<open>
  A whole node as a step relation. Every critical section of every thread (the three permanent
  threads, the replication threads, the RPC handlers, the clients) is one step, in any order; a
  section that throws leaves the state it had reached. The steps that take no part in voting are
  \<open>background\<close> steps, shown once to leave the voting state alone or to step down to a higher
  term.
\<close>

section \<open>The voting state\<close>

text \<open>The same term and the same table of votes; the role is kept or given up.\<close>

definition vote_frame :: "server \<Rightarrow> server \<Rightarrow> bool" where
  "vote_frame s t \<longleftrightarrow> cluster_index (raft t) = cluster_index (raft s) \<and>
     node_id (raft t) = node_id (raft s) \<and> current_term (raft t) = current_term (raft s) \<and>
     map voted_for (cluster (raft t)) = map voted_for (cluster (raft s)) \<and>
     (role (raft t) = role (raft s) \<or> role (raft t) = Follower)"

definition stepped_up :: "server \<Rightarrow> server \<Rightarrow> bool" where
  "stepped_up s t \<longleftrightarrow> cluster_index (raft t) = cluster_index (raft s) \<and>
     node_id (raft t) = node_id (raft s) \<and> length (cluster (raft t)) = length (cluster (raft s)) \<and>
     current_term (raft s) < current_term (raft t) \<and> role (raft t) = Follower"

definition quiet :: "server \<Rightarrow> server \<Rightarrow> bool" where
  "quiet s t \<longleftrightarrow> vote_frame s t \<or> stepped_up s t"

lemma vote_frame_length: "vote_frame s t \<Longrightarrow> length (cluster (raft t)) = length (cluster (raft s))"
  by (metis vote_frame_def length_map)

lemma vote_frame_trans: "vote_frame s t \<Longrightarrow> vote_frame t u \<Longrightarrow> vote_frame s u"
  by (auto simp: vote_frame_def)

lemma quiet_trans: "quiet s t \<Longrightarrow> quiet t u \<Longrightarrow> quiet s u"
  by (auto simp: quiet_def stepped_up_def dest: vote_frame_length intro: vote_frame_trans)
    (auto simp: vote_frame_def)

lemma vote_frame_raft: "raft t = raft s \<Longrightarrow> vote_frame s t"
  by (simp add: vote_frame_def)

lemma quiet_raft: "raft t = raft s \<Longrightarrow> quiet s t"
  by (simp add: quiet_def vote_frame_raft)

lemma quiet_refl [simp]: "quiet s s"
  by (simp add: quiet_raft)

lemma quiet_frame:
  assumes "cluster_index (raft t) = cluster_index (raft s)" "node_id (raft t) = node_id (raft s)"
    "current_term (raft t) = current_term (raft s)" "cluster (raft t) = cluster (raft s)"
    "role (raft t) = role (raft s) \<or> role (raft t) = Follower"
  shows "quiet s t"
  using assms by (simp add: quiet_def vote_frame_def)

lemma quiet_andthen:
  assumes "quiet s (snd m)" "\<And>a. fst m = Ret a \<Longrightarrow> quiet (snd m) (snd (f a (snd m)))"
  shows "quiet s (snd (andthen m f))"
  using assms by (cases m; cases "fst m") (auto intro: quiet_trans)

lemma quiet_member:
  assumes "\<And>m. voted_for (f m) = voted_for m"
  shows "quiet s (update_member i f s)"
proof -
  have "map voted_for ((cluster (raft s))[i := f (cluster (raft s) ! i)]) = map voted_for (cluster (raft s))"
    using assms by (metis map_update list_update_id nth_map list_update_beyond not_less length_map)
  then show ?thesis by (simp add: quiet_def vote_frame_def)
qed

lemma quiet_persist: "quiet s (snd (persist_circular w n s))"
  by (simp add: quiet_raft persist_fields)

lemma quiet_reset: "quiet s (reset_election_timeout s)"
  by (rule quiet_frame) simp_all

lemma quiet_ring: "quiet s (upd_ring f s)"
  by (rule quiet_raft) (simp add: upd_ring_def)

lemma quiet_update_term: "wf_cluster (raft s) \<Longrightarrow> quiet s (snd (update_term msg s))"
proof (cases "msg \<le> current_term (raft s)")
  case False
  assume "wf_cluster (raft s)"
  from update_term_raft [OF this, of msg] False show ?thesis
    by (simp add: quiet_def stepped_up_def not_le)
qed (simp add: update_term_stay)

lemma quiet_wf: "quiet s t \<Longrightarrow> wf_cluster (raft t) = wf_cluster (raft s)"
  by (auto simp: quiet_def stepped_up_def wf_cluster_def vote_frame_def dest: arg_cong [of "map _ _" _ length])

lemma vote_frame_my_vote: "vote_frame s t \<Longrightarrow> wf_cluster (raft s) \<Longrightarrow> my_vote t = my_vote s"
  unfolding my_vote_def vote_frame_def by (metis nth_map wf_cluster_nat length_map)

lemma quiet_vote_le: "quiet s t \<Longrightarrow> wf_cluster (raft s) \<Longrightarrow> vote_le s t"
  by (auto simp: quiet_def stepped_up_def vote_le_def vote_frame_my_vote) (simp add: vote_frame_def)+

section \<open>Background steps\<close>

lemma quiet_advance: "quiet s (snd (advance_commit_index tm s))"
proof -
  have r: "raft (snd (advance_commit_index tm s)) = (if role (raft s) = Leader then raft (snd (raise_commit s)) else raft s)"
    by (cases "raise_commit s"; cases "fst (raise_commit s)")
      (auto simp: advance_commit_index_def wake_slot_gc_def Let_def)
  have "node_id (raft (snd (raise_commit s))) = node_id (raft s)"
    by (auto simp: raise_commit_def Let_def upd_raft_def split: outcome.splits)
  then show ?thesis by (intro quiet_frame) (simp_all add: r)
qed

lemma quiet_heartbeat: "quiet s (heartbeat s)"
  by (rule quiet_frame) (simp_all add: heartbeat_def Let_def now_def upd_raft_def)

lemma quiet_accept: "quiet s (snd (ae_accept tm pre w2 post req rsp s))"
  unfolding ae_accept_def
  by (rule quiet_andthen [OF quiet_trans [OF _ quiet_persist]])
    (auto simp: adopt_commit_def upd_raft_def intro: quiet_frame)

lemma quiet_receive:
  assumes "wf_cluster (raft s)"
  shows "quiet s (snd (ae_receive tm req s))"
proof -
  have f: "quiet t (ae_follow req t)" for t
    by (rule quiet_frame) (simp_all add: ae_follow_def upd_raft_def)
  have fr: "quiet t (reset_election_timeout (ae_follow req t))" for t
    using f quiet_reset quiet_trans by blast
  have acc: "quiet t (snd (andthen (ae_accept tm a b c req rsp (reset_election_timeout (ae_follow req t)))
      (\<lambda>rsp s. (Ret (Answered rsp), s))))" for t a b c rsp
    by (rule quiet_trans [OF fr quiet_andthen [OF quiet_accept]]) simp
  have rg: "quiet t (upd_ring g (reset_election_timeout (ae_follow req t)))" for t g
    by (rule quiet_trans [OF fr quiet_ring])
  show ?thesis
    unfolding ae_receive_def Let_def
    by (rule quiet_andthen [OF quiet_update_term [OF assms]])
      (simp add: f fr acc rg split: outcome.split option.split)
qed

lemma push_metas_quiet: "quiet s (push_metas skip i ms s)"
proof (induction ms arbitrary: i s)
  case (Cons m ms)
  have "quiet s (push_meta skip i m s)"
    by (rule quiet_frame) (auto simp: push_meta_def make_entry_def upd_ring_def upd_raft_def Let_def)
  with Cons.IH show ?case by (auto intro: quiet_trans)
qed simp

lemma quiet_complete: "quiet s (snd (ae_complete tm req rsp new_tail skip copy s))"
  unfolding ae_complete_def Let_def
  by (auto intro!: quiet_trans [OF push_metas_quiet quiet_trans [OF quiet_ring quiet_accept]] quiet_accept
      split: option.splits)

lemma quiet_build: "quiet s (snd (ae_build fi s))"
proof -
  have c: "quiet s (snd (clamp_next fi s))"
    by (auto simp: clamp_next_def Let_def intro: quiet_member)
  have m: "quiet t (update_member fi (\<lambda>m. m\<lparr>inflight := True\<rparr>) t)" for t
    by (rule quiet_member) simp
  show ?thesis
    unfolding ae_build_def Let_def
    by (cases "clamp_next fi s")
      (use c quiet_trans [OF c m] in \<open>auto split: outcome.split option.split prod.split\<close>)
qed

lemma quiet_leader_copy: "quiet s (snd (ae_leader_copy bc fi r s))"
  by (auto simp: ae_leader_copy_def Let_def intro!: quiet_member split: outcome.split prod.split)

lemma quiet_count_send: "quiet s (ae_count_send r s)"
  by (rule quiet_raft) (simp add: ae_count_send_def)

lemma quiet_success: "quiet s (apply_ae_success fi nx n has s)"
proof -
  let ?m = "update_member fi (\<lambda>m. let m = (if max (nx + n) 1 > next_index m then m\<lparr>next_index := max (nx + n) 1\<rparr> else m)
                in m\<lparr>match_index := next_index m - 1\<rparr>) s"
  have "quiet s ?m" by (rule quiet_member) (simp add: Let_def)
  moreover have "quiet t (upd_raft (\<lambda>r. r\<lparr>heartbeat_timeout := 0\<rparr>) t)" for t
    by (rule quiet_frame) (simp_all add: upd_raft_def)
  ultimately have "quiet s ?m \<and> quiet s (upd_raft (\<lambda>r. r\<lparr>heartbeat_timeout := 0\<rparr>) ?m)"
    using quiet_trans by blast
  then show ?thesis unfolding apply_ae_success_def by (simp only: Let_def split: if_split) blast
qed

lemma quiet_backoff: "quiet s (snd (apply_ae_failure_backoff fi pidx cterm cidx sent s))"
proof -
  have "quiet s (update_member fi (\<lambda>m. m\<lparr>next_index := x\<rparr>) s)" for x by (rule quiet_member) simp
  then show ?thesis by (simp add: apply_ae_failure_backoff_def Let_def split: outcome.split)
qed

lemma quiet_sample: "quiet s (ae_record_sample sink smp s)"
  by (rule quiet_raft) (simp add: ae_record_sample_def Let_def split: option.split)

lemma quiet_finish: "quiet s (snd (ae_finish fi sink r rsp tm s))"
proof -
  have m: "quiet t (update_member fi (\<lambda>m. m\<lparr>inflight := False\<rparr>) t)" for t
    by (rule quiet_member) simp
  have b: "quiet t (snd (andthen (apply_ae_failure_backoff fi a c d e t) (\<lambda>_ s. (Ret (), s))))" for t a c d e
    by (simp add: andthen_const_snd quiet_backoff)
  have rest: "quiet t (snd (case rsp of
        None \<Rightarrow> (Ret (), t)
      | Some rsp \<Rightarrow>
          if aer_term rsp > current_term (raft t) then (Ret (), t)
          else if aer_term rsp \<noteq> aeq_term (round_req r) \<and> role (raft t) = Leader then (Ret (), t)
          else
            let s = (if success rsp \<and> round_has_entries r
                     then ae_record_sample sink (ae_sample sink rsp tm t) t else t)
            in if success rsp
               then (Ret (), apply_ae_success fi (round_next r) (round_len r) (round_has_entries r) s)
               else andthen (apply_ae_failure_backoff fi (prev_log_index (round_req r))
                               (conflict_term rsp) (conflict_index rsp) (round_next r) s)
                      (\<lambda>_ s. (Ret (), s))))" for t
    by (auto simp: Let_def b quiet_success intro: quiet_trans [OF quiet_sample quiet_success] split: option.split)
  show ?thesis
    unfolding ae_finish_def using rest [of s] quiet_trans [OF m rest] by (simp add: Let_def)
qed

lemma roll_back_quiet: "quiet s (roll_back n s)"
proof (induction n s rule: roll_back.induct)
  case (2 n s)
  have "quiet s (upd_ring (\<lambda>g. g\<lparr>tail_log_index := tail_log_index g - 1\<rparr>)
      (upd_raft (\<lambda>r. r\<lparr>rlog := butlast (rlog r)\<rparr>) s))"
    by (rule quiet_frame) (simp_all add: upd_ring_def upd_raft_def)
  with 2 show ?case by (auto intro: quiet_trans)
qed simp

lemma quiet_apply_append: "quiet s (snd (apply_append cmds col timed a_held s))"
proof -
  let ?p = "push_commands col cmds s"
  have p: "quiet s ?p" by (rule quiet_frame) (simp_all add: push_commands_eq)
  obtain r t where r: "persist_circular True (int (length cmds)) ?p = (r, t)" by fastforce
  have t: "quiet s t" using quiet_trans [OF p quiet_persist, of True "int (length cmds)"] r by simp
  then have "quiet s (t\<lparr>prof := x\<rparr>)" for x by (rule quiet_trans) (simp add: quiet_raft)
  with t quiet_trans [OF t roll_back_quiet] r show ?thesis
    by (simp add: apply_append_def Let_def split: outcome.split)
qed

lemma quiet_apply_begin: "quiet s (snd (apply_begin cmds timed mutex_a a_held s))"
proof -
  have e: "quiet t (snd (apply_enter cmds col sink a_held t))" for t col sink
    by (simp add: apply_enter_def quiet_apply_append)
  have "quiet s (snd (apply_enter cmds col sink a_held t))" if "raft t = raft s" for t col sink
    by (rule quiet_trans [OF quiet_raft e]) (rule that)
  then show ?thesis by (simp add: apply_begin_def Let_def new_collector_def new_sink_def)
qed

lemma quiet_apply_resume: "quiet s (snd (apply_resume cmds col timed a_held s))"
  by (simp add: apply_resume_def quiet_apply_append)

lemma quiet_apply_replicate: "quiet s (apply_replicate p s)"
  by (rule quiet_raft) (simp add: apply_replicate_def split: apply_progress.split)

lemma apply_loop_quiet: "quiet s (snd (apply_loop n oldest s))"
proof (induction n oldest s rule: apply_loop.induct)
  case (1 n oldest s)
  show ?case
  proof (cases "apply_ready oldest s")
    case True
    show ?thesis
    proof (cases "log_at s (last_applied (raft s))")
      case (Ret e)
      have o: "quiet s (apply_one e s)"
        by (rule quiet_frame) (simp_all add: apply_one_def upd_raft_def Let_def)
      have r: "quiet s (reset_election_timeout (apply_one e s))" by (rule quiet_trans [OF o quiet_reset])
      from 1 True Ret o r show ?thesis
        by (subst apply_loop.simps) (auto simp: Let_def intro: quiet_trans)
    qed (simp_all add: apply_loop.simps True)
  qed (simp add: apply_loop.simps)
qed

lemma quiet_apply_pending: "quiet s (snd (apply_pending ns s))"
  unfolding apply_pending_def
  by (simp, rule impI, rule quiet_andthen [OF apply_loop_quiet]) (simp add: quiet_raft)

lemma quiet_slot_gc: "quiet s (do_slot_gc a b s)"
proof -
  have "cluster_index (raft (trim_log_locked m t)) = cluster_index (raft t)"
    "node_id (raft (trim_log_locked m t)) = node_id (raft t)"
    "current_term (raft (trim_log_locked m t)) = current_term (raft t)"
    "cluster (raft (trim_log_locked m t)) = cluster (raft t)"
    "role (raft (trim_log_locked m t)) = role (raft t)" for m t
    by (simp_all add: trim_log_locked_def upd_raft_def Let_def)
  then show ?thesis
    by (intro quiet_frame) (simp_all add: do_slot_gc_def Let_def split: prod.split)
qed

text \<open>
  One rule per critical section that takes no part in voting, for any values the environment may
  supply: message contents, RPC results, the other threads' progress values, measured times.
\<close>

inductive background :: "server \<Rightarrow> server \<Rightarrow> bool" where
  bg_advance: "background s (snd (advance_commit_index tm s))"
| bg_heartbeat: "background s (heartbeat s)"
| bg_ae_receive: "background s (snd (ae_receive htm req s))"
| bg_ae_complete: "background s (snd (ae_complete htm req rsp new_tail skip copy s))"
| bg_ae_accept: "background s (snd (ae_accept htm pre w2 post req rsp s))"
| bg_ae_build: "background s (snd (ae_build fi s))"
| bg_ae_leader_copy: "background s (snd (ae_leader_copy bc fi r s))"
| bg_ae_count_send: "background s (ae_count_send r s)"
| bg_ae_finish: "background s (snd (ae_finish fi sink r ok_rsp rtm s))"
| bg_apply_begin: "background s (snd (apply_begin cmds timed mutex_a a_held s))"
| bg_apply_resume: "background s (snd (apply_resume cmds col sink a_held s))"
| bg_apply_replicate: "background s (apply_replicate p s)"
| bg_apply_wake: "background s (apply_worker_wake s)"
| bg_apply_pending: "background s (snd (apply_pending ns s))"
| bg_gc_wake: "background s (slot_gc_worker_wake s)"
| bg_slot_gc: "background s (do_slot_gc gc_ns bp_ns s)"
| bg_stop: "background s (stop_signal s)"
| bg_spawn: "background s (append_entries sink s)"

lemma background_quiet:
  assumes "background s t" "wf_cluster (raft s)"
  shows "quiet s t"
  using assms
proof cases
  case (bg_ae_receive htm req)
  with assms(2) show ?thesis by (simp add: quiet_receive)
qed (simp_all add: quiet_advance quiet_heartbeat quiet_complete quiet_accept quiet_build quiet_leader_copy
    quiet_count_send quiet_finish quiet_apply_begin quiet_apply_resume quiet_apply_replicate
    quiet_apply_pending quiet_slot_gc quiet_raft apply_worker_wake_def slot_gc_worker_wake_def stop_signal_def)

section \<open>The steps of a node\<close>

text \<open>
  \<open>timeout\<close> is only a step below the last 64-bit term; an answer to a vote request comes from
  another member.
\<close>

inductive node_step :: "server \<Rightarrow> server \<Rightarrow> bool" where
  ns_background: "background s t \<Longrightarrow> node_step s t"
| ns_timeout: "unat (current_term (raft s)) + 1 < 18446744073709551616 \<Longrightarrow> node_step s (snd (timeout s))"
| ns_become_leader: "node_step s (snd (become_leader s))"
| ns_vote_request: "node_step s (snd (handle_request_vote_request req s))"
| ns_vote_response: "int i \<noteq> cluster_index (raft s) \<Longrightarrow> node_step s (snd (request_vote_finish i req rsp s))"

text \<open>A promotion keeps the term and the votes; the role becomes leader with a quorum only.\<close>

definition vote_same :: "server \<Rightarrow> server \<Rightarrow> bool" where
  "vote_same s t \<longleftrightarrow> vote_frame s t \<and> role (raft t) = role (raft s)"

lemma vote_same_andthen:
  assumes "vote_same s (snd m)" "\<And>a. fst m = Ret a \<Longrightarrow> vote_same (snd m) (snd (f a (snd m)))"
  shows "vote_same s (snd (andthen m f))"
  using assms by (cases m; cases "fst m") (auto simp: vote_same_def intro: vote_frame_trans)

lemma vote_same_trans: "vote_same s t \<Longrightarrow> vote_same t u \<Longrightarrow> vote_same s u"
  by (auto simp: vote_same_def intro: vote_frame_trans)

lemma vote_same_raft:
  "raft t = (raft s)\<lparr>rlog := l\<rparr> \<Longrightarrow> vote_same s t" "raft t = (raft s)\<lparr>last_applied := a\<rparr> \<Longrightarrow> vote_same s t"
  by (simp_all add: vote_same_def vote_frame_def)

lemma vote_same_load: "vote_same s (snd (load_deferred js s))"
  using load_deferred_fields [of js s] by (intro vote_same_raft(1)) blast

lemma vote_same_promotion: "vote_same s (snd (apply_on_promotion o' s))"
  using apply_on_promotion_fields [of o' s] by (intro vote_same_raft(2)) blast

lemma vote_same_persist: "vote_same s (snd (persist_circular w n s))"
  by (simp add: vote_same_def vote_frame_def persist_fields)

lemma vote_same_noop:
  "vote_same s (snd (let (noop, s) = make_entry s;
       s = upd_raft (\<lambda>r. r\<lparr>rlog := rlog r @ [noop\<lparr>e_term := current_term r\<rparr>]\<rparr>) s;
       s = upd_ring (\<lambda>g. g\<lparr>tail_log_index := tail_log_index g + 1\<rparr>) s
     in andthen (persist_circular True 1 s) (\<lambda>_ s.
       let s = upd_raft (\<lambda>r. r\<lparr>cluster := map (\<lambda>m. m\<lparr>next_index := tail_log_index (ring s) - 1,
                 match_index := 0\<rparr>) (cluster r)\<rparr>) s;
           (t, s) = now s
       in (Ret (), upd_raft (\<lambda>r. r\<lparr>heartbeat_timeout := t\<rparr>) s))))"
  unfolding Let_def make_entry_def prod.case
  by (rule vote_same_andthen [OF vote_same_trans [OF _ vote_same_persist]])
    (simp_all add: vote_same_def vote_frame_def upd_raft_def upd_ring_def now_def)

lemma become_leader_votes:
  "vote_same (upd_raft (\<lambda>x. x\<lparr>role := (if quorum_missing (raft s) = 0 then Leader else role (raft s))\<rparr>) s)
     (snd (become_leader s))"
proof (cases "quorum_missing (raft s) = 0")
  case True
  let ?s = "upd_raft (\<lambda>x. x\<lparr>role := Leader\<rparr>) s"
  let ?r = "upd_ring (\<lambda>g. (rebuild_slot_states_from_map g)\<lparr>gc_up_to := 0, gc_has_run := False\<rparr>) ?s"
  have r: "vote_same ?s ?r" by (simp add: vote_same_def vote_frame_def upd_ring_def)
  have eq: "become_leader s = andthen (load_deferred [1..<length (rlog (raft ?r))] ?r) (\<lambda>_ s.
           andthen (apply_on_promotion (oldest_log_index s) s) (\<lambda>_ s.
           let (noop, s) = make_entry s;
               s = upd_raft (\<lambda>r. r\<lparr>rlog := rlog r @ [noop\<lparr>e_term := current_term r\<rparr>]\<rparr>) s;
               s = upd_ring (\<lambda>g. g\<lparr>tail_log_index := tail_log_index g + 1\<rparr>) s
           in andthen (persist_circular True 1 s) (\<lambda>_ s.
              let s = upd_raft (\<lambda>r. r\<lparr>cluster := map (\<lambda>m. m\<lparr>next_index := tail_log_index (ring s) - 1,
                        match_index := 0\<rparr>) (cluster r)\<rparr>) s;
                  (t, s) = now s
              in (Ret (), upd_raft (\<lambda>r. r\<lparr>heartbeat_timeout := t\<rparr>) s))))"
    using True by (simp only: become_leader_def Let_def if_True simp_thms)
  have "vote_same ?s (snd (become_leader s))"
    unfolding eq
    by (rule vote_same_andthen [OF vote_same_trans [OF r vote_same_load]])
      (rule vote_same_andthen [OF vote_same_promotion], rule vote_same_noop)
  with True show ?thesis by simp
next
  case False
  have "upd_raft (\<lambda>x. x\<lparr>role := role (raft s)\<rparr>) s = s" by (simp add: upd_raft_def)
  with False show ?thesis by (simp add: become_leader_minority vote_same_def vote_frame_def)
qed

lemma become_leader_table:
  fixes s :: server
  defines "t \<equiv> snd (become_leader s)"
  shows "cluster_index (raft t) = cluster_index (raft s)" "node_id (raft t) = node_id (raft s)"
    "current_term (raft t) = current_term (raft s)"
    "map voted_for (cluster (raft t)) = map voted_for (cluster (raft s))"
    "role (raft t) = (if quorum_missing (raft s) = 0 then Leader else role (raft s))"
  using become_leader_votes [of s] by (auto simp: vote_same_def vote_frame_def upd_raft_def t_def)

lemma table_wf:
  "cluster_index (raft t) = cluster_index (raft s) \<Longrightarrow>
   map voted_for (cluster (raft t)) = map voted_for (cluster (raft s)) \<Longrightarrow>
   wf_cluster (raft t) = wf_cluster (raft s)"
  unfolding wf_cluster_def by (metis length_map)

lemma table_my_vote:
  "cluster_index (raft t) = cluster_index (raft s) \<Longrightarrow> wf_cluster (raft s) \<Longrightarrow>
   map voted_for (cluster (raft t)) = map voted_for (cluster (raft s)) \<Longrightarrow> my_vote t = my_vote s"
  unfolding my_vote_def by (metis nth_map wf_cluster_nat length_map)

section \<open>The voting steps\<close>

text \<open>
  How one step of a node may move its voting state: forward in the sense of \<open>vote_le\<close>, with its
  identity and the size of the cluster unchanged.
\<close>

definition vote_move :: "server \<Rightarrow> server \<Rightarrow> bool" where
  "vote_move s t \<longleftrightarrow> vote_le s t \<and> cluster_index (raft t) = cluster_index (raft s) \<and>
     node_id (raft t) = node_id (raft s) \<and> length (cluster (raft t)) = length (cluster (raft s))"

lemma vote_move_trans: "vote_move s t \<Longrightarrow> vote_move t u \<Longrightarrow> vote_move s u"
  by (auto simp: vote_move_def intro: vote_le_trans)

lemma vote_move_wf: "vote_move s t \<Longrightarrow> wf_cluster (raft s) \<Longrightarrow> wf_cluster (raft t)"
  by (simp add: vote_move_def wf_cluster_def)

lemma quiet_move: "quiet s t \<Longrightarrow> wf_cluster (raft s) \<Longrightarrow> vote_move s t"
  unfolding vote_move_def
  by (auto simp: quiet_vote_le) (auto simp: quiet_def stepped_up_def vote_frame_length, simp_all add: vote_frame_def)

lemma vote_move_become_leader: "wf_cluster (raft s) \<Longrightarrow> vote_move s (snd (become_leader s))"
  using become_leader_table [of s] table_my_vote [of "snd (become_leader s)" s]
  unfolding vote_move_def by (metis length_map vote_le_same)

lemma timeout_raft:
  "raft (snd (timeout s)) = (if fst (now s) > election_timeout (raft s) then raft (candidacy s) else raft s)"
proof -
  have "raft (snd (andthen (persist_circular False 0 (candidacy s)) (\<lambda>_ s. (Ret (), request_vote s)))) = raft (candidacy s)"
    using persist_fields(10) [of False 0 "candidacy s"]
    by (cases "persist_circular False 0 (candidacy s)"; cases "fst (persist_circular False 0 (candidacy s))") auto
  then show ?thesis by (simp add: timeout_cases)
qed

lemma candidacy_frame:
  "cluster_index (raft (candidacy s)) = cluster_index (raft s)" "node_id (raft (candidacy s)) = node_id (raft s)"
  "length (cluster (raft (candidacy s))) = length (cluster (raft s))"
  by (simp_all add: candidacy_def) (simp_all add: upd_raft_def now_def)

lemma vote_move_timeout:
  assumes "wf_cluster (raft s)" "unat (current_term (raft s)) + 1 < 18446744073709551616"
  shows "vote_move s (snd (timeout s))"
  using timeout_vote_le [OF assms] by (simp add: vote_move_def timeout_raft candidacy_frame)

lemma vote_move_update_term: "wf_cluster (raft s) \<Longrightarrow> vote_move s (snd (update_term msg s))"
  using quiet_move quiet_update_term by blast

lemma vote_move_request:
  assumes "wf_cluster (raft s)"
  shows "vote_move s (snd (handle_request_vote_request req s))"
proof -
  let ?m = "update_term (rvq_term req) s"
  have m: "vote_move s (snd ?m)" by (rule vote_move_update_term [OF assms])
  have "cluster_index (raft u) = cluster_index (raft t) \<and> node_id (raft u) = node_id (raft t) \<and>
      length (cluster (raft u)) = length (cluster (raft t))"
    if "u = snd (andthen (persist_circular False 0 (voted (candidate_id req) t))
        (\<lambda>_ u. (Ret \<lparr>rvr_term = current_term (raft t), vote_granted = True\<rparr>, u)))" for t u
    by (simp add: that andthen_const_snd persist_fields)
  then have "cluster_index (raft (snd (handle_request_vote_request req s))) = cluster_index (raft (snd ?m)) \<and>
      node_id (raft (snd (handle_request_vote_request req s))) = node_id (raft (snd ?m)) \<and>
      length (cluster (raft (snd (handle_request_vote_request req s)))) = length (cluster (raft (snd ?m)))"
    unfolding handle_request_vote_cases [OF assms] by (cases ?m; cases "fst ?m") auto
  with m handle_request_vote_vote_le [OF assms] show ?thesis by (simp add: vote_move_def)
qed

lemma vote_move_response:
  assumes "wf_cluster (raft s)" "int i \<noteq> cluster_index (raft s)"
  shows "vote_move s (snd (request_vote_finish i req rsp s))"
proof (cases rsp)
  case (Some r)
  let ?m = "update_term (rvr_term r) s"
  have "vote_move s (snd ?m)" by (rule vote_move_update_term [OF assms(1)])
  then have "cluster_index (raft t) = cluster_index (raft s) \<and> node_id (raft t) = node_id (raft s) \<and>
      length (cluster (raft t)) = length (cluster (raft s))" if "t = snd (request_vote_finish i req rsp s)" for t
    using that Some by (cases ?m; cases "fst ?m") (auto simp: request_vote_finish_def vote_move_def)
  with request_vote_finish_vote_le [OF assms] show ?thesis by (simp add: vote_move_def)
qed (simp add: request_vote_finish_def vote_move_def)

lemma node_step_move:
  assumes "node_step s t" "wf_cluster (raft s)"
  shows "vote_move s t"
  using assms by cases (auto intro: vote_move_response vote_move_request vote_move_timeout
      vote_move_become_leader quiet_move background_quiet)

interpretation voting: forward_steps node_step "\<lambda>s. wf_cluster (raft s)" vote_move
  by unfold_locales (auto intro: node_step_move vote_move_trans dest: vote_move_wf node_step_move
      simp: vote_move_def [of s s for s])

text \<open>
  C11. One vote per term, whatever the threads of a node do and in whatever order: along any
  sequence of critical sections the term never goes down, and a vote given in a term is the only
  vote of that term.
\<close>

theorem one_vote_per_term:
  assumes "node_step\<^sup>*\<^sup>* s t" "wf_cluster (raft s)"
  shows "current_term (raft s) \<le> current_term (raft t) \<and>
    (current_term (raft t) = current_term (raft s) \<and> my_vote s \<noteq> 0 \<longrightarrow> my_vote t = my_vote s)"
  using voting.run [OF assms] by (auto simp: vote_move_def vote_le_def)

text \<open>The sample node votes for node 2 and is then asked by node 3.\<close>

theorem one_vote_per_term_witness:
  "\<exists>s t. node_step\<^sup>*\<^sup>* s t \<and> my_vote s = 2 \<and>
     (current_term (raft t) = current_term (raft s) \<longrightarrow> my_vote t = 2)"
proof -
  let ?s = "update_member 0 (\<lambda>m. m\<lparr>voted_for := 2\<rparr>) sample_node"
  let ?t = "snd (handle_request_vote_request (sample_vote\<lparr>candidate_id := 3\<rparr>) ?s)"
  have w: "wf_cluster (raft ?s)" by (simp add: wf_cluster_def)
  have v: "my_vote ?s = 2" by (simp add: my_vote_def)
  have r: "node_step\<^sup>*\<^sup>* ?s ?t" by (intro r_into_rtranclp ns_vote_request)
  from one_vote_per_term [OF r w] v r show ?thesis by (intro exI conjI impI) auto
qed

end
