(* ===== verification/Cluster.thy ===== *)
theory Cluster
  imports Node
begin

text \<open>
  Elections across the nodes of a cluster. \<open>voting\<close> is the abstract specification: every voter casts
  at most one ballot per term, and a candidate is elected by a quorum of ballots of its term. The
  network of detailed nodes is given twice. In \<open>code_step\<close> the sections run as the code has them:
  an answer is counted whenever it arrives, and any node may attempt its promotion. The ballots of
  this network are ballots of the specification, but its promotions need not be: two leaders of one
  term are possible, which theory \<open>ElectionSafety\<close> shows on a run of the code. \<open>network_step\<close> adds the
  two conditions that the code does not check itself (an answer to a vote request is only counted
  while the candidate is still in the term it asked in, and a promotion is only attempted by a
  candidate); under them the whole specification is implemented.
\<close>

section \<open>Quorums and the abstract specification\<close>

locale quorum_system =
  fixes quorum :: "'v set \<Rightarrow> bool"
  assumes meet: "quorum P \<Longrightarrow> quorum Q \<Longrightarrow> \<exists>v. v \<in> P \<and> v \<in> Q"
begin

text \<open>Ballots of one term that name one candidate per voter elect at most one candidate.\<close>

lemma single_winner:
  assumes "quorum P" "quorum Q" "\<forall>v \<in> P. ballot v c" "\<forall>v \<in> Q. ballot v d"
    and "\<And>v c d. ballot v c \<Longrightarrow> ballot v d \<Longrightarrow> c = d"
  shows "c = d"
  using meet [OF assms(1,2)] assms(3-5) by blast

end

definition majority_of :: "nat \<Rightarrow> nat set \<Rightarrow> bool" where
  "majority_of n Q \<longleftrightarrow> Q \<subseteq> {..<n} \<and> n < 2 * card Q"

interpretation majority: quorum_system "majority_of n" for n
proof
  fix P Q :: "nat set"
  assume "majority_of n P" "majority_of n Q"
  then have sub: "P \<union> Q \<subseteq> {..<n}" and big: "n < card P + card Q" and fin: "finite P" "finite Q"
    by (auto simp: majority_of_def intro: finite_subset)
  have "card (P \<union> Q) \<le> n" using card_mono [OF _ sub] by simp
  then have "0 < card (P \<inter> Q)" using card_Un_Int [OF fin] big by linarith
  then show "\<exists>v. v \<in> P \<and> v \<in> Q" by (auto simp: card_gt_0_iff)
qed

text \<open>A ballot is a term, a voter and the candidate it names; \<open>elected\<close> holds the terms won.\<close>

record voting =
  ballots :: "(u64 \<times> nat \<times> u64) set"
  elected :: "(u64 \<times> u64) set"

inductive voting_step :: "nat \<Rightarrow> voting \<Rightarrow> voting \<Rightarrow> bool" for n where
  cast: "(\<And>d. (t, v, d) \<in> ballots a \<Longrightarrow> d = c) \<Longrightarrow>
     voting_step n a (a\<lparr>ballots := insert (t, v, c) (ballots a)\<rparr>)"
| elect: "majority_of n Q \<Longrightarrow> \<forall>v \<in> Q. (t, v, c) \<in> ballots a \<Longrightarrow>
     voting_step n a (a\<lparr>elected := insert (t, c) (elected a)\<rparr>)"

definition voting_inv :: "nat \<Rightarrow> voting \<Rightarrow> bool" where
  "voting_inv n a \<longleftrightarrow> (\<forall>t v c d. (t, v, c) \<in> ballots a \<longrightarrow> (t, v, d) \<in> ballots a \<longrightarrow> c = d) \<and>
     (\<forall>t c. (t, c) \<in> elected a \<longrightarrow> (\<exists>Q. majority_of n Q \<and> (\<forall>v \<in> Q. (t, v, c) \<in> ballots a)))"

lemma voting_step_inv: "voting_step n a b \<Longrightarrow> voting_inv n a \<Longrightarrow> voting_inv n b"
proof (induction rule: voting_step.induct)
  case (cast t v a c)
  then show ?case unfolding voting_inv_def by (simp, metis)
next
  case (elect Q t c a)
  then show ?case unfolding voting_inv_def by (simp, metis)
qed

lemma voting_steps_inv: "(voting_step n)\<^sup>*\<^sup>* a b \<Longrightarrow> voting_inv n a \<Longrightarrow> voting_inv n b"
  by (induction rule: rtranclp_induct) (blast intro: voting_step_inv)+

lemma voting_one_winner:
  assumes "voting_inv n a" "(t, c) \<in> elected a" "(t, d) \<in> elected a"
  shows "c = d"
proof -
  obtain P Q where q: "majority_of n P" "majority_of n Q" "\<forall>v \<in> P. (t, v, c) \<in> ballots a"
    "\<forall>v \<in> Q. (t, v, d) \<in> ballots a"
    using assms unfolding voting_inv_def by metis
  show ?thesis
    using assms(1) unfolding voting_inv_def
    by (intro majority.single_winner [OF q]) blast
qed

section \<open>The network\<close>

text \<open>
  The nodes, the granted answers on their way, and the history: every vote a node has held, every
  promotion.
\<close>

record network =
  nodes :: "server list"
  grants :: "(u64 \<times> nat \<times> u64) set"
  history :: voting

text \<open>The ballot a node's state shows, and the network after a step of node \<open>i\<close>.\<close>

definition ballot :: "nat \<Rightarrow> server \<Rightarrow> (u64 \<times> nat \<times> u64) set" where
  "ballot i t = (if my_vote t = 0 then {} else {(current_term (raft t), i, my_vote t)})"

definition observe :: "nat \<Rightarrow> server \<Rightarrow> network \<Rightarrow> network" where
  "observe i t n = n\<lparr>nodes := (nodes n)[i := t],
     history := (history n)\<lparr>ballots := ballots (history n) \<union> ballot i t\<rparr>\<rparr>"

definition promote :: "server \<Rightarrow> network \<Rightarrow> network" where
  "promote t n = (if role (raft t) = Leader
     then n\<lparr>history := (history n)\<lparr>elected := insert (current_term (raft t), node_id (raft t)) (elected (history n))\<rparr>\<rparr>
     else n)"

definition granted :: "nat \<Rightarrow> u64 \<Rightarrow> request_vote_response outcome \<Rightarrow> (u64 \<times> nat \<times> u64) set" where
  "granted i cand r = (case r of
     Ret rsp \<Rightarrow> if vote_granted rsp then {(rvr_term rsp, i, cand)} else {} | _ \<Rightarrow> {})"

text \<open>The critical sections as the code runs them, with the messages in between.\<close>

inductive code_step :: "network \<Rightarrow> network \<Rightarrow> bool" where
  code_background: "i < length (nodes n) \<Longrightarrow> background (nodes n ! i) t \<Longrightarrow> code_step n (observe i t n)"
| code_timeout: "i < length (nodes n) \<Longrightarrow> unat (current_term (raft (nodes n ! i))) + 1 < 18446744073709551616 \<Longrightarrow>
     code_step n (observe i (snd (timeout (nodes n ! i))) n)"
| code_promote: "i < length (nodes n) \<Longrightarrow> t = snd (become_leader (nodes n ! i)) \<Longrightarrow>
     code_step n (promote t (observe i t n))"
| code_request: "i < length (nodes n) \<Longrightarrow> candidate_id req \<noteq> 0 \<Longrightarrow>
     handle_request_vote_request req (nodes n ! i) = (r, t) \<Longrightarrow>
     code_step n ((observe i t n)\<lparr>grants := grants n \<union> granted i (candidate_id req) r\<rparr>)"
| code_response: "j < length (nodes n) \<Longrightarrow> i < length (nodes n) \<Longrightarrow> i \<noteq> j \<Longrightarrow>
     (vote_granted rsp \<Longrightarrow> (rvr_term rsp, i, node_id (raft (nodes n ! j))) \<in> grants n) \<Longrightarrow>
     code_step n (observe j (snd (request_vote_finish i req (Some rsp) (nodes n ! j))) n)"

text \<open>The same with the two conditions: answers of the current term only, candidates only.\<close>

inductive network_step :: "network \<Rightarrow> network \<Rightarrow> bool" where
  net_background: "i < length (nodes n) \<Longrightarrow> background (nodes n ! i) t \<Longrightarrow> network_step n (observe i t n)"
| net_timeout: "i < length (nodes n) \<Longrightarrow> unat (current_term (raft (nodes n ! i))) + 1 < 18446744073709551616 \<Longrightarrow>
     network_step n (observe i (snd (timeout (nodes n ! i))) n)"
| net_promote: "i < length (nodes n) \<Longrightarrow> role (raft (nodes n ! i)) = Candidate \<Longrightarrow>
     t = snd (become_leader (nodes n ! i)) \<Longrightarrow> network_step n (promote t (observe i t n))"
| net_request: "i < length (nodes n) \<Longrightarrow> candidate_id req \<noteq> 0 \<Longrightarrow>
     handle_request_vote_request req (nodes n ! i) = (r, t) \<Longrightarrow>
     network_step n ((observe i t n)\<lparr>grants := grants n \<union> granted i (candidate_id req) r\<rparr>)"
| net_response: "j < length (nodes n) \<Longrightarrow> i < length (nodes n) \<Longrightarrow> i \<noteq> j \<Longrightarrow>
     rvq_term req = current_term (raft (nodes n ! j)) \<Longrightarrow>
     (vote_granted rsp \<Longrightarrow> (rvr_term rsp, i, node_id (raft (nodes n ! j))) \<in> grants n) \<Longrightarrow>
     network_step n (observe j (snd (request_vote_finish i req (Some rsp) (nodes n ! j))) n)"

lemma network_step_code: "network_step n n' \<Longrightarrow> code_step n n'"
  by (induction rule: network_step.induct) (blast intro: code_step.intros)+

lemma network_steps_code: "network_step\<^sup>*\<^sup>* n n' \<Longrightarrow> code_step\<^sup>*\<^sup>* n n'"
  by (induction rule: rtranclp_induct) (auto intro: network_step_code rtranclp.rtrancl_into_rtrancl)

section \<open>The invariant of the network\<close>

definition node_ok :: "network \<Rightarrow> nat \<Rightarrow> bool" where
  "node_ok n i \<longleftrightarrow> wf_cluster (raft (nodes n ! i)) \<and> cluster_index (raft (nodes n ! i)) = int i \<and>
     length (cluster (raft (nodes n ! i))) = length (nodes n) \<and> node_id (raft (nodes n ! i)) \<noteq> 0 \<and>
     (my_vote (nodes n ! i) \<noteq> 0 \<longrightarrow>
        (current_term (raft (nodes n ! i)), i, my_vote (nodes n ! i)) \<in> ballots (history n))"

text \<open>What a node that is not a follower counts as votes for itself are ballots of its term.\<close>

definition counted_ok :: "network \<Rightarrow> server \<Rightarrow> bool" where
  "counted_ok n s \<longleftrightarrow> (role (raft s) \<noteq> Follower \<longrightarrow>
     (\<forall>v < length (cluster (raft s)). voted_for (cluster (raft s) ! v) = node_id (raft s) \<longrightarrow>
        (current_term (raft s), v, node_id (raft s)) \<in> ballots (history n)))"

definition ballot_ok :: "network \<Rightarrow> u64 \<times> nat \<times> u64 \<Rightarrow> bool" where
  "ballot_ok n b \<longleftrightarrow> (case b of (t, v, c) \<Rightarrow> c \<noteq> 0 \<and> v < length (nodes n) \<and>
     (t < current_term (raft (nodes n ! v)) \<or>
      t = current_term (raft (nodes n ! v)) \<and> my_vote (nodes n ! v) = c))"

definition ballot_inv :: "network \<Rightarrow> bool" where
  "ballot_inv n \<longleftrightarrow> (\<forall>i < length (nodes n). node_ok n i) \<and>
     (\<forall>b \<in> ballots (history n). ballot_ok n b) \<and> grants n \<subseteq> ballots (history n)"

definition network_inv :: "network \<Rightarrow> bool" where
  "network_inv n \<longleftrightarrow> (\<forall>i < length (nodes n). node_ok n i \<and> counted_ok n (nodes n ! i)) \<and>
     (\<forall>b \<in> ballots (history n). ballot_ok n b) \<and> grants n \<subseteq> ballots (history n)"

lemma network_ballot_inv: "network_inv n \<longleftrightarrow> ballot_inv n \<and> (\<forall>i < length (nodes n). counted_ok n (nodes n ! i))"
  by (auto simp: network_inv_def ballot_inv_def)

lemma observe_fields [simp]:
  "length (nodes (observe i t n)) = length (nodes n)" "grants (observe i t n) = grants n"
  "nodes (observe i t n) = (nodes n)[i := t]" "elected (history (observe i t n)) = elected (history n)"
  "ballots (history (observe i t n)) = ballots (history n) \<union> ballot i t"
  by (simp_all add: observe_def)

text \<open>
  The ballots after a step of node \<open>i\<close> that moves its voting state forward: the old ones are still
  accounted for, and a new one does not contradict them.
\<close>

lemma observe_ballots:
  assumes "ballot_inv n" "i < length (nodes n)" "vote_move (nodes n ! i) t"
  shows "\<forall>b \<in> ballots (history (observe i t n)). ballot_ok (observe i t n) b"
    and "(current_term (raft t), i, d) \<in> ballots (history n) \<Longrightarrow> d = my_vote t"
proof -
  have old: "ballot_ok n b" if "b \<in> ballots (history n)" for b using assms(1) that by (simp add: ballot_inv_def)
  have le: "vote_le (nodes n ! i) t" using assms(3) by (simp add: vote_move_def)
  have "ballot_ok (observe i t n) b" if b: "b \<in> ballots (history n)" for b
    using old [OF b] le assms(2) by (cases b) (auto simp: ballot_ok_def vote_le_def nth_list_update)
  moreover have "ballot_ok (observe i t n) b" if "b \<in> ballot i t" for b
    using that assms(2) by (auto simp: ballot_def ballot_ok_def split: if_splits)
  ultimately show "\<forall>b \<in> ballots (history (observe i t n)). ballot_ok (observe i t n) b" by auto
  show "d = my_vote t" if "(current_term (raft t), i, d) \<in> ballots (history n)"
    using old [OF that] le by (auto simp: ballot_ok_def vote_le_def)
qed

lemma observe_ballot_inv:
  assumes "ballot_inv n" "i < length (nodes n)" "vote_move (nodes n ! i) t"
    and "g \<subseteq> ballots (history (observe i t n))"
  shows "ballot_inv ((observe i t n)\<lparr>grants := g\<rparr>)"
proof -
  have nd: "node_ok n k" if "k < length (nodes n)" for k
    using assms(1) that by (auto simp: ballot_inv_def)
  have "node_ok (observe i t n) k" if k: "k < length (nodes n)" for k
  proof (cases "k = i")
    case True
    have "wf_cluster (raft t)" using nd [OF assms(2)] vote_move_wf [OF assms(3)] by (simp add: node_ok_def)
    then show ?thesis
      using nd [OF assms(2)] assms(2,3) True
      by (auto simp: node_ok_def vote_move_def ballot_def)
  qed (use nd [OF k] in \<open>auto simp: node_ok_def\<close>)
  then show ?thesis
    using observe_ballots(1) [OF assms(1-3)] assms(4)
    by (auto simp: ballot_inv_def node_ok_def ballot_ok_def)
qed

lemma observe_inv:
  assumes "network_inv n" "i < length (nodes n)" "vote_move (nodes n ! i) t" "counted_ok (observe i t n) t"
    and "g \<subseteq> ballots (history (observe i t n))"
  shows "network_inv ((observe i t n)\<lparr>grants := g\<rparr>)"
proof -
  have n: "ballot_inv n" "\<And>k. k < length (nodes n) \<Longrightarrow> counted_ok n (nodes n ! k)"
    using assms(1) by (simp_all add: network_ballot_inv)
  have "counted_ok (observe i t n) (nodes (observe i t n) ! k)" if k: "k < length (nodes n)" for k
    using n(2) [OF k] assms(2,4) by (cases "k = i") (auto simp: counted_ok_def)
  then show ?thesis
    using observe_ballot_inv [OF n(1) assms(2,3,5)] by (simp add: network_ballot_inv counted_ok_def)
qed

text \<open>A step that moves one node's voting state forward casts at most one ballot, whoever has been elected.\<close>

lemma observe_refines:
  assumes "ballot_inv n" "i < length (nodes n)" "vote_move (nodes n ! i) t"
  shows "(voting_step m)\<^sup>*\<^sup>* ((history n)\<lparr>elected := e\<rparr>) ((history (observe i t n))\<lparr>elected := e\<rparr>)"
proof (cases "my_vote t = 0")
  case False
  let ?a = "(history n)\<lparr>elected := e\<rparr>"
  have "voting_step m ?a (?a\<lparr>ballots := insert (current_term (raft t), i, my_vote t) (ballots ?a)\<rparr>)"
    by (rule cast) (use observe_ballots(2) [OF assms] in simp)
  moreover have "(history (observe i t n))\<lparr>elected := e\<rparr> =
      ?a\<lparr>ballots := insert (current_term (raft t), i, my_vote t) (ballots ?a)\<rparr>"
    using False by (simp add: observe_def ballot_def)
  ultimately show ?thesis by simp
qed (simp add: observe_def ballot_def)

section \<open>Every step keeps the invariant\<close>

lemma counted_mono: "counted_ok n s \<Longrightarrow> counted_ok (observe i t n) s"
  by (auto simp: counted_ok_def)

lemma counted_table:
  assumes "counted_ok n s" "current_term (raft t) = current_term (raft s)" "node_id (raft t) = node_id (raft s)"
    "map voted_for (cluster (raft t)) = map voted_for (cluster (raft s))" "role (raft s) \<noteq> Follower"
  shows "counted_ok n t"
  using assms unfolding counted_ok_def by (metis length_map nth_map)

lemma counted_quiet:
  assumes "quiet s t" "counted_ok n s"
  shows "counted_ok n t"
proof (cases "role (raft t) = Follower")
  case False
  then have "vote_frame s t" "role (raft t) = role (raft s)"
    using assms(1) by (auto simp: quiet_def stepped_up_def vote_frame_def)
  then show ?thesis
    using False unfolding vote_frame_def by (intro counted_table [OF assms(2)]) argo+
qed (simp add: counted_ok_def)

lemma counted_candidacy:
  assumes "node_ok n i" "i < length (nodes n)" "s = nodes n ! i" "raft t = raft (candidacy s)"
  shows "counted_ok (observe i t n) t"
proof -
  have w: "wf_cluster (raft s)" and ix: "cluster_index (raft s) = int i" and id: "node_id (raft s) \<noteq> 0"
    using assms(1,3) by (simp_all add: node_ok_def)
  note f = candidacy_fields [OF w]
  have mv: "my_vote t = node_id (raft t)" using f(3) assms(4) by (simp add: my_vote_def candidacy_frame)
  have "v = i" if "v < length (cluster (raft t))" "voted_for (cluster (raft t) ! v) = node_id (raft t)" for v
    using that f(5) [of v] id ix assms(4) by (cases "v = i") (auto simp: candidacy_frame)
  then show ?thesis
    using mv id assms(4) by (auto simp: counted_ok_def ballot_def candidacy_frame)
qed

lemma counted_voted:
  assumes w: "wf_cluster (raft s)" and "counted_ok n s" and ix: "cluster_index (raft s) = int i"
    and "c \<noteq> 0" "raft t = raft (voted c s)"
  shows "counted_ok (observe i t n) t"
proof -
  have mv: "my_vote t = c" using voted_vote [OF w] assms(5) by (simp add: my_vote_def)
  have cl: "cluster (raft (voted c s)) = (cluster (raft s))[i := (cluster (raft s) ! i)\<lparr>voted_for := c\<rparr>]"
    using ix by (simp add: voted_def)
  show ?thesis
    unfolding counted_ok_def
  proof (intro impI allI)
    fix v assume v: "role (raft t) \<noteq> Follower" "v < length (cluster (raft t))"
      "voted_for (cluster (raft t) ! v) = node_id (raft t)"
    show "(current_term (raft t), v, node_id (raft t)) \<in> ballots (history (observe i t n))"
    proof (cases "v = i")
      case True
      with v cl assms(4,5) mv show ?thesis by (simp add: ballot_def)
    next
      case False
      with v cl assms(2,5) show ?thesis by (simp add: counted_ok_def)
    qed
  qed
qed

lemma request_outcomes:
  assumes "wf_cluster (raft s)" "handle_request_vote_request req s = (r, t)"
  shows "quiet s t \<and> granted i (candidate_id req) r = {} \<or>
    (\<exists>m. quiet s m \<and> raft t = raft (voted (candidate_id req) m) \<and> wf_cluster (raft m) \<and>
       granted i (candidate_id req) r \<subseteq> {(current_term (raft t), i, candidate_id req)})"
proof -
  let ?m = "update_term (rvq_term req) s"
  have q: "quiet s (snd ?m)" "wf_cluster (raft (snd ?m))"
    using quiet_update_term [OF assms(1)] update_term_raft(2) [OF assms(1)] by simp_all
  show ?thesis
  proof (cases "\<exists>b. fst ?m = Ret b \<and> would_grant req (snd ?m)")
    case True
    then have run: "(r, t) = andthen (persist_circular False 0 (voted (candidate_id req) (snd ?m)))
        (\<lambda>_ u. (Ret \<lparr>rvr_term = current_term (raft (snd ?m)), vote_granted = True\<rparr>, u))"
      using assms(2) unfolding handle_request_vote_cases [OF assms(1)] by (cases ?m) auto
    then have "raft t = raft (voted (candidate_id req) (snd ?m))"
      using andthen_const_snd [of "\<lambda>_ u. (Ret \<lparr>rvr_term = current_term (raft (snd ?m)), vote_granted = True\<rparr>, u)"
          "persist_circular False 0 (voted (candidate_id req) (snd ?m))"]
      by (metis persist_fields(10) snd_conv)
    moreover from this have "granted i (candidate_id req) r \<subseteq> {(current_term (raft t), i, candidate_id req)}"
      using run by (cases "persist_circular False 0 (voted (candidate_id req) (snd ?m))";
          cases "fst (persist_circular False 0 (voted (candidate_id req) (snd ?m)))") (auto simp: granted_def)
    ultimately show ?thesis using q by blast
  next
    case False
    then show ?thesis
      using assms(2) q unfolding handle_request_vote_cases [OF assms(1)]
      by (cases ?m; cases "fst ?m") (auto simp: granted_def)
  qed
qed

text \<open>An answer that grants is backed by a ballot.\<close>

lemma request_grants:
  assumes "wf_cluster (raft s)" "handle_request_vote_request req s = (r, t)" "candidate_id req \<noteq> 0"
  shows "granted i (candidate_id req) r \<subseteq> ballot i t"
  using request_outcomes [OF assms(1,2), of i]
proof (elim disjE conjE exE)
  fix m assume m: "raft t = raft (voted (candidate_id req) m)" "wf_cluster (raft m)"
    "granted i (candidate_id req) r \<subseteq> {(current_term (raft t), i, candidate_id req)}"
  have "my_vote t = candidate_id req" using voted_vote [OF m(2)] m(1) by (simp add: my_vote_def)
  with m(3) assms(3) show ?thesis by (simp add: ballot_def)
qed simp

lemma response_outcomes:
  assumes "wf_cluster (raft s)"
  shows "quiet s (snd (request_vote_finish i req (Some rsp) s)) \<or>
    rvr_term rsp = rvq_term req \<and> rvr_term rsp \<le> current_term (raft s) \<and> vote_granted rsp \<and>
    snd (request_vote_finish i req (Some rsp) s) = update_member i (\<lambda>m. m\<lparr>voted_for := node_id (raft s)\<rparr>) s"
proof (cases "rvr_term rsp \<le> current_term (raft s)")
  case True
  then show ?thesis by (simp add: request_vote_finish_def update_term_stay)
next
  case False
  have "snd (request_vote_finish i req (Some rsp) s) = snd (update_term (rvr_term rsp) s)"
    using False update_term_Ret [OF assms, of "rvr_term rsp"]
    by (cases "update_term (rvr_term rsp) s"; cases "fst (update_term (rvr_term rsp) s)")
      (auto simp: request_vote_finish_def)
  with quiet_update_term [OF assms] show ?thesis by simp
qed

lemma counted_response:
  assumes "counted_ok n s" "(current_term (raft s), i, node_id (raft s)) \<in> ballots (history n)"
  shows "counted_ok n (update_member i (\<lambda>m. m\<lparr>voted_for := node_id (raft s)\<rparr>) s)"
  unfolding counted_ok_def
proof (intro impI allI)
  fix v assume "role (raft (update_member i (\<lambda>m. m\<lparr>voted_for := node_id (raft s)\<rparr>) s)) \<noteq> Follower"
    "v < length (cluster (raft (update_member i (\<lambda>m. m\<lparr>voted_for := node_id (raft s)\<rparr>) s)))"
    "voted_for (cluster (raft (update_member i (\<lambda>m. m\<lparr>voted_for := node_id (raft s)\<rparr>) s)) ! v) =
       node_id (raft (update_member i (\<lambda>m. m\<lparr>voted_for := node_id (raft s)\<rparr>) s))"
  with assms show "(current_term (raft (update_member i (\<lambda>m. m\<lparr>voted_for := node_id (raft s)\<rparr>) s)), v,
      node_id (raft (update_member i (\<lambda>m. m\<lparr>voted_for := node_id (raft s)\<rparr>) s))) \<in> ballots (history n)"
    by (cases "v = i") (auto simp: counted_ok_def)
qed

text \<open>A candidate with a quorum has a majority of ballots of its term.\<close>

lemma counted_majority:
  assumes "counted_ok n s" "role (raft s) \<noteq> Follower" "quorum_missing (raft s) = 0"
    "length (cluster (raft s)) = m"
  shows "\<exists>Q. majority_of m Q \<and> (\<forall>v \<in> Q. (current_term (raft s), v, node_id (raft s)) \<in> ballots (history n))"
proof -
  let ?Q = "{v. v < length (cluster (raft s)) \<and> voted_for (cluster (raft s) ! v) = node_id (raft s)}"
  have "card ?Q = votes (raft s)" unfolding votes_def by (simp add: length_filter_conv_card)
  then have "majority_of m ?Q"
    using assms(3,4) by (auto simp: majority_of_def quorum_majority)
  with assms(1,2) show ?thesis by (intro exI [of _ ?Q]) (auto simp: counted_ok_def)
qed

lemma promote_fields [simp]:
  "nodes (promote t n) = nodes n" "grants (promote t n) = grants n" "ballots (history (promote t n)) = ballots (history n)"
  by (simp_all add: promote_def)

lemma network_inv_promote [simp]: "network_inv (promote t n) = network_inv n"
  by (simp add: network_inv_def node_ok_def counted_ok_def ballot_ok_def)

text \<open>What every step does: it keeps the invariant and implements steps of the specification.\<close>

definition sound_step :: "network \<Rightarrow> network \<Rightarrow> bool" where
  "sound_step n n' \<longleftrightarrow> network_inv n' \<and> length (nodes n') = length (nodes n) \<and>
     (voting_step (length (nodes n)))\<^sup>*\<^sup>* (history n) (history n')"

lemma inv_node:
  assumes "network_inv n" "k < length (nodes n)"
  shows "node_ok n k" "counted_ok n (nodes n ! k)" "wf_cluster (raft (nodes n ! k))"
    "cluster_index (raft (nodes n ! k)) = int k" "length (cluster (raft (nodes n ! k))) = length (nodes n)"
  using assms by (auto simp: network_inv_def node_ok_def)

lemma observe_sound:
  assumes "network_inv n" "i < length (nodes n)" "vote_move (nodes n ! i) t" "counted_ok (observe i t n) t"
  shows "sound_step n (observe i t n)"
    and "g \<subseteq> ballots (history (observe i t n)) \<Longrightarrow> sound_step n ((observe i t n)\<lparr>grants := g\<rparr>)"
proof -
  show *: "sound_step n ((observe i t n)\<lparr>grants := g\<rparr>)" if "g \<subseteq> ballots (history (observe i t n))" for g
    using observe_inv [OF assms that] observe_refines [OF _ assms(2,3), of "length (nodes n)" "elected (history n)"] assms(1)
    by (simp add: sound_step_def network_ballot_inv) (simp add: observe_def)
  have "(observe i t n)\<lparr>grants := grants n\<rparr> = observe i t n" by (simp add: observe_def)
  with * [of "grants n"] show "sound_step n (observe i t n)"
    using assms(1) by (auto simp: network_inv_def)
qed

lemma timeout_sound:
  assumes n: "network_inv n" and i: "i < length (nodes n)"
    and "unat (current_term (raft (nodes n ! i))) + 1 < 18446744073709551616"
  shows "sound_step n (observe i (snd (timeout (nodes n ! i))) n)"
proof (rule observe_sound(1) [OF n i vote_move_timeout [OF inv_node(3) [OF n i] assms(3)]])
  let ?t = "snd (timeout (nodes n ! i))"
  show "counted_ok (observe i ?t n) ?t"
  proof (cases "raft ?t = raft (candidacy (nodes n ! i))")
    case True
    then show ?thesis by (rule counted_candidacy [OF inv_node(1) [OF n i] i refl])
  next
    case False
    then have "raft ?t = raft (nodes n ! i)" by (auto simp: timeout_raft split: if_splits)
    with inv_node(2) [OF n i] show ?thesis by (auto simp: counted_ok_def)
  qed
qed

lemma promote_sound:
  assumes n: "network_inv n" and i: "i < length (nodes n)" and r: "role (raft (nodes n ! i)) = Candidate"
    and t: "t = snd (become_leader (nodes n ! i))"
  shows "sound_step n (promote t (observe i t n))"
proof -
  let ?s = "nodes n ! i"
  note b = become_leader_table [of ?s, folded t]
  have mv: "vote_move ?s t" using vote_move_become_leader [OF inv_node(3) [OF n i]] t by simp
  have "counted_ok n t" using counted_table [OF inv_node(2) [OF n i] b(3) b(2) b(4)] r by simp
  then have o: "sound_step n (observe i t n)" by (intro observe_sound [OF n i mv] counted_mono)
  have "(voting_step (length (nodes n)))\<^sup>*\<^sup>* (history (observe i t n)) (history (promote t (observe i t n)))"
  proof (cases "role (raft t) = Leader")
    case True
    then have q: "quorum_missing (raft ?s) = 0" using b(5) r by (simp split: if_splits)
    with counted_majority [OF inv_node(2) [OF n i] _ q inv_node(5) [OF n i]] r b(2,3)
    obtain Q where "majority_of (length (nodes n)) Q"
      "\<forall>v \<in> Q. (current_term (raft t), v, node_id (raft t)) \<in> ballots (history (observe i t n))" by auto
    from elect [OF this] True show ?thesis by (auto simp: promote_def)
  qed (simp add: promote_def)
  with o show ?thesis by (auto simp: sound_step_def)
qed

lemma request_sound:
  assumes n: "network_inv n" and i: "i < length (nodes n)" and c: "candidate_id req \<noteq> 0"
    and run: "handle_request_vote_request req (nodes n ! i) = (r, t)"
  shows "sound_step n ((observe i t n)\<lparr>grants := grants n \<union> granted i (candidate_id req) r\<rparr>)"
proof -
  let ?s = "nodes n ! i"
  note w = inv_node(3) [OF n i]
  have g: "grants n \<subseteq> ballots (history n)" using n by (simp add: network_inv_def)
  have mv: "vote_move ?s t" using vote_move_request [OF w, of req] run by simp
  have "counted_ok (observe i t n) t"
    using request_outcomes [OF w run, of i]
  proof (elim disjE conjE exE)
    assume q: "quiet ?s t"
    with counted_mono [OF counted_quiet [OF q inv_node(2) [OF n i]]] show ?thesis by simp
  next
    fix m assume m: "quiet ?s m" "raft t = raft (voted (candidate_id req) m)" "wf_cluster (raft m)"
    have ix: "cluster_index (raft m) = int i"
      using inv_node(4) [OF n i] quiet_move [OF m(1) w] by (simp add: vote_move_def)
    show ?thesis by (rule counted_voted [OF m(3) counted_quiet [OF m(1) inv_node(2) [OF n i]] ix c m(2)])
  qed
  with g request_grants [OF w run c, of i] show ?thesis by (intro observe_sound(2) [OF n i mv]) auto
qed

lemma response_sound:
  assumes n: "network_inv n" and j: "j < length (nodes n)" and ij: "i \<noteq> j"
    and tm: "rvq_term req = current_term (raft (nodes n ! j))"
    and gr: "vote_granted rsp \<Longrightarrow> (rvr_term rsp, i, node_id (raft (nodes n ! j))) \<in> grants n"
  shows "sound_step n (observe j (snd (request_vote_finish i req (Some rsp) (nodes n ! j))) n)"
proof -
  let ?s = "nodes n ! j" and ?t = "snd (request_vote_finish i req (Some rsp) (nodes n ! j))"
  note w = inv_node(3) [OF n j]
  have mv: "vote_move ?s ?t" by (rule vote_move_response [OF w]) (use ij inv_node(4) [OF n j] in simp)
  have "counted_ok n ?t"
    using response_outcomes [OF w, of i req rsp]
  proof (elim disjE conjE)
    assume "quiet ?s ?t" then show ?thesis by (rule counted_quiet [OF _ inv_node(2) [OF n j]])
  next
    assume r: "rvr_term rsp = rvq_term req" "vote_granted rsp"
      "?t = update_member i (\<lambda>m. m\<lparr>voted_for := node_id (raft ?s)\<rparr>) ?s"
    have "(current_term (raft ?s), i, node_id (raft ?s)) \<in> ballots (history n)"
      using tm gr r(1,2) n by (auto simp: network_inv_def)
    with r(3) counted_response [OF inv_node(2) [OF n j]] show ?thesis by simp
  qed
  then show ?thesis by (intro observe_sound(1) [OF n j mv] counted_mono)
qed

lemma network_step_sound:
  assumes "network_step n n'" "network_inv n"
  shows "sound_step n n'"
  using assms
proof cases
  case (net_background i t)
  note w = inv_node [OF assms(2) net_background(2)]
  have q: "quiet (nodes n ! i) t" by (rule background_quiet [OF net_background(3) w(3)])
  show ?thesis
    unfolding net_background(1)
    by (intro observe_sound(1) [OF assms(2) net_background(2) quiet_move [OF q w(3)]] counted_mono counted_quiet [OF q w(2)])
qed (use assms(2) in \<open>auto intro: timeout_sound promote_sound request_sound response_sound\<close>)

section \<open>Leaders\<close>

definition node_ids :: "network \<Rightarrow> u64 list" where
  "node_ids n = map (\<lambda>s. node_id (raft s)) (nodes n)"

definition leaders_ok :: "network \<Rightarrow> bool" where
  "leaders_ok n \<longleftrightarrow> (\<forall>i < length (nodes n). role (raft (nodes n ! i)) = Leader \<longrightarrow>
     (current_term (raft (nodes n ! i)), node_id (raft (nodes n ! i))) \<in> elected (history n))"

text \<open>Outside a promotion a leader is one that was a leader of the same term before.\<close>

definition leader_kept :: "server \<Rightarrow> server \<Rightarrow> bool" where
  "leader_kept s t \<longleftrightarrow> node_id (raft t) = node_id (raft s) \<and>
     (role (raft t) = Leader \<longrightarrow> role (raft s) = Leader \<and> current_term (raft t) = current_term (raft s))"

lemma leader_kept_quiet: "quiet s t \<Longrightarrow> leader_kept s t"
  by (auto simp: quiet_def vote_frame_def stepped_up_def leader_kept_def)

lemma leader_kept_timeout:
  assumes "wf_cluster (raft s)"
  shows "leader_kept s (snd (timeout s))"
  using candidacy_fields(2) [OF assms] by (simp add: leader_kept_def timeout_raft candidacy_frame)

lemma leader_kept_request:
  assumes "wf_cluster (raft s)" "handle_request_vote_request req s = (r, t)"
  shows "leader_kept s t"
proof -
  from request_outcomes [OF assms, of 0]
  consider "quiet s t" | m where "quiet s m" "raft t = raft (voted (candidate_id req) m)" by blast
  then show ?thesis
  proof cases
    case 2
    with leader_kept_quiet [OF 2(1)] show ?thesis by (simp add: leader_kept_def)
  qed (rule leader_kept_quiet)
qed

lemma leader_kept_response:
  assumes "wf_cluster (raft s)"
  shows "leader_kept s (snd (request_vote_finish i req (Some rsp) s))"
  using response_outcomes [OF assms, of i req rsp] by (auto simp: leader_kept_quiet) (simp add: leader_kept_def)

lemma node_ids_update:
  assumes "i < length (nodes n)" "node_id (raft t) = node_id (raft (nodes n ! i))" "nodes n' = (nodes n)[i := t]"
  shows "node_ids n' = node_ids n"
  using assms by (intro nth_equalityI) (auto simp: node_ids_def nth_list_update)

lemma observe_leaders:
  assumes "leaders_ok n" "leader_kept (nodes n ! i) t" "i < length (nodes n)"
  shows "leaders_ok ((observe i t n)\<lparr>grants := g\<rparr>) \<and> node_ids ((observe i t n)\<lparr>grants := g\<rparr>) = node_ids n"
  using assms by (auto simp: leaders_ok_def leader_kept_def nth_list_update intro: node_ids_update)

lemma network_step_leaders:
  assumes "network_step n n'" "network_inv n" "leaders_ok n"
  shows "leaders_ok n' \<and> node_ids n' = node_ids n"
proof -
  have o: "leaders_ok (observe i t n) \<and> node_ids (observe i t n) = node_ids n"
    if "leader_kept (nodes n ! i) t" "i < length (nodes n)" for i t
    using observe_leaders [OF assms(3) that, of "grants n"] by (simp add: leaders_ok_def node_ids_def)
  from assms(1) show ?thesis
  proof cases
    case (net_promote i t)
    note b = become_leader_table [of "nodes n ! i", folded net_promote(4)]
    have "node_ids n' = node_ids n"
      using net_promote(1,2) b(2) by (intro node_ids_update [where i = i and t = t]) simp_all
    moreover have "leaders_ok n'"
      using assms(3) net_promote(1,2)
      by (auto simp: leaders_ok_def promote_def nth_list_update observe_def)
    ultimately show ?thesis by simp
  next
    case (net_request i req r t)
    with observe_leaders [OF assms(3) leader_kept_request [OF inv_node(3) [OF assms(2)]]] show ?thesis by blast
  qed (use assms(2) o in \<open>auto intro!: leader_kept_quiet background_quiet leader_kept_timeout
        leader_kept_response inv_node(3)\<close>)
qed

text \<open>
  A cluster at start: followers, each in its own place of the table, with distinct non-zero ids;
  the votes they remember are their ballots, and no answer is on its way.
\<close>

definition network_start :: "network \<Rightarrow> bool" where
  "network_start n \<longleftrightarrow> distinct (node_ids n) \<and> 0 \<notin> set (node_ids n) \<and> grants n = {} \<and>
     elected (history n) = {} \<and>
     ballots (history n) = (\<Union>i < length (nodes n). ballot i (nodes n ! i)) \<and>
     (\<forall>i < length (nodes n). role (raft (nodes n ! i)) = Follower \<and>
        cluster_index (raft (nodes n ! i)) = int i \<and>
        length (cluster (raft (nodes n ! i))) = length (nodes n))"

lemma start_inv:
  assumes "network_start n"
  shows "network_inv n \<and> leaders_ok n \<and> voting_inv (length (nodes n)) (history n)"
proof -
  have id: "node_id (raft (nodes n ! i)) \<noteq> 0" if "i < length (nodes n)" for i
  proof -
    have "node_ids n ! i \<in> set (node_ids n)" using that by (intro nth_mem) (simp add: node_ids_def)
    then show ?thesis using assms that by (auto simp: network_start_def node_ids_def)
  qed
  have "node_ok n i \<and> counted_ok n (nodes n ! i)" if "i < length (nodes n)" for i
  proof -
    have "my_vote (nodes n ! i) \<noteq> 0 \<longrightarrow> (current_term (raft (nodes n ! i)), i, my_vote (nodes n ! i)) \<in> ballots (history n)"
      using assms that unfolding network_start_def ballot_def by force
    then show ?thesis
      using assms that id [OF that] by (simp add: network_start_def node_ok_def counted_ok_def wf_cluster_def)
  qed
  moreover have "\<forall>b \<in> ballots (history n). ballot_ok n b"
    using assms by (auto simp: network_start_def ballot_def ballot_ok_def split: if_splits)
  moreover have "voting_inv (length (nodes n)) (history n)"
    using assms by (auto simp: network_start_def voting_inv_def ballot_def split: if_splits)
  ultimately show ?thesis
    using assms by (auto simp: network_inv_def leaders_ok_def network_start_def)
qed

lemma network_reach:
  assumes "network_step\<^sup>*\<^sup>* n n'" "network_inv n" "leaders_ok n"
  shows "network_inv n' \<and> leaders_ok n' \<and> node_ids n' = node_ids n \<and> length (nodes n') = length (nodes n) \<and>
    (voting_step (length (nodes n)))\<^sup>*\<^sup>* (history n) (history n')"
  using assms
proof (induction rule: rtranclp_induct)
  case (step m n')
  then have "sound_step m n'" "leaders_ok n' \<and> node_ids n' = node_ids m"
    using network_step_sound network_step_leaders by blast+
  with step show ?case by (auto simp: sound_step_def)
qed simp

section \<open>The ballots of the code's own steps\<close>

text \<open>What the code keeps without the two conditions: its votes are ballots of the specification.\<close>

definition ballot_step :: "network \<Rightarrow> network \<Rightarrow> bool" where
  "ballot_step n n' \<longleftrightarrow> ballot_inv n' \<and> length (nodes n') = length (nodes n) \<and>
     (\<forall>e. (voting_step (length (nodes n)))\<^sup>*\<^sup>* ((history n)\<lparr>elected := e\<rparr>) ((history n')\<lparr>elected := e\<rparr>))"

lemma observe_ballot_step:
  assumes "ballot_inv n" "i < length (nodes n)" "vote_move (nodes n ! i) t"
    and "g \<subseteq> ballots (history (observe i t n))"
  shows "ballot_step n ((observe i t n)\<lparr>grants := g\<rparr>)"
  using observe_ballot_inv [OF assms] observe_refines [OF assms(1-3)] by (simp add: ballot_step_def)

lemma promote_ballot_step: "ballot_step n n' \<Longrightarrow> ballot_step n (promote t n')"
  by (auto simp: ballot_step_def promote_def ballot_inv_def node_ok_def ballot_ok_def)

lemma code_step_ballots:
  assumes "code_step n n'" "ballot_inv n"
  shows "ballot_step n n'"
proof -
  have w: "wf_cluster (raft (nodes n ! i))" "cluster_index (raft (nodes n ! i)) = int i" if "i < length (nodes n)" for i
    using assms(2) that by (auto simp: ballot_inv_def node_ok_def)
  have g: "grants n \<subseteq> ballots (history n)" using assms(2) by (simp add: ballot_inv_def)
  have o: "ballot_step n (observe i t n)" if "i < length (nodes n)" "vote_move (nodes n ! i) t" for i t
    using observe_ballot_step [OF assms(2) that, of "grants n"] g
    by (simp add: le_supI1) (simp add: observe_def)
  from assms(1) show ?thesis
  proof cases
    case (code_background i t)
    with o w show ?thesis using quiet_move [OF background_quiet] by blast
  next
    case (code_timeout i)
    with o w vote_move_timeout show ?thesis by blast
  next
    case (code_promote i t)
    with o w vote_move_become_leader promote_ballot_step show ?thesis by blast
  next
    case (code_request i req r t)
    then have "vote_move (nodes n ! i) t" using vote_move_request [OF w(1), of i req] by simp
    from observe_ballot_step [OF assms(2) code_request(2) this] code_request g
      request_grants [OF w(1) code_request(4,3), of i]
    show ?thesis by (simp add: le_supI1 le_supI2)
  next
    case (code_response j i rsp req)
    then have "vote_move (nodes n ! j) (snd (request_vote_finish i req (Some rsp) (nodes n ! j)))"
      using w [of j] by (intro vote_move_response) simp_all
    with o code_response show ?thesis by blast
  qed
qed

lemma code_reach:
  assumes "code_step\<^sup>*\<^sup>* n n'" "ballot_inv n"
  shows "ballot_step n n'"
  using assms
proof (induction rule: rtranclp_induct)
  case (step m n')
  then have a: "ballot_step n m" by blast
  then have "ballot_step m n'" using code_step_ballots [OF step.hyps(2)] by (simp add: ballot_step_def)
  with a show ?case by (auto simp: ballot_step_def intro: rtranclp_trans)
qed (simp add: ballot_step_def)

end
