(* ===== verification/ElectionSafety.thy ===== *)
theory ElectionSafety
  imports Cluster
begin

text \<open>
  Election safety of the network of theory \<open>Cluster\<close>, and two runs of a three-node cluster. In the
  first, node 1 is elected as the specification says. In the second an answer to a vote request is delivered after the candidate has
  timed out once more: \<open>request_vote_worker\<close> compares the term of the answer with the term of the
  request, not with the candidate's own, so the answer is counted in the new term, and the cluster
  ends with two leaders of one term.
\<close>

section \<open>At most one leader per term\<close>

text \<open>
  C2. The votes of the nodes implement the voting specification, and under two conditions their
  elections do. In every run of the code's critical sections and messages (\<open>code_step\<close>: answers are
  counted whenever they arrive, any node may attempt its promotion) the votes the nodes hold are a
  run of the specification in which each voter casts at most one ballot per term, and every granted
  answer is backed by a ballot. In a run in which an answer is only counted in the term of its
  request and only a candidate attempts its promotion (\<open>network_step\<close>; the code checks neither), the
  promotions are elections of the specification as well: each has a majority of ballots of its term.
\<close>

theorem network_refines_voting:
  assumes "network_start n"
  shows "(code_step\<^sup>*\<^sup>* n n' \<longrightarrow>
      (voting_step (length (nodes n)))\<^sup>*\<^sup>* (history n) ((history n')\<lparr>elected := {}\<rparr>) \<and> ballot_inv n') \<and>
    (network_step\<^sup>*\<^sup>* n n' \<longrightarrow>
      code_step\<^sup>*\<^sup>* n n' \<and> (voting_step (length (nodes n)))\<^sup>*\<^sup>* (history n) (history n') \<and> network_inv n')"
proof -
  have "(history n)\<lparr>elected := {}\<rparr> = history n" using assms by (simp add: network_start_def)
  then have "(voting_step (length (nodes n)))\<^sup>*\<^sup>* (history n) ((history n')\<lparr>elected := {}\<rparr>) \<and> ballot_inv n'"
    if "code_step\<^sup>*\<^sup>* n n'"
    using code_reach [OF that] start_inv [OF assms] unfolding ballot_step_def network_ballot_inv by metis
  then show ?thesis using network_reach [of n n'] network_steps_code start_inv [OF assms] by blast
qed

text \<open>
  C1. Election safety: in a cluster whose answers to vote requests are counted in the term of the
  request only, and whose promotions are made by candidates only, no two nodes are leaders of the
  same term, however timeouts, messages and all other critical sections interleave.
\<close>

theorem election_safety:
  assumes "network_start n" "network_step\<^sup>*\<^sup>* n n'" "i < length (nodes n')" "j < length (nodes n')"
    and "role (raft (nodes n' ! i)) = Leader" "role (raft (nodes n' ! j)) = Leader"
    and "current_term (raft (nodes n' ! i)) = current_term (raft (nodes n' ! j))"
  shows "i = j"
proof -
  note r = network_reach [OF assms(2)] start_inv [OF assms(1)]
  have "voting_inv (length (nodes n)) (history n')" using r voting_steps_inv by blast
  moreover have l: "leaders_ok n'" and d: "node_ids n' = node_ids n" using r by blast+
  ultimately have "node_id (raft (nodes n' ! i)) = node_id (raft (nodes n' ! j))"
    using assms(3-7) voting_one_winner unfolding leaders_ok_def by metis
  moreover have "distinct (node_ids n')" using assms(1) d by (simp add: network_start_def)
  ultimately show ?thesis
    using assms(3,4) by (simp add: node_ids_def distinct_map inj_on_def) (metis nth_eq_iff_index_eq nth_mem)
qed

section \<open>The nodes of the runs\<close>

definition fast_clock :: "nat \<Rightarrow> int" where
  "fast_clock n = 2000000000 * int n"

definition member :: "nat \<Rightarrow> server" where
  "member k = (upd_raft (\<lambda>r. r\<lparr>node_id := of_nat (Suc k), cluster_index := int k, election_timeout := -1\<rparr>) sample_node)
     \<lparr>env := sample_env\<lparr>clock := fast_clock\<rparr>\<rparr>"

lemma member_fields [simp]:
  "node_id (raft (member k)) = of_nat (Suc k)" "cluster_index (raft (member k)) = int k"
  "current_term (raft (member k)) = 1" "cluster (raft (member k)) = cluster (raft sample_node)"
  "rlog (raft (member k)) = rlog (raft sample_node)" "ring (member k) = ring sample_node"
  "io (member k) = io sample_node" "election_timeout (raft (member k)) = -1"
  "env (member k) = sample_env\<lparr>clock := fast_clock\<rparr>" "role (raft (member k)) = Follower"
  "heartbeat_ms (raft (member k)) = 50"
  by (simp_all add: member_def upd_raft_def)

lemma member_wf: "k < 3 \<Longrightarrow> wf_cluster (raft (member k))"
  by (simp add: wf_cluster_def)

lemma member_healthy: "io_healthy (member k)"
  using sample_io_ok(1) io_healthy_cong [of "member k" sample_node] by simp

section \<open>Timing out\<close>

lemma timeout_env: "env (snd (timeout s)) = env (if fst (now s) > election_timeout (raft s) then candidacy s else snd (now s))"
proof -
  have "env (snd (andthen (persist_circular False 0 (candidacy s)) (\<lambda>_ s. (Ret (), request_vote s)))) = env (candidacy s)"
    using persist_frame_server(10) [OF persist_circular_frame, of False 0 "candidacy s"]
    by (cases "persist_circular False 0 (candidacy s)"; cases "fst (persist_circular False 0 (candidacy s))")
      (auto simp: request_vote_def)
  then show ?thesis by (simp add: timeout_cases)
qed

lemma timeout_tail: "tail_log_index (ring (snd (timeout s))) = tail_log_index (ring s)"
proof -
  have "tail_log_index (ring (candidacy s)) = tail_log_index (ring s)"
    by (simp add: candidacy_def) (simp add: upd_raft_def now_def)
  then have "tail_log_index (ring (snd (andthen (persist_circular False 0 (candidacy s)) (\<lambda>_ s. (Ret (), request_vote s))))) = tail_log_index (ring s)"
    using persist_fields(8) [of False 0 "candidacy s"]
    by (cases "persist_circular False 0 (candidacy s)"; cases "fst (persist_circular False 0 (candidacy s))") auto
  then show ?thesis by (simp add: timeout_cases)
qed

lemma candidacy_table:
  "map voted_for (cluster (raft (candidacy s))) =
     map (\<lambda>i. if int i = cluster_index (raft s) then node_id (raft s) else 0) [0..<length (cluster (raft s))]"
  by (rule nth_equalityI) (auto simp: candidacy_def upd_raft_def now_def nth_enumerate_eq)

text \<open>A node of the runs that has not had its election timer reset since the last reading.\<close>

definition ready :: "nat \<Rightarrow> u64 \<Rightarrow> server \<Rightarrow> bool" where
  "ready k T s \<longleftrightarrow> k < 3 \<and> node_id (raft s) = of_nat (Suc k) \<and> cluster_index (raft s) = int k \<and>
     length (cluster (raft s)) = 3 \<and> current_term (raft s) = T \<and> rlog (raft s) = rlog (raft sample_node) \<and>
     tail_log_index (ring s) = 3 \<and> heartbeat_ms (raft s) = 50 \<and> clock (env s) = fast_clock \<and>
     election_timeout (raft s) < fast_clock (ticks (env s))"

lemma ready_wf: "ready k T s \<Longrightarrow> wf_cluster (raft s)"
  by (simp add: ready_def wf_cluster_def)

lemma ready_member: "k < 3 \<Longrightarrow> ready k 1 (member k)"
  by (simp add: ready_def fast_clock_def sample_env_def)

lemma candidacy_timer:
  assumes "ready k T s"
  shows "clock (env (candidacy s)) = fast_clock \<and>
    election_timeout (raft (candidacy s)) < fast_clock (ticks (env (candidacy s)))"
proof -
  let ?u = "upd_raft (\<lambda>r. r\<lparr>role := Candidate, current_term := current_term r + 1,
     cluster := map (\<lambda>(i, m). m\<lparr>voted_for := (if int i = cluster_index r then node_id r else 0)\<rparr>)
       (enumerate 0 (cluster r))\<rparr>) (snd (now s))"
  have u: "heartbeat_ms (raft ?u) = 50" "clock (env ?u) = fast_clock"
    using assms by (simp_all add: ready_def upd_raft_def now_def)
  have e: "env (reset_election_timeout ?u) = (env ?u)\<lparr>draws := Suc (draws (env ?u)), ticks := Suc (ticks (env ?u))\<rparr>"
    using u(1) by (simp add: reset_election_timeout_def uniform_int_def now_def Let_def) (simp add: upd_raft_def)
  from reset_timeout_bounds [of ?u] u e show ?thesis
    by (simp add: candidacy_def milliseconds_def fast_clock_def)
qed

lemma timeout_stands:
  assumes "ready k T s"
  shows "ready k (T + 1) (snd (timeout s)) \<and> role (raft (snd (timeout s))) = Candidate \<and>
    map voted_for (cluster (raft (snd (timeout s)))) = map (\<lambda>i. if i = k then of_nat (Suc k) else 0) [0..<3]"
proof -
  have fires: "fst (now s) > election_timeout (raft s)" using assms by (simp add: ready_def now_def)
  have r: "raft (snd (timeout s)) = raft (candidacy s)" using fires by (simp add: timeout_raft)
  have "env (snd (timeout s)) = env (candidacy s)" using fires by (simp add: timeout_env)
  moreover have "rlog (raft (candidacy s)) = rlog (raft s)" "heartbeat_ms (raft (candidacy s)) = heartbeat_ms (raft s)"
    by (simp_all add: candidacy_def) (simp_all add: upd_raft_def now_def)
  ultimately show ?thesis
    using assms candidacy_timer [OF assms] candidacy_fields [OF ready_wf [OF assms]] candidacy_table [of s] r
      timeout_tail [of s]
    by (simp add: ready_def candidacy_frame)
qed

lemma stands_build:
  assumes "ready k T s"
  shows "request_vote_build s = \<lparr>rvq_term = T, candidate_id = of_nat (Suc k), last_log_index = 2, last_log_term = 1\<rparr>"
  using assms by (simp add: ready_def request_vote_build_def last_term_def)

section \<open>Voting and winning\<close>

lemma request_log:
  assumes "wf_cluster (raft s)" "handle_request_vote_request req s = (r, t)"
  shows "rlog (raft t) = rlog (raft s) \<and> tail_log_index (ring t) = tail_log_index (ring s) \<and> wf_cluster (raft t)"
proof -
  let ?m = "update_term (rvq_term req) s"
  note m = update_term_raft [OF assms(1), of "rvq_term req"]
  let ?p = "persist_circular False 0 (voted (candidate_id req) (snd ?m))"
  have p: "raft (snd ?p) = raft (voted (candidate_id req) (snd ?m))"
    "tail_log_index (ring (snd ?p)) = tail_log_index (ring (snd ?m))" by (simp_all add: persist_fields)
  have "t = snd ?m \<or> t = snd ?p"
    using assms(2) unfolding handle_request_vote_cases [OF assms(1)]
    by (cases ?m; cases "fst ?m"; cases ?p; cases "fst ?p") (auto split: if_splits)
  then show ?thesis using m p by auto
qed

text \<open>A node with the log of the runs that has not yet voted in the term of the request grants it.\<close>

lemma voter_grants:
  assumes "wf_cluster (raft s)" "io_healthy s" "rlog (raft s) = rlog (raft sample_node)" "tail_log_index (ring s) = 3"
    and "current_term (raft s) < T"
  shows "\<exists>t. handle_request_vote_request \<lparr>rvq_term = T, candidate_id = c, last_log_index = 2, last_log_term = 1\<rparr> s =
      (Ret \<lparr>rvr_term = T, vote_granted = True\<rparr>, t) \<and> wf_cluster (raft t) \<and> io_healthy t \<and>
      rlog (raft t) = rlog (raft sample_node) \<and> tail_log_index (ring t) = 3 \<and> current_term (raft t) = T"
proof -
  let ?req = "\<lparr>rvq_term = T, candidate_id = c, last_log_index = 2, last_log_term = 1\<rparr> :: request_vote_request"
  have "may_vote ?req s" using assms by (auto simp: may_vote_def log_up_to_date_def last_term_def)
  with vote_handler_result [OF assms(1,2), of ?req] obtain rsp t where
    t: "handle_request_vote_request ?req s = (Ret rsp, t)" "io_healthy t" "vote_granted rsp"
      "rvr_term rsp = max T (current_term (raft s))" "current_term (raft t) = rvr_term rsp" by auto
  moreover have "rsp = \<lparr>rvr_term = T, vote_granted = True\<rparr>"
    using t(3,4) assms(5) by (cases rsp) (auto simp: max_def)
  ultimately show ?thesis using request_log [OF assms(1) t(1)] assms(3,4) by auto
qed

lemma votes_table: "votes r = length (filter (\<lambda>v. v = node_id r) (map voted_for (cluster r)))"
  by (simp add: votes_def filter_map o_def)

text \<open>A granted answer from node 1 gives candidate \<open>k\<close> its quorum, whatever term the answer is from.\<close>

lemma candidate_wins:
  assumes s: "ready k T s" "role (raft s) = Candidate" "k \<noteq> 1"
    "map voted_for (cluster (raft s)) = map (\<lambda>i. if i = k then of_nat (Suc k) else 0) [0..<3]"
    and "rvq_term req = U" "U \<le> T"
  shows "role (raft (snd (become_leader (snd (request_vote_finish 1 req (Some \<lparr>rvr_term = U, vote_granted = True\<rparr>) s))))) = Leader \<and>
    current_term (raft (snd (become_leader (snd (request_vote_finish 1 req (Some \<lparr>rvr_term = U, vote_granted = True\<rparr>) s))))) = T \<and>
    node_id (raft (snd (become_leader (snd (request_vote_finish 1 req (Some \<lparr>rvr_term = U, vote_granted = True\<rparr>) s))))) = of_nat (Suc k)"
proof -
  let ?f = "snd (request_vote_finish 1 req (Some \<lparr>rvr_term = U, vote_granted = True\<rparr>) s)"
  have k: "k = 0 \<or> k = 2" using s(1,3) by (auto simp: ready_def)
  have f: "?f = update_member 1 (\<lambda>m. m\<lparr>voted_for := node_id (raft s)\<rparr>) s"
    using s(1) assms(5,6) by (simp add: request_vote_finish_def update_term_stay ready_def member_ok_def)
  have tab: "map voted_for (cluster (raft ?f)) =
      (map (\<lambda>i. if i = k then of_nat (Suc k) else 0) [0..<3])[1 := of_nat (Suc k)]"
    and id: "node_id (raft ?f) = of_nat (Suc k)"
    using s(1,4) unfolding f by (simp_all add: map_update ready_def)
  have "votes (raft ?f) = 2"
    unfolding votes_table tab id using k by (auto simp: upt_conv_Cons numeral_3_eq_3)
  moreover have "length (cluster (raft ?f)) = 3" "current_term (raft ?f) = T"
    using s(1) unfolding f by (simp_all add: ready_def)
  ultimately show ?thesis using become_leader_table(2,3,5) [of ?f] id by (simp add: quorum_majority)
qed

section \<open>A late answer\<close>

text \<open>
  The messages and states of the run. Node 1 asks in term 2 and node 2 grants; before the answer is
  delivered node 1 times out again, and node 3, which has timed out twice, is elected with the vote
  of node 2 in term 3. Then node 1 receives the answer of term 2.
\<close>

definition asked :: server where "asked = snd (timeout (member 0))"
definition late_answer :: "request_vote_response step" where
  "late_answer = handle_request_vote_request (request_vote_build asked) (member 1)"
definition again :: server where "again = snd (timeout asked)"
definition rival :: server where "rival = snd (timeout (snd (timeout (member 2))))"
definition rival_answer :: "request_vote_response step" where
  "rival_answer = handle_request_vote_request (request_vote_build rival) (snd late_answer)"

definition answer_of :: "request_vote_response step \<Rightarrow> request_vote_response option" where
  "answer_of m = (case fst m of Ret rsp \<Rightarrow> Some rsp | _ \<Rightarrow> None)"

definition rival_leader :: server where
  "rival_leader = snd (become_leader
     (snd (request_vote_finish 1 (request_vote_build rival) (answer_of rival_answer) rival)))"

definition second_leader :: server where
  "second_leader = snd (become_leader
     (snd (request_vote_finish 1 (request_vote_build asked) (answer_of late_answer) again)))"

text \<open>
  C3. Election safety fails in the code as it stands: three nodes, system calls that all succeed
  and one late message, and two different nodes are leaders of term 3.
\<close>

theorem late_answer_two_leaders:
  "role (raft second_leader) = Leader \<and> role (raft rival_leader) = Leader \<and>
   current_term (raft second_leader) = 3 \<and> current_term (raft rival_leader) = 3 \<and>
   node_id (raft second_leader) = 1 \<and> node_id (raft rival_leader) = 3"
proof -
  have a: "ready 0 2 asked" using timeout_stands [OF ready_member [of 0]] by (simp add: asked_def)
  note ag = timeout_stands [OF a, folded again_def, simplified]
  have "ready 2 2 (snd (timeout (member 2)))" using timeout_stands [OF ready_member [of 2]] by simp
  note rv = timeout_stands [OF this, folded rival_def, simplified]
  obtain t where l: "late_answer = (Ret \<lparr>rvr_term = 2, vote_granted = True\<rparr>, t)" "wf_cluster (raft t)" "io_healthy t"
      "rlog (raft t) = rlog (raft sample_node)" "tail_log_index (ring t) = 3" "current_term (raft t) = 2"
    using voter_grants [OF member_wf [of 1] member_healthy, of 2 1] stands_build [OF a]
    by (auto simp: late_answer_def)
  obtain u where r: "rival_answer = (Ret \<lparr>rvr_term = 3, vote_granted = True\<rparr>, u)"
    using voter_grants [OF l(2-5), of 3 3] stands_build [OF conjunct1 [OF rv]] l(6)
    by (auto simp: rival_answer_def l(1))
  have q: "rvq_term (request_vote_build asked) = 2" "rvq_term (request_vote_build rival) = 3"
    using stands_build [OF a] stands_build [OF conjunct1 [OF rv]] by simp_all
  have "answer_of late_answer = Some \<lparr>rvr_term = 2, vote_granted = True\<rparr>"
    "answer_of rival_answer = Some \<lparr>rvr_term = 3, vote_granted = True\<rparr>" by (simp_all add: answer_of_def l(1) r)
  with candidate_wins [of 0 3 again "request_vote_build asked" 2] candidate_wins [of 2 3 rival "request_vote_build rival" 3]
    ag rv q show ?thesis by (simp add: second_leader_def rival_leader_def)
qed

section \<open>A regular election\<close>

definition sample_network :: network where
  "sample_network = \<lparr>nodes = map member [0..<3], grants = {}, history = \<lparr>ballots = {}, elected = {}\<rparr>\<rparr>"

lemma sample_network_start: "network_start sample_network"
proof -
  have b: "ballot i (member i) = {}" if "i < 3" for i
    using that by (auto simp: ballot_def my_vote_def less_Suc_eq numeral_3_eq_3 ClusterMember_def)
  have n: "nodes sample_network ! i = member i" if "i < 3" for i
    using that by (simp add: sample_network_def)
  have l: "length (nodes sample_network) = 3" by (simp add: sample_network_def)
  have "distinct (node_ids sample_network) \<and> 0 \<notin> set (node_ids sample_network)"
    by (simp add: node_ids_def sample_network_def upt_conv_Cons)
  then show ?thesis
    unfolding network_start_def l using b n by (simp add: sample_network_def)
qed

lemma sample_election:
  "\<exists>n. network_step\<^sup>*\<^sup>* sample_network n \<and> length (nodes n) = 3 \<and> role (raft (nodes n ! 0)) = Leader \<and>
     current_term (raft (nodes n ! 0)) = 2 \<and> elected (history n) = {(2, 1)}"
proof -
  have a: "ready 0 2 asked" "role (raft asked) = Candidate"
    "map voted_for (cluster (raft asked)) = map (\<lambda>i. if i = 0 then of_nat (Suc 0) else 0) [0..<3]"
    using timeout_stands [OF ready_member [of 0]] by (simp_all add: asked_def)
  note build = stands_build [OF a(1)]
  obtain t where l: "handle_request_vote_request (request_vote_build asked) (member 1) =
      (Ret \<lparr>rvr_term = 2, vote_granted = True\<rparr>, t)"
    using voter_grants [OF member_wf [of 1] member_healthy, of 2 1] build by auto
  let ?rsp = "\<lparr>rvr_term = 2, vote_granted = True\<rparr> :: request_vote_response"
  let ?f = "snd (request_vote_finish 1 (request_vote_build asked) (Some ?rsp) asked)"
  let ?w = "snd (become_leader ?f)"
  define n1 where "n1 = observe 0 asked sample_network"
  define n2 where "n2 = (observe 1 t n1)\<lparr>grants := grants n1 \<union> granted 1 (candidate_id (request_vote_build asked)) (Ret ?rsp)\<rparr>"
  define n3 where "n3 = observe 0 ?f n2"
  define n4 where "n4 = promote ?w (observe 0 ?w n3)"
  have nd: "nodes sample_network ! 0 = member 0" "nodes n1 ! 1 = member 1" "nodes n2 ! 0 = asked" "nodes n3 ! 0 = ?f"
    "length (nodes sample_network) = 3" "length (nodes n1) = 3" "length (nodes n2) = 3" "length (nodes n3) = 3"
    by (simp_all add: n1_def n2_def n3_def sample_network_def)
  have "network_step sample_network n1"
    unfolding n1_def asked_def using net_timeout [of 0 sample_network] nd by simp
  moreover have "network_step n1 n2"
    unfolding n2_def by (rule net_request) (use nd l build in simp_all)
  moreover have "network_step n2 n3"
    unfolding n3_def using net_response [of 0 n2 1 "request_vote_build asked" ?rsp] nd build a(1)
    by (simp add: n2_def granted_def ready_def)
  moreover have "role (raft ?f) = Candidate"
    using a build by (simp add: request_vote_finish_def update_term_stay ready_def member_ok_def)
  then have "network_step n3 n4"
    unfolding n4_def by (intro net_promote [of 0 n3]) (use nd in simp_all)
  ultimately have run: "network_step\<^sup>*\<^sup>* sample_network n4" by (blast intro: converse_rtranclp_into_rtranclp)
  have w: "role (raft ?w) = Leader" "current_term (raft ?w) = 2" "node_id (raft ?w) = 1"
    using candidate_wins [OF a(1,2) _ a(3), of "request_vote_build asked" 2] build by simp_all
  moreover have "nodes n4 ! 0 = ?w" "length (nodes n4) = 3" using nd by (simp_all add: n4_def)
  moreover have "elected (history n4) = {(2, 1)}"
    using w by (simp add: n4_def promote_def n3_def n2_def n1_def sample_network_def)
  ultimately show ?thesis using run by metis
qed

theorem network_refines_voting_witness:
  "\<exists>n. network_step\<^sup>*\<^sup>* sample_network n \<and> code_step\<^sup>*\<^sup>* sample_network n \<and> elected (history n) = {(2, 1)} \<and>
     (voting_step 3)\<^sup>*\<^sup>* (history sample_network) (history n) \<and>
     (voting_step 3)\<^sup>*\<^sup>* (history sample_network) ((history n)\<lparr>elected := {}\<rparr>)"
proof -
  obtain n where n: "network_step\<^sup>*\<^sup>* sample_network n" "elected (history n) = {(2, 1)}"
    using sample_election by blast
  have "length (nodes sample_network) = 3" by (simp add: sample_network_def)
  with n network_refines_voting [OF sample_network_start, where n' = n] show ?thesis by auto
qed

theorem election_safety_witness:
  "\<exists>n. network_step\<^sup>*\<^sup>* sample_network n \<and> role (raft (nodes n ! 0)) = Leader \<and>
     \<not> (role (raft (nodes n ! 1)) = Leader \<and> current_term (raft (nodes n ! 1)) = current_term (raft (nodes n ! 0)))"
proof -
  obtain n where n: "network_step\<^sup>*\<^sup>* sample_network n" "length (nodes n) = 3" "role (raft (nodes n ! 0)) = Leader"
    using sample_election by blast
  have "0 < length (nodes n)" "1 < length (nodes n)" using n(2) by simp_all
  from election_safety [OF sample_network_start n(1) this n(3)] n show ?thesis by auto
qed

end
