(* ===== verification/Replication.thy ===== *)
theory Replication
  imports FollowerAE
begin

text \<open>
  Leader and follower together: one round of \<open>append_entries_worker\<close> against the handler of the
  follower, compared with the rule of the Raft paper for AppendEntries. The follower of this code
  takes the entries it has no index for and never compares the terms of the others. So it implements
  the rule exactly when no entry conflicts, and the match index the leader derives from a success is
  right exactly then.
\<close>

section \<open>The rule of the paper\<close>

text \<open>
  ``If an existing entry conflicts with a new one (same index but different terms), delete the
  existing entry and all that follow it. Append any new entries not already in the log.'' The first
  \<open>k\<close> entries are those up to the previous index.
\<close>

fun raft_merge :: "'a list \<Rightarrow> 'a list \<Rightarrow> 'a list" where
  "raft_merge old [] = old"
| "raft_merge [] new = new"
| "raft_merge (x # old) (y # new) = (if x = y then y # raft_merge old new else y # new)"

definition raft_append :: "nat \<Rightarrow> 'a list \<Rightarrow> 'a list \<Rightarrow> 'a list" where
  "raft_append k new log = take k log @ raft_merge (drop k log) new"

lemma raft_merge_keeps:
  "raft_merge old new = old @ drop (length old) new \<longleftrightarrow>
   (\<forall>i. i < length old \<and> i < length new \<longrightarrow> old ! i = new ! i)"
proof (induction old new rule: raft_merge.induct)
  case (3 x old y new)
  then show ?case by (auto simp: nth_Cons less_Suc_eq_0_disj split: nat.splits)
qed auto

lemma raft_append_keeps:
  assumes "k \<le> length log"
  shows "raft_append k new log = log @ drop (length log - k) new \<longleftrightarrow>
    (\<forall>i. k + i < length log \<and> i < length new \<longrightarrow> log ! (k + i) = new ! i)"
proof -
  have "log @ xs = take k log @ (drop k log @ xs)" for xs by (simp flip: append_assoc)
  then have "raft_append k new log = log @ drop (length log - k) new \<longleftrightarrow>
      raft_merge (drop k log) new = drop k log @ drop (length (drop k log)) new"
    unfolding raft_append_def by (metis same_append_eq length_drop)
  also have "\<dots> \<longleftrightarrow> (\<forall>i. k + i < length log \<and> i < length new \<longrightarrow> log ! (k + i) = new ! i)"
    unfolding raft_merge_keeps using assms by (simp add: less_diff_conv add.commute)
  finally show ?thesis .
qed

section \<open>The handler against the rule\<close>

text \<open>The terms of the entries in memory, without the sentinel.\<close>

definition terms :: "server \<Rightarrow> u64 list" where
  "terms s = map e_term (tl (rlog (raft s)))"

lemma length_terms:
  assumes "wf_log s"
  shows "length (terms s) = unat (tail_log_index (ring s)) - unat (oldest_log_index s)"
  using unat_oldest [OF assms] by (simp add: terms_def)

lemma accepted_terms:
  assumes "node_inv s" "handle_append_entries bc tm req s = (Ret rsp, t)" "success rsp"
    "num_entries req > 0" "leader_pba_src req \<noteq> 0" "length (entry_metas req) = unat (num_entries req)"
    "unat (prev_log_index req) + 1 + unat (num_entries req) < 18446744073709551616"
    and old: "unat (oldest_log_index s) \<le> unat (prev_log_index req) + 1"
  defines "k \<equiv> unat (prev_log_index req) + 1 - unat (oldest_log_index s)"
  shows "terms t = terms s @ drop (length (terms s) - k) (map meta_term (entry_metas req))" "k \<le> length (terms s)"
proof -
  note a = accepted_log [OF assms(1-7)]
  have wf: "wf_log s" using assms(1) by (simp add: node_inv_def)
  have "unat (prev_log_index req) < unat (tail_log_index (ring s))"
    using a by (simp add: prev_ok_def word_less_nat_alt)
  then show "k \<le> length (terms s)"
    using length_terms [OF wf] by (simp add: k_def)
  have d: "unat (tail_log_index (ring s)) - (unat (prev_log_index req) + 1) = length (terms s) - k"
    using length_terms [OF wf] old by (simp add: k_def)
  have "rlog (raft s) \<noteq> []" using wf by (simp add: wf_log_def)
  then have "tl (map e_term (rlog (raft s)) @ xs) = terms s @ xs" for xs
    by (simp add: terms_def map_tl)
  with a d show "terms t = terms s @ drop (length (terms s) - k) (map meta_term (entry_metas req))"
    by (simp add: terms_def map_tl)
qed

text \<open>
  C6. The handler against the rule of the Raft paper, for a request that carries entries and their
  blocks, has one descriptor per entry, does not overflow the 64-bit index and whose previous index
  is not below the entries the follower keeps in memory. When the handler reports success, the
  follower's log is its old log, entry by entry and conflicts included, followed by new entries with
  the terms of the part of the batch that lies past the end of the old log. This is what the paper's
  AppendEntries gives exactly if every entry the follower already had at an index of the request has
  the term of the request.
\<close>

theorem append_refines_raft:
  assumes "node_inv s" "handle_append_entries bc tm req s = (Ret rsp, t)" "success rsp"
    "num_entries req > 0" "leader_pba_src req \<noteq> 0" "length (entry_metas req) = unat (num_entries req)"
    "unat (prev_log_index req) + 1 + unat (num_entries req) < 18446744073709551616"
    and old: "unat (oldest_log_index s) \<le> unat (prev_log_index req) + 1"
  defines "k \<equiv> unat (prev_log_index req) + 1 - unat (oldest_log_index s)"
    and "new \<equiv> map meta_term (entry_metas req)"
  shows "(\<exists>es. rlog (raft t) = rlog (raft s) @ es \<and> map e_term es = drop (length (terms s) - k) new) \<and>
    (terms t = raft_append k new (terms s) \<longleftrightarrow>
      (\<forall>i. k + i < length (terms s) \<and> i < length new \<longrightarrow> terms s ! (k + i) = new ! i))"
proof (rule conjI)
  note a = accepted_terms [OF assms(1-8)]
  show "terms t = raft_append k new (terms s) \<longleftrightarrow>
      (\<forall>i. k + i < length (terms s) \<and> i < length new \<longrightarrow> terms s ! (k + i) = new ! i)"
    using a raft_append_keeps [of k "terms s" new] unfolding k_def new_def by (metis (no_types, lifting))
  obtain es where es: "rlog (raft t) = rlog (raft s) @ es"
    using accepted_entries [OF assms(1-3,7)] by (auto split: if_splits)
  have "rlog (raft s) \<noteq> []" using assms(1) by (simp add: node_inv_def wf_log_def)
  then have "terms t = terms s @ map e_term es" using es by (simp add: terms_def)
  with a es show "\<exists>es. rlog (raft t) = rlog (raft s) @ es \<and> map e_term es = drop (length (terms s) - k) new"
    unfolding k_def new_def by auto
qed

text \<open>A follower in term 2 whose second entry is of term 1, and a batch with two entries of term 2 from there on.\<close>

definition conflict_follower :: server where
  "conflict_follower = upd_ring (\<lambda>g. g\<lparr>persisted_term := 2\<rparr>)
     (upd_raft (\<lambda>r. r\<lparr>current_term := 2\<rparr>) sample_follower)"

definition conflict_append :: append_entries_request where
  "conflict_append = sample_append\<lparr>aeq_term := 2, prev_log_index := 1, num_entries := 2,
     entry_metas := [\<lparr>meta_term = 2, meta_cmd_len = 5\<rparr>, \<lparr>meta_term = 2, meta_cmd_len = 5\<rparr>]\<rparr>"

lemma conflict_follower_fields [simp]:
  "rlog (raft conflict_follower) = rlog (raft sample_node)" "tail_log_index (ring conflict_follower) = 3"
  "io conflict_follower = io sample_node" "current_term (raft conflict_follower) = 2"
  "role (raft conflict_follower) = Follower" "commit_index (raft conflict_follower) = 0"
  "cluster_index (raft conflict_follower) = 0" "cluster (raft conflict_follower) = cluster (raft sample_node)"
  by (simp_all add: conflict_follower_def upd_ring_def upd_raft_def)

lemma conflict_follower_ok: "node_inv conflict_follower" "io_healthy conflict_follower"
  "oldest_log_index conflict_follower = 1"
  using sample_io_ok(1)
  by (simp_all add: node_inv_def wf_cluster_def wf_log_def io_healthy_def disk_of_def oldest_log_index_def
      log_size_def)

lemma conflict_append_run:
  "\<exists>rsp t. handle_append_entries no_copy sample_handler_times conflict_append conflict_follower = (Ret rsp, t) \<and>
     success rsp"
proof -
  let ?s = "reset_election_timeout conflict_follower"
  let ?rsp = "AppendEntriesResponse\<lparr>aer_term := 2\<rparr>"
  let ?u = "upd_ring (\<lambda>g. g\<lparr>tail_slot := 2\<rparr>) ?s"
  have u: "update_term 2 conflict_follower = (Ret False, conflict_follower)"
    by (simp add: update_term_stay)
  have o: "oldest_log_index ?s = 1" by (simp add: oldest_log_index_def log_size_def)
  have p: "prev_log_check conflict_append ?s = Ret None"
    by (simp add: prev_log_check_def conflict_append_def sample_append_def o log_at_def log_slice_def
        word_le_nat_alt)
  have r: "ae_receive sample_handler_times conflict_append conflict_follower =
      (Ret (CopyBlocks ?rsp 2 1 2), ?u)"
    using u p by (simp add: ae_receive_def conflict_append_def sample_append_def ae_follow_def Let_def
        ae_batch_known_def skip_count_def word_le_nat_alt) (simp add: upd_ring_def)
  have c: "copy_result no_copy conflict_append 2 ?u = Ret (Some (0, 0))"
    by (simp add: copy_result_def conflict_append_def sample_append_def)
  have w: "wf_cluster (raft ?u)" "io_healthy ?u"
    using conflict_follower_ok by (simp_all add: wf_cluster_def upd_ring_def io_healthy_def disk_of_def)
  obtain rsp t where t: "ae_complete sample_handler_times conflict_append ?rsp 2 1 (Some (0, 0)) ?u = (Ret rsp, t)"
    using ae_complete_returns [OF w] unfolding returns_def by blast
  then have "success rsp" by (auto simp: ae_complete_def Let_def dest: ae_accept_Ret)
  with r c t show ?thesis by (simp add: handle_append_entries_def)
qed

theorem append_refines_raft_witness:
  "\<exists>rsp t. handle_append_entries no_copy sample_handler_times conflict_append conflict_follower = (Ret rsp, t) \<and>
     success rsp \<and> terms t = [1, 1, 2] \<and> terms t \<noteq> raft_append 1 [2, 2] (terms conflict_follower)"
proof -
  obtain rsp t where run: "handle_append_entries no_copy sample_handler_times conflict_append
      conflict_follower = (Ret rsp, t)" and ok: "success rsp" using conflict_append_run by blast
  have a: "num_entries conflict_append > 0" "leader_pba_src conflict_append \<noteq> 0"
    "length (entry_metas conflict_append) = unat (num_entries conflict_append)"
    "unat (prev_log_index conflict_append) + 1 + unat (num_entries conflict_append) < 18446744073709551616"
    "unat (oldest_log_index conflict_follower) \<le> unat (prev_log_index conflict_append) + 1"
    by (simp_all add: conflict_append_def sample_append_def conflict_follower_ok(3))
  have k: "unat (prev_log_index conflict_append) + 1 - unat (oldest_log_index conflict_follower) = 1"
    "map meta_term (entry_metas conflict_append) = [2, 2]" "terms conflict_follower = [1, 1]"
    by (simp_all add: conflict_append_def sample_append_def conflict_follower_ok(3) terms_def)
  have n: "\<not> (\<forall>i. 1 + i < length [1, 1 :: u64] \<and> i < length [2, 2 :: u64] \<longrightarrow> [1, 1 :: u64] ! (1 + i) = [2, 2] ! i)"
    by (auto intro: exI [of _ 0])
  note m = append_refines_raft [OF conflict_follower_ok(1) run ok a, unfolded k]
  have "terms t \<noteq> raft_append 1 [2, 2] (terms conflict_follower)" using m n by (simp only: k(3)) blast
  moreover have "terms t = [1, 1, 2]" using m by (auto simp: terms_def)
  ultimately show ?thesis using run ok by blast
qed

section \<open>One round between two nodes\<close>

text \<open>
  \<open>append_entries_worker\<close> in the default mode, with the remote call answered by the follower's
  handler; \<open>None\<close> when a step throws or there is nothing to send.
\<close>

definition replication_round ::
  "blockcopy_client \<Rightarrow> handler_times \<Rightarrow> round_times \<Rightarrow> nat \<Rightarrow> server \<Rightarrow> server \<Rightarrow>
   (ae_round \<times> append_entries_response \<times> server \<times> server) option" where
  "replication_round bc htm rtm fi l f =
     (case ae_build fi l of
        (Ret (Some r), l) \<Rightarrow>
          (case handle_append_entries bc htm (round_req r) f of
             (Ret rsp, f) \<Rightarrow>
               (case ae_finish fi None r (Some rsp) rtm (ae_count_send r l) of
                  (Ret _, l) \<Rightarrow> Some (r, rsp, l, f)
                | _ \<Rightarrow> None)
           | _ \<Rightarrow> None)
      | _ \<Rightarrow> None)"

definition term_at :: "server \<Rightarrow> u64 \<Rightarrow> u64 option" where
  "term_at s i = (case log_at s i of Ret e \<Rightarrow> Some (e_term e) | _ \<Rightarrow> None)"

lemma term_at_nth:
  assumes "wf_log s" "unat (oldest_log_index s) \<le> unat i" "unat i < unat (tail_log_index (ring s))"
  shows "term_at s i = Some (terms s ! (unat i - unat (oldest_log_index s)))"
proof -
  have i: "in_log s i" using assms(2,3) by (simp add: in_log_def word_le_nat_alt word_less_nat_alt)
  note l = unat_log_slice [OF assms(1) i]
  have "unat (log_slice s i) = Suc (unat i - unat (oldest_log_index s))" using l(1) by simp
  then show ?thesis
    using log_at_Ret [OF assms(1) i] l(2)
    by (cases "rlog (raft s)") (auto simp: term_at_def terms_def)
qed

text \<open>A successful answer carries the term of the request.\<close>

lemma accept_term:
  assumes "ae_accept tm pre w2 post req rsp s = (Ret rsp', t)"
  shows "aer_term rsp' = aer_term rsp \<and> current_term (raft t) = current_term (raft s)"
proof -
  have "t = snd (persist_circular False 0 (adopt_commit req s))"
    using ae_accept_snd [of tm pre w2 post req rsp s] assms by simp
  then show ?thesis using assms by (auto simp: ae_accept_def andthen_eq_Ret finalize_def persist_fields)
qed

fun progress_rsp :: "ae_progress \<Rightarrow> append_entries_response" where
  "progress_rsp (Answered rsp) = rsp"
| "progress_rsp (CopyBlocks rsp _ _ _) = rsp"
| "progress_rsp (NoBlocks rsp) = rsp"

lemma receive_term:
  assumes "ae_receive tm req s = (Ret p, t)"
  shows "aer_term (progress_rsp p) = current_term (raft t)"
proof -
  obtain b u where u: "update_term (aeq_term req) s = (Ret b, u)"
    using assms by (auto simp: ae_receive_def andthen_eq_Ret)
  let ?w = "reset_election_timeout (ae_follow req u)"
  let ?rsp = "AppendEntriesResponse\<lparr>aer_term := current_term (raft u)\<rparr>"
  show ?thesis
  proof (cases "role (raft (ae_follow req u)) \<noteq> Follower \<or> aeq_term req < current_term (raft u)")
    case True
    then show ?thesis using assms u by (auto simp: ae_receive_def Let_def finalize_def)
  next
    case False
    then obtain r where r: "prev_log_check req ?w = Ret r"
      using assms u by (auto simp: ae_receive_def Let_def split: outcome.splits)
    show ?thesis
    proof (cases r)
      case None
      show ?thesis
      proof (cases "ae_batch_known req ?w")
        case True
        then obtain rsp' where "ae_accept tm 0 0 0 req ?rsp ?w = (Ret rsp', t)" "p = Answered rsp'"
          using assms u False r None by (auto simp: ae_receive_def Let_def andthen_eq_Ret)
        with accept_term show ?thesis by fastforce
      qed (use assms u False r None in \<open>auto simp: ae_receive_def Let_def upd_ring_def split: if_splits\<close>)
    next
      case (Some c)
      then show ?thesis
        using assms u False r by (cases c) (auto simp: ae_receive_def Let_def finalize_def)
    qed
  qed
qed

lemma accepted_term:
  assumes inv: "node_inv s" and run: "handle_append_entries bc tm req s = (Ret rsp, t)" and ok: "success rsp"
  shows "aer_term rsp = aeq_term req"
proof -
  obtain p u where r: "ae_receive tm req s = (Ret p, u)"
    and rest: "(case p of Answered rsp \<Rightarrow> (Ret rsp, u)
       | NoBlocks rsp \<Rightarrow> ae_accept tm 0 0 0 req rsp u
       | CopyBlocks rsp new_tail skip old_tail_slot \<Rightarrow>
           (case copy_result bc req old_tail_slot u of
              Ret copy \<Rightarrow> ae_complete tm req rsp new_tail skip copy u
            | Exc e \<Rightarrow> (Exc e, u) | Ub \<Rightarrow> (Ub, u))) = (Ret rsp, t)"
    using run by (auto simp: handle_append_entries_def andthen_eq_Ret)
  have "case p of Answered rsp \<Rightarrow> success rsp | _ \<Rightarrow> True"
    using rest ok by (auto split: ae_progress.splits)
  note c = ae_receive_accepts [OF inv r this, THEN conjunct2]
  have "aer_term rsp = aer_term (progress_rsp p)"
  proof (cases p)
    case (CopyBlocks rsp' new_tail skip slot)
    with rest show ?thesis
      by (auto simp: ae_complete_def Let_def finalize_def dest!: accept_term split: outcome.splits option.splits)
  qed (use rest in \<open>auto dest: accept_term\<close>)
  with receive_term [OF r] c show ?thesis by simp
qed

lemma log_at_tail: "wf_log s \<Longrightarrow> log_at s (tail_log_index (ring s)) = Ub"
proof -
  assume wf: "wf_log s"
  then have "log_slice s (tail_log_index (ring s)) = log_size s"
    by (auto simp: log_slice_def oldest_log_index_def wf_log_def)
  with unat_log_size [OF wf] show ?thesis by (simp add: log_at_def vec_at_def)
qed

text \<open>The batch of a round lies in the leader's log.\<close>

lemma batch_in_log:
  assumes wf: "wf_log l" and b: "ae_build fi l = (Ret (Some r), l')"
  shows "unat (round_next r) + unat (round_len r) \<le> unat (tail_log_index (ring l))"
proof (rule ccontr)
  note q = built_request [OF b]
  let ?j = "unat (tail_log_index (ring l)) - unat (round_next r)"
  assume "\<not> ?thesis"
  then have "?j < unat (round_len r)" using q(3) by (simp add: word_le_nat_alt)
  moreover have "round_next r + of_nat ?j = tail_log_index (ring l)"
    using q(3) by (simp add: word_le_nat_alt flip: unat_u64_sub)
  ultimately show False using q(1) log_at_tail [OF wf] by fastforce
qed

lemma built_frame:
  assumes b: "ae_build fi l = (Ret (Some r), l1)"
  shows "current_term (raft l1) = current_term (raft l)" "rlog (raft l1) = rlog (raft l)" "member_ok l1 fi"
proof -
  note q = built_request [OF b]
  obtain nx u where u: "clamp_next fi l = (nx, u)" by fastforce
  show "current_term (raft l1) = current_term (raft l)" "rlog (raft l1) = rlog (raft l)" "member_ok l1 fi"
    using q(4,5) clamp_next_fields [OF u] u by (auto simp: member_ok_def clamp_next_def Let_def split: if_splits)
qed

lemma batch_term:
  assumes b: "ae_build fi l = (Ret (Some r), l')"
    and i: "unat (round_next r) \<le> unat i" "unat i < unat (round_next r) + unat (round_len r)"
  shows "term_at l i = Some (map meta_term (entry_metas (round_req r)) ! (unat i - unat (round_next r)))"
proof -
  note q = built_request(1) [OF b]
  let ?j = "unat i - unat (round_next r)"
  have j: "?j < unat (round_len r)" using i by linarith
  have "round_next r + of_nat ?j = i" using i(1) by (simp add: word_le_nat_alt flip: unat_u64_sub)
  with q j obtain e where "log_at l i = Ret e" "entry_metas (round_req r) ! ?j = meta_of e" by metis
  with q j show ?thesis by (simp add: term_at_def meta_of_def)
qed

lemma accepted_term_at:
  assumes inv: "node_inv s" and run: "handle_append_entries bc tm req s = (Ret rsp, t)" and ok: "success rsp"
    and "num_entries req > 0" "leader_pba_src req \<noteq> 0" and len: "length (entry_metas req) = unat (num_entries req)"
    and bound: "unat (prev_log_index req) + 1 + unat (num_entries req) < 18446744073709551616"
    and old: "unat (oldest_log_index s) \<le> unat (prev_log_index req) + 1"
    and i: "unat (prev_log_index req) + 1 \<le> unat i" "unat i < unat (prev_log_index req) + 1 + unat (num_entries req)"
  shows "term_at t i = (if unat i < unat (tail_log_index (ring s)) then term_at s i
    else Some (map meta_term (entry_metas req) ! (unat i - (unat (prev_log_index req) + 1))))"
proof -
  let ?k = "unat (prev_log_index req) + 1 - unat (oldest_log_index s)"
  note a = accepted_terms [OF assms(1-8)] and lg = accepted_log [OF assms(1-7)]
  have wf: "wf_log s" "wf_log t"
    using inv handle_append_entries_inv [OF inv bound, of bc tm] run by (simp_all add: node_inv_def)
  have tail: "unat (tail_log_index (ring t)) =
      max (unat (tail_log_index (ring s))) (unat (prev_log_index req) + 1 + unat (num_entries req))"
    using lg by simp
  have ls: "length (terms s) = unat (tail_log_index (ring s)) - unat (oldest_log_index s)"
    by (rule length_terms [OF wf(1)])
  have le: "unat (oldest_log_index s) \<le> unat (tail_log_index (ring s))"
    using unat_oldest [OF wf(1)] wf(1) by (cases "rlog (raft s)") (auto simp: wf_log_def)
  have "length (terms t) = length (terms s) + (unat (num_entries req) - (length (terms s) - ?k))"
    using a(1) len by simp
  moreover have "length (terms t) = unat (tail_log_index (ring t)) - unat (oldest_log_index t)"
    by (rule length_terms [OF wf(2)])
  moreover have "unat (oldest_log_index t) \<le> unat (tail_log_index (ring t))"
    using unat_oldest [OF wf(2)] wf(2) by (cases "rlog (raft t)") (auto simp: wf_log_def)
  ultimately have old': "unat (oldest_log_index t) = unat (oldest_log_index s)"
    using tail a(2) ls le old by (auto simp: max_def split: if_splits)
  let ?n = "unat i - unat (oldest_log_index s)"
  have t: "term_at t i = Some (terms t ! ?n)"
    using term_at_nth [OF wf(2), of i] old' old i tail by simp
  show ?thesis
  proof (cases "unat i < unat (tail_log_index (ring s))")
    case True
    then have "?n < length (terms s)" unfolding ls using i(1) old by linarith
    then have "terms t ! ?n = terms s ! ?n" unfolding a(1) by (simp only: nth_append if_True)
    with t True term_at_nth [OF wf(1) _ True] i old show ?thesis by simp
  next
    case False
    then have "?n = length (terms s) + (unat i - unat (tail_log_index (ring s)))" using ls le by simp
    moreover have "length (terms s) - ?k + (unat i - unat (tail_log_index (ring s))) = unat i - (unat (prev_log_index req) + 1)"
      using False ls le old a(2) by simp
    moreover have "length (terms s) - ?k \<le> length (map meta_term (entry_metas req))"
      using False ls le old a(2) i(2) len by simp
    ultimately have "terms t ! ?n = map meta_term (entry_metas req) ! (unat i - (unat (prev_log_index req) + 1))"
      unfolding a(1) by (simp only: nth_append_length_plus nth_drop)
    with t False show ?thesis by simp
  qed
qed

text \<open>
  C7. What a successful round means. A leader builds a request, the follower's handler accepts it
  and the leader takes the answer: the leader's match index then covers the whole batch. The
  follower's entry at an index of the batch has the leader's term exactly if it is new or had that
  term before; an older entry of another term is counted as replicated.
\<close>

theorem round_match_index:
  assumes inv: "node_inv l" "node_inv f"
    and run: "replication_round bc htm rtm fi l f = Some (r, rsp, l', f')" and ok: "success rsp"
    and carry: "round_len r > 0" "leader_pba_src (round_req r) \<noteq> 0" "round_next r > 0"
    and old: "unat (oldest_log_index f) \<le> unat (round_next r)"
  shows "unat (round_next r) + unat (round_len r) \<le> unat (match_index (cluster (raft l') ! fi)) + 1 \<and>
    (\<forall>i. round_next r \<le> i \<and> unat i < unat (round_next r) + unat (round_len r) \<longrightarrow>
       term_at l' i = term_at l i \<and> term_at l i \<noteq> None \<and>
       (term_at f' i = term_at l' i \<longleftrightarrow> (i < tail_log_index (ring f) \<longrightarrow> term_at f i = term_at l i)))"
proof -
  obtain l1 where b: "ae_build fi l = (Ret (Some r), l1)"
    and h: "handle_append_entries bc htm (round_req r) f = (Ret rsp, f')"
    and fin: "ae_finish fi None r (Some rsp) rtm (ae_count_send r l1) = (Ret (), l')"
    using run by (auto simp: replication_round_def split: prod.splits outcome.splits option.splits)
  note q = built_request [OF b]
  have wf: "wf_log l" using inv(1) by (simp add: node_inv_def)
  have p: "unat (prev_log_index (round_req r)) + 1 = unat (round_next r)"
    using q(2) carry(3) unat_pred [of "round_next r"] by (simp add: word_less_nat_alt)
  note fin_le = batch_in_log [OF wf b]
  have bound: "unat (prev_log_index (round_req r)) + 1 + unat (num_entries (round_req r)) < 18446744073709551616"
    using le_less_trans [OF fin_le unat_u64_less] q(1) unfolding p by simp
  have c: "num_entries (round_req r) > 0" "length (entry_metas (round_req r)) = unat (num_entries (round_req r))"
    "num_entries (round_req r) = round_len r" "aeq_term (round_req r) = current_term (raft l)"
    using q(1) carry(1) by simp_all
  have cs: "raft (ae_count_send r l1) = raft l1" "ring (ae_count_send r l1) = ring l1"
    by (simp_all add: ae_count_send_def)
  note l1 = built_frame [OF b]
  have m: "member_ok (ae_count_send r l1) fi" using l1(3) cs by (simp add: member_ok_def)
  from finish_accepted [OF m ok, of r None rtm] accepted_term [OF inv(2) h ok] c(4) l1(1) cs fin
  have f: "next_index (cluster (raft l') ! fi) =
      max (next_index (cluster (raft l1) ! fi)) (max (round_next r + round_len r) 1)"
    "match_index (cluster (raft l') ! fi) = next_index (cluster (raft l') ! fi) - 1"
    "rlog (raft l') = rlog (raft l1)" "ring l' = ring l1" by auto
  have sum: "unat (round_next r + round_len r) = unat (round_next r) + unat (round_len r)"
    by (rule unat_u64_add [OF le_less_trans [OF fin_le unat_u64_less]])
  have "round_next r + round_len r \<le> next_index (cluster (raft l') ! fi)" "1 \<le> next_index (cluster (raft l') ! fi)"
    by (auto simp: f(1) le_max_iff_disj)
  then have mi: "unat (round_next r) + unat (round_len r) \<le> unat (match_index (cluster (raft l') ! fi)) + 1"
    using unat_pred [of "next_index (cluster (raft l') ! fi)"] sum f(2) by (simp add: word_le_nat_alt)
  have same: "term_at l' i = term_at l i" for i
    using log_at_cong [of l' l] f(3,4) l1(2) q(6) by (simp add: term_at_def)
  have "term_at l i \<noteq> None \<and> (term_at f' i = term_at l' i \<longleftrightarrow> (i < tail_log_index (ring f) \<longrightarrow> term_at f i = term_at l i))"
    if i: "round_next r \<le> i" "unat i < unat (round_next r) + unat (round_len r)" for i
  proof -
    have bt: "term_at l i = Some (map meta_term (entry_metas (round_req r)) ! (unat i - unat (round_next r)))"
      using batch_term [OF b] i by (simp add: word_le_nat_alt)
    have "term_at f' i = (if unat i < unat (tail_log_index (ring f)) then term_at f i else term_at l i)"
      using accepted_term_at [OF inv(2) h ok c(1) carry(2) c(2) bound, of i] old i p c(3) bt
      by (simp add: word_le_nat_alt)
    with bt same [of i] show ?thesis by (auto simp: word_less_nat_alt)
  qed
  with mi same show ?thesis by blast
qed

text \<open>Node 2 leads in term 2 with two entries of its own; node 1 holds two of term 1.\<close>

definition conflict_leader :: server where
  "conflict_leader = upd_raft (\<lambda>r. r\<lparr>current_term := 2, role := Leader, node_id := 2, cluster_index := 1,
     rlog := [sample_entry 0 [], sample_entry 2 [7], sample_entry 2 [8, 9]]\<rparr>) sample_node"

lemma conflict_leader_fields [simp]:
  "ring conflict_leader = ring sample_node" "io conflict_leader = io sample_node"
  "rlog (raft conflict_leader) = [sample_entry 0 [], sample_entry 2 [7], sample_entry 2 [8, 9]]"
  "current_term (raft conflict_leader) = 2" "role (raft conflict_leader) = Leader"
  "commit_index (raft conflict_leader) = 0" "cluster_index (raft conflict_leader) = 1"
  "cluster (raft conflict_leader) = cluster (raft sample_node)"
  "max_ae_batch conflict_leader = DEFAULT_MAX_AE_BATCH" "repl_mode conflict_leader = DestinationSide"
  "max_ae_batch_bytes conflict_leader = DEFAULT_MAX_AE_BATCH_BYTES"
  by (simp_all add: conflict_leader_def upd_raft_def sample_node_def Server_init_def)

lemma conflict_leader_ok: "node_inv conflict_leader" "oldest_log_index conflict_leader = 1" "member_ok conflict_leader 0"
  by (simp_all add: node_inv_def wf_cluster_def wf_log_def oldest_log_index_def log_size_def member_ok_def)

lemma conflict_leader_log:
  "log_at conflict_leader 1 = Ret (sample_entry 2 [7])" "log_at conflict_leader 2 = Ret (sample_entry 2 [8, 9])"
  by (simp_all add: log_at_def log_slice_def conflict_leader_ok)

lemma conflict_round_build:
  "\<exists>r t. ae_build 0 conflict_leader = (Ret (Some r), t) \<and> round_next r = 1 \<and> round_len r = 2 \<and>
     aeq_term (round_req r) = 2 \<and> prev_log_index (round_req r) = 0 \<and> num_entries (round_req r) = 2 \<and>
     leader_pba_src (round_req r) = 4608"
proof -
  have n: "slots_for_log_index conflict_leader 1 = Ret 1" "slots_for_log_index conflict_leader 2 = Ret 1"
    by (simp_all add: slots_for_log_index_def)
  have c: "clamp_next 0 conflict_leader = (1, conflict_leader)"
    by (simp add: clamp_next_def ClusterMember_def Let_def)
  have p: "prev_log 1 conflict_leader = Ret (0, 0)" by (simp add: prev_log_def conflict_leader_ok)
  have b: "batch_len 0 1 conflict_leader = Some 2"
    by (simp add: batch_len_def ClusterMember_def DEFAULT_MAX_AE_BATCH_def)
  have f: "find_start_slot 1 2 conflict_leader = (2, 0)"
    by (simp add: find_start_slot_def sample_defs)
  have a: "accept_batch conflict_leader 1 2 0 0 = Ret (2, 2)"
    unfolding numeral_2_eq_2 by (simp add: n size_defs)
  have z: "size_batch 1 2 0 conflict_leader = Ret (2, 2, 1)"
    using a by (simp add: size_batch_def)
  have y: "lookup [sample_extent] 512 4096 = Ret \<lparr>pba = 4608, seg_len = 4096\<rparr>" by code_simp
  have g: "align_up (2 * SECTOR_SIZE) PAGE_SIZE = 4096" "slot_offset 0 = 512"
    by (simp_all add: align_up_def slot_offset_def size_defs)
  have x: "locate_batch 1 2 2 0 conflict_leader = Ret (2, 2, 4608)"
    by (simp add: locate_batch_def leader_pba_for_range_def fd_query_def get_pba_def sample_fd_def
        y g Let_def) (simp add: size_defs)
  have m: "build_metas conflict_leader 1 2 0 = Ret [meta_of (sample_entry 2 [7]), meta_of (sample_entry 2 [8, 9])]"
    unfolding numeral_2_eq_2 by (simp add: conflict_leader_log meta_of_def)
  show ?thesis using c p b f z x m conflict_leader_ok(3) by (simp add: ae_build_def cluster_at_def)
qed

lemma conflict_round_accept:
  assumes "aeq_term req = 2" "prev_log_index req = 0" "num_entries req = 2"
  shows "\<exists>rsp t. handle_append_entries no_copy sample_handler_times req conflict_follower = (Ret rsp, t) \<and>
    success rsp \<and> aer_term rsp = 2"
proof -
  let ?s = "reset_election_timeout conflict_follower"
  let ?rsp = "AppendEntriesResponse\<lparr>aer_term := 2\<rparr>"
  have u: "update_term 2 conflict_follower = (Ret False, conflict_follower)"
    by (simp add: update_term_stay)
  have p: "prev_log_check req ?s = Ret None" using assms(2) by (simp add: prev_log_check_def)
  have w: "wf_cluster (raft ?s)" "io_healthy ?s"
    using conflict_follower_ok by (simp_all add: node_inv_def)
  obtain rsp t where t: "ae_accept sample_handler_times 0 0 0 req ?rsp ?s = (Ret rsp, t)"
    using ae_accept_returns [OF w] unfolding returns_def by blast
  have k: "ae_batch_known req ?s" using assms by (simp add: ae_batch_known_def skip_count_def Let_def)
  have "handle_append_entries no_copy sample_handler_times req conflict_follower = (Ret rsp, t)"
    using u p t k assms(1) by (simp add: handle_append_entries_def ae_receive_def ae_follow_def)
  with ae_accept_Ret [OF t] show ?thesis by simp
qed

theorem round_match_index_witness:
  "\<exists>r rsp l' f'. replication_round no_copy sample_handler_times sample_times 0 conflict_leader conflict_follower =
       Some (r, rsp, l', f') \<and> 2 \<le> unat (match_index (cluster (raft l') ! 0)) \<and> term_at f' 1 \<noteq> term_at l' 1"
proof -
  obtain r l1 where b: "ae_build 0 conflict_leader = (Ret (Some r), l1)" and r: "round_next r = 1" "round_len r = 2"
      "aeq_term (round_req r) = 2" "prev_log_index (round_req r) = 0" "num_entries (round_req r) = 2"
      "leader_pba_src (round_req r) = 4608" using conflict_round_build by blast
  obtain rsp f' where h: "handle_append_entries no_copy sample_handler_times (round_req r) conflict_follower = (Ret rsp, f')"
    and ok: "success rsp" "aer_term rsp = 2" using conflict_round_accept [OF r(3-5)] by blast
  have "member_ok (ae_count_send r l1) 0" "aeq_term (round_req r) = current_term (raft (ae_count_send r l1))"
    using r(3) built_frame(1,3) [OF b] by (simp_all add: member_ok_def ae_count_send_def)
  then obtain l' where "ae_finish 0 None r (Some rsp) sample_times (ae_count_send r l1) = (Ret (), l')"
    using finish_accepted [of "ae_count_send r l1" 0 rsp r None sample_times] ok r(3) by auto
  then have run: "replication_round no_copy sample_handler_times sample_times 0 conflict_leader conflict_follower =
      Some (r, rsp, l', f')" using b h by (simp add: replication_round_def)
  have c: "round_len r > 0" "leader_pba_src (round_req r) \<noteq> 0" "round_next r > 0"
    "unat (oldest_log_index conflict_follower) \<le> unat (round_next r)"
    using r by (simp_all add: conflict_follower_ok(3))
  note m = round_match_index [OF conflict_leader_ok(1) conflict_follower_ok(1) run ok(1) c]
  have "term_at conflict_follower 1 = Some 1" "term_at conflict_leader 1 = Some 2"
    by (simp_all add: term_at_def log_at_def log_slice_def conflict_follower_ok(3) conflict_leader_ok(2))
  with m r run show ?thesis by auto
qed

end
