(* ===== verification/RingData.thy ===== *)
theory RingData
  imports Persist
begin

text \<open>
  What \<open>persist_circular\<close> leaves in the ring file and what \<open>read_entry_direct\<close> reads back. The loop
  collects runs of entries in a buffer and writes a run when the position jumps; seen as the content
  of the file with the pending run laid over it, each entry is one write of its image at its slot.
  Shows that a safe batch is on the medium where the slot arithmetic puts it, that it leaves the live
  entries and the header alone, that an entry reads back as it was written, and that the admission
  test alone is not enough: a batch that wraps a second time overwrites live entries.
\<close>

section \<open>The image of an entry\<close>

definition entry_image :: "entry \<Rightarrow> u64 \<Rightarrow> u64 \<Rightarrow> bytes" where
  "entry_image e needed log_idx = encode_entry e needed log_idx (replicate (512 * unat needed) 0)"

text \<open>The header fields, the command and zeros: nothing of the old region is left.\<close>

lemma encode_entry_eq:
  assumes "length r = 512 * unat needed" "32 + length (command e) \<le> 512 * unat needed"
  shows "encode_entry e needed i r = entry_image e needed i"
proof -
  let ?h = "\<lambda>r. put_u64_le (put_u64_le (put_u64_le (put_u64_le r 0 (e_term e)) 8 (command_size (command e))) 16 needed) 24 i"
  let ?z = "replicate (512 * unat needed) 0"
  have len: "length r \<ge> 32" "length ?z = length r" using assms by simp_all
  have h: "take 32 (?h r) = take 32 (?h ?z)"
  proof (rule nth_equalityI)
    fix k assume "k < length (take 32 (?h r))"
    then have "k < 32" "k < length r" by simp_all
    then show "take 32 (?h r) ! k = take 32 (?h ?z) ! k"
      using len by (auto simp: nth_put_u64_le)
  qed (use assms in simp)
  have e: "encode_entry e needed i x = take (32 + length (command e))
      (if command e \<noteq> [] then take 32 (?h x) @ command e @ drop (32 + length (command e)) (?h x) else ?h x)
      @ replicate (512 * unat needed - (32 + length (command e))) 0" if "length x = 512 * unat needed" for x
    using that assms(2) by (simp add: encode_entry_def Let_def entry_hdr_defs size_defs)
  have t: "take (32 + length (command e)) (if command e \<noteq> [] then take 32 (?h x) @ command e @ drop (32 + length (command e)) (?h x) else ?h x)
      = take 32 (?h x) @ command e" if "length x = 512 * unat needed" for x
    using that assms(2) by simp
  show ?thesis unfolding entry_image_def e [OF assms(1)] e [OF length_replicate] t [OF assms(1)] t [OF length_replicate]
    using h by simp
qed

lemma entry_image_parts:
  assumes "32 + length (command e) \<le> 512 * unat needed"
  shows "length (entry_image e needed i) = 512 * unat needed"
    "get_u64_le (entry_image e needed i) 0 = e_term e"
    "get_u64_le (entry_image e needed i) 8 = command_size (command e)"
    "get_u64_le (entry_image e needed i) 16 = needed"
    "take (length (command e)) (drop 32 (entry_image e needed i)) = command e"
proof -
  let ?h = "put_u64_le (put_u64_le (put_u64_le (put_u64_le (replicate (512 * unat needed) 0) 0 (e_term e)) 8 (command_size (command e))) 16 needed) 24 i"
  have im: "entry_image e needed i = take 32 ?h @ command e @ replicate (512 * unat needed - (32 + length (command e))) 0"
    using assms by (simp add: entry_image_def encode_entry_def Let_def entry_hdr_defs size_defs)
  show "length (entry_image e needed i) = 512 * unat needed" using assms by (simp add: im)
  have g: "get_u64_le (entry_image e needed i) k = get_u64_le ?h k" if "k + 8 \<le> 32" for k
    using that assms unfolding get_u64_le_def im by (intro fold_cong) (auto simp: nth_append)
  show "get_u64_le (entry_image e needed i) 0 = e_term e" "get_u64_le (entry_image e needed i) 8 = command_size (command e)"
    "get_u64_le (entry_image e needed i) 16 = needed"
    using assms by (simp_all add: g get_put_u64_le_same get_put_u64_le_other)
  show "take (length (command e)) (drop 32 (entry_image e needed i)) = command e" using assms by (simp add: im)
qed

section \<open>The file with the pending run\<close>

definition file_content :: "server \<Rightarrow> int \<Rightarrow> u8" where
  "file_content s = file_byte (file_extents (disk_of s)) (media (disk_of s))"

definition overlay :: "int \<Rightarrow> bytes \<Rightarrow> (int \<Rightarrow> u8) \<Rightarrow> int \<Rightarrow> u8" where
  "overlay off data f x = (if off \<le> x \<and> x < off + int (length data) then data ! nat (x - off) else f x)"

definition pending :: "persist_locals \<Rightarrow> server \<Rightarrow> int \<Rightarrow> u8" where
  "pending l s = overlay (p_run_off l) (buf_bytes (run_buf (ring s))) (file_content s)"

lemma overlay_Nil [simp]: "overlay off [] f = f"
  by (auto simp: overlay_def fun_eq_iff)

lemma overlay_append: "overlay off (a @ b) f = overlay (off + int (length a)) b (overlay off a f)"
  by (auto simp: overlay_def nth_append fun_eq_iff nat_less_iff intro!: arg_cong [where f = "nth b"])

text \<open>The layout of the open file and what the descriptor has cached of it; with the header cache.\<close>

definition fd_layout :: "server \<Rightarrow> extent list \<times> bool \<times> extent list" where
  "fd_layout s = (let c = the (cached_fd (io s)) in (file_extents (fd_disk c), has_extent_cache c, extent_cache c))"

definition kept :: "server \<Rightarrow> (extent list \<times> bool \<times> extent list) \<times> bool \<times> u64 \<times> u64" where
  "kept s = (fd_layout s, persisted_init (ring s), persisted_term (ring s), persisted_voted_for (ring s))"

text \<open>
  What holds between two iterations: the device works, the ring is mapped, the position lies in the
  ring, and a pending run ends at the position.
\<close>

definition ring_mapped :: "server \<Rightarrow> bool" where
  "ring_mapped s \<longleftrightarrow> wf_file (file_extents (disk_of s)) \<and>
     (\<forall>x. 512 \<le> x \<and> x < 512 + 512 * int (unat (ring_slots (ring s))) \<longrightarrow> file_mapped (file_extents (disk_of s)) x)"

definition loop_ok :: "persist_locals \<Rightarrow> server \<Rightarrow> bool" where
  "loop_ok l s \<longleftrightarrow> io_healthy s \<and> ring_mapped s \<and> wf_buffer (run_buf (ring s)) \<and>
     unat (tail_slot (ring s)) \<le> unat (ring_slots (ring s)) \<and> unat (ring_slots (ring s)) < 9223372036854775808 \<and>
     (buf_size (run_buf (ring s)) \<noteq> 0 \<longrightarrow> 512 \<le> p_run_off l \<and>
        p_run_off l + int (buf_size (run_buf (ring s))) = slot_offset (tail_slot (ring s)))"

lemma length_buf_bytes: "wf_buffer b \<Longrightarrow> length (buf_bytes b) = buf_size b"
  by (simp add: buf_bytes_def wf_buffer_def capacity_def)

lemma buf_bytes_clear [simp]: "buf_bytes (buf_clear b) = []" "wf_buffer (buf_clear b)"
  by (simp_all add: buf_bytes_def buf_clear_def wf_buffer_def)

lemma slot_offset_in_ring:
  assumes "unat p \<le> unat (n :: u64)" "unat n < 9223372036854775808"
  shows "slot_offset p = 512 + 512 * int (unat p)"
  using slot_offset_unat [of p] assms by simp

lemma flush_run_pending:
  assumes ok: "loop_ok l s"
  shows "\<exists>l' s'. flush_run l s = (Ret l', s') \<and> loop_ok l' s' \<and> buf_size (run_buf (ring s')) = 0 \<and>
    pending l' s' = pending l s \<and> file_content s' = pending l s \<and> tail_slot (ring s') = tail_slot (ring s) \<and>
    log_slot_map (ring s') = log_slot_map (ring s) \<and> kept s' = kept s \<and> persist_frame s s'"
proof (cases "buf_size (run_buf (ring s)) = 0")
  case True
  moreover from this have "buf_bytes (run_buf (ring s)) = []" by (simp add: buf_bytes_def)
  ultimately show ?thesis using ok by (simp add: flush_run_def pending_def)
next
  case False
  let ?b = "buf_bytes (run_buf (ring s))" and ?o = "p_run_off l" and ?n = "unat (ring_slots (ring s))"
  have lo: "io_healthy s" "ring_mapped s" "length ?b = buf_size (run_buf (ring s))" "512 \<le> ?o"
    "?o + int (length ?b) \<le> 512 + 512 * int ?n"
    using ok False slot_offset_in_ring [of "tail_slot (ring s)" "ring_slots (ring s)"]
    by (auto simp: loop_ok_def length_buf_bytes) (simp add: word_le_def flip: word_le_nat_alt)
  obtain ns t where w: "with_fd (write_at_file ?b ?o) s = (Ret ns, t)" "io_healthy t"
    using write_returns [OF lo(1), of ?b ?o] by (auto simp: returns_def)
  obtain c c' where c: "cached_fd (io s) = Some c" "write_at_file ?b ?o c = (Ret ns, c')"
    "t = s\<lparr>io := (io s)\<lparr>cached_fd := Some c'\<rparr>\<rparr>" by (rule with_fd_Ret [OF w(1)])
  let ?s = "upd_ring (\<lambda>g. g\<lparr>run_buf := buf_clear (run_buf g)\<rparr>) t"
  have run: "flush_run l s = (Ret (l\<lparr>p_flush_count := p_flush_count l + 1, p_nvme_ns := p_nvme_ns l + ns,
      p_run_off := ?o + int (buf_size (run_buf (ring s)))\<rparr>), ?s)"
    using False w(1) by (simp add: flush_run_def Let_def)
  have fr: "persist_frame s ?s" using flush_run_frame [of s l] run by simp
  have d: "file_extents (disk_of ?s) = file_extents (disk_of s)"
    "media (disk_of ?s) = file_store (file_extents (disk_of s)) ?o ?b (media (disk_of s))"
    using c by (simp_all add: write_at_file_Ret [OF c(2)] disk_of_def upd_ring_def)
  have g: "tail_slot (ring ?s) = tail_slot (ring s)" "log_slot_map (ring ?s) = log_slot_map (ring s)"
    "run_buf (ring ?s) = buf_clear (run_buf (ring s))" "ring_slots (ring ?s) = ring_slots (ring s)"
    using c(3) by (simp_all add: upd_ring_def)
  have "\<forall>k < length ?b. file_mapped (file_extents (disk_of s)) (?o + int k)"
    using lo(2,4,5) by (auto simp: ring_mapped_def)
  then have "file_byte (file_extents (disk_of s)) (media (disk_of ?s)) x = overlay ?o ?b (file_content s) x" for x
    using lo(2) unfolding d(2) overlay_def file_content_def by (intro ring_file.rd_wr) (simp_all add: ring_mapped_def)
  then have fc: "file_content ?s = pending l s" by (auto simp: file_content_def d(1) pending_def fun_eq_iff)
  have "buf_size (run_buf (ring ?s)) = 0" unfolding g(3) by (simp add: buf_clear_def)
  moreover have "loop_ok l' ?s" for l'
    using ok w(2) g d(1) by (auto simp: loop_ok_def ring_mapped_def buf_clear_def wf_buffer_def)
  moreover have "kept ?s = kept s"
    using c by (simp add: kept_def fd_layout_def upd_ring_def write_at_file_Ret [OF c(2)])
  ultimately show ?thesis using run fr fc g by (auto simp: pending_def)
qed

lemma append_region_bytes:
  assumes "wf_buffer b" "32 + length (command e) \<le> 512 * unat needed"
  shows "wf_buffer (append_region e needed i b)" "buf_bytes (append_region e needed i b) = buf_bytes b @ entry_image e needed i"
    "buf_size (append_region e needed i b) = buf_size b + 512 * unat needed"
proof -
  let ?n = "512 * unat needed"
  let ?c = "buf_resize (buf_size b + ?n) 512 b"
  have r: "wf_buffer ?c" "buf_bytes ?c = buf_bytes b @ replicate ?n 0"
    using buf_resize_bytes [OF assms(1), of 512 "buf_size b + ?n"] length_buf_bytes [OF assms(1)] by simp_all
  have sz: "buf_size ?c = buf_size b + ?n" by (simp add: buf_resize_def Let_def)
  have t: "take (buf_size b) (buf_data ?c) = buf_bytes b" "take ?n (drop (buf_size b) (buf_data ?c)) = replicate ?n 0"
  proof -
    have l: "length (take (buf_size b) (buf_data ?c)) = length (buf_bytes b)"
      using r(1) sz length_buf_bytes [OF assms(1)] by (simp add: wf_buffer_def capacity_def)
    have "take (buf_size b) (buf_data ?c) @ take ?n (drop (buf_size b) (buf_data ?c)) = buf_bytes b @ replicate ?n 0"
      unfolding r(2) [symmetric] buf_bytes_def [of ?c] sz take_add ..
    then show "take (buf_size b) (buf_data ?c) = buf_bytes b" "take ?n (drop (buf_size b) (buf_data ?c)) = replicate ?n 0"
      unfolding append_eq_append_conv [OF disjI1 [OF l]] by blast+
  qed
  have d: "append_region e needed i b = ?c\<lparr>buf_data := buf_bytes b @ entry_image e needed i @ drop (buf_size b + ?n) (buf_data ?c)\<rparr>"
    using t by (simp add: append_region_def Let_def size_defs mult.commute entry_image_def)
  have l: "length (entry_image e needed i) = ?n" "length (buf_bytes b) = buf_size b"
    by (rule entry_image_parts(1) [OF assms(2)], rule length_buf_bytes [OF assms(1)])
  show "buf_size (append_region e needed i b) = buf_size b + ?n" by (simp add: d sz)
  show "buf_bytes (append_region e needed i b) = buf_bytes b @ entry_image e needed i"
    by (simp add: d buf_bytes_def [of "?c\<lparr>buf_data := _\<rparr>"] sz l)
  show "wf_buffer (append_region e needed i b)" by (simp add: d wf_buffer_def capacity_def sz l)
qed

text \<open>One entry is one write of its image at the position, in the content with the pending run.\<close>

lemma place_entry_pending:
  assumes ok: "loop_ok l s" and fit: "unat (tail_slot (ring s)) + unat needed \<le> unat (ring_slots (ring s))"
    and e: "32 + length (command e) \<le> 512 * unat needed"
  shows "\<exists>l' s'. place_entry e needed i l s = (Ret l', s') \<and> loop_ok l' s' \<and>
    pending l' s' = overlay (slot_offset (tail_slot (ring s))) (entry_image e needed i) (pending l s) \<and>
    tail_slot (ring s') = tail_slot (ring s) + needed \<and> kept s' = kept s \<and> persist_frame s s' \<and>
    (role (raft s) = Leader \<longrightarrow> log_slot_map (ring s') =
       AList.update i \<lparr>sr_start = tail_slot (ring s), sr_num_slots = needed, sr_state = Using\<rparr> (log_slot_map (ring s)))"
proof -
  let ?b = "run_buf (ring s)" and ?t = "tail_slot (ring s)"
  define l' where "l' = (if buf_size ?b = 0 then l\<lparr>p_run_off := slot_offset ?t\<rparr> else l)"
  obtain s' where run: "place_entry e needed i l s = (Ret l', s')"
    by (simp add: place_entry_def Let_def l'_def)
  have wf: "wf_buffer ?b" using ok by (simp add: loop_ok_def)
  note ar = append_region_bytes [OF wf e, of i]
  have s': "io s' = io s" "tail_slot (ring s') = ?t + needed" "ring_slots (ring s') = ring_slots (ring s)"
    "run_buf (ring s') = append_region e needed i ?b" "persisted_init (ring s') = persisted_init (ring s)"
    "persisted_term (ring s') = persisted_term (ring s)" "persisted_voted_for (ring s') = persisted_voted_for (ring s)"
    using run by (auto simp: place_entry_def Let_def upd_ring_def trace_slot_map_def split: if_splits)
  have map: "log_slot_map (ring s') =
       AList.update i \<lparr>sr_start = ?t, sr_num_slots = needed, sr_state = Using\<rparr> (log_slot_map (ring s))" if "role (raft s) = Leader"
    using run that by (auto simp: place_entry_def Let_def upd_ring_def trace_slot_map_def split: if_splits)
  have d: "disk_of s' = disk_of s" using s'(1) by (simp add: disk_of_def)
  have t: "unat (?t + needed) = unat ?t + unat needed"
    using fit ok by (intro unat_u64_add) (auto simp: loop_ok_def)
  have so: "slot_offset ?t = int (512 + 512 * unat ?t)" "slot_offset (?t + needed) = int (512 + 512 * (unat ?t + unat needed))"
    using slot_offset_in_ring [of ?t "ring_slots (ring s)"] slot_offset_in_ring [of "?t + needed" "ring_slots (ring s)"] ok fit t
    by (simp_all only: loop_ok_def)
  have ro: "p_run_off l' + int (buf_size ?b) = slot_offset ?t" "512 \<le> p_run_off l'"
    using ok so by (auto simp: l'_def loop_ok_def)
  have "loop_ok l' s'"
    using ok s' d ar(1,3) t fit ro so io_healthy_cong [OF s'(1)] by (simp add: loop_ok_def ring_mapped_def)
  moreover have "pending l' s' = overlay (slot_offset ?t) (entry_image e needed i) (pending l s)"
  proof -
    have "overlay (p_run_off l') (buf_bytes ?b) (file_content s) = pending l s"
      by (auto simp: l'_def pending_def buf_bytes_def)
    then show ?thesis
      using ro(1) length_buf_bytes [OF wf] d by (simp add: pending_def s'(4) ar(2) overlay_append file_content_def)
  qed
  moreover have "persist_frame s s'" using place_entry_frame [of s e needed i l] run by simp
  moreover have "kept s' = kept s" using s' by (simp add: kept_def fd_layout_def)
  ultimately show ?thesis using run s'(2) map by auto
qed

definition entry_slot :: "u64 \<Rightarrow> u64 \<Rightarrow> u64 \<Rightarrow> u64" where
  "entry_slot nring slot needed = (if slot + needed > nring then 0 else slot)"

text \<open>A command that the ring can hold.\<close>

abbreviation fits_ring :: "u64 \<Rightarrow> bytes \<Rightarrow> bool" where
  "fits_ring nring \<equiv> fits_after nring 0"

lemma fits_ring_slots:
  assumes "fits_ring nring cmd" "unat slot \<le> unat nring" "unat nring < 9223372036854775808"
  defines "needed \<equiv> slots_for_entry (command_size cmd)"
  shows "unat (entry_slot nring slot needed) + unat needed \<le> unat nring" "32 + length cmd \<le> 512 * unat needed" "0 < unat needed"
proof -
  have n: "unat needed \<le> unat nring" and l: "length cmd < 9223372036854775808"
    using assms(1) by (simp_all add: fits_after_def needed_def)
  have "unat (slot + needed) = unat slot + unat needed" using n assms(2,3) by (intro unat_u64_add) simp
  then show "unat (entry_slot nring slot needed) + unat needed \<le> unat nring"
    using n by (auto simp: entry_slot_def word_less_nat_alt)
  have ok: "cmd_len_ok (command_size cmd)" by (rule fits_after_cmd_len_ok [OF assms(1)])
  show "32 + length cmd \<le> 512 * unat needed"
    using slots_for_entry_bytes(1) [OF ok] l by (simp add: needed_def unat_command_size)
  show "0 < unat needed" unfolding needed_def by (rule slots_for_entry_pos [OF ok])
qed

definition entry_index :: "server \<Rightarrow> nat \<Rightarrow> u64" where
  "entry_index s i = tail_log_index (ring s) - of_nat (length (rlog (raft s)) - i)"

lemma persist_entry_pending:
  assumes ok: "loop_ok l s" and fit: "fits_ring (ring_slots (ring s)) (command (rlog (raft s) ! i))"
  defines "e \<equiv> rlog (raft s) ! i"
  defines "needed \<equiv> slots_for_entry (command_size (command e))"
  defines "p \<equiv> entry_slot (ring_slots (ring s)) (tail_slot (ring s)) needed"
  shows "\<exists>l' s'. persist_entry True i l s = (Ret l', s') \<and> loop_ok l' s' \<and>
    pending l' s' = overlay (slot_offset p) (entry_image e needed (entry_index s i)) (pending l s) \<and>
    tail_slot (ring s') = p + needed \<and> kept s' = kept s \<and> persist_frame s s' \<and>
    (role (raft s) = Leader \<longrightarrow> log_slot_map (ring s') =
       AList.update (entry_index s i) \<lparr>sr_start = p, sr_num_slots = needed, sr_state = Using\<rparr> (log_slot_map (ring s)))"
proof -
  have lo: "unat (tail_slot (ring s)) \<le> unat (ring_slots (ring s))" "unat (ring_slots (ring s)) < 9223372036854775808"
    using ok by (simp_all add: loop_ok_def)
  note f = fits_ring_slots [OF fit lo, folded e_def, folded needed_def, folded p_def]
  have "\<exists>l1 s1. wrap_tail needed l s = (Ret l1, s1) \<and> loop_ok l1 s1 \<and> pending l1 s1 = pending l s \<and>
    tail_slot (ring s1) = p \<and> log_slot_map (ring s1) = log_slot_map (ring s) \<and> kept s1 = kept s \<and> persist_frame s s1"
  proof (cases "tail_slot (ring s) + needed > ring_slots (ring s)")
    case True
    from flush_run_pending [OF ok] obtain l1 t where t: "flush_run l s = (Ret l1, t)" "loop_ok l1 t"
      "buf_size (run_buf (ring t)) = 0" "pending l1 t = pending l s" "log_slot_map (ring t) = log_slot_map (ring s)"
      "kept t = kept s" by blast
    let ?t = "upd_ring (\<lambda>g. g\<lparr>tail_slot := 0\<rparr>) t"
    have w: "wrap_tail needed l s = (Ret l1, ?t)" using True t(1) by (simp add: wrap_tail_def)
    have "io ?t = io t" "run_buf (ring ?t) = run_buf (ring t)" by (simp_all add: upd_ring_def)
    then have "loop_ok l1 ?t" "pending l1 ?t = pending l s" "kept ?t = kept s"
      using t(2,3,4,6) by (auto simp: loop_ok_def ring_mapped_def disk_of_def upd_ring_def io_healthy_def pending_def
          file_content_def kept_def fd_layout_def)
    then show ?thesis using w t(5) True wrap_tail_frame [of s needed l] by (auto simp: upd_ring_def p_def entry_slot_def)
  qed (use ok in \<open>simp add: wrap_tail_def p_def entry_slot_def\<close>)
  then obtain l1 s1 where w: "wrap_tail needed l s = (Ret l1, s1)" "loop_ok l1 s1" "pending l1 s1 = pending l s"
    "tail_slot (ring s1) = p" "log_slot_map (ring s1) = log_slot_map (ring s)" "kept s1 = kept s" "persist_frame s s1"
    by blast
  have same: "ring_slots (ring s1) = ring_slots (ring s)" "raft s1 = raft s" using w(7) by (simp_all add: server_frame)
  from place_entry_pending [OF w(2), of needed e "entry_index s i"] f(1,2) w(4) same(1) obtain l' s' where
    pl: "place_entry e needed (entry_index s i) l1 s1 = (Ret l', s')" "loop_ok l' s'"
      "pending l' s' = overlay (slot_offset p) (entry_image e needed (entry_index s i)) (pending l1 s1)"
      "tail_slot (ring s') = p + needed" "kept s' = kept s1" "persist_frame s1 s'"
      "role (raft s1) = Leader \<longrightarrow> log_slot_map (ring s') =
         AList.update (entry_index s i) \<lparr>sr_start = p, sr_num_slots = needed, sr_state = Using\<rparr> (log_slot_map (ring s1))"
    by auto
  have "persist_entry True i l s = (Ret l', s')"
    using w(1) pl(1) by (simp add: persist_entry_def Let_def needed_def e_def entry_index_def)
  with pl w same persist_frame_trans [OF w(7) pl(6)] show ?thesis by auto
qed

section \<open>The writes of a batch\<close>

text \<open>
  Index, slot and content of each entry that the loop places from write position \<open>slot\<close> on, and the
  file content that these writes give, in order.
\<close>

abbreviation needed_slots :: "entry \<Rightarrow> u64" where
  "needed_slots e \<equiv> slots_for_entry (command_size (command e))"

fun ring_writes :: "u64 \<Rightarrow> u64 \<Rightarrow> (u64 \<times> entry) list \<Rightarrow> (u64 \<times> u64 \<times> entry) list" where
  "ring_writes nring slot [] = []"
| "ring_writes nring slot ((i, e) # es) =
     (let p = entry_slot nring slot (needed_slots e) in (i, p, e) # ring_writes nring (p + needed_slots e) es)"

definition write_image :: "u64 \<times> u64 \<times> entry \<Rightarrow> (int \<Rightarrow> u8) \<Rightarrow> int \<Rightarrow> u8" where
  "write_image w = (case w of (i, p, e) \<Rightarrow> overlay (slot_offset p) (entry_image e (needed_slots e) i))"

definition lay :: "(u64 \<times> u64 \<times> entry) list \<Rightarrow> (int \<Rightarrow> u8) \<Rightarrow> int \<Rightarrow> u8" where
  "lay ws f = fold write_image ws f"

lemma ring_writes_placements:
  "map (\<lambda>(i, p, e). (p, needed_slots e)) (ring_writes nring slot es) = placements nring slot (map (command \<circ> snd) es)"
  by (induction nring slot es rule: ring_writes.induct) (simp_all add: Let_def entry_slot_def)

lemma ring_writes_nth:
  "j < length es \<Longrightarrow> \<exists>p. ring_writes nring slot es ! j = (fst (es ! j), p, snd (es ! j))"
  by (induction nring slot es arbitrary: j rule: ring_writes.induct)
    (auto simp: Let_def nth_Cons split: nat.split)

lemma length_ring_writes [simp]: "length (ring_writes nring slot es) = length es"
  by (induction nring slot es rule: ring_writes.induct) (simp_all add: Let_def)

definition indexed :: "server \<Rightarrow> nat list \<Rightarrow> (u64 \<times> entry) list" where
  "indexed s js = map (\<lambda>i. (entry_index s i, rlog (raft s) ! i)) js"

lemma persist_entries_pending:
  assumes "loop_ok l s" "\<forall>i \<in> set js. fits_ring (ring_slots (ring s)) (command (rlog (raft s) ! i))"
  shows "\<exists>l' s'. persist_entries True js l s = (Ret l', s') \<and> loop_ok l' s' \<and>
    pending l' s' = lay (ring_writes (ring_slots (ring s)) (tail_slot (ring s)) (indexed s js)) (pending l s) \<and>
    kept s' = kept s"
  using assms
proof (induction js arbitrary: l s)
  case (Cons i js)
  let ?e = "rlog (raft s) ! i"
  let ?p = "entry_slot (ring_slots (ring s)) (tail_slot (ring s)) (needed_slots ?e)"
  obtain l1 s1 where one: "persist_entry True i l s = (Ret l1, s1)" "loop_ok l1 s1"
    "pending l1 s1 = overlay (slot_offset ?p) (entry_image ?e (needed_slots ?e) (entry_index s i)) (pending l s)"
    "tail_slot (ring s1) = ?p + needed_slots ?e" "kept s1 = kept s" "persist_frame s s1"
    using persist_entry_pending [OF Cons.prems(1), of i] Cons.prems(2) by auto
  have same: "ring_slots (ring s1) = ring_slots (ring s)" "raft s1 = raft s" "indexed s1 js = indexed s js"
    using one(6) by (simp_all add: server_frame indexed_def entry_index_def)
  from Cons.IH [OF one(2)] Cons.prems(2) obtain l' s' where
    "persist_entries True js l1 s1 = (Ret l', s')" "loop_ok l' s'"
    "pending l' s' = lay (ring_writes (ring_slots (ring s1)) (tail_slot (ring s1)) (indexed s1 js)) (pending l1 s1)"
    "kept s' = kept s1" using same by auto
  moreover have "ring_writes (ring_slots (ring s)) (tail_slot (ring s)) (indexed s (i # js)) =
      (entry_index s i, ?p, ?e) # ring_writes (ring_slots (ring s1)) (tail_slot (ring s1)) (indexed s1 js)"
    unfolding same(1,3) one(4) by (simp add: indexed_def Let_def)
  ultimately show ?case using one(1,3,5) by (simp add: lay_def write_image_def)
qed (simp add: lay_def indexed_def)

text \<open>The last \<open>n\<close> entries of the log, with their indices.\<close>

definition new_entries :: "nat \<Rightarrow> server \<Rightarrow> (u64 \<times> entry) list" where
  "new_entries n s = indexed s [length (rlog (raft s)) - n..<length (rlog (raft s))]"

lemma new_entries_commands: "map (command \<circ> snd) (new_entries n s) =
    map command (drop (length (rlog (raft s)) - n) (rlog (raft s)))"
  by (rule nth_equalityI) (auto simp: new_entries_def indexed_def)

text \<open>The ring file is open, mapped, in one extent, and its write position lies in the ring.\<close>

definition ring_ready :: "server \<Rightarrow> bool" where
  "ring_ready s \<longleftrightarrow> io_healthy s \<and> ring_mapped s \<and> fd_is_contiguous (the (cached_fd (io s))) \<and>
     unat (tail_slot (ring s)) \<le> unat (ring_slots (ring s)) \<and> unat (ring_slots (ring s)) < 9223372036854775808"

lemma persist_log_content:
  assumes ok: "ring_ready s" and n: "n < length (rlog (raft s))"
    and fit: "list_all (fits_ring (ring_slots (ring s)) \<circ> (command \<circ> snd)) (new_entries n s)"
  shows "\<exists>ns t. persist_log (int n) s = (Ret ns, t) \<and> io_healthy t \<and> kept t = kept s \<and>
    file_content t = lay (ring_writes (ring_slots (ring s)) (tail_slot (ring s)) (new_entries n s)) (file_content s)"
proof -
  let ?log = "rlog (raft s)"
  let ?start = "nat (max 1 (int (length ?log) - int n))"
  let ?f = "\<lambda>g. g\<lparr>run_buf := buf_clear (if capacity (run_buf g) < est_size (drop ?start ?log)
                           then buf_clear (buf_resize (est_size (drop ?start ?log)) (unat SECTOR_SIZE) (run_buf g))
                           else run_buf g)\<rparr>"
  let ?s = "upd_ring ?f s" and ?l = "\<lparr>p_run_off = 0, p_ext_hint = 0, p_nvme_ns = 0, p_flush_count = 0\<rparr>"
  have st: "?start = length ?log - n" using n by auto
  have b: "buf_size (run_buf (ring ?s)) = 0" "buf_bytes (run_buf (ring ?s)) = []" "wf_buffer (run_buf (ring ?s))"
    by (simp_all add: upd_ring_def buf_clear_def buf_bytes_def wf_buffer_def)
  have io: "io ?s = io s" "raft ?s = raft s" "ring_slots (ring ?s) = ring_slots (ring s)" "tail_slot (ring ?s) = tail_slot (ring s)"
    "tail_log_index (ring ?s) = tail_log_index (ring s)" by (simp_all add: upd_ring_def)
  have lk: "loop_ok ?l ?s" using ok b io io_healthy_cong [OF io(1)]
    by (simp add: loop_ok_def ring_ready_def ring_mapped_def disk_of_def)
  have p0: "pending ?l ?s = file_content s" using b(2) io(1) by (simp add: pending_def file_content_def disk_of_def)
  have k0: "kept ?s = kept s" by (simp add: kept_def fd_layout_def upd_ring_def)
  have ix: "indexed ?s [?start..<length ?log] = new_entries n s"
    using io by (simp add: indexed_def new_entries_def entry_index_def st)
  have "\<forall>i \<in> set [?start..<length ?log]. fits_ring (ring_slots (ring ?s)) (command (rlog (raft ?s) ! i))"
    using fit io(2,3) unfolding new_entries_def indexed_def st by (simp add: list_all_iff)
  from persist_entries_pending [OF lk this] obtain l1 s1 where
    e: "persist_entries True [?start..<length ?log] ?l ?s = (Ret l1, s1)" "loop_ok l1 s1"
      "pending l1 s1 = lay (ring_writes (ring_slots (ring s)) (tail_slot (ring s)) (new_entries n s)) (file_content s)"
      "kept s1 = kept s" using io p0 k0 ix by auto
  from flush_run_pending [OF e(2)] obtain l2 t where
    f: "flush_run l1 s1 = (Ret l2, t)" "loop_ok l2 t" "file_content t = pending l1 s1" "kept t = kept s1" by blast
  obtain c where c: "cached_fd (io s) = Some c" "fd_is_contiguous c"
    using ok by (auto simp: ring_ready_def io_healthy_def)
  have "persist_log (int n) s = (Ret (p_nvme_ns l2), t)"
    using c e(1) f(1) io(1) by (simp add: persist_log_def Let_def)
  then show ?thesis using e f by (auto simp: loop_ok_def)
qed

section \<open>The writes of a safe batch\<close>

text \<open>The entries of a safe batch do not meet each other either.\<close>

lemma can_write_from_apart:
  assumes "can_write_from nring head slot wrapped cmds"
    and "list_all (fits_after nring head) cmds"
    and "unat nring < 9223372036854775808" and "unat slot \<le> unat nring"
    and "if wrapped then unat slot \<le> unat head else unat head \<le> unat slot"
  shows "sorted_wrt (\<lambda>(p, n) (q, m). slot_ranges_disjoint p n q m) (placements nring slot cmds)"
  using assms
proof (induction nring head slot wrapped cmds rule: can_write_from.induct)
  case (2 nring head slot wrapped cmd cmds)
  let ?need = "slots_for_entry (command_size cmd)"
  have need: "unat head + unat ?need \<le> unat nring" using 2(3) by (simp add: fits_after_def)
  have add: "unat (x + ?need) = unat x + unat ?need" if "unat x \<le> unat nring" for x
    using that need 2(4) by (intro unat_u64_add) linarith
  define over where "over \<longleftrightarrow> slot + ?need > nring"
  define p where "p = (if over then 0 else slot)"
  define w where "w \<longleftrightarrow> wrapped \<or> over"
  have o: "over \<longleftrightarrow> unat nring < unat slot + unat ?need"
    using add [OF 2(5)] by (simp add: word_less_nat_alt over_def)
  have pn: "unat p \<le> unat nring" using 2(5) by (simp add: p_def)
  have rest: "can_write_from nring head (p + ?need) w cmds" and chk: "w \<Longrightarrow> unat p + unat ?need \<le> unat head"
    using 2(2) add [OF pn] by (auto simp: Let_def word_less_nat_alt w_def over_def p_def split: if_splits)
  have b: "unat (p + ?need) \<le> unat nring"
    using o need add [OF pn] by (auto simp: p_def)
  have inv: "if w then unat (p + ?need) \<le> unat head else unat head \<le> unat (p + ?need)"
    using chk add [OF pn] 2(6) by (auto simp: w_def p_def split: if_splits)
  have "sorted_wrt (\<lambda>(p, n) (q, m). slot_ranges_disjoint p n q m) (placements nring (p + ?need) cmds)"
    by (rule 2(1) [OF refl over_def p_def [unfolded if_True if_False] w_def _ rest _ 2(4) b inv]) (use 2(2,3) in \<open>auto simp: Let_def over_def p_def w_def split: if_splits\<close>)
  moreover have "slot_ranges_disjoint p ?need q m" if q: "(q, m) \<in> set (placements nring (p + ?need) cmds)" for q m
  proof -
    have "unat q + unat m \<le> unat nring \<and>
      (unat (p + ?need) \<le> unat q \<and> (w \<longrightarrow> unat q + unat m \<le> unat head) \<or> \<not> w \<and> unat q + unat m \<le> unat head)"
      by (rule can_write_from_sound [OF rest _ 2(4) b _ q]) (use 2(3) inv in auto)
    moreover have "\<not> w \<Longrightarrow> unat head \<le> unat p" using 2(6) by (auto simp: w_def p_def split: if_splits)
    ultimately show ?thesis using add [OF pn] by (auto simp: slot_ranges_disjoint_def)
  qed
  ultimately show ?case by (auto simp: Let_def p_def over_def)
qed simp

definition slot_bytes :: "u64 \<Rightarrow> u64 \<Rightarrow> int set" where
  "slot_bytes p n = {512 + 512 * int (unat p)..<512 + 512 * int (unat p) + 512 * int (unat n)}"

lemma slot_bytes_disjoint: "slot_ranges_disjoint p n q m \<Longrightarrow> x \<in> slot_bytes q m \<Longrightarrow> x \<notin> slot_bytes p n"
  unfolding slot_ranges_disjoint_def slot_bytes_def atLeastLessThan_iff by linarith

lemma slot_bytes_ge: "x \<in> slot_bytes p n \<Longrightarrow> 512 \<le> x"
  unfolding slot_bytes_def atLeastLessThan_iff by linarith

text \<open>A placement inside the ring with room for the entry.\<close>

definition sound_write :: "u64 \<Rightarrow> u64 \<times> u64 \<times> entry \<Rightarrow> bool" where
  "sound_write nring w = (case w of (i, p, e) \<Rightarrow> unat p + unat (needed_slots e) \<le> unat nring \<and>
     32 + length (command e) \<le> 512 * unat (needed_slots e))"

lemma write_image_at:
  assumes "sound_write nring (i, p, e)" "unat nring < 9223372036854775808"
  shows "write_image (i, p, e) f x = (if x \<in> slot_bytes p (needed_slots e)
     then entry_image e (needed_slots e) i ! nat (x - slot_offset p) else f x)"
  using assms slot_offset_in_ring [of p nring]
  by (simp add: write_image_def overlay_def sound_write_def entry_image_parts(1) slot_bytes_def)

lemma lay_other:
  assumes "\<forall>w \<in> set ws. sound_write nring w" "unat nring < 9223372036854775808"
    and "\<forall>(i, p, e) \<in> set ws. x \<notin> slot_bytes p (needed_slots e)"
  shows "lay ws f x = f x"
  using assms
proof (induction ws arbitrary: f)
  case (Cons w ws)
  obtain i p e where w: "w = (i, p, e)" by (cases w)
  with Cons.prems have "write_image w f x = f x" by (simp add: write_image_at [of nring])
  with Cons show ?case by (simp add: lay_def)
qed (simp add: lay_def)

lemma lay_at:
  assumes ok: "\<forall>w \<in> set ws. sound_write nring w" "unat nring < 9223372036854775808"
    and apart: "sorted_wrt (\<lambda>(p, n) (q, m). slot_ranges_disjoint p n q m) (map (\<lambda>(i, p, e). (p, needed_slots e)) ws)"
    and j: "j < length ws" "ws ! j = (i, p, e)" and x: "x \<in> slot_bytes p (needed_slots e)"
  shows "lay ws f x = entry_image e (needed_slots e) i ! nat (x - slot_offset p)"
proof -
  have ws: "ws = take j ws @ (i, p, e) # drop (Suc j) ws" using j id_take_nth_drop by metis
  have "sorted_wrt (\<lambda>(p, n) (q, m). slot_ranges_disjoint p n q m)
      (map (\<lambda>(i, p, e). (p, needed_slots e)) (take j ws @ (i, p, e) # drop (Suc j) ws))"
    using apart ws by simp
  then have "\<forall>(k, q, d) \<in> set (drop (Suc j) ws). slot_ranges_disjoint p (needed_slots e) q (needed_slots d)"
    by (auto simp: sorted_wrt_append)
  then have "\<forall>(k, q, d) \<in> set (drop (Suc j) ws). x \<notin> slot_bytes q (needed_slots d)"
    using slot_bytes_disjoint x by (fastforce simp: slot_ranges_disjoint_def)
  moreover have "\<forall>w \<in> set (drop (Suc j) ws). sound_write nring w" using ok(1) by (meson in_set_dropD)
  ultimately have "lay (drop (Suc j) ws) g x = g x" for g using lay_other ok(2) by blast
  then have "lay ws f x = write_image (i, p, e) (lay (take j ws) f) x"
    by (subst ws) (simp add: lay_def)
  moreover have "sound_write nring (i, p, e)" using ok(1) j by (metis nth_mem)
  ultimately show ?thesis using x by (simp add: write_image_at [OF _ ok(2)])
qed

section \<open>The header and the sync\<close>

text \<open>The cached header fields, when there are any, are on the medium.\<close>

definition header_on_media :: "server \<Rightarrow> bool" where
  "header_on_media s \<longleftrightarrow> (persisted_init (ring s) \<longrightarrow>
     header_on (file_extents (disk_of s)) (media (disk_of s)) = (persisted_term (ring s), persisted_voted_for (ring s)))"

lemma persist_header_content:
  assumes wf: "wf_disk s" and h: "persist_header ct cv s = (Ret ns, t)"
  shows "\<forall>x \<ge> 512. file_content t x = file_content s x" "fd_layout t = fd_layout s"
proof -
  obtain u where w: "with_fd (write_at_file (encode_header ct cv s) 0) s = (Ret ns, u)"
    and t: "t = upd_ring (\<lambda>g. g\<lparr>persisted_init := True, persisted_term := ct, persisted_voted_for := cv\<rparr>) u"
    using h by (auto simp: persist_header_def andthen_eq_Ret)
  obtain c c' where c: "cached_fd (io s) = Some c" "write_at_file (encode_header ct cv s) 0 c = (Ret ns, c')"
    "u = s\<lparr>io := (io s)\<lparr>cached_fd := Some c'\<rparr>\<rparr>" by (rule with_fd_Ret [OF w])
  show "fd_layout t = fd_layout s"
    using c by (simp add: fd_layout_def t upd_ring_def write_at_file_Ret [OF c(2)])
  have "file_byte xs (file_store xs 0 (encode_header ct cv s) m) x = file_byte xs m x"
    if "512 \<le> x" "wf_file xs" "\<forall>k < 512. file_mapped xs (int k)" for x xs m
    using that by (subst ring_file.rd_wr) simp_all
  with wf c show "\<forall>x \<ge> 512. file_content t x = file_content s x"
    by (simp add: file_content_def t upd_ring_def disk_of_def write_at_file_Ret [OF c(2)] wf_disk_def)
qed

lemma with_fdatasync_Ret:
  assumes "with_fd fdatasync u = (Ret ns, t)"
  shows "media (disk_of t) = media (disk_of u)" "stable (disk_of t) = media (disk_of u)"
    "file_extents (disk_of t) = file_extents (disk_of u)" "fd_layout t = fd_layout u" "ring t = ring u"
proof -
  obtain c c' where c: "cached_fd (io u) = Some c" and f: "fdatasync c = (Ret ns, c')"
    and t: "t = u\<lparr>io := (io u)\<lparr>cached_fd := Some c'\<rparr>\<rparr>" by (rule with_fd_Ret [OF assms])
  show "media (disk_of t) = media (disk_of u)" "stable (disk_of t) = media (disk_of u)"
    "file_extents (disk_of t) = file_extents (disk_of u)" "fd_layout t = fd_layout u" "ring t = ring u"
    by (simp_all add: t disk_of_def fdatasync_Ret [OF f] c fd_layout_def)
qed

text \<open>After the entries: the header when the term or the vote changed, then the sync of the whole file.\<close>

lemma persist_circular_content:
  assumes log: "persist_log n s = (Ret a, u)" "0 < n" and u: "wf_disk u" "header_on_media u"
    and io: "io_healthy s" and v: "get_voted_for s = Ret v"
  shows "\<exists>ns t. persist_circular True n s = (Ret ns, t) \<and> io_healthy t \<and> fd_layout t = fd_layout u \<and>
    stable_header t = (current_term (raft s), v) \<and> stable (disk_of t) = media (disk_of t) \<and>
    (\<forall>x \<ge> 512. file_content t x = file_content u x)"
proof -
  let ?ct = "current_term (raft s)"
  obtain ns t where run: "persist_circular True n s = (Ret ns, t)" "io_healthy t"
    using persist_circular_returns [OF io v, of True n] by (auto simp: returns_def)
  have fr: "raft u = raft s" "get_voted_for u = Ret v"
    using persist_frame_server [OF persist_log_frame [of s n]] log(1) v by (simp_all add: get_voted_for_def)
  show ?thesis
  proof (cases "needs_header ?ct v (ring u)")
    case True
    then obtain hns w sns where h: "persist_header ?ct v u = (Ret hns, w)" and y: "with_fd fdatasync w = (Ret sns, t)"
      using run(1) log fr by (auto simp: persist_circular_def Let_def andthen_eq_Ret)
    note sy = with_fdatasync_Ret [OF y] and hd' = persist_header_content [OF u(1) h] persist_header_Ret [OF u(1) h]
    have "stable_header t = (?ct, v)" using hd'(3) unfolding stable_header_def sy(2,3) by blast
    moreover have "\<forall>x \<ge> 512. file_content t x = file_content u x" using sy hd'(1) by (simp add: file_content_def)
    ultimately show ?thesis using run sy hd'(2) by auto
  next
    case False
    then obtain sns where y: "with_fd fdatasync u = (Ret sns, t)"
      using run(1) log fr by (auto simp: persist_circular_def Let_def andthen_eq_Ret)
    note sy = with_fdatasync_Ret [OF y]
    have "stable_header t = (?ct, v)"
      using False u(2) sy by (auto simp: stable_header_def needs_header_def header_on_media_def)
    then show ?thesis using run sy by (auto simp: file_content_def)
  qed
qed

section \<open>A safe batch is durable\<close>

text \<open>The bytes of a range of slots on a medium.\<close>

definition slots_on :: "server \<Rightarrow> (u64 \<Rightarrow> u8) \<Rightarrow> u64 \<Rightarrow> u64 \<Rightarrow> bytes" where
  "slots_on s m p n = file_load (file_extents (disk_of s)) (slot_offset p) (512 * unat n) m"

lemma slots_on_content:
  assumes "unat p < 9223372036854775808" "\<forall>x \<in> slot_bytes p n. file_content s x = f x"
  shows "slots_on s (media (disk_of s)) p n = map (\<lambda>k. f (slot_offset p + int k)) [0..<512 * unat n]"
proof -
  have "slot_offset p + int k \<in> slot_bytes p n" if "k < 512 * unat n" for k
    using that slot_offset_in_ring [OF order_refl assms(1)] unfolding slot_bytes_def atLeastLessThan_iff by linarith
  with assms(2) show ?thesis by (simp add: slots_on_def file_load_eq ring_file.load_def file_content_def)
qed

text \<open>
  A batch of \<open>n\<close> entries for which the admission test of the code is right: \<open>can_write_all\<close> accepts
  it, and besides, which the code does not check, the ring holds entries, its live slots lie between
  \<open>head_slot\<close> and a different \<open>tail_slot\<close>, and no entry of the batch is longer than the stretch from
  \<open>head_slot\<close> to the end of the ring, so that a ring that has wrapped does not wrap again.
\<close>

definition safe_batch :: "nat \<Rightarrow> server \<Rightarrow> bool" where
  "safe_batch n s \<longleftrightarrow> (let cmds = map command (drop (length (rlog (raft s)) - n) (rlog (raft s))) in
     live_slots_ok (ring s) \<and> log_slot_map (ring s) \<noteq> [] \<and> 0 < n \<and> n < length (rlog (raft s)) \<and>
     list_all (fits_after (ring_slots (ring s)) (head_slot (ring s))) cmds \<and> can_write_all s cmds)"

lemma admitted_writes:
  assumes "safe_batch n s"
  defines "nring \<equiv> ring_slots (ring s)"
  defines "ws \<equiv> ring_writes nring (tail_slot (ring s)) (new_entries n s)"
  shows "sorted_wrt (\<lambda>(p, n) (q, m). slot_ranges_disjoint p n q m) (map (\<lambda>(i, p, e). (p, needed_slots e)) ws)"
    "\<forall>w \<in> set ws. sound_write nring w"
    "\<And>k sr i p e. (k, sr) \<in> set (log_slot_map (ring s)) \<Longrightarrow> (i, p, e) \<in> set ws \<Longrightarrow>
       slot_ranges_disjoint p (needed_slots e) (sr_start sr) (sr_num_slots sr)"
    "list_all (fits_ring nring \<circ> (command \<circ> snd)) (new_entries n s)"
proof -
  let ?g = "ring s" and ?cmds = "map (command \<circ> snd) (new_entries n s)"
  have a: "live_slots_ok ?g" "log_slot_map ?g \<noteq> []" "list_all (fits_after nring (head_slot ?g)) ?cmds" "can_write_all s ?cmds"
    using assms(1) unfolding new_entries_commands by (simp_all add: safe_batch_def Let_def nring_def)
  have cw: "can_write_from nring (head_slot ?g) (tail_slot ?g) (tail_slot ?g < head_slot ?g) ?cmds"
    using a(2,4) by (simp add: can_write_all_def nring_def Let_def)
  have b: "unat nring < 9223372036854775808" "unat (tail_slot ?g) \<le> unat nring"
    using a(1) by (simp_all add: live_slots_ok_def nring_def)
  have pl: "map (\<lambda>(i, p, e). (p, needed_slots e)) ws = placements nring (tail_slot ?g) ?cmds"
    unfolding ws_def by (rule ring_writes_placements)
  show "sorted_wrt (\<lambda>(p, n) (q, m). slot_ranges_disjoint p n q m) (map (\<lambda>(i, p, e). (p, needed_slots e)) ws)"
    unfolding pl by (rule can_write_from_apart [OF cw a(3) b]) (auto simp: word_less_nat_alt)
  have mem: "(p, needed_slots e) \<in> set (placements nring (tail_slot ?g) ?cmds)" if "(i, p, e) \<in> set ws" for i p e
    using that unfolding pl [symmetric] by force
  note adm = can_write_all_placements [OF a(4,1) a(3) [unfolded nring_def], folded nring_def, OF mem]
  show "slot_ranges_disjoint p (needed_slots e) (sr_start sr) (sr_num_slots sr)"
    if "(k, sr) \<in> set (log_slot_map ?g)" "(i, p, e) \<in> set ws" for k sr i p e using adm that by blast
  show fr: "list_all (fits_ring nring \<circ> (command \<circ> snd)) (new_entries n s)"
    using a(3) by (auto simp: list_all_iff fits_after_def)
  have "snd (snd w) \<in> snd ` set (new_entries n s)" if "w \<in> set ws" for w
    using that ring_writes_nth [of _ "new_entries n s" nring "tail_slot ?g"] unfolding ws_def in_set_conv_nth
    by (metis image_eqI length_ring_writes nth_mem snd_conv)
  then have "32 + length (command e) \<le> 512 * unat (needed_slots e)" if "(i, p, e) \<in> set ws" for i p e
    using that fr fits_ring_slots(2) [OF _ _ b(1), of "command e" 0] by (force simp: list_all_iff)
  moreover obtain k sr where "(k, sr) \<in> set (log_slot_map ?g)" using a(2) by (cases "log_slot_map ?g") auto
  ultimately show "\<forall>w \<in> set ws. sound_write nring w" using adm by (auto simp: sound_write_def)
qed

lemma header_on_media_cong:
  assumes "kept t = kept s" "\<forall>x < 512. file_content t x = file_content s x" "header_on_media s"
  shows "header_on_media t"
proof -
  have "file_load (file_extents (disk_of t)) 0 512 (media (disk_of t)) = file_load (file_extents (disk_of s)) 0 512 (media (disk_of s))"
    using assms(2) by (simp add: file_load_eq ring_file.load_def file_content_def)
  then show ?thesis using assms(1,3) by (simp add: header_on_media_def header_on_def kept_def Let_def)
qed

lemma image_bytes:
  assumes "sound_write nring (i, p, e)" "unat nring < 9223372036854775808"
    and "\<forall>x \<in> slot_bytes p (needed_slots e). file_content t x = entry_image e (needed_slots e) i ! nat (x - slot_offset p)"
  shows "slots_on t (media (disk_of t)) p (needed_slots e) = entry_image e (needed_slots e) i"
proof -
  have "unat p < 9223372036854775808" using assms(1,2) by (simp add: sound_write_def)
  from slots_on_content [OF this assms(3)] show ?thesis
    using assms(1) entry_image_parts(1) [of e "needed_slots e" i] map_nth [of "entry_image e (needed_slots e) i"]
    by (simp add: sound_write_def)
qed

lemma batch_content:
  assumes ready: "ring_ready s" "wf_disk s" "header_on_media s" and n: "0 < n" "n < length (rlog (raft s))"
    and v: "get_voted_for s = Ret v"
  defines "ws \<equiv> ring_writes (ring_slots (ring s)) (tail_slot (ring s)) (new_entries n s)"
  assumes w: "\<forall>w \<in> set ws. sound_write (ring_slots (ring s)) w"
    "list_all (fits_ring (ring_slots (ring s)) \<circ> (command \<circ> snd)) (new_entries n s)"
  shows "\<exists>ns t. persist_circular True (int n) s = (Ret ns, t) \<and> io_healthy t \<and> fd_layout t = fd_layout s \<and>
    stable_header t = (current_term (raft s), v) \<and> stable (disk_of t) = media (disk_of t) \<and>
    (\<forall>x \<ge> 512. file_content t x = lay ws (file_content s) x)"
proof -
  have b: "unat (ring_slots (ring s)) < 9223372036854775808" "io_healthy s" using ready(1) by (simp_all add: ring_ready_def)
  obtain a u where u: "persist_log (int n) s = (Ret a, u)" "io_healthy u" "kept u = kept s"
    "file_content u = lay ws (file_content s)"
    using persist_log_content [OF ready(1) n(2) w(2)] by (auto simp: ws_def)
  have "\<forall>x < 512. file_content u x = file_content s x"
    using lay_other [OF w(1) b(1)] u(4) slot_bytes_ge by fastforce
  then have h: "header_on_media u" using header_on_media_cong u(3) ready(3) by blast
  have d: "wf_disk u" using u(2,3) ready(2) by (simp add: wf_disk_def io_healthy_def kept_def fd_layout_def disk_of_def Let_def)
  show ?thesis
    using persist_circular_content [OF u(1) _ d h b(2) v] n(1) u(3,4) by (auto simp: kept_def)
qed

lemma admitted_content:
  assumes "ring_ready s" "wf_disk s" "header_on_media s" and adm: "safe_batch n s" and v: "get_voted_for s = Ret v"
  defines "ws \<equiv> ring_writes (ring_slots (ring s)) (tail_slot (ring s)) (new_entries n s)"
  shows "\<exists>ns t. persist_circular True (int n) s = (Ret ns, t) \<and> io_healthy t \<and> fd_layout t = fd_layout s \<and>
    stable_header t = (current_term (raft s), v) \<and> stable (disk_of t) = media (disk_of t) \<and>
    (\<forall>x \<ge> 512. file_content t x = lay ws (file_content s) x)"
proof -
  have n: "0 < n" "n < length (rlog (raft s))" using adm by (simp_all add: safe_batch_def Let_def)
  show ?thesis unfolding ws_def by (rule batch_content [OF assms(1-3) n v admitted_writes(2,4) [OF adm]])
qed

lemma slots_on_same:
  assumes "fd_layout t = fd_layout s" "unat p < 9223372036854775808" "\<forall>x \<in> slot_bytes p n. file_content t x = file_content s x"
  shows "slots_on t (media (disk_of t)) p n = slots_on s (media (disk_of s)) p n"
  unfolding slots_on_content [OF assms(2,3)]
  by (rule slots_on_content [OF assms(2), symmetric]) simp

text \<open>An entry's image in its slots.\<close>

definition entry_at :: "entry \<Rightarrow> u64 \<Rightarrow> u64 \<Rightarrow> server \<Rightarrow> bool" where
  "entry_at e i p s \<longleftrightarrow> slots_on s (media (disk_of s)) p (needed_slots e) = entry_image e (needed_slots e) i \<and>
     sound_write (ring_slots (ring s)) (i, p, e) \<and> length (command e) < 9223372036854775808"

lemma admitted_entries:
  assumes "ring_ready s" "wf_disk s" "header_on_media s" "safe_batch n s" "get_voted_for s = Ret v"
  defines "log \<equiv> rlog (raft s)"
  shows "\<exists>ns t. persist_circular True (int n) s = (Ret ns, t) \<and> io_healthy t \<and> fd_layout t = fd_layout s \<and>
    ring_slots (ring t) = ring_slots (ring s) \<and> stable_header t = (current_term (raft s), v) \<and> stable (disk_of t) = media (disk_of t) \<and>
    (\<forall>(k, sr) \<in> set (log_slot_map (ring s)). unat (sr_start sr) < unat (ring_slots (ring s)) \<longrightarrow>
       slots_on t (media (disk_of t)) (sr_start sr) (sr_num_slots sr) =
       slots_on s (media (disk_of s)) (sr_start sr) (sr_num_slots sr)) \<and>
    (\<forall>j < n. let e = log ! (length log - n + j) in \<exists>p.
       placements (ring_slots (ring s)) (tail_slot (ring s)) (map command (drop (length log - n) log)) ! j = (p, needed_slots e) \<and>
       entry_at e (tail_log_index (ring s) - of_nat (n - j)) p t)"
proof -
  let ?nr = "ring_slots (ring s)"
  define ws where "ws = ring_writes ?nr (tail_slot (ring s)) (new_entries n s)"
  note w = admitted_writes [OF assms(4), folded ws_def]
  have b: "unat ?nr < 9223372036854775808" using assms(1) by (simp add: ring_ready_def)
  have n: "n < length log" using assms(4) by (simp add: safe_batch_def Let_def log_def)
  obtain ns t where t: "persist_circular True (int n) s = (Ret ns, t)" "io_healthy t" "fd_layout t = fd_layout s"
    "stable_header t = (current_term (raft s), v)" "stable (disk_of t) = media (disk_of t)"
    "\<forall>x \<ge> 512. file_content t x = lay ws (file_content s) x"
    using admitted_content [OF assms(1-5)] by (auto simp: ws_def)
  have nr: "ring_slots (ring t) = ?nr" using persist_fields(4) [of True "int n" s] t(1) by simp
  have "slots_on t (media (disk_of t)) (sr_start sr) (sr_num_slots sr) = slots_on s (media (disk_of s)) (sr_start sr) (sr_num_slots sr)"
    if k: "(k, sr) \<in> set (log_slot_map (ring s))" "unat (sr_start sr) < unat ?nr" for k sr
  proof -
    have "lay ws (file_content s) x = file_content s x" if "x \<in> slot_bytes (sr_start sr) (sr_num_slots sr)" for x
      using lay_other [OF w(2) b] w(3) [OF k(1)] slot_bytes_disjoint that by blast
    then show ?thesis using slots_on_same [OF t(3)] t(6) slot_bytes_ge k(2) b by simp
  qed
  moreover have "let e = log ! (length log - n + j) in \<exists>p.
       placements ?nr (tail_slot (ring s)) (map command (drop (length log - n) log)) ! j = (p, needed_slots e) \<and>
       entry_at e (tail_log_index (ring s) - of_nat (n - j)) p t" if j: "j < n" for j
  proof -
    let ?i = "tail_log_index (ring s) - of_nat (n - j)" and ?e = "log ! (length log - n + j)"
    have ln: "length (new_entries n s) = n" "new_entries n s ! j = (?i, ?e)"
      using n j by (simp_all add: new_entries_def indexed_def entry_index_def log_def)
    obtain p where p: "ws ! j = (?i, p, ?e)" using ring_writes_nth [of j "new_entries n s"] j ln by (auto simp: ws_def)
    have len: "j < length ws" using j ln by (simp add: ws_def)
    have "map (\<lambda>(i, p, e). (p, needed_slots e)) ws ! j = (p, needed_slots ?e)" using len p by simp
    then have pl: "placements ?nr (tail_slot (ring s)) (map command (drop (length log - n) log)) ! j = (p, needed_slots ?e)"
      unfolding log_def ws_def ring_writes_placements new_entries_commands .
    have sw: "sound_write ?nr (?i, p, ?e)" using w(2) p len by (metis nth_mem)
    have "slots_on t (media (disk_of t)) p (needed_slots ?e) = entry_image ?e (needed_slots ?e) ?i"
      using image_bytes [OF sw b, of t] lay_at [OF w(2) b w(1) len p] t(6) slot_bytes_ge by simp
    moreover have "length (command ?e) < 9223372036854775808"
      using w(4) ln j unfolding list_all_length by (auto simp: fits_after_def dest!: spec [of _ j])
    ultimately show ?thesis using pl sw by (simp add: entry_at_def nr)
  qed
  ultimately show ?thesis using t nr by blast
qed

text \<open>
  C9. Persisting a safe batch. The batch is one that the code's admission test accepts, in a ring
  that holds entries, whose live slots lie between \<open>head_slot\<close> and a different \<open>tail_slot\<close>, and with no
  entry longer than the stretch from \<open>head_slot\<close> to the end of the ring; the code checks none of the
  last three (the last section of this theory shows what happens without them). On a working device and
  a ring file in one extent \<open>persist_circular\<close> then returns, and the stable medium holds the current
  term and vote, every live entry as it was before, and each new entry, header fields, command and
  padding, in the slots that the admission test counted for it.
\<close>

theorem admitted_batch_durable:
  assumes "ring_ready s" "wf_disk s" "header_on_media s" "safe_batch n s" "get_voted_for s = Ret v"
  defines "log \<equiv> rlog (raft s)"
  shows "\<exists>ns t. persist_circular True (int n) s = (Ret ns, t) \<and> stable_header t = (current_term (raft s), v) \<and>
    (\<forall>(k, sr) \<in> set (log_slot_map (ring s)). unat (sr_start sr) < unat (ring_slots (ring s)) \<longrightarrow>
       slots_on t (stable (disk_of t)) (sr_start sr) (sr_num_slots sr) =
       slots_on s (media (disk_of s)) (sr_start sr) (sr_num_slots sr)) \<and>
    (\<forall>j < n. case placements (ring_slots (ring s)) (tail_slot (ring s)) (map command (drop (length log - n) log)) ! j of
       (p, m) \<Rightarrow> slots_on t (stable (disk_of t)) p m =
         entry_image (log ! (length log - n + j)) m (tail_log_index (ring s) - of_nat (n - j)))"
  using admitted_entries [OF assms(1-5)] unfolding log_def entry_at_def Let_def by (elim exE conjE) fastforce

section \<open>Reading an entry back\<close>

text \<open>A ring file in one sector-aligned extent that the descriptor has cached.\<close>

definition one_extent :: "extent \<Rightarrow> server \<Rightarrow> bool" where
  "one_extent x s \<longleftrightarrow> io_healthy s \<and> fd_layout s = ([x], True, [x]) \<and> wf_extents [x] \<and>
     512 dvd ext_logical x \<and> 512 dvd uint (ext_physical x) \<and> ext_logical x \<le> 512 \<and>
     512 + 512 * int (unat (ring_slots (ring s))) \<le> ext_end x \<and> unat (ring_slots (ring s)) < 9223372036854775808"

lemma one_extent_ready:
  assumes "one_extent x s" "unat (tail_slot (ring s)) \<le> unat (ring_slots (ring s))"
  shows "ring_ready s"
  using assms wf_file_single [of x]
  by (auto simp: one_extent_def ring_ready_def fd_layout_def Let_def ring_mapped_def disk_of_def fd_is_contiguous_def
      is_contiguous_def file_mapped_def phys_of_def covers_def)

text \<open>The sample node with a batch of a one-sector and a two-sector entry to persist.\<close>

definition sample_batch :: server where
  "sample_batch = sample_node\<lparr>ring := (ring sample_node)\<lparr>tail_log_index := 5\<rparr>,
     raft := (raft sample_node)\<lparr>rlog := rlog (raft sample_node) @ [sample_entry 1 [1], sample_entry 1 (replicate 600 2)]\<rparr>\<rparr>"

lemma sample_batch_fields [simp]:
  "io sample_batch = io sample_node" "tail_slot (ring sample_batch) = 2" "head_slot (ring sample_batch) = 0"
  "ring_slots (ring sample_batch) = 127" "log_slot_map (ring sample_batch) = [(1, sample_slot 0), (2, sample_slot 1)]"
  "tail_log_index (ring sample_batch) = 5" "persisted_init (ring sample_batch) = False" "current_term (raft sample_batch) = 1"
  "length (rlog (raft sample_batch)) = 5" "rlog (raft sample_batch) ! 3 = sample_entry 1 [1]"
  "rlog (raft sample_batch) ! 4 = sample_entry 1 (replicate 600 2)"
  "drop 3 (rlog (raft sample_batch)) = [sample_entry 1 [1], sample_entry 1 (replicate 600 2)]"
  by (simp_all add: sample_batch_def)

lemma sample_batch_ready:
  "one_extent sample_extent sample_batch" "wf_disk sample_batch" "header_on_media sample_batch" "safe_batch 2 sample_batch"
  "get_voted_for sample_batch = Ret 0" "placements 127 2 [[1], replicate 600 2] = [(2, 1), (3, 2)]"
proof -
  show "one_extent sample_extent sample_batch"
    by (simp add: one_extent_def io_healthy_def disk_of_def fd_layout_def sample_fd_def wf_extents_def wf_extent_def ext_end_def
        sample_extent_def)
  show "wf_disk sample_batch" using sample_wf_disk by (simp add: wf_disk_def disk_of_def)
  show "header_on_media sample_batch" by (simp add: header_on_media_def)
  show "safe_batch 2 sample_batch"
    by (simp add: safe_batch_def live_slots_ok_def fits_after_def can_write_all_def command_size_def slots_for_entry_def size_defs)
  show "get_voted_for sample_batch = Ret 0" by (simp add: sample_batch_def get_voted_for_def cluster_at_def ClusterMember_def)
  show "placements 127 2 [[1], replicate 600 2] = [(2, 1), (3, 2)]" by (simp add: command_size_def slots_for_entry_def size_defs)
qed

theorem admitted_batch_durable_witness:
  "\<exists>ns t. persist_circular True 2 sample_batch = (Ret ns, t) \<and> stable_header t = (1, 0) \<and>
     slots_on t (stable (disk_of t)) 1 1 = slots_on sample_batch (media (disk_of sample_batch)) 1 1 \<and>
     slots_on t (stable (disk_of t)) 3 2 = entry_image (sample_entry 1 (replicate 600 2)) 2 4"
  using admitted_batch_durable [OF one_extent_ready [OF sample_batch_ready(1)] sample_batch_ready(2-5)] sample_batch_ready(6)
  by (fastforce dest!: spec [of _ 1])

lemma and_parts: "(a :: u64) AND x = a - (a AND NOT x)"
proof -
  have "(a AND x) AND (a AND NOT x) = 0" "(a AND x) OR (a AND NOT x) = a"
    by (simp_all add: bit_eq_iff bit_simps) blast+
  then show ?thesis using word_plus_and_or [of "a AND x" "a AND NOT x"] by (simp add: eq_diff_eq)
qed

lemma page_split:
  fixes a :: u64
  assumes "512 dvd unat a"
  defines "d \<equiv> unat (a - (a AND NOT 4095))"
  shows "d \<le> 3584" "(a AND NOT 4095) + of_nat (d + k) = a + of_nat k"
proof -
  have "a - (a AND NOT 4095) = take_bit 12 a"
    unfolding and_parts [symmetric] by (simp add: take_bit_eq_mask mask_eq_exp_minus_1)
  then have "d = unat a mod 4096" by (simp add: d_def take_bit_eq_mod unat_mod)
  then have "512 dvd d" "d < 4096" using assms(1) by (auto simp: dvd_mod)
  then show "d \<le> 3584" by (auto elim!: dvdE)
  show "(a AND NOT 4095) + of_nat (d + k) = a + of_nat k" by (simp add: d_def)
qed

lemma one_extent_phys:
  assumes "one_extent x s" "unat slot < unat (ring_slots (ring s))"
  defines "raw \<equiv> ext_physical x + word_of_int (slot_offset slot - ext_logical x)"
  shows "512 dvd unat raw" "k < 512 \<Longrightarrow> phys_of [x] (slot_offset slot + int k) = Some (raw + of_nat k)"
    "\<exists>n. lookup [x] (slot_offset slot) SECTOR_SIZE = Ret \<lparr>pba = raw, seg_len = n\<rparr>"
proof -
  have x: "wf_extents [x]" "512 dvd ext_logical x" "512 dvd uint (ext_physical x)" "ext_logical x \<le> 512"
    "512 + 512 * int (unat (ring_slots (ring s))) \<le> ext_end x" using assms(1) by (simp_all add: one_extent_def)
  have off: "slot_offset slot = 512 + 512 * int (unat slot)"
    using slot_offset_in_ring [of slot "ring_slots (ring s)"] assms(1,2) by (simp add: one_extent_def)
  have "512 dvd uint raw"
  proof -
    have "uint raw = (uint (ext_physical x) + (slot_offset slot - ext_logical x)) mod 18446744073709551616"
      unfolding raw_def by (simp add: uint_word_ariths unsigned_of_int take_bit_eq_mod mod_simps)
    moreover have "512 dvd uint (ext_physical x) + (slot_offset slot - ext_logical x)"
      using x(2,3) by (simp add: off)
    ultimately show ?thesis by (simp add: dvd_mod)
  qed
  then show "512 dvd unat raw" unfolding uint_u64_unat using int_dvd_int_iff [of 512 "unat raw"] by simp
  have cov: "covers (slot_offset slot + int k) x" if "k < 512" for k
    using that x(4,5) assms(2) unfolding covers_def off by linarith
  show ph: "phys_of [x] (slot_offset slot + int k) = Some (raw + of_nat k)" if "k < 512" for k
    using cov [OF that] by (simp add: phys_of_def raw_def algebra_simps)
  have "phys_of [x] (slot_offset slot) \<noteq> None" using ph [of 0] by simp
  from lookup_total [OF x(1) this, of SECTOR_SIZE] obtain seg where
    l: "lookup [x] (slot_offset slot) SECTOR_SIZE = Ret seg" "seg_len seg \<noteq> 0" by (auto simp: size_defs)
  have "0 < uint (seg_len seg)" using l(2) by (simp add: word_neq_0_conv word_less_def)
  with lookup_run [OF x(1) l(1), of 0] ph [of 0] have "pba seg = raw" by simp
  with l(1) show "\<exists>n. lookup [x] (slot_offset slot) SECTOR_SIZE = Ret \<lparr>pba = raw, seg_len = n\<rparr>"
    by (intro exI [of _ "seg_len seg"]) simp
qed

text \<open>What reading leaves alone.\<close>

definition same_file :: "server \<Rightarrow> server \<Rightarrow> bool" where
  "same_file s t \<longleftrightarrow> io_healthy t \<and> fd_layout t = fd_layout s \<and> media (disk_of t) = media (disk_of s) \<and> ring t = ring s"

lemma same_file_keeps:
  assumes "same_file s t"
  shows "one_extent x s \<Longrightarrow> one_extent x t" "slots_on t (media (disk_of t)) p n = slots_on s (media (disk_of s)) p n"
  using assms by (simp_all add: same_file_def one_extent_def slots_on_def fd_layout_def disk_of_def Let_def)

lemma read_slot_page_content:
  assumes one: "one_extent x s" and slot: "unat slot < unat (ring_slots (ring s))"
  shows "\<exists>page t. read_slot_page slot s = (Ret page, t) \<and> 512 \<le> length page \<and> same_file s t \<and>
    take 512 page = slots_on s (media (disk_of s)) slot 1"
proof -
  let ?raw = "ext_physical x + word_of_int (slot_offset slot - ext_logical x)"
  let ?base = "?raw AND NOT 4095" and ?m = "media (disk_of s)"
  let ?d = "unat (?raw - ?base)"
  note ph = one_extent_phys [OF one slot] and sp = page_split [OF one_extent_phys(1) [OF one slot]]
  obtain c where c: "cached_fd (io s) = Some c" "has_extent_cache c" "extent_cache c = [x]" "file_extents (fd_disk c) = [x]"
    "\<forall>n. fst (script (fd_disk c) n) = IoOk"
    using one by (auto simp: one_extent_def io_healthy_def fd_layout_def Let_def disk_of_def)
  let ?c = "c\<lparr>fd_disk := (fd_disk c)\<lparr>calls := Suc (calls (fd_disk c))\<rparr>\<rparr>"
  let ?t = "s\<lparr>io := (io s)\<lparr>cached_fd := Some ?c\<rparr>\<rparr>" and ?page = "drop ?d (dev_load ?base 4096 ?m)"
  have rd: "fd_read ?base PAGE_SIZE c = (Ret (dev_load ?base 4096 ?m), ?c)"
    using c by (simp add: fd_read_def Let_def syscall_def transferred_def align_up_def size_defs disk_of_def)
  have run: "read_slot_page slot s = (Ret ?page, ?t)"
    using ph(3) c rd by (auto simp: read_slot_page_def fd_query_def get_pba_def Let_def with_fd_def size_defs)
  have "take 512 ?page = slots_on s ?m slot 1"
  proof (rule nth_equalityI)
    show "length (take 512 ?page) = length (slots_on s ?m slot 1)" using sp(1) by (simp add: dev_load_def slots_on_def file_load_def)
    fix k assume "k < length (take 512 ?page)"
    then have k: "k < 512" "?d + k < 4096" using sp(1) by simp_all
    have "take 512 ?page ! k = ?m (?base + of_nat (?d + k))" using k by (simp add: dev_load_def)
    also have "\<dots> = ?m (?raw + of_nat k)" unfolding sp(2) ..
    also have "\<dots> = slots_on s ?m slot 1 ! k" using k ph(2) c by (simp add: slots_on_def file_load_def disk_of_def)
    finally show "take 512 ?page ! k = slots_on s ?m slot 1 ! k" .
  qed
  moreover have "same_file s ?t" using c by (simp add: same_file_def io_healthy_def disk_of_def fd_layout_def)
  ultimately show ?thesis using run sp(1) by (auto simp: dev_load_def)
qed

lemma slots_on_sector:
  assumes "unat p + unat n \<le> unat (nring :: u64)" "unat nring < 9223372036854775808" "k < unat n"
  shows "slots_on s m (p + of_nat k) 1 = take 512 (drop (512 * k) (slots_on s m p n))"
    "unat (p + of_nat k) = unat p + k"
proof -
  have "unat (of_nat k :: u64) = k" using assms by (intro unat_u64_of_nat) linarith
  then show u: "unat (p + of_nat k) = unat p + k" using assms by (subst unat_u64_add) auto
  have "slot_offset (p + of_nat k) = slot_offset p + 512 * int k"
    using slot_offset_in_ring [of p nring] slot_offset_in_ring [of "p + of_nat k" nring] u assms by simp
  then show "slots_on s m (p + of_nat k) 1 = take 512 (drop (512 * k) (slots_on s m p n))"
    using assms(3) by (intro nth_equalityI) (auto simp: slots_on_def file_load_def algebra_simps)
qed

lemma entry_at_sector:
  assumes "entry_at e i p s" "one_extent x s" "k < unat (needed_slots e)"
  shows "\<exists>page t. read_slot_page (p + of_nat k) s = (Ret page, t) \<and> 512 \<le> length page \<and> same_file s t \<and>
    take 512 page = take 512 (drop (512 * k) (entry_image e (needed_slots e) i))"
    "unat (p + of_nat k) < unat (ring_slots (ring s))"
proof -
  have b: "unat p + unat (needed_slots e) \<le> unat (ring_slots (ring s))" "unat (ring_slots (ring s)) < 9223372036854775808"
    using assms(1,2) by (simp_all add: entry_at_def sound_write_def one_extent_def)
  note s = slots_on_sector [OF b assms(3)]
  show lt: "unat (p + of_nat k) < unat (ring_slots (ring s))" using s(2) b(1) assms(3) by linarith
  show "\<exists>page t. read_slot_page (p + of_nat k) s = (Ret page, t) \<and> 512 \<le> length page \<and> same_file s t \<and>
    take 512 page = take 512 (drop (512 * k) (entry_image e (needed_slots e) i))"
    using read_slot_page_content [OF assms(2) lt] assms(1) by (simp add: s(1) entry_at_def)
qed

lemma same_file_entry_at: "same_file s t \<Longrightarrow> entry_at e i p s \<Longrightarrow> entry_at e i p t"
  using same_file_keeps(2) [of s t p "needed_slots e"] by (simp add: entry_at_def same_file_def)

lemma same_file_trans: "same_file s t \<Longrightarrow> same_file t u \<Longrightarrow> same_file s u"
  by (simp add: same_file_def)

lemma image_payload:
  assumes "32 + length (command e) \<le> 512 * unat needed" "32 \<le> k" "n \<le> length (command e) - (k - 32)"
  shows "take n (drop k (entry_image e needed i)) = take n (drop (k - 32) (command e))"
proof -
  have "take n (drop (k - 32) (take (length (command e)) (drop 32 (entry_image e needed i)))) = take n (drop (k - 32) (command e))"
    by (simp add: entry_image_parts(5) [OF assms(1)])
  moreover have "take n (drop a (take b xs)) = take n (drop a xs)" if "n \<le> b - a" for a b and xs :: bytes
    using that by (simp add: drop_take min_absorb1)
  ultimately show ?thesis using assms(2,3) by (simp add: add.commute)
qed

lemma read_payload_command:
  assumes "entry_at e i p s" "one_extent x s" "1 \<le> k" "k \<le> unat (needed_slots e)"
  shows "\<exists>t. read_payload (map of_nat [k..<unat (needed_slots e)]) p (command_size (command e)) (take (512 * k - 32) (command e)) s =
    (Ret (command e), t) \<and> same_file s t"
  using assms
proof (induction "unat (needed_slots e) - k" arbitrary: k s)
  case 0
  then have "32 + length (command e) \<le> 512 * k" by (simp add: entry_at_def sound_write_def)
  then have "length (command e) \<le> 512 * k - 32" by linarith
  with 0 show ?case by (simp add: same_file_def one_extent_def)
next
  case (Suc n)
  let ?c = "command e" and ?cmd = "take (512 * k - 32) (command e)"
  have k: "k < unat (needed_slots e)" "[k..<unat (needed_slots e)] = k # [Suc k..<unat (needed_slots e)]"
    using Suc.hyps(2) by (simp_all add: upt_conv_Cons)
  have len: "length ?c < 9223372036854775808" "32 + length ?c \<le> 512 * unat (needed_slots e)"
    using Suc.prems(1) by (simp_all add: entry_at_def sound_write_def)
  have u: "unat (command_size ?c) = length ?c" "unat (of_nat (length ?cmd) :: u64) = length ?cmd"
    using len(1) by (simp_all add: unat_command_size unat_u64_of_nat)
  show ?case
  proof (cases "512 * k - 32 < length ?c")
    case False
    then have "?cmd = ?c" by simp
    then show ?thesis using k(2) Suc.prems(2) u by (simp add: command_size_def same_file_def one_extent_def)
  next
    case True
    let ?chunk = "if of_nat (length ?cmd) + SECTOR_SIZE > command_size ?c then command_size ?c - of_nat (length ?cmd) else SECTOR_SIZE"
    obtain page t where pg: "read_slot_page (p + of_nat k) s = (Ret page, t)" "512 \<le> length page" "same_file s t"
      "take 512 page = take 512 (drop (512 * k) (entry_image e (needed_slots e) i))"
      using entry_at_sector(1) [OF Suc.prems(1,2) k(1)] by blast
    have m: "(p + of_nat k) mod ring_slots (ring s) = p + of_nat k"
      using entry_at_sector(2) [OF Suc.prems(1,2) k(1)] by (simp add: u64_eq_iff unat_mod)
    have ch: "unat ?chunk = min 512 (length ?c - (512 * k - 32))"
    proof -
      have "unat (of_nat (length ?cmd) + SECTOR_SIZE) = length ?cmd + 512"
        using len(1) u(2) by (subst unat_u64_add) (simp_all add: size_defs)
      moreover have "unat (command_size ?c - of_nat (length ?cmd)) = length ?c - length ?cmd"
        using u True by (subst unat_u64_sub) (simp_all add: word_le_nat_alt)
      moreover have "length ?cmd = 512 * k - 32" using True by simp
      ultimately show ?thesis using u(1) by (auto simp: word_less_nat_alt size_defs min_def)
    qed
    have "take (unat ?chunk) page = take (unat ?chunk) (take 512 page)" unfolding ch by simp
    also have "\<dots> = take (unat ?chunk) (drop (512 * k - 32) ?c)"
      unfolding pg(4) ch using image_payload [OF len(2), of "512 * k" "min 512 (length ?c - (512 * k - 32))" i] Suc.prems(3) by simp
    finally have cmd: "?cmd @ take (unat ?chunk) page = take (512 * Suc k - 32) ?c"
    proof -
      assume page: "take (unat ?chunk) page = take (unat ?chunk) (drop (512 * k - 32) ?c)"
      have "512 * Suc k - 32 = (512 * k - 32) + 512" using Suc.prems(3) by simp
      then have "take (512 * Suc k - 32) ?c = ?cmd @ take 512 (drop (512 * k - 32) ?c)" by (simp only: take_add)
      moreover have "take (min 512 (length xs)) xs = take 512 xs" for xs :: bytes by (simp add: min_def)
      from this [of "drop (512 * k - 32) ?c"] have "take (unat ?chunk) (drop (512 * k - 32) ?c) = take 512 (drop (512 * k - 32) ?c)"
        unfolding ch by (simp only: length_drop)
      ultimately show ?thesis unfolding page by (simp only:)
    qed
    have "n = unat (needed_slots e) - Suc k" "1 \<le> Suc k" "Suc k \<le> unat (needed_slots e)" using Suc.hyps(2) k(1) by simp_all
    from Suc.hyps(1) [OF this(1) same_file_entry_at [OF pg(3) Suc.prems(1)] same_file_keeps(1) [OF pg(3) Suc.prems(2)] this(2,3)]
    obtain t' where "read_payload (map of_nat [Suc k..<unat (needed_slots e)]) p (command_size ?c) (take (512 * Suc k - 32) ?c) t =
      (Ret ?c, t')" "same_file t t'" by blast
    moreover have lt: "(of_nat (length ?cmd) :: u64) < command_size ?c" using True u by (simp add: word_less_nat_alt)
    have fit: "unat ?chunk \<le> length page" unfolding ch using pg(2) by simp
    have "read_payload (map of_nat [k..<unat (needed_slots e)]) p (command_size ?c) ?cmd s =
        read_payload (map of_nat [Suc k..<unat (needed_slots e)]) p (command_size ?c) (take (512 * Suc k - 32) ?c) t"
      unfolding cmd [symmetric] k(2) list.map read_payload.simps if_P [OF lt] m pg(1) Let_def by (simp only: andthen_Ret if_P [OF fit])
    ultimately show ?thesis using same_file_trans [OF pg(3)] by auto
  qed
qed

text \<open>Reading the slots of an entry gives its term and its command, and the slot after it.\<close>

lemma read_entry_back:
  assumes at: "entry_at e i p s" and one: "one_extent x s"
  shows "\<exists>r t. read_entry_direct p s = (Ret (r, (p + needed_slots e) mod ring_slots (ring s)), t) \<and>
    e_term r = e_term e \<and> command r = command e \<and> ring t = ring s"
proof -
  let ?c = "command e" and ?img = "entry_image e (needed_slots e) i"
  have len: "length ?c < 9223372036854775808" "32 + length ?c \<le> 512 * unat (needed_slots e)"
    using at by (simp_all add: entry_at_def sound_write_def)
  have n1: "1 \<le> unat (needed_slots e)" using len(2) by (cases "unat (needed_slots e)") simp_all
  obtain page t where pg: "read_slot_page p s = (Ret page, t)" "512 \<le> length page" "same_file s t" "take 512 page = take 512 ?img"
    using entry_at_sector(1) [OF at one, of 0] n1 by auto
  have byte: "page ! k = ?img ! k" if "k < 512" for k
    using that arg_cong [OF pg(4), of "\<lambda>xs. xs ! k"] by simp
  have g: "get_u64_le page k = get_u64_le ?img k" if "k + 8 \<le> 32" for k
    using that byte unfolding get_u64_le_def by (intro fold_cong) auto
  note h = entry_image_parts [OF len(2), of i]
  let ?first = "min (SECTOR_SIZE - ENTRY_META_SIZE) (command_size ?c)"
  have f: "unat ?first = min 480 (length ?c)"
    using len(1) by (auto simp: min_def word_le_nat_alt unat_command_size size_defs)
  have "take (unat ?first) (drop 32 page) = take (unat ?first) (drop 32 (take 512 page))"
    by (simp add: f drop_take)
  also have "\<dots> = take (unat ?first) (drop 32 ?img)" unfolding pg(4) by (simp add: f drop_take)
  also have "\<dots> = take (512 * 1 - 32) ?c"
    using image_payload [OF len(2), of 32 "min 480 (length ?c)" i] unfolding f by (simp add: min_def)
  finally have first: "take (unat ?first) (drop 32 page) = take (512 * 1 - 32) ?c" .
  obtain u where u: "read_payload (map of_nat [1..<unat (needed_slots e)]) p (command_size ?c) (take (512 * 1 - 32) ?c) t = (Ret ?c, u)"
    "same_file t u"
    using read_payload_command [OF same_file_entry_at [OF pg(3) at] same_file_keeps(1) [OF pg(3) one] order_refl n1] by blast
  have lp: "\<not> length page < 32" "\<not> length page < 32 + unat ?first" using pg(2) by (simp_all add: f)
  have "ring u = ring s" using u(2) pg(3) by (simp add: same_file_def)
  then show ?thesis
    using pg(1) u(1) lp first g h len(1)
    by (simp add: read_entry_direct_def Let_def entry_hdr_defs size_defs make_entry_def unat_command_size)
qed

text \<open>
  C10. A persisted batch reads back: after a safe batch (accepted by the admission test, in a ring
  that holds entries, with its live slots between \<open>head_slot\<close> and a different \<open>tail_slot\<close> and no entry
  longer than the stretch from \<open>head_slot\<close> to the end of the ring) has been persisted to a ring file
  in one sector-aligned extent on a working device, the direct device read that a new leader uses
  finds, in the slots of each new entry, the term and the command that were written, over all sectors
  of the entry, and the slot after it.
\<close>

theorem persisted_batch_reads_back:
  assumes "one_extent x s" "wf_disk s" "header_on_media s" "safe_batch n s" "get_voted_for s = Ret v"
  defines "log \<equiv> rlog (raft s)"
  shows "\<exists>ns t. persist_circular True (int n) s = (Ret ns, t) \<and>
    (\<forall>j < n. case placements (ring_slots (ring s)) (tail_slot (ring s)) (map command (drop (length log - n) log)) ! j of
       (p, m) \<Rightarrow> \<exists>r u. read_entry_direct p t = (Ret (r, (p + m) mod ring_slots (ring s)), u) \<and>
         e_term r = e_term (log ! (length log - n + j)) \<and> command r = command (log ! (length log - n + j)))"
proof -
  have "unat (tail_slot (ring s)) \<le> unat (ring_slots (ring s))"
    using assms(4) by (simp add: safe_batch_def Let_def live_slots_ok_def)
  from admitted_entries [OF one_extent_ready [OF assms(1) this] assms(2-5), folded log_def] obtain ns t where
    t: "persist_circular True (int n) s = (Ret ns, t)" "io_healthy t" "fd_layout t = fd_layout s" "ring_slots (ring t) = ring_slots (ring s)"
      "\<forall>j < n. let e = log ! (length log - n + j) in \<exists>p.
       placements (ring_slots (ring s)) (tail_slot (ring s)) (map command (drop (length log - n) log)) ! j = (p, needed_slots e) \<and>
       entry_at e (tail_log_index (ring s) - of_nat (n - j)) p t" by blast
  have "one_extent x t" using assms(1) t(2,3,4) by (simp add: one_extent_def)
  from read_entry_back [OF _ this] t(1,4,5) show ?thesis by (fastforce simp: Let_def)
qed

theorem persisted_batch_reads_back_witness:
  "\<exists>ns t r u. persist_circular True 2 sample_batch = (Ret ns, t) \<and> read_entry_direct 3 t = (Ret (r, 5), u) \<and>
     e_term r = 1 \<and> command r = replicate 600 2"
  using persisted_batch_reads_back [OF sample_batch_ready(1-5)] sample_batch_ready(6)
  by (fastforce dest!: spec [of _ 1])

section \<open>A second wrap\<close>

text \<open>
  A ring of 127 slots that has wrapped: entry 1 in the slots 120 to 126, where \<open>head_slot\<close> is, entry 2
  in the slots 0 to 118, the write position at 119; and a new entry of ten slots.
\<close>

definition long_entry :: entry where
  "long_entry = sample_entry 1 (replicate 5000 6)"

definition wrapped_ring :: server where
  "wrapped_ring = sample_node\<lparr>ring := (ring sample_node)\<lparr>head_slot := 120, tail_slot := 119, tail_log_index := 4,
       log_slot_map := [(1, \<lparr>sr_start = 120, sr_num_slots = 7, sr_state = Using\<rparr>),
         (2, \<lparr>sr_start = 0, sr_num_slots = 119, sr_state = Using\<rparr>)]\<rparr>,
     raft := (raft sample_node)\<lparr>rlog := rlog (raft sample_node) @ [long_entry]\<rparr>\<rparr>"

lemma wrapped_ring_fields [simp]:
  "io wrapped_ring = io sample_node" "tail_slot (ring wrapped_ring) = 119" "head_slot (ring wrapped_ring) = 120"
  "ring_slots (ring wrapped_ring) = 127" "tail_log_index (ring wrapped_ring) = 4" "persisted_init (ring wrapped_ring) = False"
  "log_slot_map (ring wrapped_ring) = [(1, \<lparr>sr_start = 120, sr_num_slots = 7, sr_state = Using\<rparr>),
     (2, \<lparr>sr_start = 0, sr_num_slots = 119, sr_state = Using\<rparr>)]"
  "current_term (raft wrapped_ring) = 1" "length (rlog (raft wrapped_ring)) = 4" "rlog (raft wrapped_ring) ! 3 = long_entry"
  "command long_entry = replicate 5000 6" "e_term long_entry = 1" "slots_for_entry (command_size (replicate 5000 6)) = 10"
  by (simp_all add: wrapped_ring_def long_entry_def command_size_def slots_for_entry_def size_defs)

lemma wrapped_ring_ready:
  "ring_ready wrapped_ring" "wf_disk wrapped_ring" "header_on_media wrapped_ring" "get_voted_for wrapped_ring = Ret 0"
proof -
  have "one_extent sample_extent wrapped_ring"
    by (simp add: one_extent_def io_healthy_def disk_of_def fd_layout_def sample_fd_def wf_extents_def wf_extent_def ext_end_def
        sample_extent_def)
  then show "ring_ready wrapped_ring" by (rule one_extent_ready) simp
  show "wf_disk wrapped_ring" using sample_wf_disk by (simp add: wf_disk_def disk_of_def)
  show "header_on_media wrapped_ring" by (simp add: header_on_media_def)
  show "get_voted_for wrapped_ring = Ret 0" by (simp add: wrapped_ring_def get_voted_for_def cluster_at_def ClusterMember_def)
qed

lemma wrapped_ring_blank: "get_u64_le (slots_on wrapped_ring (media (disk_of wrapped_ring)) 0 10) 0 = 0"
proof -
  have "slots_on wrapped_ring (media (disk_of wrapped_ring)) 0 10 = replicate 5120 0"
    by (rule nth_equalityI) (auto simp: slots_on_def file_load_def disk_of_def sample_fd_def split: option.splits)
  moreover have "get_u64_le (replicate 5120 0) 0 = 0" by (rule bit_word_eqI) (auto simp: bit_get_u64_le)
  ultimately show ?thesis by simp
qed

text \<open>
  The admission test is not enough: in a ring whose live slots are all accounted for, the code
  accepts a ten-slot entry that does not fit before the end of the ring, although the ring has
  wrapped already, and persisting it puts it over the first ten slots of a live entry.
\<close>

theorem second_wrap_overwrites:
  "live_slots_ok (ring wrapped_ring) \<and> can_write_all wrapped_ring [command long_entry] \<and>
   (2, \<lparr>sr_start = 0, sr_num_slots = 119, sr_state = Using\<rparr>) \<in> set (log_slot_map (ring wrapped_ring)) \<and>
   (\<exists>ns t. persist_circular True 1 wrapped_ring = (Ret ns, t) \<and>
      slots_on t (stable (disk_of t)) 0 10 = entry_image long_entry 10 3 \<and>
      slots_on t (stable (disk_of t)) 0 10 \<noteq> slots_on wrapped_ring (media (disk_of wrapped_ring)) 0 10)"
proof -
  have ne: "new_entries 1 wrapped_ring = [(3, long_entry)]"
    by (simp add: new_entries_def indexed_def entry_index_def)
  have ws: "ring_writes (ring_slots (ring wrapped_ring)) (tail_slot (ring wrapped_ring)) (new_entries 1 wrapped_ring) =
      [(3, 0, long_entry)]"
    unfolding ne by (simp add: entry_slot_def)
  have sw: "sound_write 127 (3, 0, long_entry)" by (simp add: sound_write_def)
  have fr: "list_all (fits_ring (ring_slots (ring wrapped_ring)) \<circ> (command \<circ> snd)) (new_entries 1 wrapped_ring)"
    unfolding ne by (simp add: fits_after_def command_size_def slots_for_entry_def size_defs)
  have n: "(0::nat) < 1" "1 < length (rlog (raft wrapped_ring))" by simp_all
  obtain ns t where t: "persist_circular True (int 1) wrapped_ring = (Ret ns, t)"
      "stable (disk_of t) = media (disk_of t)" "\<forall>x \<ge> 512. file_content t x = lay [(3, 0, long_entry)] (file_content wrapped_ring) x"
    using batch_content [OF wrapped_ring_ready(1-3) n wrapped_ring_ready(4), unfolded ws, OF _ fr] sw by auto
  have "file_content t x = entry_image long_entry (needed_slots long_entry) 3 ! nat (x - slot_offset 0)"
    if "x \<in> slot_bytes 0 (needed_slots long_entry)" for x
    using lay_at [of "[(3, 0, long_entry)]" 127 0 3 0 long_entry x] sw that t(3) slot_bytes_ge [OF that] by simp
  then have im: "slots_on t (stable (disk_of t)) 0 10 = entry_image long_entry 10 3"
    using image_bytes [OF sw, of t] t(2) by simp
  have "get_u64_le (entry_image long_entry 10 3) 0 = 1" using entry_image_parts(2) [of long_entry 10 3] by simp
  then have "entry_image long_entry 10 3 \<noteq> slots_on wrapped_ring (media (disk_of wrapped_ring)) 0 10"
    using wrapped_ring_blank by fastforce
  moreover have "live_slots_ok (ring wrapped_ring)" by (simp add: live_slots_ok_def word_less_nat_alt)
  moreover have "can_write_all wrapped_ring [command long_entry]"
    by (simp add: can_write_all_def command_size_def slots_for_entry_def size_defs)
  ultimately show ?thesis using t(1) im by auto
qed

end
