(* ===== verification/Diagnostics.thy ===== *)
theory Diagnostics
  imports Commit
begin

text \<open>
  \<open>Server::log_skip_pba_diag\<close> of \<open>core/src/raft_diagnostics.cpp\<close>: the warning for a batch whose slots
  are unknown. It prints at most once a second for one follower and index. The slot-map trace of the
  same file is in theory \<open>Ring\<close>. The two calls in \<open>raft_append_entries.cpp\<close> are commented out, so no
  other definition uses it.
\<close>

definition num_text :: "u64 \<Rightarrow> string" where
  "num_text w = to_string (uint w)"

definition bool_text :: "bool \<Rightarrow> string" where
  "bool_text b = (if b then ''true'' else ''false'')"

text \<open>The smallest and the largest index in the slot map, 0 and 0 for an empty map.\<close>

definition slot_map_range :: "ring_log \<Rightarrow> u64 \<times> u64" where
  "slot_map_range g =
     (if log_slot_map g = [] then (0, 0)
      else fold (\<lambda>(k, r) (lo, hi). (if k < lo then k else lo, if k > hi then k else hi))
             (log_slot_map g) (NOT 0, 0))"

definition peers_text :: "server \<Rightarrow> string" where
  "peers_text s = concat (map (\<lambda>(j, m). if int j = cluster_index (raft s) then []
     else '' p'' @ num_text (member_id m) @ ''{m='' @ num_text (match_index m) @ '' n='' @
       num_text (next_index m) @ '' inflight='' @ bool_text (inflight m) @ ''}'')
     (enumerate 0 (cluster (raft s))))"

definition trace_text :: "u64 \<Rightarrow> server \<Rightarrow> string" where
  "trace_text next s =
     (let op = find_slot_map_trace (ring s) next in
      if op = CHR ''I'' then ''INSERT (last op was insert -- freed by an unrecorded path?)''
      else if op = CHR ''F'' then ''FREE (tier-1 freed it; floor guard bypassed)''
      else ''absent'')"

definition log_state_text :: "u64 \<Rightarrow> server \<Rightarrow> string outcome" where
  "log_state_text next s =
     (if next \<ge> oldest_log_index s \<and> next < tail_log_index (ring s)
      then obind (log_at s next) (\<lambda>e.
        Ret (''present term='' @ num_text (e_term e) @ '' cmdLen='' @ num_text (cmd_len e)))
      else Ret ''out-of-range'')"

text \<open>The line, from the state in which the throttle has been updated.\<close>

definition skip_pba_line :: "nat \<Rightarrow> u64 \<Rightarrow> u64 \<Rightarrow> u64 \<Rightarrow> server \<Rightarrow> string outcome" where
  "skip_pba_line fi next lst prev s =
     (let mm = min_match s; (sm_min, sm_max) = slot_map_range (ring s); n = num_text in
      obind (log_state_text next s) (\<lambda>log_state.
        Ret (''[WARN] [SKIP PBA] missing logSlotMap['' @ n next @ '']'' @
          '' follower='' @ n (member_id (cluster (raft s) ! fi)) @ '' term='' @ n (current_term (raft s)) @
          '' | next='' @ n next @ '' last='' @ n lst @ '' prev='' @ n prev @
          '' oldest='' @ n (oldest_log_index s) @ '' tail='' @ n (tail_log_index (ring s)) @
          '' commit='' @ n (commit_index (raft s)) @ '' applied='' @ n (last_applied (raft s)) @
          '' | minMatch_now='' @ n mm @ '' floorBypassed='' @ bool_text (next \<le> mm) @
          '' |'' @ peers_text s @
          '' | slotMap len='' @ to_string (int (length (log_slot_map (ring s)))) @
          '' range=['' @ n sm_min @ ''..'' @ n sm_max @ '']'' @
          '' | trace='' @ trace_text next s @ '' | log='' @ log_state)))"

definition log_skip_pba_diag :: "nat \<Rightarrow> u64 \<Rightarrow> u64 \<Rightarrow> u64 \<Rightarrow> server \<Rightarrow> string option step" where
  "log_skip_pba_diag fi next lst prev s =
     (let (t, s) = now s in
      if \<not> member_ok s fi then (Ub, s)
      else
        let m = cluster (raft s) ! fi in
        if skip_pba_last_next m = next \<and> t - skip_pba_last_log m < 1000000000 then (Ret None, s)
        else
          let s = update_member fi (\<lambda>m. m\<lparr>skip_pba_last_next := next, skip_pba_last_log := t\<rparr>) s
          in (case skip_pba_line fi next lst prev s of
                Ret line \<Rightarrow> (Ret (Some line), s)
              | Exc e \<Rightarrow> (Exc e, s)
              | Ub \<Rightarrow> (Ub, s)))"

section \<open>The warning is throttled and changes nothing else\<close>

lemma slot_map_range_bounds:
  assumes "(k, r) \<in> set (log_slot_map g)"
  shows "fst (slot_map_range g) \<le> k \<and> k \<le> snd (slot_map_range g)"
proof -
  let ?f = "\<lambda>(k :: u64, r :: slot_record) (lo, hi). (if k < lo then k else lo, if k > hi then k else hi)"
  have mono: "fst (fold ?f xs p) \<le> fst p \<and> snd p \<le> snd (fold ?f xs p)" for xs p
  proof (induction xs arbitrary: p)
    case (Cons x xs)
    have "fst (?f x p) \<le> fst p \<and> snd p \<le> snd (?f x p)" by (cases x; cases p) auto
    with Cons [of "?f x p"] show ?case by auto
  qed simp
  have "fst (fold ?f xs p) \<le> k \<and> k \<le> snd (fold ?f xs p)" if "(k, r) \<in> set xs" for xs p
    using that
  proof (induction xs arbitrary: p)
    case (Cons x xs)
    show ?case
    proof (cases "x = (k, r)")
      case True
      have "fst (?f x p) \<le> k \<and> k \<le> snd (?f x p)" by (cases p) (auto simp: True)
      with mono [of xs "?f x p"] show ?thesis by auto
    qed (use Cons in auto)
  qed simp
  with assms show ?thesis by (auto simp: slot_map_range_def)
qed

lemma log_state_text_Ret:
  assumes "wf_log s"
  shows "\<exists>tx. log_state_text next s = Ret tx"
proof (cases "in_log s next")
  case True
  then show ?thesis using log_at_Ret [OF assms True] by (simp add: log_state_text_def in_log_def obind_def)
qed (auto simp: log_state_text_def in_log_def)

lemma skip_pba_line_Ret:
  assumes "log_state_text next s = Ret tx"
  shows "\<exists>line. skip_pba_line fi next lst prev s = Ret line"
  unfolding skip_pba_line_def Let_def assms obind_def by (simp split: prod.split)

text \<open>
  The warning: on a well-formed log it always returns. When it prints, a second call for the same
  follower and index less than a second later prints nothing. Either way the ring, the log, the terms
  and the votes are left alone.
\<close>

theorem skip_diag_throttled:
  assumes wf: "wf_log s" "member_ok s fi"
  shows "\<exists>line t. log_skip_pba_diag fi next lst prev s = (Ret line, t) \<and> ring t = ring s \<and>
    rlog (raft t) = rlog (raft s) \<and> current_term (raft t) = current_term (raft s) \<and>
    map voted_for (cluster (raft t)) = map voted_for (cluster (raft s)) \<and>
    (line \<noteq> None \<and> fst (now t) - fst (now s) < 1000000000 \<longrightarrow>
       fst (log_skip_pba_diag fi next lst' prev' t) = Ret None)"
proof -
  let ?n = "snd (now s)" and ?t = "fst (now s)"
  let ?m = "cluster (raft s) ! fi"
  let ?u = "update_member fi (\<lambda>m. m\<lparr>skip_pba_last_next := next, skip_pba_last_log := ?t\<rparr>) ?n"
  have mem: "member_ok ?n fi" "fi < length (cluster (raft s))" using wf(2) by (simp_all add: member_ok_def)
  have rl: "rlog (raft ?u) = rlog (raft s)" "ring ?u = ring s" by simp_all
  then have "wf_log ?u" using wf(1) by (simp add: wf_log_def)
  then obtain tx where "log_state_text next ?u = Ret tx" using log_state_text_Ret by blast
  then obtain line where line: "skip_pba_line fi next lst prev ?u = Ret line"
    using skip_pba_line_Ret by blast
  have v: "map voted_for (cluster (raft ?u)) = map voted_for (cluster (raft s))"
    using mem(2) by (simp add: map_update list_update_same_conv)
  show ?thesis
  proof (cases "skip_pba_last_next ?m = next \<and> ?t - skip_pba_last_log ?m < 1000000000")
    case True
    then have "log_skip_pba_diag fi next lst prev s = (Ret None, ?n)"
      using mem by (simp add: log_skip_pba_diag_def split_beta Let_def)
    then show ?thesis by simp
  next
    case False
    then have "log_skip_pba_diag fi next lst prev s = (Ret (Some line), ?u)"
      using mem line by (auto simp: log_skip_pba_diag_def split_beta Let_def)
    moreover have "fst (log_skip_pba_diag fi next lst' prev' ?u) = Ret None" if "fst (now ?u) - ?t < 1000000000"
      using that mem by (simp add: log_skip_pba_diag_def split_beta Let_def member_ok_def)
    ultimately show ?thesis using v rl by (intro exI conjI) (assumption | simp)+
  qed
qed

end
