(* ===== verification/Wire.thy ===== *)
theory Wire
  imports Basics
begin

text \<open>
  \<open>net/src/raft_wire_codec.cpp\<close>: the frames of the TCP transport. A request is the method name with
  its length, a sequence number and the body with its length; a response is the sequence number, an
  error text with its length and the body with its length; all numbers are in network byte order.

  A socket is the bytes it has sent, the bytes the peer sends before it closes, and a script that
  gives the most bytes each \<open>read\<close> or \<open>write\<close> call moves; a negative number is a failing call.
  \<open>write\<close> may report 0 bytes for ever, so the loop of \<open>wire_write_all\<close> is a partial function and
  its result is \<open>None\<close> when it does not end. Strings are byte strings on the wire.
  The memory representation of integers is that of a little-endian host.
\<close>

section \<open>Memory representation and byte order\<close>

definition mem_of :: "nat \<Rightarrow> 'a::len word \<Rightarrow> bytes" where
  "mem_of n w = map (\<lambda>i. ucast (drop_bit (8 * i) w)) [0..<n]"

definition mem_to :: "bytes \<Rightarrow> 'a::len word" where
  "mem_to bs = foldr (\<lambda>b v. push_bit 8 v OR ucast b) bs 0"

text \<open>\<open>htons\<close>, \<open>ntohs\<close>, \<open>htonl\<close>, \<open>ntohl\<close> reverse the bytes of their argument.\<close>

definition htons :: "u16 \<Rightarrow> u16" where "htons v = mem_to (rev (mem_of 2 v))"
definition ntohs :: "u16 \<Rightarrow> u16" where "ntohs v = mem_to (rev (mem_of 2 v))"
definition htonl :: "u32 \<Rightarrow> u32" where "htonl v = mem_to (rev (mem_of 4 v))"
definition ntohl :: "u32 \<Rightarrow> u32" where "ntohl v = mem_to (rev (mem_of 4 v))"

definition wire_htobe64 :: "u64 \<Rightarrow> u64" where
  "wire_htobe64 v =
     (let hi = htonl (ucast (drop_bit 32 v));
          lo = htonl (ucast (v AND 0xFFFFFFFF))
      in push_bit 32 (ucast lo) OR ucast hi)"

definition wire_be64toh :: "u64 \<Rightarrow> u64" where
  "wire_be64toh v = wire_htobe64 v"

definition str_bytes :: "string \<Rightarrow> bytes" where
  "str_bytes s = map (\<lambda>c. of_nat (of_char c)) s"

definition bytes_str :: "bytes \<Rightarrow> string" where
  "bytes_str bs = map (\<lambda>b. char_of (unat b)) bs"

text \<open>\<open>memcpy\<close> into a vector at an offset.\<close>

definition memcpy_at :: "nat \<Rightarrow> bytes \<Rightarrow> bytes \<Rightarrow> bytes" where
  "memcpy_at off data buf = take off buf @ data @ drop (off + length data) buf"

section \<open>Sockets\<close>

record sock =
  sent :: bytes
  arrived :: bytes
  sock_ops :: nat
  sock_limit :: "nat \<Rightarrow> int"

definition sock_write :: "bytes \<Rightarrow> sock \<Rightarrow> int \<times> sock" where
  "sock_write data sk =
     (let k = sock_limit sk (sock_ops sk); n = min (nat k) (length data) in
      if k < 0 then (-1, sk\<lparr>sock_ops := Suc (sock_ops sk)\<rparr>)
      else (int n, sk\<lparr>sent := sent sk @ take n data, sock_ops := Suc (sock_ops sk)\<rparr>))"

definition sock_read :: "nat \<Rightarrow> sock \<Rightarrow> int \<times> bytes \<times> sock" where
  "sock_read len sk =
     (let k = sock_limit sk (sock_ops sk); n = min (nat k) (min len (length (arrived sk))) in
      if k < 0 then (-1, [], sk\<lparr>sock_ops := Suc (sock_ops sk)\<rparr>)
      else (int n, take n (arrived sk),
            sk\<lparr>arrived := drop n (arrived sk), sock_ops := Suc (sock_ops sk)\<rparr>))"

partial_function (option) wire_write_all :: "bytes \<Rightarrow> sock \<Rightarrow> (unit outcome \<times> sock) option" where
  "wire_write_all buf sk =
     (if buf \<noteq> [] then
        (let (n, sk) = sock_write buf sk in
         if n < 0 then Some (Exc ''wire_write_all: write failed'', sk)
         else wire_write_all (drop (nat n) buf) sk)
      else Some (Ret (), sk))"

function wire_read_full :: "nat \<Rightarrow> sock \<Rightarrow> bytes outcome \<times> sock" where
  "wire_read_full len sk =
     (if len > 0 then
        (case sock_read len sk of (n, got, sk) \<Rightarrow>
          if n \<le> 0 then (Exc ''wire_read_full: read failed or connection closed'', sk)
          else andthen (wire_read_full (len - nat n) sk) (\<lambda>rest sk. (Ret (got @ rest), sk)))
      else (Ret [], sk))"
  by auto

termination wire_read_full
  by (relation "measure fst") auto

declare wire_read_full.simps [simp del]

section \<open>The client side\<close>

record wire_client =
  client_sock :: sock
  pending_table :: "u64 \<rightharpoonup> bytes"
  pending_body_len :: u32
  pending_method :: bytes

definition WireClientCodec :: "sock \<Rightarrow> wire_client" where
  "WireClientCodec sk =
     \<lparr>client_sock = sk, pending_table = Map.empty, pending_body_len = 0, pending_method = []\<rparr>"

definition request_frame :: "bytes \<Rightarrow> u64 \<Rightarrow> bytes \<Rightarrow> bytes" where
  "request_frame service_method seq body =
     (let preamble = 2 + length service_method + 8 + 4;
          buf = replicate (preamble + length body) 0;
          buf = memcpy_at 0 (mem_of 2 (htons (of_nat (length service_method)))) buf;
          buf = memcpy_at 2 service_method buf;
          buf = memcpy_at (2 + length service_method) (mem_of 8 (wire_htobe64 seq)) buf;
          buf = memcpy_at (2 + length service_method + 8) (mem_of 4 (htonl (of_nat (length body)))) buf
      in if body \<noteq> [] then memcpy_at preamble body buf else buf)"

definition write_request ::
  "bytes \<Rightarrow> u64 \<Rightarrow> bytes \<Rightarrow> wire_client \<Rightarrow> (unit outcome \<times> wire_client) option" where
  "write_request service_method seq body c =
     (if length service_method > 0xFFFF then Some (Exc ''wire: method name too long'', c)
      else
        let buf = request_frame service_method seq body;
            c = c\<lparr>pending_table := (pending_table c)(seq \<mapsto> service_method)\<rparr>
        in map_option (\<lambda>(r, sk). (r, c\<lparr>client_sock := sk\<rparr>)) (wire_write_all buf (client_sock c)))"

definition client_read :: "nat \<Rightarrow> wire_client \<Rightarrow> bytes outcome \<times> wire_client" where
  "client_read len c =
     (case wire_read_full len (client_sock c) of (r, sk) \<Rightarrow> (r, c\<lparr>client_sock := sk\<rparr>))"

definition read_error_text :: "u16 \<Rightarrow> wire_client \<Rightarrow> bytes outcome \<times> wire_client" where
  "read_error_text err_len c = (if err_len > 0 then client_read (unat err_len) c else (Ret [], c))"

text \<open>\<open>ResponseHeader\<close> is the sequence number, the method looked up for it and the error text.\<close>

definition read_response_header ::
  "wire_client \<Rightarrow> (u64 \<times> bytes \<times> bytes) outcome \<times> wire_client" where
  "read_response_header c =
     andthen (client_read 10 c) (\<lambda>hdr c.
       let seq = wire_be64toh (mem_to (take 8 hdr));
           err_len = ntohs (mem_to (take 2 (drop 8 hdr)))
       in andthen (read_error_text err_len c) (\<lambda>err_buf c.
          andthen (client_read 4 c) (\<lambda>body_len_buf c.
            let body_len = ntohl (mem_to body_len_buf);
                (method, table) = (case pending_table c seq of
                    Some m \<Rightarrow> (m, (pending_table c)(seq := None))
                  | None \<Rightarrow> ([], pending_table c))
            in (Ret (seq, method, err_buf),
                c\<lparr>pending_table := table, pending_body_len := body_len, pending_method := method\<rparr>))))"

definition read_response_body :: "wire_client \<Rightarrow> bytes outcome \<times> wire_client" where
  "read_response_body c =
     (let body_len = pending_body_len c;
          c = c\<lparr>pending_body_len := 0, pending_method := []\<rparr>
      in if body_len = 0 then (Ret [], c) else client_read (unat body_len) c)"

section \<open>The server side\<close>

record wire_server =
  server_sock :: sock
  srv_pending_body_len :: u32
  srv_pending_method :: bytes

definition WireServerCodec :: "sock \<Rightarrow> wire_server" where
  "WireServerCodec sk = \<lparr>server_sock = sk, srv_pending_body_len = 0, srv_pending_method = []\<rparr>"

definition server_read :: "nat \<Rightarrow> wire_server \<Rightarrow> bytes outcome \<times> wire_server" where
  "server_read len c =
     (case wire_read_full len (server_sock c) of (r, sk) \<Rightarrow> (r, c\<lparr>server_sock := sk\<rparr>))"

definition read_request_header :: "wire_server \<Rightarrow> (bytes \<times> u64) outcome \<times> wire_server" where
  "read_request_header c =
     andthen (server_read 2 c) (\<lambda>mlen_buf c.
       let mlen = ntohs (mem_to mlen_buf) in
       if mlen = 0 then (Exc ''wire: empty method name'', c)
       else
         andthen (server_read (unat mlen) c) (\<lambda>method c.
         andthen (server_read 8 c) (\<lambda>seq_buf c.
         andthen (server_read 4 c) (\<lambda>body_len_buf c.
           (Ret (method, wire_be64toh (mem_to seq_buf)),
            c\<lparr>srv_pending_body_len := ntohl (mem_to body_len_buf), srv_pending_method := method\<rparr>)))))"

definition read_request_body :: "wire_server \<Rightarrow> bytes outcome \<times> wire_server" where
  "read_request_body c =
     (let body_len = srv_pending_body_len c;
          c = c\<lparr>srv_pending_body_len := 0, srv_pending_method := []\<rparr>
      in if body_len = 0 then (Ret [], c) else server_read (unat body_len) c)"

definition response_frame :: "u64 \<Rightarrow> bytes \<Rightarrow> bytes \<Rightarrow> bytes" where
  "response_frame seq error body =
     (let preamble = 8 + 2 + length error + 4;
          buf = replicate (preamble + length body) 0;
          buf = memcpy_at 0 (mem_of 8 (wire_htobe64 seq)) buf;
          buf = memcpy_at 8 (mem_of 2 (htons (of_nat (length error)))) buf;
          buf = (if error \<noteq> [] then memcpy_at 10 error buf else buf);
          buf = memcpy_at (10 + length error) (mem_of 4 (htonl (of_nat (length body)))) buf
      in if body \<noteq> [] then memcpy_at preamble body buf else buf)"

definition write_response ::
  "u64 \<Rightarrow> bytes \<Rightarrow> bytes \<Rightarrow> wire_server \<Rightarrow> (unit outcome \<times> wire_server) option" where
  "write_response seq error body c =
     (if length error > 0xFFFF then Some (Exc ''wire: error string too long'', c)
      else map_option (\<lambda>(r, sk). (r, c\<lparr>server_sock := sk\<rparr>))
             (wire_write_all (response_frame seq error body) (server_sock c)))"

section \<open>Byte order\<close>

lemma length_mem_of [simp]: "length (mem_of n w) = n"
  by (simp add: mem_of_def)

lemma nth_mem_of [simp]: "i < n \<Longrightarrow> mem_of n w ! i = ucast (drop_bit (8 * i) w)"
  by (simp add: mem_of_def)

lemma bit_mem_to:
  "bit (mem_to bs :: 'a::len word) k \<longleftrightarrow>
   k < LENGTH('a) \<and> k div 8 < length bs \<and> bit (bs ! (k div 8)) (k mod 8)"
proof (induction bs arbitrary: k)
  case Nil
  then show ?case by (simp add: mem_to_def)
next
  case (Cons b bs)
  have step: "mem_to (b # bs) = (push_bit 8 (mem_to bs) OR ucast b :: 'a word)"
    by (simp add: mem_to_def)
  show ?case
  proof (cases "k < 8")
    case True
    then show ?thesis by (auto simp: step bit_simps)
  next
    case False
    then have k: "k div 8 = Suc ((k - 8) div 8)" "k mod 8 = (k - 8) mod 8"
      by (simp_all add: le_div_geq le_mod_geq)
    have "\<not> bit b k" using False by (auto dest: bit_imp_le_length)
    then have "bit (mem_to (b # bs) :: 'a word) k \<longleftrightarrow> k < LENGTH('a) \<and> bit (mem_to bs :: 'a word) (k - 8)"
      using False by (auto simp: step bit_simps)
    then show ?thesis using False by (auto simp: Cons.IH k)
  qed
qed

lemma mem_of_to:
  assumes "length bs = n" and "8 * n \<le> LENGTH('a)"
  shows "mem_of n (mem_to bs :: 'a::len word) = bs"
proof (rule nth_equalityI)
  show "length (mem_of n (mem_to bs :: 'a word)) = length bs" using assms by simp
  fix i assume "i < length (mem_of n (mem_to bs :: 'a word))"
  then have i: "i < n" by simp
  show "mem_of n (mem_to bs :: 'a word) ! i = bs ! i"
  proof (rule bit_word_eqI)
    fix k assume "k < LENGTH(8)"
    then have k: "k < 8" by simp
    then have "(8 * i + k) div 8 = i" "(8 * i + k) mod 8 = k" "8 * i + k < LENGTH('a)"
      using assms(2) i by auto
    then show "bit (mem_of n (mem_to bs :: 'a word) ! i) k = bit (bs ! i) k"
      using i k assms(1) by (simp add: bit_simps bit_mem_to)
  qed
qed

lemma mem_to_of:
  assumes "LENGTH('a) = 8 * n"
  shows "mem_to (mem_of n w) = (w :: 'a::len word)"
proof (rule bit_word_eqI)
  fix k assume k: "k < LENGTH('a)"
  then have "k div 8 < n" "8 * (k div 8) + k mod 8 = k" using assms by auto
  then show "bit (mem_to (mem_of n w) :: 'a word) k = bit w k"
    using k by (simp add: bit_mem_to bit_simps)
qed

lemma network_order_16: "mem_of 2 (htons v) = rev (mem_of 2 v)" "ntohs (mem_to (rev (mem_of 2 v))) = v"
  by (simp_all add: htons_def ntohs_def mem_of_to mem_to_of)

lemma network_order_32: "mem_of 4 (htonl v) = rev (mem_of 4 v)" "ntohl (mem_to (rev (mem_of 4 v))) = v"
  by (simp_all add: htonl_def ntohl_def mem_of_to mem_to_of)

text \<open>A 64-bit word is the bytes of its low half followed by those of its high half.\<close>

lemma mem_of_halves:
  "mem_of 8 (push_bit 32 (ucast (hi :: u32)) OR ucast (lo :: u32) :: u64) = mem_of 4 lo @ mem_of 4 hi"
proof (rule nth_equalityI)
  fix i assume "i < length (mem_of 8 (push_bit 32 (ucast hi) OR ucast lo :: u64))"
  then have i: "i < 8" by simp
  have low: "\<not> bit lo (k + 8 * i)" if "\<not> i < 4" for k
    using that bit_imp_le_length [of lo "k + 8 * i"] by auto
  show "mem_of 8 (push_bit 32 (ucast hi) OR ucast lo :: u64) ! i = (mem_of 4 lo @ mem_of 4 hi) ! i"
  proof (rule bit_word_eqI)
    fix k assume "k < LENGTH(8)"
    then have k: "k < 8" by simp
    show "bit (mem_of 8 (push_bit 32 (ucast hi) OR ucast lo :: u64) ! i) k =
        bit ((mem_of 4 lo @ mem_of 4 hi) ! i) k"
    proof (cases "i < 4")
      case True
      then show ?thesis using i k by (auto simp: nth_append bit_simps)
    next
      case False
      then have "8 * (i - 4) + k = 8 * i + k - 32" "32 \<le> 8 * i + k" "8 * i + k < 64"
        using i k by auto
      then show ?thesis using i k False low [of k] by (auto simp: nth_append bit_simps ac_simps)
    qed
  qed
qed simp

lemma network_order_64: "mem_of 8 (wire_htobe64 v) = rev (mem_of 8 v)"
proof -
  let ?hi = "ucast (drop_bit 32 v) :: u32" and ?lo = "ucast (v AND 0xFFFFFFFF) :: u32"
  have m: "(0xFFFFFFFF :: u64) = mask 32" by (simp add: mask_eq_exp_minus_1)
  have "v = push_bit 32 (ucast ?hi) OR ucast ?lo"
    by (rule bit_word_eqI) (auto simp: m bit_simps)
  then have "mem_of 8 v = mem_of 4 ?lo @ mem_of 4 ?hi"
    by (metis mem_of_halves)
  then show ?thesis
    unfolding wire_htobe64_def Let_def mem_of_halves network_order_32(1) by simp
qed

lemma wire_be64_back: "wire_be64toh (mem_to (rev (mem_of 8 v))) = v"
proof -
  have "mem_of 8 (wire_be64toh (mem_to (rev (mem_of 8 v)))) = mem_of 8 v"
    by (simp add: wire_be64toh_def network_order_64 mem_of_to)
  then have "mem_to (mem_of 8 (wire_be64toh (mem_to (rev (mem_of 8 v))))) = (mem_to (mem_of 8 v) :: u64)"
    by (rule arg_cong)
  then show ?thesis by (simp only: mem_to_of [where 'a = 64 and n = 8, simplified])
qed

lemma bytes_str_bytes [simp]: "bytes_str (str_bytes s) = s"
proof -
  have "char_of (unat (of_nat (of_char c) :: u8)) = c" for c :: char
    using nat_of_char_less_256 [of c] by (simp add: unat_of_nat)
  then show ?thesis by (induction s) (simp_all add: bytes_str_def str_bytes_def)
qed

lemma length_str_bytes [simp]: "length (str_bytes s) = length s"
  by (simp add: str_bytes_def)

section \<open>The frames\<close>

lemma request_frame_layout:
  "request_frame m seq body =
     rev (mem_of 2 (of_nat (length m) :: u16)) @ m @ rev (mem_of 8 seq) @
     rev (mem_of 4 (of_nat (length body) :: u32)) @ body"
proof -
  let ?z = "\<lambda>n. replicate n (0 :: u8)"
  have z: "?z (2 + length m + 8 + 4 + length body) =
      [] @ ?z 2 @ ?z (length m) @ ?z 8 @ ?z 4 @ ?z (length body)"
    by (simp only: replicate_add append_assoc append_Nil)
  show ?thesis
    unfolding request_frame_def Let_def z
    by (simp add: memcpy_at_def network_order_16(1) network_order_32(1) network_order_64)
qed

lemma response_frame_layout:
  "response_frame seq err body =
     rev (mem_of 8 seq) @ rev (mem_of 2 (of_nat (length err) :: u16)) @ err @
     rev (mem_of 4 (of_nat (length body) :: u32)) @ body"
proof -
  let ?z = "\<lambda>n. replicate n (0 :: u8)"
  have z: "?z (8 + 2 + length err + 4 + length body) =
      [] @ ?z 8 @ ?z 2 @ ?z (length err) @ ?z 4 @ ?z (length body)"
    by (simp only: replicate_add append_assoc append_Nil)
  show ?thesis
    unfolding response_frame_def Let_def z
    by (simp add: memcpy_at_def network_order_16(1) network_order_32(1) network_order_64)
qed

section \<open>Loops over the socket\<close>

text \<open>A connection whose calls all make progress.\<close>

definition sock_healthy :: "sock \<Rightarrow> bool" where
  "sock_healthy sk \<longleftrightarrow> (\<forall>n. 0 < sock_limit sk n)"

lemma wire_write_all_ok:
  assumes "sock_healthy sk"
  shows "\<exists>sk'. wire_write_all buf sk = Some (Ret (), sk') \<and> sent sk' = sent sk @ buf \<and>
    arrived sk' = arrived sk \<and> sock_limit sk' = sock_limit sk"
  using assms
proof (induction "length buf" arbitrary: buf sk rule: less_induct)
  case less
  show ?case
  proof (cases "buf = []")
    case True
    then show ?thesis by (subst wire_write_all.simps) simp
  next
    case False
    let ?k = "sock_limit sk (sock_ops sk)"
    let ?n = "min (nat ?k) (length buf)"
    let ?sk = "sk\<lparr>sent := sent sk @ take ?n buf, sock_ops := Suc (sock_ops sk)\<rparr>"
    have k: "0 < ?k" using less(2) by (simp add: sock_healthy_def)
    have w: "sock_write buf sk = (int ?n, ?sk)"
      using k by (simp add: sock_write_def Let_def)
    have "length (drop ?n buf) < length buf" using k False by (simp add: min_def)
    moreover have "sock_healthy ?sk" using less(2) by (simp add: sock_healthy_def)
    ultimately obtain sk' where "wire_write_all (drop ?n buf) ?sk = Some (Ret (), sk')"
      "sent sk' = sent ?sk @ drop ?n buf" "arrived sk' = arrived ?sk" "sock_limit sk' = sock_limit ?sk"
      using less(1) by blast
    moreover have "wire_write_all buf sk = wire_write_all (drop ?n buf) ?sk"
      using False by (subst wire_write_all.simps) (simp add: w)
    ultimately show ?thesis by simp
  qed
qed

text \<open>What has been sent when the loop ends is a prefix of the buffer, all of it when no call failed.\<close>

definition sent_prefix :: "bytes \<Rightarrow> sock \<Rightarrow> unit outcome \<times> sock \<Rightarrow> bool" where
  "sent_prefix buf sk res \<longleftrightarrow> (\<exists>n \<le> length buf. sent (snd res) = sent sk @ take n buf \<and>
     (fst res = Ret () \<longrightarrow> n = length buf))"

lemma wire_write_all_prefix:
  assumes "wire_write_all buf sk = Some res"
  shows "sent_prefix buf sk res"
proof (rule wire_write_all.raw_induct [OF _ assms])
  fix wr buf sk res
  assume IH: "\<And>buf sk res. wr buf sk = Some res \<Longrightarrow> sent_prefix buf sk res"
    and body: "(if buf \<noteq> [] then let (n, sk) = sock_write buf sk in
        if n < 0 then Some (Exc ''wire_write_all: write failed'', sk) else wr (drop (nat n) buf) sk
      else Some (Ret (), sk)) = Some res"
  let ?k = "sock_limit sk (sock_ops sk)"
  let ?n = "min (nat ?k) (length buf)"
  let ?sk = "sk\<lparr>sent := sent sk @ take ?n buf, sock_ops := Suc (sock_ops sk)\<rparr>"
  consider "buf = []" | "buf \<noteq> []" "?k < 0" | "buf \<noteq> []" "\<not> ?k < 0" by blast
  then show "sent_prefix buf sk res"
  proof cases
    case 3
    then have "wr (drop ?n buf) ?sk = Some res"
      using body by (simp add: sock_write_def Let_def)
    from IH [OF this] obtain m where "m \<le> length buf - ?n"
      "sent (snd res) = sent sk @ take ?n buf @ take m (drop ?n buf)"
      "fst res = Ret () \<longrightarrow> m = length buf - ?n" by (auto simp: sent_prefix_def)
    then show ?thesis
      unfolding sent_prefix_def by (intro exI [of _ "?n + m"]) (auto simp: take_add)
  qed (use body in \<open>auto simp: sent_prefix_def sock_write_def Let_def\<close>)
qed

lemma wire_read_full_ok:
  assumes "sock_healthy sk" and "arrived sk = data @ rest"
  shows "\<exists>sk'. wire_read_full (length data) sk = (Ret data, sk') \<and> arrived sk' = rest \<and>
    sent sk' = sent sk \<and> sock_limit sk' = sock_limit sk"
  using assms
proof (induction "length data" arbitrary: data sk rule: less_induct)
  case less
  show ?case
  proof (cases "data = []")
    case True
    then show ?thesis using less by (subst wire_read_full.simps) simp
  next
    case False
    let ?k = "sock_limit sk (sock_ops sk)"
    let ?n = "min (nat ?k) (length data)"
    let ?sk = "sk\<lparr>arrived := drop ?n data @ rest, sock_ops := Suc (sock_ops sk)\<rparr>"
    have k: "0 < ?k" using less(2) by (simp add: sock_healthy_def)
    have r: "sock_read (length data) sk = (int ?n, take ?n data, ?sk)"
      using k less(3) by (simp add: sock_read_def Let_def min_def)
    have "length (drop ?n data) < length data" using k False by (simp add: min_def)
    moreover have "sock_healthy ?sk" using less(2) by (simp add: sock_healthy_def)
    ultimately obtain sk' where sk': "wire_read_full (length (drop ?n data)) ?sk = (Ret (drop ?n data), sk')"
      "arrived sk' = rest" "sent sk' = sent sk" "sock_limit sk' = sock_limit sk"
      using less(1) [of "drop ?n data" ?sk] by auto
    have "wire_read_full (length data) sk =
        andthen (wire_read_full (length (drop ?n data)) ?sk) (\<lambda>x sk. (Ret (take ?n data @ x), sk))"
      using False k by (subst wire_read_full.simps) (simp add: r min_def)
    then show ?thesis using sk' by simp
  qed
qed

text \<open>A peer that closes before the field is complete is an error.\<close>

lemma wire_read_full_short:
  "length (arrived sk) < len \<Longrightarrow>
   fst (wire_read_full len sk) = Exc ''wire_read_full: read failed or connection closed''"
proof (induction len sk rule: wire_read_full.induct)
  case (1 len sk)
  obtain n got sk' where r: "sock_read len sk = (n, got, sk')" by (cases "sock_read len sk")
  show ?case
  proof (cases "n \<le> 0")
    case True
    then show ?thesis using 1(2) r by (subst wire_read_full.simps) simp
  next
    case False
    then have "arrived sk' = drop (nat n) (arrived sk)" "nat n \<le> length (arrived sk)"
      using r by (auto simp: sock_read_def Let_def split: if_splits)
    then have "length (arrived sk') < len - nat n" using 1(2) by simp
    moreover have "0 < len" using 1(2) by simp
    ultimately have "fst (wire_read_full (len - nat n) sk') =
        Exc ''wire_read_full: read failed or connection closed''"
      using 1(1) [OF _ r [symmetric] refl False] by simp
    then show ?thesis using 1(2) r False
      by (subst wire_read_full.simps) (auto simp: andthen_def split: prod.splits outcome.splits)
  qed
qed

section \<open>The interface of a byte source\<close>

text \<open>
  The decoders read fields of known length one after the other. What they need of the reading end is
  that a field that has arrived is returned and consumed and that nothing else changes.
\<close>

locale byte_source =
  fixes rd :: "nat \<Rightarrow> 's \<Rightarrow> bytes outcome \<times> 's"
    and avail :: "'s \<Rightarrow> bytes"
    and sound :: "'s \<Rightarrow> bool"
    and kept :: "'s \<Rightarrow> 'v"
  assumes rd_field: "sound s \<Longrightarrow> avail s = data @ rest \<Longrightarrow>
    \<exists>s'. rd (length data) s = (Ret data, s') \<and> avail s' = rest \<and> sound s' \<and> kept s' = kept s"
begin

lemma read_field:
  assumes "sound s" "avail s = data @ rest" "length data = n"
  obtains s' where "rd n s = (Ret data, s')" "avail s' = rest" "sound s'" "kept s' = kept s"
  using rd_field [OF assms(1,2)] assms(3) by blast

end

lemma sock_healthy_cong: "sock_limit sk' = sock_limit sk \<Longrightarrow> sock_healthy sk' = sock_healthy sk"
  by (simp add: sock_healthy_def)

interpretation client_source: byte_source client_read "\<lambda>c. arrived (client_sock c)"
  "\<lambda>c. sock_healthy (client_sock c)"
  "\<lambda>c. (sent (client_sock c), pending_table c, pending_body_len c, pending_method c)"
proof
  fix c :: wire_client and data rest
  assume "sock_healthy (client_sock c)" "arrived (client_sock c) = data @ rest"
  then show "\<exists>s'. client_read (length data) c = (Ret data, s') \<and> arrived (client_sock s') = rest \<and>
      sock_healthy (client_sock s') \<and>
      (sent (client_sock s'), pending_table s', pending_body_len s', pending_method s') =
      (sent (client_sock c), pending_table c, pending_body_len c, pending_method c)"
    using wire_read_full_ok [of "client_sock c" data rest]
    by (auto simp: client_read_def sock_healthy_def)
qed

interpretation server_source: byte_source server_read "\<lambda>c. arrived (server_sock c)"
  "\<lambda>c. sock_healthy (server_sock c)" "\<lambda>c. sent (server_sock c)"
proof
  fix c :: wire_server and data rest
  assume "sock_healthy (server_sock c)" "arrived (server_sock c) = data @ rest"
  then show "\<exists>s'. server_read (length data) c = (Ret data, s') \<and> arrived (server_sock s') = rest \<and>
      sock_healthy (server_sock s') \<and> sent (server_sock s') = sent (server_sock c)"
    using wire_read_full_ok [of "server_sock c" data rest]
    by (auto simp: server_read_def sock_healthy_def)
qed

section \<open>Round trips\<close>

lemma unat_len16: "n \<le> 0xFFFF \<Longrightarrow> unat (of_nat n :: u16) = n"
  by (simp add: unat_of_nat)

lemma unat_len32: "n < 2 ^ 32 \<Longrightarrow> unat (of_nat n :: u32) = n"
  by (simp add: unat_of_nat)

lemma request_decodes:
  assumes m: "m \<noteq> []" "length m \<le> 0xFFFF" and b: "length body < 2 ^ 32"
    and s: "sock_healthy (server_sock s)" "arrived (server_sock s) = request_frame m seq body @ rest"
  shows "\<exists>s1 s2. read_request_header s = (Ret (m, seq), s1) \<and> read_request_body s1 = (Ret body, s2) \<and>
    arrived (server_sock s2) = rest \<and> sock_healthy (server_sock s2) \<and>
    sent (server_sock s2) = sent (server_sock s)"
proof -
  let ?ml = "of_nat (length m) :: u16" and ?bl = "of_nat (length body) :: u32"
  have ml: "unat ?ml = length m" "?ml \<noteq> 0"
    using m unat_len16 [OF m(2)] by (auto simp: unat_eq_0 [symmetric])
  have bl: "unat ?bl = length body" by (rule unat_len32 [OF b])
  obtain a1 where 1: "server_read 2 s = (Ret (rev (mem_of 2 ?ml)), a1)"
    "arrived (server_sock a1) = m @ rev (mem_of 8 seq) @ rev (mem_of 4 ?bl) @ body @ rest"
    "sock_healthy (server_sock a1)" "sent (server_sock a1) = sent (server_sock s)"
    by (rule server_source.read_field [OF s(1) s(2) [unfolded request_frame_layout append_assoc]]) auto
  obtain a2 where 2: "server_read (length m) a1 = (Ret m, a2)"
    "arrived (server_sock a2) = rev (mem_of 8 seq) @ rev (mem_of 4 ?bl) @ body @ rest"
    "sock_healthy (server_sock a2)" "sent (server_sock a2) = sent (server_sock a1)"
    by (rule server_source.read_field [OF 1(3,2)]) auto
  obtain a3 where 3: "server_read 8 a2 = (Ret (rev (mem_of 8 seq)), a3)"
    "arrived (server_sock a3) = rev (mem_of 4 ?bl) @ body @ rest"
    "sock_healthy (server_sock a3)" "sent (server_sock a3) = sent (server_sock a2)"
    by (rule server_source.read_field [OF 2(3,2)]) auto
  obtain a4 where 4: "server_read 4 a3 = (Ret (rev (mem_of 4 ?bl)), a4)"
    "arrived (server_sock a4) = body @ rest"
    "sock_healthy (server_sock a4)" "sent (server_sock a4) = sent (server_sock a3)"
    by (rule server_source.read_field [OF 3(3,2)]) auto
  let ?s1 = "a4\<lparr>srv_pending_body_len := ?bl, srv_pending_method := m\<rparr>"
  let ?s1' = "a4\<lparr>srv_pending_body_len := 0, srv_pending_method := []\<rparr>"
  have "read_request_header s = (Ret (m, seq), ?s1)"
    unfolding read_request_header_def Let_def
    by (simp add: 1(1) network_order_16(2) ml 2(1) 3(1) 4(1) network_order_32(2) wire_be64_back)
  moreover obtain s2 where "read_request_body ?s1 = (Ret body, s2)" "arrived (server_sock s2) = rest"
    "sock_healthy (server_sock s2)" "sent (server_sock s2) = sent (server_sock ?s1')"
  proof (cases "body = []")
    case True
    then show ?thesis using that [of ?s1'] 4 by (simp add: read_request_body_def)
  next
    case False
    then have "?bl \<noteq> 0" using bl by (auto simp: unat_eq_0 [symmetric])
    moreover obtain s2 where "server_read (length body) ?s1' = (Ret body, s2)"
      "arrived (server_sock s2) = rest" "sock_healthy (server_sock s2)"
      "sent (server_sock s2) = sent (server_sock ?s1')"
      using server_source.rd_field [of ?s1' body rest] 4 by auto
    ultimately show ?thesis using that [of s2] by (simp add: read_request_body_def bl)
  qed
  ultimately show ?thesis using 1(4) 2(4) 3(4) 4(4) by auto
qed

lemma response_decodes:
  assumes e: "length err \<le> 0xFFFF" and b: "length body < 2 ^ 32"
    and c: "sock_healthy (client_sock c)" "arrived (client_sock c) = response_frame seq err body @ rest"
    and p: "pending_table c seq = Some m"
  shows "\<exists>c1 c2. read_response_header c = (Ret (seq, m, err), c1) \<and> read_response_body c1 = (Ret body, c2) \<and>
    arrived (client_sock c1) = body @ rest \<and> arrived (client_sock c2) = rest \<and>
    sock_healthy (client_sock c2) \<and> sent (client_sock c1) = sent (client_sock c) \<and>
    sent (client_sock c2) = sent (client_sock c) \<and>
    pending_table c1 = (pending_table c)(seq := None) \<and> pending_table c2 = (pending_table c)(seq := None)"
proof -
  let ?el = "of_nat (length err) :: u16" and ?bl = "of_nat (length body) :: u32"
  have el: "unat ?el = length err" by (rule unat_len16 [OF e])
  have bl: "unat ?bl = length body" by (rule unat_len32 [OF b])
  let ?hdr = "rev (mem_of 8 seq) @ rev (mem_of 2 ?el)"
  obtain a1 where 1: "client_read 10 c = (Ret (?hdr), a1)"
    "arrived (client_sock a1) = err @ rev (mem_of 4 ?bl) @ body @ rest" "sock_healthy (client_sock a1)"
    "(sent (client_sock a1), pending_table a1, pending_body_len a1, pending_method a1) =
     (sent (client_sock c), pending_table c, pending_body_len c, pending_method c)"
    by (rule client_source.read_field [OF c(1), of ?hdr])
      (auto simp: c(2) response_frame_layout)
  obtain a2 where 2: "read_error_text ?el a1 = (Ret err, a2)"
    "arrived (client_sock a2) = rev (mem_of 4 ?bl) @ body @ rest" "sock_healthy (client_sock a2)"
    "(sent (client_sock a2), pending_table a2, pending_body_len a2, pending_method a2) =
     (sent (client_sock a1), pending_table a1, pending_body_len a1, pending_method a1)"
  proof (cases "err = []")
    case True
    then show ?thesis using that [of a1] 1 by (simp add: read_error_text_def)
  next
    case False
    then have "?el \<noteq> 0" using el by (auto simp: unat_eq_0 [symmetric])
    then have pos: "0 < ?el" by (simp add: word_neq_0_conv)
    show ?thesis
      by (rule client_source.read_field [OF 1(3,2) refl], rule that)
        (use pos in \<open>auto simp: read_error_text_def el\<close>)
  qed
  obtain a3 where 3: "client_read 4 a2 = (Ret (rev (mem_of 4 ?bl)), a3)"
    "arrived (client_sock a3) = body @ rest" "sock_healthy (client_sock a3)"
    "(sent (client_sock a3), pending_table a3, pending_body_len a3, pending_method a3) =
     (sent (client_sock a2), pending_table a2, pending_body_len a2, pending_method a2)"
    by (rule client_source.read_field [OF 2(3,2)]) auto
  have tab: "pending_table a3 = pending_table c" "sent (client_sock a3) = sent (client_sock c)"
    using 1(4) 2(4) 3(4) by auto
  let ?c1 = "a3\<lparr>pending_table := (pending_table c)(seq := None), pending_body_len := ?bl, pending_method := m\<rparr>"
  let ?c1' = "a3\<lparr>pending_table := (pending_table c)(seq := None), pending_body_len := 0, pending_method := []\<rparr>"
  have "read_response_header c = (Ret (seq, m, err), ?c1)"
    unfolding read_response_header_def Let_def
    by (simp add: 1(1) wire_be64_back network_order_16(2) el 2(1) 3(1) network_order_32(2) tab(1) p)
  moreover obtain c2 where "read_response_body ?c1 = (Ret body, c2)" "arrived (client_sock c2) = rest"
    "sock_healthy (client_sock c2)" "sent (client_sock c2) = sent (client_sock a3)"
    "pending_table c2 = (pending_table c)(seq := None)"
  proof (cases "body = []")
    case True
    then show ?thesis using that [of ?c1'] 3 by (simp add: read_response_body_def)
  next
    case False
    then have "?bl \<noteq> 0" using bl by (auto simp: unat_eq_0 [symmetric])
    moreover obtain c2 where "client_read (length body) ?c1' = (Ret body, c2)"
      "arrived (client_sock c2) = rest" "sock_healthy (client_sock c2)"
      "sent (client_sock c2) = sent (client_sock a3)" "pending_table c2 = (pending_table c)(seq := None)"
      using client_source.rd_field [of ?c1' body rest] 3 by auto
    ultimately show ?thesis using that [of c2] by (simp add: read_response_body_def bl)
  qed
  ultimately show ?thesis using 3(2) tab(2) by auto
qed

lemma write_request_ok:
  assumes "length m \<le> 0xFFFF" "sock_healthy (client_sock c)"
  shows "\<exists>c'. write_request m seq body c = Some (Ret (), c') \<and>
    sent (client_sock c') = sent (client_sock c) @ request_frame m seq body \<and>
    arrived (client_sock c') = arrived (client_sock c) \<and> sock_healthy (client_sock c') \<and>
    pending_table c' = (pending_table c)(seq \<mapsto> m)"
  using assms wire_write_all_ok [OF assms(2), of "request_frame m seq body"]
  by (auto simp: write_request_def Let_def sock_healthy_def)

lemma write_response_ok:
  assumes "length err \<le> 0xFFFF" "sock_healthy (server_sock s)"
  shows "\<exists>s'. write_response seq err body s = Some (Ret (), s') \<and>
    sent (server_sock s') = sent (server_sock s) @ response_frame seq err body \<and>
    arrived (server_sock s') = arrived (server_sock s) \<and> sock_healthy (server_sock s')"
  using assms wire_write_all_ok [OF assms(2), of "response_frame seq err body"]
  by (auto simp: write_response_def sock_healthy_def)

text \<open>
  C22. Request frames round trip: over a connection whose calls make progress, in pieces of any size,
  the client sends a frame that the server reads back as the same method, sequence number and body,
  and the server stops at the end of the frame, so that the next request starts there.
\<close>

theorem request_round_trip:
  assumes "m \<noteq> []" "length m \<le> 0xFFFF" "length body < 2 ^ 32"
    and "sock_healthy (client_sock c)" "sock_healthy (server_sock s)"
    and "arrived (server_sock s) = request_frame m seq body @ rest"
  shows "\<exists>c' s1 s2. write_request m seq body c = Some (Ret (), c') \<and>
    sent (client_sock c') = sent (client_sock c) @ request_frame m seq body \<and>
    read_request_header s = (Ret (m, seq), s1) \<and> read_request_body s1 = (Ret body, s2) \<and>
    arrived (server_sock s2) = rest"
  using write_request_ok [OF assms(2,4), of seq body] request_decodes [OF assms(1-3,5,6)] by blast

definition sample_sock :: "bytes \<Rightarrow> sock" where
  "sample_sock bs = \<lparr>sent = [], arrived = bs, sock_ops = 0, sock_limit = \<lambda>_. 3\<rparr>"

lemma sample_sock_healthy [simp]: "sock_healthy (sample_sock bs)"
  by (simp add: sock_healthy_def sample_sock_def)

lemma sample_sock_arrived [simp]: "arrived (sample_sock bs) = bs" "sent (sample_sock bs) = []"
  by (simp_all add: sample_sock_def)

lemma codec_socks [simp]:
  "client_sock (WireClientCodec sk) = sk" "server_sock (WireServerCodec sk) = sk"
  "pending_table (WireClientCodec sk) = Map.empty"
  by (simp_all add: WireClientCodec_def WireServerCodec_def)

theorem request_round_trip_witness:
  "\<exists>s1 s2. read_request_header (WireServerCodec (sample_sock (request_frame [82, 86] 7 [1, 2, 3] @ [0, 4]))) =
      (Ret ([82, 86], 7), s1) \<and> read_request_body s1 = (Ret [1, 2, 3], s2) \<and>
    arrived (server_sock s2) = [0, 4]"
  using request_round_trip [of "[82, 86]" "[1, 2, 3]" "WireClientCodec (sample_sock [])"
      "WireServerCodec (sample_sock (request_frame [82, 86] 7 [1, 2, 3] @ [0, 4]))" 7 "[0, 4]"]
  by auto

end
