(* ===== verification/Rpc.thy ===== *)
theory Rpc
  imports Wire
begin

text \<open>
  Remote calls over the frames of theory \<open>Wire\<close>: the HTTP CONNECT handshake and the connection loop
  of \<open>net/src/raft_rpc_listener.cpp\<close>, which Raft nodes and storage nodes share, and \<open>rpc_invoke\<close> and
  the handshake of \<open>net/src/raft_tcp_transport.cpp\<close>. The method dispatcher is an argument of the
  connection loop, as in the code, and works on a state of its own; theory \<open>Dispatch\<close> has the two
  dispatchers. A loop that does not end is \<open>None\<close>; the end of a connection is a normal return.
\<close>

section \<open>Handshake\<close>

definition newlines :: string where
  "newlines = [CHR 0x0A, CHR 0x0A]"

definition kConnectReq :: bytes where
  "kConnectReq = str_bytes (''CONNECT /_goRPC_ HTTP/1.0'' @ newlines)"

definition kConnectOk :: bytes where
  "kConnectOk = str_bytes (''HTTP/1.0 200 Connected to Go RPC'' @ newlines)"

lemma sock_read_progress:
  "sock_read len sk = (n, got, sk') \<Longrightarrow> 0 < n \<Longrightarrow> length got = nat n"
  by (auto simp: sock_read_def Let_def split: if_splits)

definition blank_line :: "bytes \<Rightarrow> bool" where
  "blank_line buf \<longleftrightarrow>
     (let off = length buf in off \<ge> 2 \<and> buf ! (off - 1) = 10 \<and> buf ! (off - 2) = 10)"

text \<open>
  The loop of both ends: one byte at a time into a buffer of 256, up to two newlines or 255 bytes.
\<close>

function read_head :: "string \<Rightarrow> bytes \<Rightarrow> sock \<Rightarrow> bytes outcome \<times> sock" where
  "read_head err buf sk =
     (if length buf < 255 then
        (case sock_read 1 sk of (n, got, sk) \<Rightarrow>
          if n \<le> 0 then (Exc err, sk)
          else
            let buf = buf @ got in
            if blank_line buf then (Ret buf, sk) else read_head err buf sk)
      else (Ret buf, sk))"
  by auto

termination read_head
  by (relation "measure (\<lambda>(e, b, s). 255 - length b)") (auto dest!: sock_read_progress [OF sym])

declare read_head.simps [simp del]

definition send_http_connect_ok :: "sock \<Rightarrow> (unit outcome \<times> sock) option" where
  "send_http_connect_ok sk = wire_write_all kConnectOk sk"

definition consume_http_connect_request :: "sock \<Rightarrow> unit outcome \<times> sock" where
  "consume_http_connect_request sk =
     andthen (read_head ''consume_http_connect_request: read failed'' [] sk) (\<lambda>_ sk. (Ret (), sk))"

text \<open>\<open>std::string::find\<close>, as a test.\<close>

definition contains :: "bytes \<Rightarrow> bytes \<Rightarrow> bool" where
  "contains pat s \<longleftrightarrow> list_ex (\<lambda>k. take (length pat) (drop k s) = pat) [0..<Suc (length s)]"

definition http_connect_handshake :: "sock \<Rightarrow> (unit outcome \<times> sock) option" where
  "http_connect_handshake sk =
     map_option (\<lambda>m. andthen m (\<lambda>_ sk.
         andthen (read_head ''http_connect_handshake: read failed'' [] sk) (\<lambda>resp sk.
           if contains (str_bytes ''200'') resp then (Ret (), sk)
           else (Exc (''http_connect_handshake: unexpected response: '' @ bytes_str resp), sk))))
       (wire_write_all kConnectReq sk)"

section \<open>The connection loop\<close>

text \<open>
  The result of a dispatcher is whether it knows the method, with the response body; \<open>None\<close> is a
  handler that does not return.
\<close>

type_synonym 'st dispatcher = "string \<Rightarrow> bytes \<Rightarrow> 'st \<Rightarrow> ((bool \<times> bytes) outcome \<times> 'st) option"

text \<open>The error text and the body of the answer to one request.\<close>

definition answer ::
  "'st dispatcher \<Rightarrow> bytes \<Rightarrow> bytes \<Rightarrow> 'st \<Rightarrow> ((bytes \<times> bytes) outcome \<times> 'st) option" where
  "answer dispatch service_method body st =
     map_option (\<lambda>res. case res of
        (Ret (known, rsp_body), st) \<Rightarrow>
          (Ret (if known then [] else str_bytes (''unregistered method: '' @ bytes_str service_method),
                rsp_body), st)
      | (Exc e, st) \<Rightarrow> (Ret (str_bytes e, []), st)
      | (Ub, st) \<Rightarrow> (Ub, st))
       (dispatch (bytes_str service_method) body st)"

partial_function (option) serve_loop ::
  "'st dispatcher \<Rightarrow> wire_server \<Rightarrow> 'st \<Rightarrow> (unit outcome \<times> wire_server \<times> 'st) option" where
  "serve_loop dispatch codec st =
     (case andthen (read_request_header codec)
             (\<lambda>hdr codec. andthen (read_request_body codec) (\<lambda>body codec. (Ret (hdr, body), codec))) of
        (Ret ((service_method, seq), body), codec) \<Rightarrow>
          Option.bind (answer dispatch service_method body st) (\<lambda>(a, st).
            case a of
              Ret (error, rsp_body) \<Rightarrow>
                Option.bind (write_response seq error rsp_body codec) (\<lambda>(r, codec).
                  case r of
                    Ret _ \<Rightarrow> serve_loop dispatch codec st
                  | Exc _ \<Rightarrow> Some (Ret (), codec, st)
                  | Ub \<Rightarrow> Some (Ub, codec, st))
            | Exc e \<Rightarrow> Some (Exc e, codec, st)
            | Ub \<Rightarrow> Some (Ub, codec, st))
      | (Exc _, codec) \<Rightarrow> Some (Ret (), codec, st)
      | (Ub, codec) \<Rightarrow> Some (Ub, codec, st))"

definition serve_rpc_connection ::
  "'st dispatcher \<Rightarrow> sock \<Rightarrow> 'st \<Rightarrow> (unit outcome \<times> wire_server \<times> 'st) option" where
  "serve_rpc_connection dispatch sk st =
     (case consume_http_connect_request sk of
        (Ret _, sk) \<Rightarrow>
          Option.bind (send_http_connect_ok sk) (\<lambda>(r, sk).
            case r of
              Ret _ \<Rightarrow> serve_loop dispatch (WireServerCodec sk) st
            | Exc _ \<Rightarrow> Some (Ret (), WireServerCodec sk, st)
            | Ub \<Rightarrow> Some (Ub, WireServerCodec sk, st))
      | (Exc _, sk) \<Rightarrow> Some (Ret (), WireServerCodec sk, st)
      | (Ub, sk) \<Rightarrow> Some (Ub, WireServerCodec sk, st))"

section \<open>The calling side\<close>

record rpc_handle =
  codec :: wire_client
  next_seq :: u64

definition RpcClientHandle :: "sock \<Rightarrow> rpc_handle" where
  "RpcClientHandle sk = \<lparr>codec = WireClientCodec sk, next_seq = 1\<rparr>"

definition rpc_invoke ::
  "string \<Rightarrow> bytes \<Rightarrow> string \<Rightarrow> rpc_handle \<Rightarrow> (bytes outcome \<times> rpc_handle) option" where
  "rpc_invoke method req_body err_prefix h =
     (let seq = next_seq h;
          h = h\<lparr>next_seq := next_seq h + 1\<rparr>
      in map_option
           (\<lambda>m. case andthen m (\<lambda>_ c. andthen (read_response_header c) (\<lambda>(seq, method, error) c.
                    if error \<noteq> [] then (Exc (err_prefix @ bytes_str error), c)
                    else read_response_body c)) of
               (r, c) \<Rightarrow> (r, h\<lparr>codec := c\<rparr>))
           (write_request (str_bytes method) seq req_body (codec h)))"

section \<open>The handshake completes\<close>

text \<open>The bytes \<open>data\<close>, read after \<open>buf\<close>, have their first blank line at the very end.\<close>

fun ends_head :: "bytes \<Rightarrow> bytes \<Rightarrow> bool" where
  "ends_head buf [] = False"
| "ends_head buf (b # data) =
     (if blank_line (buf @ [b]) then data = [] else ends_head (buf @ [b]) data)"

lemma read_head_ok:
  assumes "sock_healthy sk" "arrived sk = data @ rest" "ends_head buf data" "length buf + length data \<le> 255"
  shows "\<exists>sk'. read_head err buf sk = (Ret (buf @ data), sk') \<and> arrived sk' = rest \<and>
    sent sk' = sent sk \<and> sock_healthy sk'"
  using assms
proof (induction buf data arbitrary: sk rule: ends_head.induct)
  case (2 buf b data)
  let ?k = "sock_limit sk (sock_ops sk)"
  let ?sk = "sk\<lparr>arrived := data @ rest, sock_ops := Suc (sock_ops sk)\<rparr>"
  have "0 < ?k" using 2(2) by (simp add: sock_healthy_def)
  then have r: "sock_read 1 sk = (1, [b], ?sk)"
    using 2(3) by (simp add: sock_read_def Let_def)
  have h: "sock_healthy ?sk" using 2(2) by (simp add: sock_healthy_def)
  let ?b = "buf @ [b]"
  show ?case
  proof (cases "blank_line ?b")
    case True
    then have "read_head err buf sk = (Ret ?b, ?sk)"
      using 2(5) by (subst read_head.simps) (simp add: r del: One_nat_def)
    then show ?thesis using True 2(4) h by simp
  next
    case False
    then have e: "ends_head ?b data" using 2(4) by simp
    have "length ?b + length data \<le> 255" using 2(5) by simp
    from 2(1) [OF False h _ e this]
    have "\<exists>sk'. read_head err ?b ?sk = (Ret (?b @ data), sk') \<and> arrived sk' = rest \<and>
        sent sk' = sent ?sk \<and> sock_healthy sk'" by simp
    moreover have "read_head err buf sk = read_head err ?b ?sk"
      using 2(5) False by (subst read_head.simps) (simp add: r del: One_nat_def)
    ultimately show ?thesis by simp
  qed
qed simp

lemma head_texts:
  "ends_head [] kConnectReq" "length kConnectReq = 27"
  "ends_head [] kConnectOk" "length kConnectOk = 34" "contains (str_bytes ''200'') kConnectOk"
  by code_simp+

lemma consume_ok:
  assumes "sock_healthy sk" "arrived sk = kConnectReq @ rest"
  shows "\<exists>sk'. consume_http_connect_request sk = (Ret (), sk') \<and> arrived sk' = rest \<and>
    sent sk' = sent sk \<and> sock_healthy sk'"
  using read_head_ok [OF assms head_texts(1), of "''consume_http_connect_request: read failed''"]
  by (auto simp: consume_http_connect_request_def head_texts)

lemma handshake_ok:
  assumes "sock_healthy sk" "arrived sk = kConnectOk @ rest"
  shows "\<exists>sk'. http_connect_handshake sk = Some (Ret (), sk') \<and> arrived sk' = rest \<and>
    sent sk' = sent sk @ kConnectReq \<and> sock_healthy sk'"
proof -
  obtain a where a: "wire_write_all kConnectReq sk = Some (Ret (), a)" "sent a = sent sk @ kConnectReq"
    "arrived a = arrived sk" "sock_healthy a"
    using wire_write_all_ok [OF assms(1), of kConnectReq] assms(1) by (auto simp: sock_healthy_def)
  then show ?thesis
    using read_head_ok [OF a(4) _ head_texts(3), of rest "''http_connect_handshake: read failed''"] assms(2)
    by (auto simp: http_connect_handshake_def head_texts)
qed

section \<open>The connection loop answers every request\<close>

type_synonym request = "bytes \<times> u64 \<times> bytes"

definition wf_request :: "request \<Rightarrow> bool" where
  "wf_request q \<longleftrightarrow> (case q of (m, seq, body) \<Rightarrow>
     m \<noteq> [] \<and> length m \<le> 0xFFFF \<and> length body < 2 ^ 32)"

definition frame_of :: "request \<Rightarrow> bytes" where
  "frame_of q = (case q of (m, seq, body) \<Rightarrow> request_frame m seq body)"

lemma frame_of_simp [simp]: "frame_of (m, seq, body) = request_frame m seq body"
  by (simp add: frame_of_def)

text \<open>
  The specification: the dispatcher is called once for every request, in order, and its answers go
  back under the sequence numbers of their requests. \<open>None\<close>: a handler does not return, or an error
  text does not fit a frame.
\<close>

fun serve_all :: "'st dispatcher \<Rightarrow> request list \<Rightarrow> 'st \<Rightarrow> (bytes \<times> 'st) option" where
  "serve_all dispatch [] st = Some ([], st)"
| "serve_all dispatch ((m, seq, body) # qs) st =
     (case answer dispatch m body st of
        Some (Ret (error, rsp), st) \<Rightarrow>
          if length error \<le> 0xFFFF then
            map_option (\<lambda>(out, st). (response_frame seq error rsp @ out, st)) (serve_all dispatch qs st)
          else None
      | _ \<Rightarrow> None)"

lemma header_at_end:
  assumes "arrived (server_sock c) = []"
  shows "\<exists>e c'. read_request_header c = (Exc e, c') \<and> sent (server_sock c') = sent (server_sock c)"
proof -
  obtain n got sk where r: "sock_read 2 (server_sock c) = (n, got, sk)"
    by (cases "sock_read 2 (server_sock c)")
  then have "n \<le> 0" "sent sk = sent (server_sock c)"
    using assms by (auto simp: sock_read_def Let_def split: if_splits)
  moreover from this(1) have "\<exists>e. wire_read_full 2 (server_sock c) = (Exc e, sk)"
    by (subst wire_read_full.simps) (simp add: r)
  ultimately show ?thesis by (auto simp: read_request_header_def server_read_def)
qed

lemma serve_loop_all:
  assumes "sock_healthy (server_sock c)" "arrived (server_sock c) = concat (map frame_of qs)"
    and "\<forall>q \<in> set qs. wf_request q" and "serve_all dispatch qs st = Some (out, st')"
  shows "\<exists>c'. serve_loop dispatch c st = Some (Ret (), c', st') \<and>
    sent (server_sock c') = sent (server_sock c) @ out"
  using assms
proof (induction qs arbitrary: c st out)
  case Nil
  then show ?case using header_at_end [of c] by (subst serve_loop.simps) auto
next
  case (Cons q qs)
  obtain m seq body where q: "q = (m, seq, body)" by (cases q)
  have wf: "m \<noteq> []" "length m \<le> 0xFFFF" "length body < 2 ^ 32"
    using Cons.prems(3) by (auto simp: q wf_request_def)
  have arr: "arrived (server_sock c) = request_frame m seq body @ concat (map frame_of qs)"
    using Cons.prems(2) by (simp add: q)
  obtain a1 a2 where rd: "read_request_header c = (Ret (m, seq), a1)" "read_request_body a1 = (Ret body, a2)"
    "arrived (server_sock a2) = concat (map frame_of qs)" "sock_healthy (server_sock a2)"
    "sent (server_sock a2) = sent (server_sock c)"
    using request_decodes [OF wf Cons.prems(1) arr] by blast
  obtain error rsp st1 out1 where an: "answer dispatch m body st = Some (Ret (error, rsp), st1)"
    "length error \<le> 0xFFFF" "serve_all dispatch qs st1 = Some (out1, st')"
    "out = response_frame seq error rsp @ out1"
    using Cons.prems(4) by (auto simp: q split: outcome.splits if_splits prod.splits option.splits)
  obtain a3 where w: "write_response seq error rsp a2 = Some (Ret (), a3)"
    "sent (server_sock a3) = sent (server_sock a2) @ response_frame seq error rsp"
    "arrived (server_sock a3) = arrived (server_sock a2)" "sock_healthy (server_sock a3)"
    using write_response_ok [OF an(2) rd(4)] by blast
  have "\<forall>q \<in> set qs. wf_request q" using Cons.prems(3) by simp
  moreover have "arrived (server_sock a3) = concat (map frame_of qs)" using w(3) rd(3) by simp
  ultimately obtain c' where c': "serve_loop dispatch a3 st1 = Some (Ret (), c', st')"
    "sent (server_sock c') = sent (server_sock a3) @ out1"
    using Cons.IH [OF w(4) _ _ an(3)] by blast
  have "serve_loop dispatch c st = serve_loop dispatch a3 st1"
    by (subst serve_loop.simps) (simp add: rd(1,2) an(1) w(1))
  then show ?case using c' w(2) rd(5) an(4) by simp
qed

lemma connection_served_lemma:
  assumes "sock_healthy sk" "arrived sk = kConnectReq @ concat (map frame_of qs)"
    and "\<forall>q \<in> set qs. wf_request q" "serve_all dispatch qs st = Some (out, st')"
  shows "\<exists>c'. serve_rpc_connection dispatch sk st = Some (Ret (), c', st') \<and>
    sent (server_sock c') = sent sk @ kConnectOk @ out"
proof -
  obtain a where a: "consume_http_connect_request sk = (Ret (), a)" "arrived a = concat (map frame_of qs)"
    "sent a = sent sk" "sock_healthy a"
    using consume_ok [OF assms(1,2)] by blast
  obtain b where b: "send_http_connect_ok a = Some (Ret (), b)" "sent b = sent a @ kConnectOk"
    "arrived b = arrived a" "sock_healthy b"
    using wire_write_all_ok [OF a(4), of kConnectOk] a(4)
    by (auto simp: send_http_connect_ok_def sock_healthy_def)
  have "serve_rpc_connection dispatch sk st = serve_loop dispatch (WireServerCodec b) st"
    by (simp add: serve_rpc_connection_def a(1) b(1))
  then show ?thesis
    using serve_loop_all [of "WireServerCodec b" qs dispatch st out st'] assms(3,4) a b by simp
qed

text \<open>
  C21. A connection is served to its end: after the handshake every request frame the client sent is
  dispatched once, in order, the answers are sent in that order under the sequence numbers of their
  requests, an unknown method or an exception of the handler is answered with its error text, and the
  connection ends when the client closes it.
\<close>

theorem connection_served:
  assumes "sock_healthy sk" "arrived sk = kConnectReq @ concat (map frame_of qs)"
    and "\<forall>q \<in> set qs. wf_request q" "serve_all dispatch qs st = Some (out, st')"
  shows "\<exists>c'. serve_rpc_connection dispatch sk st = Some (Ret (), c', st') \<and>
    sent (server_sock c') = sent sk @ kConnectOk @ out"
  by (rule connection_served_lemma [OF assms])

section \<open>A call and its answer\<close>

lemma rpc_invoke_result:
  assumes "length method \<le> 0xFFFF" "length error \<le> 0xFFFF" "length rsp < 2 ^ 32"
    and "sock_healthy (client_sock (codec h))"
    and "arrived (client_sock (codec h)) = response_frame (next_seq h) error rsp @ rest"
    and "error \<noteq> [] \<longrightarrow> rsp = []"
  shows "\<exists>h'. rpc_invoke method body pre h =
      Some (if error \<noteq> [] then Exc (pre @ bytes_str error) else Ret rsp, h') \<and>
    next_seq h' = next_seq h + 1 \<and> arrived (client_sock (codec h')) = rest \<and>
    sent (client_sock (codec h')) =
      sent (client_sock (codec h)) @ request_frame (str_bytes method) (next_seq h) body \<and>
    pending_table (codec h') = (pending_table (codec h))(next_seq h := None)"
proof -
  let ?m = "str_bytes method" and ?seq = "next_seq h"
  have ml: "length ?m \<le> 0xFFFF" using assms(1) by simp
  obtain a where a: "write_request ?m ?seq body (codec h) = Some (Ret (), a)"
    "sent (client_sock a) = sent (client_sock (codec h)) @ request_frame ?m ?seq body"
    "arrived (client_sock a) = arrived (client_sock (codec h))" "sock_healthy (client_sock a)"
    "pending_table a = (pending_table (codec h))(?seq \<mapsto> ?m)"
    using write_request_ok [OF ml assms(4)] by blast
  have arr: "arrived (client_sock a) = response_frame ?seq error rsp @ rest" using a(3) assms(5) by simp
  have pend: "pending_table a ?seq = Some ?m" using a(5) by simp
  obtain b c where bc: "read_response_header a = (Ret (?seq, ?m, error), b)"
    "read_response_body b = (Ret rsp, c)" "arrived (client_sock b) = rsp @ rest"
    "arrived (client_sock c) = rest" "sent (client_sock b) = sent (client_sock a)"
    "sent (client_sock c) = sent (client_sock a)"
    "pending_table b = (pending_table a)(?seq := None)" "pending_table c = (pending_table a)(?seq := None)"
    using response_decodes [OF assms(2,3) a(4) arr pend] by blast
  show ?thesis
    using assms(6) bc a(2,5)
    by (cases "error = []") (simp_all add: rpc_invoke_def Let_def a(1) fun_upd_def cong: if_cong)
qed

text \<open>
  A remote call is a call of the dispatcher: when a request of \<open>rpc_invoke\<close> reaches a server over
  a working connection and the server's bytes come back, the caller gets the body the dispatcher
  computed, or an exception with the error text the dispatcher raised, and the server's state is the
  one the dispatcher left.
\<close>

theorem rpc_exchange:
  assumes "method \<noteq> []" "length method \<le> 0xFFFF" "length body < 2 ^ 32"
    and an: "answer dispatch (str_bytes method) body st = Some (Ret (error, rsp), st')"
    and "length error \<le> 0xFFFF" "length rsp < 2 ^ 32" "error \<noteq> [] \<longrightarrow> rsp = []"
    and "sock_healthy sk" "sent sk = []"
    and "arrived sk = kConnectReq @ request_frame (str_bytes method) (next_seq h) body"
    and "sock_healthy (client_sock (codec h))"
    and "arrived (client_sock (codec h)) = response_frame (next_seq h) error rsp @ rest"
  shows "\<exists>s' h'. serve_rpc_connection dispatch sk st = Some (Ret (), s', st') \<and>
    sent (server_sock s') = kConnectOk @ response_frame (next_seq h) error rsp \<and>
    rpc_invoke method body pre h =
      Some (if error \<noteq> [] then Exc (pre @ bytes_str error) else Ret rsp, h') \<and>
    sent (client_sock (codec h')) =
      sent (client_sock (codec h)) @ request_frame (str_bytes method) (next_seq h) body \<and>
    arrived (client_sock (codec h')) = rest \<and> next_seq h' = next_seq h + 1"
proof -
  let ?q = "(str_bytes method, next_seq h, body)"
  have wf: "\<forall>q \<in> set [?q]. wf_request q"
    using assms(1-3) by (simp add: wf_request_def str_bytes_def)
  have all: "serve_all dispatch [?q] st = Some (response_frame (next_seq h) error rsp, st')"
    using assms(5) by (simp add: an)
  have arr: "arrived sk = kConnectReq @ concat (map frame_of [?q])" using assms(10) by simp
  obtain s' where s': "serve_rpc_connection dispatch sk st = Some (Ret (), s', st')"
    "sent (server_sock s') = kConnectOk @ response_frame (next_seq h) error rsp"
    using connection_served_lemma [OF assms(8) arr wf all] assms(9) by auto
  then show ?thesis
    using rpc_invoke_result [OF assms(2,5,6,11,12,7), of body pre] by blast
qed

definition sample_dispatch :: "nat dispatcher" where
  "sample_dispatch m body n =
     (if m = ''Echo'' then Some (Ret (True, body), n + 1)
      else if m = ''Fail'' then Some (Exc ''boom'', n) else Some (Ret (False, []), n))"

lemma sample_answer:
  "answer sample_dispatch (str_bytes ''Echo'') [1, 2] n = Some (Ret ([], [1, 2]), n + 1)"
  "answer sample_dispatch (str_bytes ''Fail'') [] n = Some (Ret (str_bytes ''boom'', []), n)"
  by (simp_all add: answer_def sample_dispatch_def)

theorem connection_served_witness:
  "\<exists>c'. serve_rpc_connection sample_dispatch
      (sample_sock (kConnectReq @ request_frame (str_bytes ''Echo'') 1 [1, 2] @
         request_frame (str_bytes ''Fail'') 2 [])) 5 = Some (Ret (), c', 6) \<and>
    sent (server_sock c') = kConnectOk @ response_frame 1 [] [1, 2] @ response_frame 2 (str_bytes ''boom'') []"
  using connection_served [of "sample_sock (kConnectReq @ request_frame (str_bytes ''Echo'') 1 [1, 2] @
         request_frame (str_bytes ''Fail'') 2 [])"
      "[(str_bytes ''Echo'', 1, [1, 2]), (str_bytes ''Fail'', 2, [])]" sample_dispatch 5]
  by (simp add: sample_answer wf_request_def) (simp add: str_bytes_def)

theorem rpc_exchange_witness:
  "\<exists>s' h'. serve_rpc_connection sample_dispatch
      (sample_sock (kConnectReq @ request_frame (str_bytes ''Echo'') 1 [1, 2])) 5 = Some (Ret (), s', 6) \<and>
    sent (server_sock s') = kConnectOk @ response_frame 1 [] [1, 2] \<and>
    rpc_invoke ''Echo'' [1, 2] ''remote error: ''
        (RpcClientHandle (sample_sock (response_frame 1 [] [1, 2]))) = Some (Ret [1, 2], h')"
  using rpc_exchange [of "''Echo''" "[1, 2]" sample_dispatch 5 "[]" "[1, 2]" 6
      "sample_sock (kConnectReq @ request_frame (str_bytes ''Echo'') 1 [1, 2])"
      "RpcClientHandle (sample_sock (response_frame 1 [] [1, 2]))" "[]" "''remote error: ''"]
  by (auto simp: sample_answer RpcClientHandle_def)

section \<open>A call across the wire\<close>

text \<open>
  One call of a fresh connection, both ends put together: the bytes the client sends are what the
  server reads, and the bytes the server sends after the handshake are what the client reads. \<open>lim\<close>
  bounds what each system call moves.
\<close>

definition wire_call ::
  "'st dispatcher \<Rightarrow> (nat \<Rightarrow> int) \<Rightarrow> string \<Rightarrow> bytes \<Rightarrow> 'st \<Rightarrow> (bytes outcome \<times> 'st) option" where
  "wire_call dispatch lim method body st =
     (case serve_rpc_connection dispatch
             \<lparr>sent = [], arrived = kConnectReq @ request_frame (str_bytes method) 1 body,
              sock_ops = 0, sock_limit = lim\<rparr> st of
        Some (Ret _, c, st) \<Rightarrow>
          map_option (\<lambda>(r, h). (r, st))
            (rpc_invoke method body ''remote error: ''
               (RpcClientHandle \<lparr>sent = [], arrived = drop (length kConnectOk) (sent (server_sock c)),
                  sock_ops = 0, sock_limit = lim\<rparr>))
      | _ \<Rightarrow> None)"

lemma wire_call_ok:
  assumes "method \<noteq> []" "length method \<le> 0xFFFF" "length body < 2 ^ 32" "\<forall>n. 0 < lim n"
    and "answer dispatch (str_bytes method) body st = Some (Ret (error, rsp), st')"
    and "length error \<le> 0xFFFF" "length rsp < 2 ^ 32" "error \<noteq> [] \<longrightarrow> rsp = []"
  shows "wire_call dispatch lim method body st =
    Some (if error \<noteq> [] then Exc (''remote error: '' @ bytes_str error) else Ret rsp, st')"
proof -
  let ?sk = "\<lparr>sent = [], arrived = kConnectReq @ request_frame (str_bytes method) 1 body,
      sock_ops = 0, sock_limit = lim\<rparr>"
  let ?q = "(str_bytes method, 1, body)"
  have healthy: "sock_healthy ?sk" using assms(4) by (simp add: sock_healthy_def)
  have "\<forall>q \<in> set [?q]. wf_request q"
    using assms(1-3) by (simp add: wf_request_def str_bytes_def)
  moreover have "serve_all dispatch [?q] st = Some (response_frame 1 error rsp, st')"
    using assms(6) by (simp add: assms(5))
  ultimately obtain c where c: "serve_rpc_connection dispatch ?sk st = Some (Ret (), c, st')"
    "sent (server_sock c) = kConnectOk @ response_frame 1 error rsp"
    using connection_served_lemma [OF healthy, of "[?q]" dispatch st] by auto
  let ?h = "RpcClientHandle \<lparr>sent = [], arrived = response_frame 1 error rsp, sock_ops = 0, sock_limit = lim\<rparr>"
  have "sock_healthy (client_sock (codec ?h))" "next_seq ?h = 1"
    "arrived (client_sock (codec ?h)) = response_frame (next_seq ?h) error rsp @ []"
    using assms(4) by (simp_all add: RpcClientHandle_def sock_healthy_def)
  from rpc_invoke_result [OF assms(2,6,7) this(1,3) assms(8), of body "''remote error: ''"]
  show ?thesis using c by (auto simp: wire_call_def)
qed

end
