(* ===== verification/Storage.thy ===== *)
theory Storage
  imports Device
begin

text \<open>
  The storage node, \<open>storage/raft_blockcopy_server.{h,cpp}\<close>: a pool of aligned buffers, single and
  batched block copies between devices, and the accumulated times.

  A device is a function from byte addresses to bytes, found under its file descriptor. The worker
  threads of a batch are explicit: the entries a worker still has to copy, what its buffer holds
  between its \<open>pread\<close> and its \<open>pwrite\<close>, and its local sums. A schedule is the order in which the
  workers make their system calls, with the result and the duration of each call; the batch returns
  when every worker has finished, so a schedule that leaves one running gives \<open>None\<close>.
  Heap blocks are numbered; \<open>posix_memalign\<close> may fail by its script.
\<close>

section \<open>Heap and buffer pool\<close>

definition kAlign :: u64 where "kAlign = kPageSize"

record heap =
  live :: "nat \<rightharpoonup> u64"
  next_block :: nat
  memalign_ok :: "nat \<Rightarrow> bool"

definition posix_memalign :: "u64 \<Rightarrow> heap \<Rightarrow> nat option \<times> heap" where
  "posix_memalign n h =
     (let b = next_block h; h = h\<lparr>next_block := Suc b\<rparr> in
      if memalign_ok h b then (Some b, h\<lparr>live := (live h)(b \<mapsto> n)\<rparr>) else (None, h))"

definition free_block :: "nat \<Rightarrow> heap \<Rightarrow> heap" where
  "free_block b h = h\<lparr>live := (live h)(b := None)\<rparr>"

record buf_pool =
  pool_heap :: heap
  free_list :: "(nat \<times> u64) list"

text \<open>\<open>None\<close> is the pair of a null pointer and 0.\<close>

definition pool_acquire :: "u64 \<Rightarrow> buf_pool \<Rightarrow> (nat \<times> u64) option \<times> buf_pool" where
  "pool_acquire n p =
     (let (taken, p) = (if free_list p \<noteq> []
            then (Some (last (free_list p)), p\<lparr>free_list := butlast (free_list p)\<rparr>)
            else (None, p));
          fresh = (\<lambda>p. let ncap = align_up n kAlign in
            case posix_memalign ncap (pool_heap p) of
              (None, h) \<Rightarrow> (None, p\<lparr>pool_heap := h\<rparr>)
            | (Some b, h) \<Rightarrow> (Some (b, ncap), p\<lparr>pool_heap := h\<rparr>))
      in case taken of
           Some (b, cap) \<Rightarrow>
             if cap \<ge> n then (Some (b, cap), p)
             else fresh (p\<lparr>pool_heap := free_block b (pool_heap p)\<rparr>)
         | None \<Rightarrow> fresh p)"

definition pool_release :: "(nat \<times> u64) option \<Rightarrow> buf_pool \<Rightarrow> buf_pool" where
  "pool_release b p = (case b of None \<Rightarrow> p | Some x \<Rightarrow> p\<lparr>free_list := free_list p @ [x]\<rparr>)"

section \<open>Messages and state\<close>

record WritePBAReq =
  pba_src :: u64
  pba_dst :: u64
  nbytes :: u64
  src_dev :: int
  dst_dev :: int

record WritePBARsp =
  rsp_error :: string
  copy_nanos :: int

record WritePBABatchReq =
  pba_srcs :: "u64 list"
  pba_dsts :: "u64 list"
  batch_nbytes :: "u64 list"
  block_size :: u64
  batch_src_dev :: int
  batch_dst_dev :: int

record WritePBABatchRsp =
  batch_error :: string
  batch_copy_nanos :: int
  read_nanos :: int
  write_nanos :: int

definition WritePBABatchRsp_init :: WritePBABatchRsp where
  "WritePBABatchRsp_init =
     \<lparr>batch_error = '''', batch_copy_nanos = 0, read_nanos = 0, write_nanos = 0\<rparr>"

record GetTimeRsp =
  time_read :: u64
  time_write :: u64
  time_other :: u64

type_synonym devices = "int \<Rightarrow> u64 \<Rightarrow> u8"

record blockcopy_server =
  fds :: "int list"
  copy_workers :: int
  pool :: buf_pool
  read_ns :: u64
  write_ns :: u64
  other_ns :: u64

definition BlockCopyServer :: "int list \<Rightarrow> int \<Rightarrow> heap \<Rightarrow> blockcopy_server" where
  "BlockCopyServer f w h =
     \<lparr>fds = f, copy_workers = (if w < 1 then 1 else w),
      pool = \<lparr>pool_heap = h, free_list = []\<rparr>, read_ns = 0, write_ns = 0, other_ns = 0\<rparr>"

definition get_fd :: "int \<Rightarrow> blockcopy_server \<Rightarrow> int option" where
  "get_fd dev_idx s =
     (if dev_idx < 0 \<or> nat dev_idx \<ge> length (fds s) then None else Some (fds s ! nat dev_idx))"

section \<open>One copy\<close>

text \<open>
  A call's result and duration. A negative offset is rejected by the kernel whatever the script says.
\<close>

type_synonym io_event = "io_result \<times> u64"

definition moved :: "io_result \<Rightarrow> u64 \<Rightarrow> int \<Rightarrow> int" where
  "moved r off n = (if sint off < 0 \<or> n < 0 then -1
     else case transferred r (nat n) of None \<Rightarrow> -1 | Some k \<Rightarrow> int k)"

definition copy_read :: "io_result \<Rightarrow> int \<Rightarrow> u64 \<Rightarrow> int \<Rightarrow> devices \<Rightarrow> bytes option" where
  "copy_read r fd off n d = (if moved r off n = n then Some (dev_load off (nat n) (d fd)) else None)"

definition copy_write :: "io_result \<Rightarrow> int \<Rightarrow> u64 \<Rightarrow> bytes \<Rightarrow> devices \<Rightarrow> bool \<times> devices" where
  "copy_write r fd off buf d =
     (let w = moved r off (int (length buf)) in
      (w = int (length buf), d(fd := dev_store off (take (nat w) buf) (d fd))))"

text \<open>\<open>write_pba_copy_buf\<close> outside a batch: the read, then the write; the two durations on success.\<close>

definition write_pba_copy_buf ::
  "io_event \<Rightarrow> io_event \<Rightarrow> int \<Rightarrow> int \<Rightarrow> u64 \<Rightarrow> u64 \<Rightarrow> int \<Rightarrow> devices \<Rightarrow> (u64 \<times> u64) option \<times> devices" where
  "write_pba_copy_buf rd wr src_fd dst_fd psrc pdst n d =
     (case copy_read (fst rd) src_fd psrc n d of
        None \<Rightarrow> (None, d)
      | Some buf \<Rightarrow>
          let (ok, d) = copy_write (fst wr) dst_fd pdst buf d
          in (if ok then Some (snd rd, snd wr) else None, d))"

definition to_int32 :: "u64 \<Rightarrow> int" where
  "to_int32 n = sint (ucast n :: 32 word)"

text \<open>\<open>write_pba_copy\<close> allocates a buffer for the one copy.\<close>

definition write_pba_copy ::
  "io_event \<Rightarrow> io_event \<Rightarrow> int \<Rightarrow> int \<Rightarrow> u64 \<Rightarrow> u64 \<Rightarrow> int \<Rightarrow> heap \<Rightarrow> devices \<Rightarrow>
   (u64 \<times> u64) option \<times> heap \<times> devices" where
  "write_pba_copy rd wr src_fd dst_fd psrc pdst n h d =
     (case posix_memalign (word_of_int n) h of
        (None, h) \<Rightarrow> (None, h, d)
      | (Some b, h) \<Rightarrow>
          let (r, d) = write_pba_copy_buf rd wr src_fd dst_fd psrc pdst n d
          in (r, free_block b h, d))"

definition handle_write_pba ::
  "io_event \<Rightarrow> io_event \<Rightarrow> WritePBAReq \<Rightarrow> blockcopy_server \<Rightarrow> devices \<Rightarrow>
   WritePBARsp \<times> blockcopy_server \<times> devices" where
  "handle_write_pba rd wr req s d =
     (case (get_fd (src_dev req) s, get_fd (dst_dev req) s) of
        (Some src_fd, Some dst_fd) \<Rightarrow>
          let (r, h, d) = write_pba_copy rd wr src_fd dst_fd (pba_src req) (pba_dst req)
                            (to_int32 (nbytes req)) (pool_heap (pool s)) d;
              s = s\<lparr>pool := (pool s)\<lparr>pool_heap := h\<rparr>\<rparr>
          in (case r of
                None \<Rightarrow> (\<lparr>rsp_error = ''write_pba_copy failed (src_dev='' @ to_string (src_dev req) @ '' dst_dev='' @
                       to_string (dst_dev req) @ '' nbytes='' @ to_string (uint (nbytes req)) @ '')'',
                     copy_nanos = 0\<rparr>, s, d)
              | Some (rn, wn) \<Rightarrow>
                  (\<lparr>rsp_error = '''', copy_nanos = sint (rn + wn)\<rparr>,
                   s\<lparr>read_ns := read_ns s + rn, write_ns := write_ns s + wn\<rparr>, d))
      | _ \<Rightarrow> (\<lparr>rsp_error = ''device index out of range'', copy_nanos = 0\<rparr>, s, d))"

section \<open>A batch\<close>

text \<open>The entries of worker \<open>wid\<close> out of \<open>w\<close>: \<open>wid\<close>, \<open>wid + w\<close>, and so on below \<open>count\<close>.\<close>

function worker_indices :: "nat \<Rightarrow> nat \<Rightarrow> nat \<Rightarrow> nat list" where
  "worker_indices count w i = (if i < count \<and> 0 < w then i # worker_indices count w (i + w) else [])"
  by auto

termination worker_indices
  by (relation "measure (\<lambda>(c, w, i). c - i)") auto

declare worker_indices.simps [simp del]

record copy_worker =
  todo :: "nat list"
  buffer :: "bytes option"
  entry_read :: u64
  local_read :: u64
  local_write :: u64
  finished :: bool

record copy_batch =
  cb_devs :: devices
  cb_workers :: "copy_worker list"
  has_error :: bool
  first_error :: string
  total_read_ns :: u64
  total_write_ns :: u64

record copy_job =
  job_src_fd :: int
  job_dst_fd :: int
  job_srcs :: "u64 list"
  job_dsts :: "u64 list"
  job_sizes :: "u64 list"

definition new_worker :: "nat \<Rightarrow> nat \<Rightarrow> nat \<Rightarrow> copy_worker" where
  "new_worker count w wid =
     \<lparr>todo = worker_indices count w wid, buffer = None, entry_read = 0, local_read = 0,
      local_write = 0, finished = False\<rparr>"

definition start_batch :: "nat \<Rightarrow> nat \<Rightarrow> devices \<Rightarrow> copy_batch" where
  "start_batch count w d =
     \<lparr>cb_devs = d, cb_workers = map (new_worker count w) [0..<w], has_error = False,
      first_error = '''', total_read_ns = 0, total_write_ns = 0\<rparr>"

definition put_worker :: "nat \<Rightarrow> copy_worker \<Rightarrow> copy_batch \<Rightarrow> copy_batch" where
  "put_worker wid k b = b\<lparr>cb_workers := (cb_workers b)[wid := k]\<rparr>"

text \<open>A failed copy: the first one is recorded, and the worker returns without adding its sums.\<close>

definition worker_fails :: "nat \<Rightarrow> nat \<Rightarrow> copy_worker \<Rightarrow> copy_batch \<Rightarrow> copy_batch" where
  "worker_fails wid i k b =
     (let b = (if has_error b then b
               else b\<lparr>has_error := True,
                      first_error := ''worker '' @ to_string (int wid) @ '' entry '' @
                        to_string (int i) @ '' failed''\<rparr>)
      in put_worker wid (k\<lparr>finished := True\<rparr>) b)"

text \<open>The next system call of a worker, or the end of its loop.\<close>

definition worker_step :: "copy_job \<Rightarrow> nat \<Rightarrow> io_event \<Rightarrow> copy_batch \<Rightarrow> copy_batch" where
  "worker_step j wid ev b =
     (if wid \<ge> length (cb_workers b) \<or> finished (cb_workers b ! wid) then b
      else
        let k = cb_workers b ! wid in
        case todo k of
          [] \<Rightarrow>
            (put_worker wid (k\<lparr>finished := True\<rparr>) b)
              \<lparr>total_read_ns := total_read_ns b + local_read k,
               total_write_ns := total_write_ns b + local_write k\<rparr>
        | i # rest \<Rightarrow>
            (case buffer k of
               None \<Rightarrow>
                 (case copy_read (fst ev) (job_src_fd j) (job_srcs j ! i) (to_int32 (job_sizes j ! i))
                         (cb_devs b) of
                    None \<Rightarrow> worker_fails wid i k b
                  | Some buf \<Rightarrow> put_worker wid (k\<lparr>buffer := Some buf, entry_read := snd ev\<rparr>) b)
             | Some buf \<Rightarrow>
                 let (ok, d) = copy_write (fst ev) (job_dst_fd j) (job_dsts j ! i) buf (cb_devs b);
                     b = b\<lparr>cb_devs := d\<rparr>
                 in if ok then
                      put_worker wid
                        (k\<lparr>todo := rest, buffer := None, local_read := local_read k + entry_read k,
                           local_write := local_write k + snd ev\<rparr>) b
                    else worker_fails wid i k b))"

definition run_workers :: "copy_job \<Rightarrow> (nat \<times> io_event) list \<Rightarrow> copy_batch \<Rightarrow> copy_batch" where
  "run_workers j sched b = fold (\<lambda>(wid, ev). worker_step j wid ev) sched b"

text \<open>The buffers of the workers: none is kept when one of them cannot be had.\<close>

fun acquire_all :: "nat \<Rightarrow> u64 \<Rightarrow> buf_pool \<Rightarrow> (nat \<times> u64) list \<times> bool \<times> buf_pool" where
  "acquire_all 0 n p = ([], True, p)"
| "acquire_all (Suc w) n p =
     (case pool_acquire n p of
        (None, p) \<Rightarrow> ([], False, p)
      | (Some b, p) \<Rightarrow> (case acquire_all w n p of (bs, ok, p) \<Rightarrow> (b # bs, ok, p)))"

definition release_all :: "(nat \<times> u64) list \<Rightarrow> buf_pool \<Rightarrow> buf_pool" where
  "release_all bs p = fold (\<lambda>b p. pool_release (Some b) p) bs p"

definition batch_failed ::
  "string \<Rightarrow> blockcopy_server \<Rightarrow> devices \<Rightarrow> WritePBABatchRsp \<times> blockcopy_server \<times> devices" where
  "batch_failed e s d = (WritePBABatchRsp_init\<lparr>batch_error := e\<rparr>, s, d)"

text \<open>The checks of a request: the descriptors, the sizes and the largest size.\<close>

definition batch_sizes :: "WritePBABatchReq \<Rightarrow> string + u64 list" where
  "batch_sizes req =
     (let count = length (pba_srcs req) in
      if batch_nbytes req = [] then
        (if block_size req = 0 then Inl ''WritePBABatch: neither Nbytes nor BlockSize provided''
         else Inr (replicate count (block_size req)))
      else if length (batch_nbytes req) \<noteq> count then Inl (''Nbytes length '' @ to_string (int (length (batch_nbytes req))) @
             '' != PbaSrcs length '' @ to_string (int count))
      else Inr (batch_nbytes req))"

definition check_batch :: "WritePBABatchReq \<Rightarrow> blockcopy_server \<Rightarrow> string + copy_job \<times> u64" where
  "check_batch req s =
     (if length (pba_srcs req) \<noteq> length (pba_dsts req) then Inl ''PbaSrcs and PbaDsts length mismatch''
      else
        case (get_fd (batch_src_dev req) s, get_fd (batch_dst_dev req) s) of
          (Some src_fd, Some dst_fd) \<Rightarrow>
            (case batch_sizes req of
               Inl e \<Rightarrow> Inl e
             | Inr sizes \<Rightarrow>
                 let max_size = fold max sizes 0 in
                 if max_size = 0 then Inl ''WritePBABatch: all entries have zero size''
                 else if max_size > 0x7FFFFFFF then Inl (''WritePBABatch: chunk size '' @ to_string (uint max_size) @
                             '' exceeds INT_MAX (lower MaxPBACopyChunkBytes)'')
                 else Inr (\<lparr>job_src_fd = src_fd, job_dst_fd = dst_fd, job_srcs = pba_srcs req,
                            job_dsts = pba_dsts req, job_sizes = sizes\<rparr>, max_size))
        | _ \<Rightarrow> Inl ''device index out of range'')"

definition batch_workers :: "nat \<Rightarrow> blockcopy_server \<Rightarrow> nat" where
  "batch_workers count s =
     (let w = min (copy_workers s) (int count) in nat (if w < 1 then 1 else w))"

definition handle_write_pba_batch ::
  "(nat \<times> io_event) list \<Rightarrow> WritePBABatchReq \<Rightarrow> blockcopy_server \<Rightarrow> devices \<Rightarrow>
   (WritePBABatchRsp \<times> blockcopy_server \<times> devices) option" where
  "handle_write_pba_batch sched req s d =
     (let count = length (pba_srcs req) in
      if count = 0 then Some (WritePBABatchRsp_init, s, d)
      else case check_batch req s of
        Inl e \<Rightarrow> Some (batch_failed e s d)
      | Inr (j, max_size) \<Rightarrow>
          let w = batch_workers count s in
          (case acquire_all w max_size (pool s) of (bufs, ok, p) \<Rightarrow>
            let s = s\<lparr>pool := release_all bufs p\<rparr> in
            if \<not> ok then Some (batch_failed ''posix_memalign for worker buffer failed'' s d)
            else
              let b = run_workers j sched (start_batch count w d) in
              if \<not> list_all finished (cb_workers b) then None
              else if has_error b then Some (batch_failed (first_error b) s (cb_devs b))
              else Some
                (\<lparr>batch_error = '''', batch_copy_nanos = sint (total_read_ns b + total_write_ns b),
                  read_nanos = sint (total_read_ns b), write_nanos = sint (total_write_ns b)\<rparr>,
                 s\<lparr>read_ns := read_ns s + total_read_ns b, write_ns := write_ns s + total_write_ns b\<rparr>,
                 cb_devs b)))"

definition handle_get_time :: "blockcopy_server \<Rightarrow> GetTimeRsp" where
  "handle_get_time s = \<lparr>time_read = read_ns s, time_write = write_ns s, time_other = other_ns s\<rparr>"

definition handle_reset_time :: "blockcopy_server \<Rightarrow> blockcopy_server" where
  "handle_reset_time s = s\<lparr>read_ns := 0, write_ns := 0, other_ns := 0\<rparr>"

section \<open>Buffers\<close>

text \<open>Every pooled buffer is a live block of the recorded size, and no two entries share a block.\<close>

definition pool_inv :: "buf_pool \<Rightarrow> bool" where
  "pool_inv p \<longleftrightarrow> distinct (map fst (free_list p)) \<and>
     (\<forall>(b, cap) \<in> set (free_list p). live (pool_heap p) b = Some cap) \<and>
     (\<forall>b. live (pool_heap p) b \<noteq> None \<longrightarrow> b < next_block (pool_heap p))"

lemma align_up_ge:
  assumes "unat n \<le> 18446744073709547520"
  shows "n \<le> align_up n kAlign"
proof -
  have a: "unat kAlign = 4096" by (simp add: kAlign_def kPageSize_def)
  have "unat (align_up n kAlign) = (unat n + 4096 - 1) div 4096 * 4096"
    using unat_align_up [of kAlign n] assms by (simp add: a)
  then show ?thesis using div_mult_ge [of 4096 "unat n"] by (simp add: word_le_nat_alt)
qed

lemma posix_memalign_inv:
  assumes "pool_inv p" "posix_memalign n (pool_heap p) = (r, h)"
  shows "pool_inv (p\<lparr>pool_heap := h\<rparr>) \<and>
    (\<forall>b. r = Some b \<longrightarrow> live h b = Some n \<and> live (pool_heap p) b = None \<and> b \<notin> fst ` set (free_list p)) \<and>
    (\<forall>b. live (pool_heap p) b \<noteq> None \<longrightarrow> live h b = live (pool_heap p) b)"
proof -
  let ?b = "next_block (pool_heap p)"
  have old: "live (pool_heap p) ?b = None" using assms(1) by (force simp: pool_inv_def)
  have fresh: "?b \<notin> fst ` set (free_list p)"
    using assms(1) old by (fastforce simp: pool_inv_def)
  have keep: "(b, cap) \<in> set (free_list p) \<Longrightarrow> b \<noteq> ?b" for b cap
    using fresh by force
  have "pool_inv (p\<lparr>pool_heap := h\<rparr>)"
    using assms keep
    by (auto simp: pool_inv_def posix_memalign_def Let_def less_Suc_eq split: if_splits)
  then show ?thesis
    using assms(2) old fresh by (auto simp: posix_memalign_def Let_def split: if_splits)
qed

lemma pop_inv:
  assumes "pool_inv p" "free_list p \<noteq> []" "last (free_list p) = (b, cap)"
  shows "pool_inv (p\<lparr>free_list := butlast (free_list p)\<rparr>) \<and> live (pool_heap p) b = Some cap \<and>
    b \<notin> fst ` set (butlast (free_list p))"
proof -
  obtain xs where xs: "free_list p = xs @ [(b, cap)]"
    using assms(2,3) append_butlast_last_id by metis
  then show ?thesis using assms(1) by (auto simp: pool_inv_def)
qed

lemma free_inv:
  assumes "pool_inv p" "b \<notin> fst ` set (free_list p)"
  shows "pool_inv (p\<lparr>pool_heap := free_block b (pool_heap p)\<rparr>)"
  using assms by (force simp: pool_inv_def free_block_def)

text \<open>
  A buffer from the pool is safe to use: it is a live block at least as large as asked for, it is
  not in the pool any more, no block that another worker holds is given out or freed, and the pool's
  own buffers stay live.
\<close>

theorem acquire_live:
  assumes "pool_inv p" "unat n \<le> 18446744073709547520" "pool_acquire n p = (Some (b, cap), p')"
  shows "n \<le> cap \<and> live (pool_heap p') b = Some cap \<and> b \<notin> fst ` set (free_list p') \<and> pool_inv p' \<and>
    (\<forall>x. live (pool_heap p) x \<noteq> None \<and> x \<notin> fst ` set (free_list p) \<longrightarrow>
       x \<noteq> b \<and> live (pool_heap p') x = live (pool_heap p) x)"
proof -
  have ge: "n \<le> align_up n kAlign" by (rule align_up_ge [OF assms(2)])
  show ?thesis
  proof (cases "free_list p = []")
    case True
    then show ?thesis
      using assms(1,3) ge posix_memalign_inv [OF assms(1), of "align_up n kAlign"]
      by (auto simp: pool_acquire_def Let_def split: prod.splits option.splits)
  next
    case False
    obtain b1 cap1 where l: "last (free_list p) = (b1, cap1)" by (cases "last (free_list p)")
    have held: "b1 \<in> fst ` set (free_list p)" using False l by (metis fst_conv imageI last_in_set)
    note pop = pop_inv [OF assms(1) False l]
    let ?p1 = "p\<lparr>free_list := butlast (free_list p)\<rparr>"
    let ?p2 = "?p1\<lparr>pool_heap := free_block b1 (pool_heap p)\<rparr>"
    show ?thesis
    proof (cases "n \<le> cap1")
      case True
      then have "b = b1" "cap = cap1" "p' = ?p1"
        using assms(3) False l by (auto simp: pool_acquire_def Let_def)
      then show ?thesis using True pop held by auto
    next
      case small: False
      have inv: "pool_inv ?p2" using free_inv [of ?p1 b1] pop by simp
      obtain h where h: "posix_memalign (align_up n kAlign) (pool_heap ?p2) = (Some b, h)"
        "cap = align_up n kAlign" "p' = ?p2\<lparr>pool_heap := h\<rparr>"
        using assms(3) False l small
        by (auto simp: pool_acquire_def Let_def split: prod.splits option.splits)
      show ?thesis
        using posix_memalign_inv [OF inv h(1)] ge held h(2,3)
        by (auto simp: free_block_def split: if_splits)
    qed
  qed
qed

lemma release_inv:
  assumes "pool_inv p" "live (pool_heap p) b = Some cap" "b \<notin> fst ` set (free_list p)"
  shows "pool_inv (pool_release (Some (b, cap)) p)"
  using assms by (auto simp: pool_inv_def pool_release_def)

section \<open>Worker indices\<close>

lemma worker_indices_set:
  "0 < w \<Longrightarrow> set (worker_indices count w i) = {k. i \<le> k \<and> k < count \<and> k mod w = i mod w}"
proof (induction count w i rule: worker_indices.induct)
  case (1 count w i)
  show ?case
  proof (cases "i < count")
    case True
    have "k = i \<or> i + w \<le> k" if "i \<le> k" "k mod w = i mod w" for k
    proof -
      have "w dvd k - i" using that by (metis mod_eq_dvd_iff_nat)
      then show ?thesis using that(1) by (cases "k = i") (auto dest: dvd_imp_le)
    qed
    then have "{k. i \<le> k \<and> k < count \<and> k mod w = i mod w} =
        insert i {k. i + w \<le> k \<and> k < count \<and> k mod w = i mod w}"
      using True by auto
    then show ?thesis using 1 True by (subst worker_indices.simps) simp
  qed (use 1 in \<open>auto simp: worker_indices.simps\<close>)
qed

lemma worker_indices_distinct: "0 < w \<Longrightarrow> distinct (worker_indices count w i)"
proof (induction count w i rule: worker_indices.induct)
  case (1 count w i)
  have "i \<notin> set (worker_indices count w (i + w))"
    using 1(2) by (simp add: worker_indices_set)
  then show ?case using 1 by (subst worker_indices.simps) simp
qed

section \<open>Device bytes\<close>

definition addrs :: "u64 \<Rightarrow> nat \<Rightarrow> u64 set" where
  "addrs a n = (\<lambda>k. a + of_nat k) ` {..<n}"

lemma dev_store_snoc:
  "dev_store a (data @ [b]) m = (dev_store a data m)(a + of_nat (length data) := b)"
proof -
  have "fold (\<lambda>k m. m(a + of_nat k := (data @ [b]) ! k)) [0..<length data] m =
      fold (\<lambda>k m. m(a + of_nat k := data ! k)) [0..<length data] m"
    by (intro fold_cong) (auto simp: nth_append)
  then show ?thesis by (simp add: dev_store_def)
qed

lemma dev_store_other: "x \<notin> addrs a (length data) \<Longrightarrow> dev_store a data m x = m x"
proof (induction data rule: rev_induct)
  case Nil
  then show ?case by (simp add: dev_store_def)
next
  case (snoc b data)
  then show ?case by (auto simp: dev_store_snoc addrs_def lessThan_Suc)
qed

lemma dev_store_at:
  "k < length data \<Longrightarrow> length data \<le> 18446744073709551616 \<Longrightarrow> dev_store a data m (a + of_nat k) = data ! k"
proof (induction data rule: rev_induct)
  case (snoc b data)
  show ?case
  proof (cases "k = length data")
    case False
    then have k: "k < length data" "length data < 18446744073709551616" using snoc.prems by simp_all
    then have "unat (of_nat k :: u64) = k" "unat (of_nat (length data) :: u64) = length data"
      by (intro unat_u64_of_nat; linarith)+
    then have "(of_nat k :: u64) \<noteq> of_nat (length data)" using k(1) by force
    then show ?thesis using snoc False by (simp add: dev_store_snoc nth_append)
  qed (simp add: dev_store_snoc)
qed simp

lemma nth_dev_load [simp]: "k < n \<Longrightarrow> dev_load a n m ! k = m (a + of_nat k)" "length (dev_load a n m) = n"
  by (simp_all add: dev_load_def)

section \<open>A batch copies what it reports\<close>

definition entry_src :: "copy_job \<Rightarrow> nat \<Rightarrow> u64 set" where
  "entry_src j i = addrs (job_srcs j ! i) (unat (job_sizes j ! i))"

definition entry_dst :: "copy_job \<Rightarrow> nat \<Rightarrow> u64 set" where
  "entry_dst j i = addrs (job_dsts j ! i) (unat (job_sizes j ! i))"

text \<open>
  An entry that no other one interferes with: its destination meets no other destination and, on one
  device, its source meets no destination. The server does not check this.
\<close>

definition entry_apart :: "copy_job \<Rightarrow> nat \<Rightarrow> bool" where
  "entry_apart j i \<longleftrightarrow> (\<forall>i' < length (job_srcs j).
        (i \<noteq> i' \<longrightarrow> entry_dst j i \<inter> entry_dst j i' = {}) \<and>
        (job_src_fd j = job_dst_fd j \<longrightarrow> entry_src j i \<inter> entry_dst j i' = {}))"

definition job_disjoint :: "copy_job \<Rightarrow> bool" where
  "job_disjoint j \<longleftrightarrow> (\<forall>i < length (job_srcs j). entry_apart j i)"

definition small_sizes :: "copy_job \<Rightarrow> bool" where
  "small_sizes j \<longleftrightarrow> (\<forall>i < length (job_srcs j). job_sizes j ! i \<le> 0x7FFFFFFF)"

definition copied :: "copy_job \<Rightarrow> devices \<Rightarrow> devices \<Rightarrow> nat \<Rightarrow> bool" where
  "copied j d d' i \<longleftrightarrow> (\<forall>k < unat (job_sizes j ! i).
     d' (job_dst_fd j) (job_dsts j ! i + of_nat k) = d (job_src_fd j) (job_srcs j ! i + of_nat k))"

definition untouched :: "copy_job \<Rightarrow> devices \<Rightarrow> devices \<Rightarrow> bool" where
  "untouched j d d' \<longleftrightarrow> (\<forall>fd x. fd \<noteq> job_dst_fd j \<or>
     (\<forall>i < length (job_srcs j). x \<notin> entry_dst j i) \<longrightarrow> d' fd x = d fd x)"

definition worker_inv :: "copy_job \<Rightarrow> devices \<Rightarrow> nat \<Rightarrow> bool \<Rightarrow> nat \<Rightarrow> copy_worker \<Rightarrow> bool" where
  "worker_inv j d w err wid k \<longleftrightarrow>
     distinct (todo k) \<and> (\<forall>i \<in> set (todo k). i < length (job_srcs j) \<and> i mod w = wid) \<and>
     (\<forall>buf. buffer k = Some buf \<longrightarrow> todo k \<noteq> [] \<and> length buf = unat (job_sizes j ! hd (todo k)) \<and>
        (entry_apart j (hd (todo k)) \<longrightarrow>
          buf = dev_load (job_srcs j ! hd (todo k)) (unat (job_sizes j ! hd (todo k))) (d (job_src_fd j)))) \<and>
     (finished k \<and> \<not> err \<longrightarrow> todo k = [])"

definition batch_inv :: "copy_job \<Rightarrow> devices \<Rightarrow> nat \<Rightarrow> copy_batch \<Rightarrow> bool" where
  "batch_inv j d w b \<longleftrightarrow>
     length (cb_workers b) = w \<and>
     (\<forall>wid < w. worker_inv j d w (has_error b) wid (cb_workers b ! wid)) \<and>
     untouched j d (cb_devs b) \<and>
     (\<forall>i < length (job_srcs j). i \<notin> set (todo (cb_workers b ! (i mod w))) \<longrightarrow> entry_apart j i \<longrightarrow> copied j d (cb_devs b) i)"

lemma to_int32_small:
  assumes "n \<le> 0x7FFFFFFF"
  shows "to_int32 n = int (unat n)"
proof -
  have b: "uint n \<le> 0x7FFFFFFF" using assms by (simp add: word_le_def)
  have "uint (ucast n :: 32 word) = uint n"
    using b by (simp add: unsigned_ucast_eq take_bit_int_eq_self)
  then show ?thesis
    using b signed_take_bit_int_eq_self [of 31 "uint n"] uint_ge_0 [of n] by (simp add: to_int32_def sint_uint)
qed

text \<open>A read in a batch sees the original source bytes.\<close>

lemma source_unchanged:
  assumes "entry_apart j i" "untouched j d d'" "i < length (job_srcs j)"
  shows "dev_load (job_srcs j ! i) (unat (job_sizes j ! i)) (d' (job_src_fd j)) =
    dev_load (job_srcs j ! i) (unat (job_sizes j ! i)) (d (job_src_fd j))"
proof (rule nth_equalityI)
  fix k assume "k < length (dev_load (job_srcs j ! i) (unat (job_sizes j ! i)) (d' (job_src_fd j)))"
  then have k: "k < unat (job_sizes j ! i)" by simp
  have "job_srcs j ! i + of_nat k \<in> entry_src j i" using k by (auto simp: entry_src_def addrs_def)
  then have "job_src_fd j \<noteq> job_dst_fd j \<or>
      (\<forall>i' < length (job_srcs j). job_srcs j ! i + of_nat k \<notin> entry_dst j i')"
    using assms(1,3) by (auto simp: entry_apart_def)
  then have "d' (job_src_fd j) (job_srcs j ! i + of_nat k) = d (job_src_fd j) (job_srcs j ! i + of_nat k)"
    using assms(2) unfolding untouched_def by blast
  then show "dev_load (job_srcs j ! i) (unat (job_sizes j ! i)) (d' (job_src_fd j)) ! k =
      dev_load (job_srcs j ! i) (unat (job_sizes j ! i)) (d (job_src_fd j)) ! k"
    using k by simp
qed simp

text \<open>A write of one entry, complete or not, changes bytes of that entry's destination only.\<close>

lemma copy_write_effect:
  assumes "copy_write r (job_dst_fd j) (job_dsts j ! i) buf d = (ok, d')"
    and "length buf = unat (job_sizes j ! i)"
  shows "fd \<noteq> job_dst_fd j \<or> x \<notin> entry_dst j i \<Longrightarrow> d' fd x = d fd x"
    and "ok \<Longrightarrow> k < length buf \<Longrightarrow> d' (job_dst_fd j) (job_dsts j ! i + of_nat k) = buf ! k"
proof -
  let ?w = "moved r (job_dsts j ! i) (int (length buf))"
  have d': "d' = d(job_dst_fd j := dev_store (job_dsts j ! i) (take (nat ?w) buf) (d (job_dst_fd j)))"
    and ok: "ok = (?w = int (length buf))"
    using assms(1) by (auto simp: copy_write_def Let_def)
  show "d' fd x = d fd x" if out: "fd \<noteq> job_dst_fd j \<or> x \<notin> entry_dst j i"
  proof (cases "fd = job_dst_fd j")
    case True
    then have "x \<notin> addrs (job_dsts j ! i) (length (take (nat ?w) buf))"
      using out assms(2) by (auto simp: entry_dst_def addrs_def)
    from dev_store_other [OF this] show ?thesis using True by (simp add: d')
  qed (simp add: d')
  show "d' (job_dst_fd j) (job_dsts j ! i + of_nat k) = buf ! k" if "ok" "k < length buf"
    using that dev_store_at [of k buf "job_dsts j ! i"] assms(2) unat_u64_less [of "job_sizes j ! i"]
    by (simp add: d' ok)
qed

lemma batch_inv_update:
  assumes inv: "batch_inv j d w b" "wid < w"
    and "cb_workers b' = (cb_workers b)[wid := k']" "has_error b \<longrightarrow> has_error b'"
    and "worker_inv j d w (has_error b') wid k'" "untouched j d (cb_devs b')"
    and "\<And>i. i < length (job_srcs j) \<Longrightarrow>
      i \<notin> set (todo (if i mod w = wid then k' else cb_workers b ! (i mod w))) \<Longrightarrow> entry_apart j i \<Longrightarrow> copied j d (cb_devs b') i"
  shows "batch_inv j d w b'"
proof -
  have len: "length (cb_workers b) = w" using inv(1) by (simp add: batch_inv_def)
  have old: "worker_inv j d w (has_error b') v (cb_workers b ! v)" if "v < w" for v
    using inv(1) that assms(4) by (auto simp: batch_inv_def worker_inv_def)
  have "i mod w < w" for i using inv(2) by simp
  then show ?thesis
    using assms(2,3,5,6,7) old len by (auto simp: batch_inv_def nth_list_update)
qed

lemma copied_kept:
  assumes "copied j d d1 i'" "entry_apart j i'" "i < length (job_srcs j)" "i' < length (job_srcs j)" "i \<noteq> i'"
    and "\<And>fd x. fd \<noteq> job_dst_fd j \<or> x \<notin> entry_dst j i \<Longrightarrow> d2 fd x = d1 fd x"
  shows "copied j d d2 i'"
  unfolding copied_def
proof (intro allI impI)
  fix k assume k: "k < unat (job_sizes j ! i')"
  then have "job_dsts j ! i' + of_nat k \<in> entry_dst j i'" by (auto simp: entry_dst_def addrs_def)
  then have "job_dsts j ! i' + of_nat k \<notin> entry_dst j i"
    using assms(2-5) by (auto simp: entry_apart_def)
  then show "d2 (job_dst_fd j) (job_dsts j ! i' + of_nat k) = d (job_src_fd j) (job_srcs j ! i' + of_nat k)"
    using assms(1,6) k by (simp add: copied_def)
qed

lemma batch_invD:
  assumes "batch_inv j d w b"
  shows "length (cb_workers b) = w" "untouched j d (cb_devs b)"
    "wid < w \<Longrightarrow> worker_inv j d w (has_error b) wid (cb_workers b ! wid)"
    "i < length (job_srcs j) \<Longrightarrow> i \<notin> set (todo (cb_workers b ! (i mod w))) \<Longrightarrow> entry_apart j i \<Longrightarrow>
     copied j d (cb_devs b) i"
  using assms by (auto simp: batch_inv_def)

text \<open>A worker that gives up leaves the rest of its entries, and the error flag.\<close>

lemma worker_fails_inv:
  assumes "batch_inv j d w b" "wid < w" "todo (cb_workers b ! wid) \<noteq> []"
  shows "batch_inv j d w (worker_fails wid i (cb_workers b ! wid) b)"
proof (rule batch_inv_update [OF assms(1,2), of _ "(cb_workers b ! wid)\<lparr>finished := True\<rparr>"])
  let ?b = "worker_fails wid i (cb_workers b ! wid) b"
  show "cb_workers ?b = (cb_workers b)[wid := (cb_workers b ! wid)\<lparr>finished := True\<rparr>]"
    "has_error b \<longrightarrow> has_error ?b" "untouched j d (cb_devs ?b)"
    using batch_invD(2) [OF assms(1)] by (simp_all add: worker_fails_def put_worker_def Let_def)
  show "worker_inv j d w (has_error ?b) wid ((cb_workers b ! wid)\<lparr>finished := True\<rparr>)"
    using batch_invD(3) [OF assms(1,2)]
    by (auto simp: worker_fails_def put_worker_def worker_inv_def Let_def)
  show "copied j d (cb_devs ?b) i'" if "i' < length (job_srcs j)"
    "i' \<notin> set (todo (if i' mod w = wid then (cb_workers b ! wid)\<lparr>finished := True\<rparr>
        else cb_workers b ! (i' mod w)))" "entry_apart j i'" for i'
    using that batch_invD(4) [OF assms(1), of i']
    by (auto simp: worker_fails_def put_worker_def Let_def split: if_splits)
qed

lemma entry_of_worker:
  assumes "batch_inv j d w b" "wid < w" "todo (cb_workers b ! wid) = i # rest"
  shows "i < length (job_srcs j)" "i mod w = wid" "i \<notin> set rest" "distinct rest"
    "\<forall>i' \<in> set rest. i' < length (job_srcs j) \<and> i' mod w = wid"
    "buffer (cb_workers b ! wid) = Some buf \<Longrightarrow> length buf = unat (job_sizes j ! i)"
    "buffer (cb_workers b ! wid) = Some buf \<Longrightarrow> entry_apart j i \<Longrightarrow>
     buf = dev_load (job_srcs j ! i) (unat (job_sizes j ! i)) (d (job_src_fd j))"
  using batch_invD(3) [OF assms(1,2)] assms(3) by (auto simp: worker_inv_def)

lemma worker_reads_inv:
  assumes inv: "batch_inv j d w b" "wid < w" and k: "todo (cb_workers b ! wid) = i # rest"
    "\<not> finished (cb_workers b ! wid)"
    and j: "small_sizes j"
    and rd: "copy_read r (job_src_fd j) (job_srcs j ! i) (to_int32 (job_sizes j ! i)) (cb_devs b) = Some buf"
  shows "batch_inv j d w (put_worker wid ((cb_workers b ! wid)\<lparr>buffer := Some buf, entry_read := t\<rparr>) b)"
proof -
  note i = entry_of_worker [OF inv k(1)]
  have "to_int32 (job_sizes j ! i) = int (unat (job_sizes j ! i))"
    using j i(1) by (simp add: small_sizes_def to_int32_small)
  then have buf: "length buf = unat (job_sizes j ! i)"
      "entry_apart j i \<Longrightarrow> buf = dev_load (job_srcs j ! i) (unat (job_sizes j ! i)) (d (job_src_fd j))"
    using rd source_unchanged [OF _ batch_invD(2) [OF inv(1)] i(1)]
    by (auto simp: copy_read_def split: if_splits)
  show ?thesis
    by (rule batch_inv_update [OF inv, of _ "(cb_workers b ! wid)\<lparr>buffer := Some buf, entry_read := t\<rparr>"])
      (use batch_invD(1,2,4) [OF inv(1)] batch_invD(3) [OF inv] k buf in
        \<open>auto simp: put_worker_def worker_inv_def split: if_splits\<close>)
qed

text \<open>A worker's write, complete or not, keeps what the others have copied.\<close>

lemma worker_writes_inv:
  assumes inv: "batch_inv j d w b" "wid < w" and k: "todo (cb_workers b ! wid) = i # rest"
    "\<not> finished (cb_workers b ! wid)" "buffer (cb_workers b ! wid) = Some buf"
    and wr: "copy_write r (job_dst_fd j) (job_dsts j ! i) buf (cb_devs b) = (ok, d')"
  shows "batch_inv j d w (b\<lparr>cb_devs := d'\<rparr>)"
    and "ok \<Longrightarrow> batch_inv j d w (put_worker wid
      ((cb_workers b ! wid)\<lparr>todo := rest, buffer := None, local_read := lr, local_write := lw\<rparr>) (b\<lparr>cb_devs := d'\<rparr>))"
proof -
  note i = entry_of_worker [OF inv k(1)]
  have len: "length buf = unat (job_sizes j ! i)" by (rule i(6) [OF k(3)])
  note eff = copy_write_effect [OF wr len]
  have un: "untouched j d d'"
    using batch_invD(2) [OF inv(1)] eff(1) i(1) by (simp add: untouched_def)
  have cop: "copied j d d' i'" if "i' < length (job_srcs j)" "i' \<noteq> i"
    "i' \<notin> set (todo (cb_workers b ! (i' mod w)))" "entry_apart j i'" for i'
    using copied_kept [OF batch_invD(4) [OF inv(1) that(1,3,4)] that(4) i(1) that(1) that(2) [symmetric]] eff(1)
    by blast
  have still: "i \<in> set (todo (cb_workers b ! (i mod w)))" using k(1) i(2) by simp
  show "batch_inv j d w (b\<lparr>cb_devs := d'\<rparr>)"
    using inv(1) un cop still by (auto simp: batch_inv_def)
  show "batch_inv j d w (put_worker wid
      ((cb_workers b ! wid)\<lparr>todo := rest, buffer := None, local_read := lr, local_write := lw\<rparr>) (b\<lparr>cb_devs := d'\<rparr>))"
    if ok
  proof -
    have "copied j d d' i" if "entry_apart j i" using eff(2) [OF \<open>ok\<close>] i(7) [OF k(3) that] by (simp add: copied_def)
    then have all: "copied j d d' i'" if "i' < length (job_srcs j)"
      "i' mod w = wid \<longrightarrow> i' \<notin> set rest" "i' mod w \<noteq> wid \<longrightarrow> i' \<notin> set (todo (cb_workers b ! (i' mod w)))"
      "entry_apart j i'" for i'
      using that cop [of i'] k(1) by (cases "i' = i"; cases "i' mod w = wid") auto
    show ?thesis
      using un all k i
      by (intro batch_inv_update [OF inv, of _ "(cb_workers b ! wid)\<lparr>todo := rest, buffer := None,
            local_read := lr, local_write := lw\<rparr>"])
        (auto simp: put_worker_def worker_inv_def split: if_splits)
  qed
qed

lemma worker_step_inv:
  assumes inv: "batch_inv j d w b" and j: "small_sizes j"
  shows "batch_inv j d w (worker_step j wid ev b)"
proof (cases "wid \<ge> length (cb_workers b) \<or> finished (cb_workers b ! wid)")
  case True
  then show ?thesis using inv by (simp add: worker_step_def)
next
  case False
  let ?k = "cb_workers b ! wid"
  have wid: "wid < w" "\<not> finished ?k" using False batch_invD(1) [OF inv] by auto
  show ?thesis
  proof (cases "todo ?k")
    case Nil
    then show ?thesis
      using False batch_invD(1,2,4) [OF inv] batch_invD(3) [OF inv wid(1)] wid
      by (intro batch_inv_update [OF inv wid(1), of _ "?k\<lparr>finished := True\<rparr>"])
        (auto simp: worker_step_def put_worker_def worker_inv_def Let_def split: if_splits)
  next
    case (Cons i rest)
    show ?thesis
    proof (cases "buffer ?k")
      case None
      then show ?thesis
        using False Cons worker_fails_inv [OF inv wid(1)] worker_reads_inv [OF inv wid(1) Cons wid(2) j]
        by (auto simp: worker_step_def Let_def split: option.splits)
    next
      case (Some buf)
      obtain ok d' where w: "copy_write (fst ev) (job_dst_fd j) (job_dsts j ! i) buf (cb_devs b) = (ok, d')"
        by (cases "copy_write (fst ev) (job_dst_fd j) (job_dsts j ! i) buf (cb_devs b)")
      note wi = worker_writes_inv [OF inv wid(1) Cons wid(2) Some w]
      show ?thesis
        using False Cons Some w wi(2) worker_fails_inv [OF wi(1) wid(1), of i]
        by (simp add: worker_step_def Let_def)
    qed
  qed
qed

lemma run_workers_inv:
  "batch_inv j d w b \<Longrightarrow> small_sizes j \<Longrightarrow> batch_inv j d w (run_workers j sched b)"
  unfolding run_workers_def
  by (induction sched arbitrary: b) (auto simp: worker_step_inv)

lemma start_batch_inv:
  assumes "0 < w"
  shows "batch_inv j d w (start_batch (length (job_srcs j)) w d)"
  using assms
  by (auto simp: batch_inv_def start_batch_def worker_inv_def new_worker_def worker_indices_set
      worker_indices_distinct untouched_def)

lemma fold_max_ge: "x \<in> set xs \<or> x \<le> a \<Longrightarrow> x \<le> fold max xs (a :: u64)"
proof (induction xs arbitrary: a)
  case (Cons y xs)
  have "x \<in> set xs \<or> x \<le> max y a" using Cons.prems by (auto intro: max.coboundedI1 max.coboundedI2)
  from Cons.IH [OF this] show ?case by simp
qed simp

lemma check_batch_job:
  assumes "check_batch req s = Inr (j, m)"
  shows "job_srcs j = pba_srcs req" "job_dsts j = pba_dsts req" "small_sizes j"
proof -
  obtain sizes where sizes: "batch_sizes req = Inr sizes" "job_sizes j = sizes" "fold max sizes 0 \<le> 0x7FFFFFFF"
    and srcs: "job_srcs j = pba_srcs req" "job_dsts j = pba_dsts req"
    using assms by (auto simp: check_batch_def Let_def not_less split: if_splits option.splits sum.splits)
  show "job_srcs j = pba_srcs req" "job_dsts j = pba_dsts req" by (fact srcs)+
  have "length sizes = length (pba_srcs req)"
    using sizes(1) by (auto simp: batch_sizes_def Let_def split: if_splits)
  then have "sizes ! i \<le> 0x7FFFFFFF" if "i < length (pba_srcs req)" for i
    using that fold_max_ge [of "sizes ! i" sizes 0] sizes(3) by (auto intro: order_trans)
  then show "small_sizes j" by (simp add: small_sizes_def srcs sizes(2))
qed

lemma batch_workers_pos: "0 < batch_workers count s"
  by (simp add: batch_workers_def Let_def min_def)

text \<open>A recorded error has a text, so an empty error in the answer is a success.\<close>

lemma run_workers_error:
  "(has_error b \<longrightarrow> first_error b \<noteq> '''') \<Longrightarrow>
   has_error (run_workers j sched b) \<longrightarrow> first_error (run_workers j sched b) \<noteq> ''''"
proof -
  have "has_error (worker_step j wid ev b) \<longrightarrow> first_error (worker_step j wid ev b) \<noteq> ''''"
    if "has_error b \<longrightarrow> first_error b \<noteq> ''''" for wid ev b
    using that by (simp add: worker_step_def worker_fails_def put_worker_def Let_def
        split: list.splits option.splits prod.splits)
  then show "(has_error b \<longrightarrow> first_error b \<noteq> '''') \<Longrightarrow> ?thesis"
    unfolding run_workers_def by (induction sched arbitrary: b) auto
qed

lemma check_batch_text: "check_batch req s = Inl e \<Longrightarrow> e \<noteq> ''''"
  by (auto simp: check_batch_def batch_sizes_def Let_def split: if_splits option.splits sum.splits)

lemma batch_copies_apart:
  assumes "handle_write_pba_batch sched req s d = Some (rsp, s', d')" "batch_error rsp = ''''"
    and "pba_srcs req \<noteq> []" "check_batch req s = Inr (j, m)"
  shows "(\<forall>i < length (pba_srcs req). entry_apart j i \<longrightarrow> copied j d d' i) \<and> untouched j d d'"
proof -
  let ?w = "batch_workers (length (pba_srcs req)) s"
  let ?b = "run_workers j sched (start_batch (length (pba_srcs req)) ?w d)"
  have start: "\<not> has_error (start_batch (length (pba_srcs req)) ?w d)" by (simp add: start_batch_def)
  have run: "list_all finished (cb_workers ?b)" "\<not> has_error ?b" "d' = cb_devs ?b"
    using assms(1-4) run_workers_error [of "start_batch (length (pba_srcs req)) ?w d" j sched] start
    by (auto simp: handle_write_pba_batch_def batch_failed_def WritePBABatchRsp_init_def Let_def
        split: if_splits prod.splits)
  have inv: "batch_inv j d ?w ?b"
    using start_batch_inv [OF batch_workers_pos, of j d "length (pba_srcs req)" s]
    by (intro run_workers_inv check_batch_job(3) [OF assms(4)])
      (simp add: check_batch_job(1) [OF assms(4)])
  have "todo (cb_workers ?b ! (i mod ?w)) = []" for i
  proof -
    have "i mod ?w < ?w" using batch_workers_pos by simp
    then have "worker_inv j d ?w False (i mod ?w) (cb_workers ?b ! (i mod ?w))"
      "finished (cb_workers ?b ! (i mod ?w))"
      using batch_invD(1,3) [OF inv] run(1,2) by (auto simp: list_all_length)
    then show ?thesis by (simp add: worker_inv_def)
  qed
  then show ?thesis
    using batch_invD(2,4) [OF inv] check_batch_job(1) [OF assms(4)] run(3) by simp
qed

lemma batch_copies_ok:
  assumes "handle_write_pba_batch sched req s d = Some (rsp, s', d')" "batch_error rsp = ''''"
    and "pba_srcs req \<noteq> []" "check_batch req s = Inr (j, m)" "job_disjoint j"
  shows "(\<forall>i < length (pba_srcs req). copied j d d' i) \<and> untouched j d d'"
  using batch_copies_apart [OF assms(1-4)] assms(5) check_batch_job(1) [OF assms(4)] by (simp add: job_disjoint_def)

text \<open>
  C16. What a batch that is reported as done has done, under every interleaving of the workers' reads
  and writes and whatever the single calls return. When the answer carries no error, an entry whose
  destination overlaps no other destination, and whose source overlaps no destination on the same
  device, has its bytes at its destination as they were at its source when the batch began; entries
  that overlap are accepted by the server, and nothing is claimed of them. Whether or not entries
  overlap, nothing outside the destination ranges has changed.
\<close>

theorem batch_copies:
  assumes "handle_write_pba_batch sched req s d = Some (rsp, s', d')" "batch_error rsp = ''''"
    and "pba_srcs req \<noteq> []" "check_batch req s = Inr (j, m)"
  shows "(\<forall>i < length (pba_srcs req). entry_apart j i \<longrightarrow> copied j d d' i) \<and> untouched j d d'"
  by (rule batch_copies_apart [OF assms])

section \<open>A batch ends\<close>

definition steps_left :: "copy_worker \<Rightarrow> nat" where
  "steps_left k = (if finished k then 0
     else 2 * length (todo k) + (if buffer k = None \<or> todo k = [] then 1 else 0))"

lemma worker_step_others:
  "v \<noteq> wid \<Longrightarrow> cb_workers (worker_step j wid ev b) ! v = cb_workers b ! v"
  "length (cb_workers (worker_step j wid ev b)) = length (cb_workers b)"
  by (auto simp: worker_step_def worker_fails_def put_worker_def Let_def
      split: list.splits option.splits prod.splits)

lemma worker_step_progress:
  "wid < length (cb_workers b) \<Longrightarrow>
   steps_left (cb_workers (worker_step j wid ev b) ! wid) \<le> steps_left (cb_workers b ! wid) - 1"
  by (auto simp: worker_step_def worker_fails_def put_worker_def steps_left_def Let_def
      split: list.splits option.splits prod.splits)

lemma run_workers_progress:
  "v < length (cb_workers b) \<Longrightarrow>
   steps_left (cb_workers (run_workers j sched b) ! v) \<le>
     steps_left (cb_workers b ! v) - count_list (map fst sched) v \<and>
   length (cb_workers (run_workers j sched b)) = length (cb_workers b)"
proof (induction sched arbitrary: b)
  case Nil
  then show ?case by (simp add: run_workers_def)
next
  case (Cons x sched)
  obtain wid ev where x: "x = (wid, ev)" by (cases x)
  let ?b = "worker_step j wid ev b"
  have step: "run_workers j (x # sched) b = run_workers j sched ?b" by (simp add: run_workers_def x)
  have "v < length (cb_workers ?b)" using Cons.prems by (simp add: worker_step_others)
  note IH = Cons.IH [OF this]
  show ?case
  proof (cases "v = wid")
    case True
    then show ?thesis
      using IH [THEN conjunct1] IH [THEN conjunct2] worker_step_progress [of wid b j ev] Cons.prems
        worker_step_others(2) [of j wid ev b]
      unfolding step by (simp add: x)
  next
    case False
    then show ?thesis
      using IH worker_step_others(1) [of v wid j ev b] worker_step_others(2) [of j wid ev b]
      unfolding step by (simp add: x)
  qed
qed

lemma length_worker_indices: "0 < w \<Longrightarrow> length (worker_indices count w i) \<le> count - i"
proof (induction count w i rule: worker_indices.induct)
  case (1 count w i)
  show ?case
  proof (cases "i < count")
    case True
    then show ?thesis using 1 by (subst worker_indices.simps) (simp; linarith)
  qed (simp add: worker_indices.simps)
qed

lemma batch_answered:
  assumes "\<forall>wid < batch_workers (length (pba_srcs req)) s.
    2 * length (pba_srcs req) + 1 \<le> count_list (map fst sched) wid"
  shows "\<exists>rsp s' d'. handle_write_pba_batch sched req s d = Some (rsp, s', d')"
proof -
  let ?n = "length (pba_srcs req)"
  let ?w = "batch_workers ?n s"
  have fin: "list_all finished (cb_workers (run_workers j sched (start_batch ?n ?w d)))" for j
  proof -
    let ?b = "start_batch ?n ?w d"
    have len: "length (cb_workers ?b) = ?w" by (simp add: start_batch_def)
    have "finished (cb_workers (run_workers j sched ?b) ! v)" if "v < ?w" for v
    proof -
      have "steps_left (cb_workers ?b ! v) \<le> 2 * ?n + 1"
        using that length_worker_indices [of ?w ?n v] batch_workers_pos [of ?n s]
        by (simp add: start_batch_def new_worker_def steps_left_def)
      then have "steps_left (cb_workers (run_workers j sched ?b) ! v) = 0"
        using run_workers_progress [of v ?b j sched] assms that len by fastforce
      then show ?thesis by (auto simp: steps_left_def split: if_splits)
    qed
    moreover have "length (cb_workers (run_workers j sched ?b)) = ?w"
      using run_workers_progress [of 0 ?b j sched] len batch_workers_pos [of ?n s] by simp
    ultimately show ?thesis by (simp add: list_all_length)
  qed
  show ?thesis
    by (cases "check_batch req s")
      (auto simp: handle_write_pba_batch_def Let_def fin batch_failed_def split: prod.splits)
qed

section \<open>A healthy batch succeeds\<close>

definition offsets_ok :: "copy_job \<Rightarrow> bool" where
  "offsets_ok j \<longleftrightarrow> (\<forall>i < length (job_srcs j). 0 \<le> sint (job_srcs j ! i) \<and> 0 \<le> sint (job_dsts j ! i))"

definition calls_ok :: "(nat \<times> io_event) list \<Rightarrow> bool" where
  "calls_ok sched \<longleftrightarrow> list_all (\<lambda>(wid, r, t). r = IoOk) sched"

text \<open>No error so far, and the workers' entries are entries of the job.\<close>

definition batch_clean :: "copy_job \<Rightarrow> copy_batch \<Rightarrow> bool" where
  "batch_clean j b \<longleftrightarrow> \<not> has_error b \<and>
     (\<forall>k \<in> set (cb_workers b). \<forall>i \<in> set (todo k). i < length (job_srcs j))"

lemma put_worker_clean:
  assumes "batch_clean j b" "set (todo k) \<subseteq> {i. i < length (job_srcs j)}"
  shows "batch_clean j (put_worker wid k b)" "batch_clean j (put_worker wid k (b\<lparr>cb_devs := d\<rparr>))"
  using assms set_update_subset_insert [of "cb_workers b" wid k]
  by (auto simp: batch_clean_def put_worker_def dest!: subsetD)

lemma worker_step_clean:
  assumes "batch_clean j b" "small_sizes j" "offsets_ok j"
  shows "batch_clean j (worker_step j wid (IoOk, t) b)"
proof (cases "wid \<ge> length (cb_workers b) \<or> finished (cb_workers b ! wid)")
  case False
  let ?k = "cb_workers b ! wid"
  have k: "set (todo ?k) \<subseteq> {i. i < length (job_srcs j)}"
    using assms(1) False by (auto simp: batch_clean_def)
  show ?thesis
  proof (cases "todo ?k")
    case Nil
    then show ?thesis
      using False put_worker_clean(1) [OF assms(1), of "?k\<lparr>finished := True\<rparr>" wid]
      by (simp add: worker_step_def batch_clean_def Let_def)
  next
    case (Cons i rest)
    then have i: "0 \<le> sint (job_srcs j ! i)" "0 \<le> sint (job_dsts j ! i)"
      "to_int32 (job_sizes j ! i) = int (unat (job_sizes j ! i))"
      using k assms(2,3) by (auto simp: offsets_ok_def small_sizes_def to_int32_small)
    have mv: "moved IoOk off n = n" if "0 \<le> sint off" "0 \<le> n" for off n
      using that by (simp add: moved_def transferred_def)
    show ?thesis
      using False Cons k i put_worker_clean [OF assms(1)]
      by (auto simp: worker_step_def copy_read_def copy_write_def mv Let_def split: option.splits)
  qed
qed (use assms(1) in \<open>simp add: worker_step_def\<close>)

lemma run_workers_clean:
  "batch_clean j b \<Longrightarrow> small_sizes j \<Longrightarrow> offsets_ok j \<Longrightarrow> calls_ok sched \<Longrightarrow>
   batch_clean j (run_workers j sched b)"
  unfolding run_workers_def calls_ok_def
  by (induction sched arbitrary: b) (auto simp: worker_step_clean)

lemma acquire_all_ok:
  assumes "\<forall>b. memalign_ok (pool_heap p) b"
  shows "\<exists>bs p'. acquire_all w n p = (bs, True, p')"
  using assms
proof (induction w arbitrary: p)
  case (Suc w)
  obtain x p' where "pool_acquire n p = (Some x, p')" "memalign_ok (pool_heap p') = memalign_ok (pool_heap p)"
  proof (cases "free_list p = []")
    case True
    then show ?thesis using that Suc.prems by (simp add: pool_acquire_def posix_memalign_def Let_def)
  next
    case False
    obtain b cap where l: "last (free_list p) = (b, cap)" by (cases "last (free_list p)")
    show ?thesis
      using that Suc.prems False l
      by (cases "n \<le> cap") (simp_all add: pool_acquire_def posix_memalign_def free_block_def Let_def)
  qed
  then show ?case using Suc.IH [of p'] Suc.prems by auto
qed simp

lemma batch_succeeds:
  assumes "handle_write_pba_batch sched req s d = Some (rsp, s', d')" "pba_srcs req \<noteq> []"
    and "check_batch req s = Inr (j, m)" "\<forall>b. memalign_ok (pool_heap (pool s)) b"
    and "offsets_ok j" "calls_ok sched"
  shows "batch_error rsp = ''''"
proof -
  let ?n = "length (pba_srcs req)"
  let ?w = "batch_workers ?n s"
  have "batch_clean j (start_batch ?n ?w d)"
    using check_batch_job(1) [OF assms(3)] batch_workers_pos [of ?n s]
    by (auto simp: batch_clean_def start_batch_def new_worker_def worker_indices_set)
  from run_workers_clean [OF this check_batch_job(3) [OF assms(3)] assms(5,6)]
  have "\<not> has_error (run_workers j sched (start_batch ?n ?w d))" by (simp add: batch_clean_def)
  moreover obtain bs p' where "acquire_all ?w m (pool s) = (bs, True, p')"
    using acquire_all_ok [OF assms(4)] by blast
  ultimately show ?thesis
    using assms(1-3) by (auto simp: handle_write_pba_batch_def Let_def split: if_splits)
qed

text \<open>
  C23. A batch request is answered: every schedule that lets each of the workers make two calls per
  entry and one more step ends with all workers finished and an answer, in the error cases too. The
  answer of a storage node whose calls and allocations succeed carries no error for a request that
  passes the checks and names no negative offset.
\<close>

theorem batch_returns:
  assumes "\<forall>wid < batch_workers (length (pba_srcs req)) s.
    2 * length (pba_srcs req) + 1 \<le> count_list (map fst sched) wid"
    and "pba_srcs req \<noteq> []"
  shows "\<exists>rsp s' d'. handle_write_pba_batch sched req s d = Some (rsp, s', d') \<and>
    (check_batch req s = Inr (j, m) \<and> offsets_ok j \<and> calls_ok sched \<and>
       (\<forall>b. memalign_ok (pool_heap (pool s)) b) \<longrightarrow> batch_error rsp = '''')"
  using batch_answered [OF assms(1)] batch_succeeds [OF _ assms(2)] by blast

section \<open>Single copies\<close>

text \<open>
  A single copy truncates its length: \<open>handle_write_pba\<close> casts the requested number of bytes to
  \<open>int\<close>, without the check that the batch handler makes. A request for \<open>2 ^ 32 + n\<close> bytes is answered
  as a success although only the first \<open>n\<close> bytes at the destination have been written.
\<close>

theorem write_pba_truncates:
  assumes "nbytes req = 0x100000000 + n" "n \<le> 0x7FFFFFFF"
    and "get_fd (src_dev req) s = Some sfd" "get_fd (dst_dev req) s = Some dfd"
    and "sint (pba_src req) \<ge> 0" "sint (pba_dst req) \<ge> 0"
    and "memalign_ok (pool_heap (pool s)) (next_block (pool_heap (pool s)))"
  shows "\<exists>rsp s' d'. handle_write_pba (IoOk, t1) (IoOk, t2) req s d = (rsp, s', d') \<and>
    rsp_error rsp = '''' \<and> (\<forall>x. x \<notin> addrs (pba_dst req) (unat n) \<longrightarrow> d' dfd x = d dfd x)"
proof -
  have "uint n \<le> 0x7FFFFFFF" using assms(2) by (simp add: word_le_def)
  then have "uint (0x100000000 + n) = 0x100000000 + uint n"
    using uint_plus_if' [of "0x100000000" n] by simp
  then have "uint (ucast (0x100000000 + n) :: 32 word) = uint (ucast n :: 32 word)"
    by (simp add: unsigned_ucast_eq take_bit_eq_mod)
  then have "(ucast (0x100000000 + n) :: 32 word) = ucast n" by (simp only: word_uint_eq_iff)
  then have n: "to_int32 (nbytes req) = int (unat n)"
    using to_int32_small [OF assms(2)] by (simp add: to_int32_def assms(1))
  have mv: "moved IoOk (pba_src req) (int (unat n)) = int (unat n)"
    "moved IoOk (pba_dst req) (int (unat n)) = int (unat n)"
    using assms(5,6) by (simp_all add: moved_def transferred_def)
  let ?m = "dev_load (pba_src req) (unat n) (d sfd)"
  have "dev_store (pba_dst req) ?m (d dfd) x = d dfd x" if "x \<notin> addrs (pba_dst req) (unat n)" for x
    using that by (intro dev_store_other) simp
  then show ?thesis
    using assms(7)
    by (simp add: handle_write_pba_def assms(3,4) write_pba_copy_def posix_memalign_def Let_def
        write_pba_copy_buf_def copy_read_def copy_write_def n mv mv [simplified])
qed

section \<open>A storage node with two devices\<close>

definition sample_heap :: heap where
  "sample_heap = \<lparr>live = Map.empty, next_block = 0, memalign_ok = \<lambda>_. True\<rparr>"

definition sample_store :: blockcopy_server where
  "sample_store = BlockCopyServer [3, 4] 2 sample_heap"

definition sample_batch :: WritePBABatchReq where
  "sample_batch = \<lparr>pba_srcs = [0, 1000], pba_dsts = [5000, 6000], batch_nbytes = [2, 3], block_size = 0,
     batch_src_dev = 0, batch_dst_dev = 1\<rparr>"

definition sample_sched :: "(nat \<times> io_event) list" where
  "sample_sched = [(0, IoOk, 5), (1, IoOk, 5), (1, IoOk, 7), (0, IoOk, 7), (0, IoOk, 0), (1, IoOk, 0),
     (0, IoOk, 0), (0, IoOk, 0), (1, IoOk, 0), (1, IoOk, 0)]"

definition sample_devices :: devices where
  "sample_devices fd a = (if fd = 3 then 9 else 0)"

lemma sample_batch_runs:
  "map_option (\<lambda>(r, s', d'). (batch_error r, batch_copy_nanos r)) (handle_write_pba_batch sample_sched
     sample_batch sample_store sample_devices) = Some ('''', 24)"
  by code_simp

definition sample_job :: copy_job where
  "sample_job = \<lparr>job_src_fd = 3, job_dst_fd = 4, job_srcs = [0, 1000], job_dsts = [5000, 6000],
     job_sizes = [2, 3]\<rparr>"

lemma sample_job_checked: "check_batch sample_batch sample_store = Inr (sample_job, 3)"
  by code_simp

lemma sample_job_apart: "entry_apart sample_job 1"
proof -
  have "addrs 5000 2 = {5000, 5001}" "addrs 6000 3 = {6000, 6001, 6002}"
    by (auto simp: addrs_def lessThan_nat_numeral lessThan_Suc)
  then show ?thesis
    by (auto simp: entry_apart_def sample_job_def entry_dst_def less_Suc_eq)
qed

theorem batch_copies_witness:
  "\<exists>rsp s' d'. handle_write_pba_batch sample_sched sample_batch sample_store sample_devices =
     Some (rsp, s', d') \<and> copied sample_job sample_devices d' 1"
proof -
  obtain rsp s' d' where r: "handle_write_pba_batch sample_sched sample_batch sample_store sample_devices =
      Some (rsp, s', d')" "batch_error rsp = ''''"
    using sample_batch_runs by auto
  have "pba_srcs sample_batch = [0, 1000]" by (simp add: sample_batch_def)
  then show ?thesis
    using batch_copies [OF r _ sample_job_checked] sample_job_apart r(1) by auto
qed

theorem batch_returns_witness:
  "\<exists>rsp s' d'. handle_write_pba_batch sample_sched sample_batch sample_store sample_devices =
     Some (rsp, s', d') \<and> batch_error rsp = ''''"
proof -
  have w: "batch_workers 2 sample_store = 2" by code_simp
  have c: "count_list (map fst sample_sched) 0 = 5" "count_list (map fst sample_sched) 1 = 5"
    by code_simp+
  have s: "length (pba_srcs sample_batch) = 2" "pba_srcs sample_batch \<noteq> []"
    by (simp_all add: sample_batch_def)
  have fair: "\<forall>wid < batch_workers (length (pba_srcs sample_batch)) sample_store.
      2 * length (pba_srcs sample_batch) + 1 \<le> count_list (map fst sample_sched) wid"
    using c by (simp only: w s(1)) (auto simp: less_2_cases_iff)
  have "offsets_ok sample_job" "calls_ok sample_sched"
    "\<forall>b. memalign_ok (pool_heap (pool sample_store)) b"
    by (simp_all add: offsets_ok_def sample_job_def less_Suc_eq calls_ok_def sample_sched_def
        sample_store_def BlockCopyServer_def sample_heap_def)
  then show ?thesis
    using batch_returns [OF fair s(2), of sample_devices sample_job 3] sample_job_checked by blast
qed

theorem acquire_live_witness:
  "live (pool_heap (snd (pool_acquire 5000 \<lparr>pool_heap = sample_heap, free_list = []\<rparr>))) 0 = Some 8192"
proof -
  let ?p = "\<lparr>pool_heap = sample_heap, free_list = []\<rparr>"
  obtain p' where p': "pool_acquire 5000 ?p = (Some (0, 8192), p')"
    by (auto simp: pool_acquire_def sample_heap_def posix_memalign_def align_up_def kAlign_def kPageSize_def)
  have "pool_inv ?p" by (simp add: pool_inv_def sample_heap_def)
  with acquire_live [OF _ _ p'] p' show ?thesis by simp
qed

theorem write_pba_truncates_witness:
  "\<exists>rsp s' d'. handle_write_pba (IoOk, 1) (IoOk, 1)
     \<lparr>pba_src = 0, pba_dst = 5000, nbytes = 0x100000200, src_dev = 0, dst_dev = 1\<rparr>
     sample_store sample_devices = (rsp, s', d') \<and> rsp_error rsp = '''' \<and> d' 4 5512 = sample_devices 4 5512"
proof -
  let ?req = "\<lparr>pba_src = 0, pba_dst = 5000, nbytes = 0x100000200, src_dev = 0, dst_dev = 1\<rparr> :: WritePBAReq"
  have fds: "get_fd 0 sample_store = Some 3" "get_fd 1 sample_store = Some 4" by code_simp+
  have out: "(5512 :: u64) \<notin> addrs 5000 512"
  proof
    assume "(5512 :: u64) \<in> addrs 5000 512"
    then obtain k where "k < 512" "(5512 :: u64) = 5000 + of_nat k" by (auto simp: addrs_def)
    then have "(512 :: u64) = of_nat k" by (simp add: algebra_simps)
    then have "unat (512 :: u64) = k" using \<open>k < 512\<close> unat_u64_of_nat [of k] by simp
    then show False using \<open>k < 512\<close> by simp
  qed
  have "memalign_ok (pool_heap (pool sample_store)) (next_block (pool_heap (pool sample_store)))"
    by (simp add: sample_store_def BlockCopyServer_def sample_heap_def)
  with write_pba_truncates [of ?req 512 sample_store 3 4 1 1 sample_devices] fds out show ?thesis
    by auto
qed

text \<open>A request that is answered without an error has passed the checks.\<close>

lemma success_checked:
  assumes "handle_write_pba_batch sched req s d = Some (rsp, s', d')" "batch_error rsp = ''''"
    "pba_srcs req \<noteq> []"
  shows "\<exists>j m. check_batch req s = Inr (j, m)"
  using assms check_batch_text [of req s]
  by (cases "check_batch req s") (auto simp: handle_write_pba_batch_def batch_failed_def Let_def)

end
