(* ===== verification/ProtoConv.thy ===== *)
theory ProtoConv
  imports Storage
begin

text \<open>
  \<open>net/include/raft_proto_conv.h\<close>: the conversions between the program's message structures and the
  protobuf messages of \<open>proto/rpcproto.proto\<close>. A protobuf message is the record of the fields the
  \<open>.proto\<close> file declares; what a \<open>to_proto\<close> function sets and a \<open>from_proto\<close> function reads is the
  update or selection of that field. Serialisation to bytes is the protobuf library's and is a
  parameter of the code that calls it (theories \<open>Dispatch\<close> and \<open>Clients\<close>).
\<close>

section \<open>Protobuf messages\<close>

record pb_entry_meta =
  pm_term :: u64
  pm_cmd_len :: u64

record pb_request_vote_request =
  pvq_term :: u64
  pvq_candidate_id :: u64
  pvq_last_log_index :: u64
  pvq_last_log_term :: u64

record pb_request_vote_response =
  pvr_term :: u64
  pvr_vote_granted :: bool

record pb_append_entries_request =
  paq_term :: u64
  paq_leader_id :: u64
  paq_prev_log_index :: u64
  paq_prev_log_term :: u64
  paq_leader_commit :: u64
  paq_leader_pba_src :: u64
  paq_log_block_length :: u64
  paq_num_entries :: u64
  paq_slots_per_entry :: u64
  paq_start_slot :: u64
  paq_leader_dev_index :: int
  paq_entry_metas :: "pb_entry_meta list"
  paq_data_already_copied :: bool

record pb_append_entries_response =
  par_term :: u64
  par_success :: bool
  par_conflict_term :: u64
  par_conflict_index :: u64
  par_handler_duration_nanos :: int
  par_write_pba_rt_nanos :: int
  par_storage_copy_nanos :: int
  par_handle_ae_lock_wait_nanos :: int
  par_handle_ae_pre_nanos :: int
  par_handle_ae_lock_wait2_nanos :: int
  par_handle_ae_post_nanos :: int
  par_handle_ae_persist_nanos :: int

record pb_write_pba_batch_request =
  pwq_pba_srcs :: "u64 list"
  pwq_pba_dsts :: "u64 list"
  pwq_nbytes :: "u64 list"
  pwq_block_size :: u64
  pwq_src_dev :: int
  pwq_dst_dev :: int

record pb_write_pba_batch_response =
  pwr_err :: string
  pwr_copy_nanos :: int
  pwr_read_nanos :: int
  pwr_write_nanos :: int

record pb_commands =
  pc_commands :: "bytes list"

record pb_client_apply_response =
  pcr_err :: string
  pcr_busy :: bool
  pcr_retry_after_ms :: int

record pb_client_apply_timed_response =
  ptr_err :: string
  ptr_l_handler_nanos :: int
  ptr_l_persist_nanos :: int
  ptr_ae_net_nanos :: int
  ptr_f_handler_nanos :: int
  ptr_repl_net_nanos :: int
  ptr_replication_nanos :: int
  ptr_quorum_wait_nanos :: int
  ptr_mutex_nanos :: int
  ptr_total_nanos :: int
  ptr_busy :: bool
  ptr_retry_after_ms :: int
  ptr_post_rpc_nanos :: int
  ptr_commit_wait_nanos :: int
  ptr_wg_scheduling_nanos :: int

record pb_client_echo_response =
  per_n :: int

record pb_client_get_commit_index_response =
  pir_commit_index :: u64
  pir_err :: string

record pb_client_get_hash_request =
  phq_at_count :: u64

record pb_client_get_hash_response =
  phr_hash :: string
  phr_count :: u64
  phr_err :: string

record pb_client_get_ae_batch_stats_response =
  psr_ae_count :: u64
  psr_ae_entries :: u64
  psr_err :: string

section \<open>Client messages of the program\<close>

text \<open>
  The three requests that carry commands are a list of byte strings each; \<open>ClientEchoResponse\<close> is an
  integer and \<open>ClientGetHashRequest\<close> a count.
\<close>

record client_apply_response =
  car_error :: string
  car_busy :: bool
  car_retry_after_ms :: int

record client_apply_timed_response =
  ctr_error :: string
  ctr_l_handler_ns :: int
  ctr_l_persist_ns :: int
  ctr_ae_net_ns :: int
  ctr_f_handler_ns :: int
  ctr_repl_net_ns :: int
  ctr_storage_io_ns :: int
  ctr_quorum_wait_ns :: int
  ctr_mutex_ns :: int
  ctr_total_ns :: int
  ctr_busy :: bool
  ctr_retry_after_ms :: int
  ctr_post_rpc_ns :: int
  ctr_commit_wait_ns :: int
  ctr_wg_scheduling_ns :: int

record client_get_commit_index_response =
  cir_commit_index :: u64
  cir_error :: string

record client_get_hash_response =
  chr_hash :: string
  chr_count :: u64
  chr_error :: string

record client_get_ae_batch_stats_response =
  csr_ae_count :: u64
  csr_ae_entries :: u64
  csr_error :: string


section \<open>Conversions\<close>

definition commands_to_proto :: "bytes list \<Rightarrow> pb_commands" where
  "commands_to_proto commands = \<lparr>pc_commands = commands\<rparr>"

definition commands_from_proto :: "pb_commands \<Rightarrow> bytes list" where
  "commands_from_proto p = pc_commands p"

definition entry_meta_to_proto :: "entry_meta \<Rightarrow> pb_entry_meta" where
  "entry_meta_to_proto g = \<lparr>
     pm_term = meta_term g, pm_cmd_len = meta_cmd_len g\<rparr>"

definition entry_meta_from_proto :: "pb_entry_meta \<Rightarrow> entry_meta" where
  "entry_meta_from_proto g = \<lparr>
     meta_term = pm_term g, meta_cmd_len = pm_cmd_len g\<rparr>"

definition write_pba_batch_request_to_proto :: "WritePBABatchReq \<Rightarrow> pb_write_pba_batch_request" where
  "write_pba_batch_request_to_proto g = \<lparr>
     pwq_pba_srcs = pba_srcs g, pwq_pba_dsts = pba_dsts g, pwq_nbytes = batch_nbytes g,
     pwq_block_size = block_size g, pwq_src_dev = batch_src_dev g, pwq_dst_dev = batch_dst_dev g\<rparr>"

definition write_pba_batch_request_from_proto :: "pb_write_pba_batch_request \<Rightarrow> WritePBABatchReq" where
  "write_pba_batch_request_from_proto g = \<lparr>
     pba_srcs = pwq_pba_srcs g, pba_dsts = pwq_pba_dsts g, batch_nbytes = pwq_nbytes g,
     block_size = pwq_block_size g, batch_src_dev = pwq_src_dev g, batch_dst_dev = pwq_dst_dev g\<rparr>"

definition write_pba_batch_response_to_proto :: "WritePBABatchRsp \<Rightarrow> pb_write_pba_batch_response" where
  "write_pba_batch_response_to_proto g = \<lparr>
     pwr_err = batch_error g, pwr_copy_nanos = batch_copy_nanos g, pwr_read_nanos = read_nanos g,
     pwr_write_nanos = write_nanos g\<rparr>"

definition write_pba_batch_response_from_proto :: "pb_write_pba_batch_response \<Rightarrow> WritePBABatchRsp" where
  "write_pba_batch_response_from_proto g = \<lparr>
     batch_error = pwr_err g, batch_copy_nanos = pwr_copy_nanos g, read_nanos = pwr_read_nanos g,
     write_nanos = pwr_write_nanos g\<rparr>"

definition request_vote_request_to_proto :: "request_vote_request \<Rightarrow> pb_request_vote_request" where
  "request_vote_request_to_proto g = \<lparr>
     pvq_term = rvq_term g, pvq_candidate_id = candidate_id g,
     pvq_last_log_index = last_log_index g, pvq_last_log_term = last_log_term g\<rparr>"

definition request_vote_request_from_proto :: "pb_request_vote_request \<Rightarrow> request_vote_request" where
  "request_vote_request_from_proto g = \<lparr>
     rvq_term = pvq_term g, candidate_id = pvq_candidate_id g,
     last_log_index = pvq_last_log_index g, last_log_term = pvq_last_log_term g\<rparr>"

definition request_vote_response_to_proto :: "request_vote_response \<Rightarrow> pb_request_vote_response" where
  "request_vote_response_to_proto g = \<lparr>
     pvr_term = rvr_term g, pvr_vote_granted = vote_granted g\<rparr>"

definition request_vote_response_from_proto :: "pb_request_vote_response \<Rightarrow> request_vote_response" where
  "request_vote_response_from_proto g = \<lparr>
     rvr_term = pvr_term g, vote_granted = pvr_vote_granted g\<rparr>"

definition append_entries_request_to_proto :: "append_entries_request \<Rightarrow> pb_append_entries_request" where
  "append_entries_request_to_proto g = \<lparr>
     paq_term = aeq_term g, paq_leader_id = leader_id g, paq_prev_log_index = prev_log_index g,
     paq_prev_log_term = prev_log_term g, paq_leader_commit = leader_commit g,
     paq_leader_pba_src = leader_pba_src g, paq_log_block_length = log_block_length g,
     paq_num_entries = num_entries g, paq_slots_per_entry = slots_per_entry g,
     paq_start_slot = start_slot g, paq_leader_dev_index = leader_dev_index g,
     paq_entry_metas = map entry_meta_to_proto (entry_metas g),
     paq_data_already_copied = data_already_copied g\<rparr>"

definition append_entries_request_from_proto :: "pb_append_entries_request \<Rightarrow> append_entries_request" where
  "append_entries_request_from_proto g = \<lparr>
     aeq_term = paq_term g, leader_id = paq_leader_id g, prev_log_index = paq_prev_log_index g,
     prev_log_term = paq_prev_log_term g, leader_commit = paq_leader_commit g,
     leader_pba_src = paq_leader_pba_src g, log_block_length = paq_log_block_length g,
     num_entries = paq_num_entries g, slots_per_entry = paq_slots_per_entry g,
     start_slot = paq_start_slot g, leader_dev_index = paq_leader_dev_index g,
     data_already_copied = paq_data_already_copied g,
     entry_metas = map entry_meta_from_proto (paq_entry_metas g)\<rparr>"

definition append_entries_response_to_proto :: "append_entries_response \<Rightarrow> pb_append_entries_response" where
  "append_entries_response_to_proto g = \<lparr>
     par_term = aer_term g, par_success = success g, par_conflict_term = conflict_term g,
     par_conflict_index = conflict_index g, par_handler_duration_nanos = handler_duration_ns g,
     par_write_pba_rt_nanos = write_pba_rt_ns g, par_storage_copy_nanos = storage_copy_ns g,
     par_handle_ae_lock_wait_nanos = handle_ae_lock_wait_ns g,
     par_handle_ae_pre_nanos = handle_ae_pre_ns g,
     par_handle_ae_lock_wait2_nanos = handle_ae_lock_wait2_ns g,
     par_handle_ae_post_nanos = handle_ae_post_ns g,
     par_handle_ae_persist_nanos = handle_ae_persist_ns g\<rparr>"

definition append_entries_response_from_proto :: "pb_append_entries_response \<Rightarrow> append_entries_response" where
  "append_entries_response_from_proto g = \<lparr>
     aer_term = par_term g, success = par_success g, conflict_term = par_conflict_term g,
     conflict_index = par_conflict_index g, handler_duration_ns = par_handler_duration_nanos g,
     write_pba_rt_ns = par_write_pba_rt_nanos g, storage_copy_ns = par_storage_copy_nanos g,
     handle_ae_lock_wait_ns = par_handle_ae_lock_wait_nanos g,
     handle_ae_pre_ns = par_handle_ae_pre_nanos g,
     handle_ae_lock_wait2_ns = par_handle_ae_lock_wait2_nanos g,
     handle_ae_post_ns = par_handle_ae_post_nanos g,
     handle_ae_persist_ns = par_handle_ae_persist_nanos g\<rparr>"

definition client_apply_response_to_proto :: "client_apply_response \<Rightarrow> pb_client_apply_response" where
  "client_apply_response_to_proto g = \<lparr>
     pcr_err = car_error g, pcr_busy = car_busy g, pcr_retry_after_ms = car_retry_after_ms g\<rparr>"

definition client_apply_response_from_proto :: "pb_client_apply_response \<Rightarrow> client_apply_response" where
  "client_apply_response_from_proto g = \<lparr>
     car_error = pcr_err g, car_busy = pcr_busy g, car_retry_after_ms = pcr_retry_after_ms g\<rparr>"

definition client_apply_timed_response_to_proto :: "client_apply_timed_response \<Rightarrow> pb_client_apply_timed_response" where
  "client_apply_timed_response_to_proto g = \<lparr>
     ptr_err = ctr_error g, ptr_l_handler_nanos = ctr_l_handler_ns g,
     ptr_l_persist_nanos = ctr_l_persist_ns g, ptr_ae_net_nanos = ctr_ae_net_ns g,
     ptr_f_handler_nanos = ctr_f_handler_ns g, ptr_repl_net_nanos = ctr_repl_net_ns g,
     ptr_replication_nanos = ctr_storage_io_ns g, ptr_quorum_wait_nanos = ctr_quorum_wait_ns g,
     ptr_mutex_nanos = ctr_mutex_ns g, ptr_total_nanos = ctr_total_ns g, ptr_busy = ctr_busy g,
     ptr_retry_after_ms = ctr_retry_after_ms g, ptr_post_rpc_nanos = ctr_post_rpc_ns g,
     ptr_commit_wait_nanos = ctr_commit_wait_ns g,
     ptr_wg_scheduling_nanos = ctr_wg_scheduling_ns g\<rparr>"

definition client_apply_timed_response_from_proto :: "pb_client_apply_timed_response \<Rightarrow> client_apply_timed_response" where
  "client_apply_timed_response_from_proto g = \<lparr>
     ctr_error = ptr_err g, ctr_l_handler_ns = ptr_l_handler_nanos g,
     ctr_l_persist_ns = ptr_l_persist_nanos g, ctr_ae_net_ns = ptr_ae_net_nanos g,
     ctr_f_handler_ns = ptr_f_handler_nanos g, ctr_repl_net_ns = ptr_repl_net_nanos g,
     ctr_storage_io_ns = ptr_replication_nanos g, ctr_quorum_wait_ns = ptr_quorum_wait_nanos g,
     ctr_mutex_ns = ptr_mutex_nanos g, ctr_total_ns = ptr_total_nanos g, ctr_busy = ptr_busy g,
     ctr_retry_after_ms = ptr_retry_after_ms g, ctr_post_rpc_ns = ptr_post_rpc_nanos g,
     ctr_commit_wait_ns = ptr_commit_wait_nanos g,
     ctr_wg_scheduling_ns = ptr_wg_scheduling_nanos g\<rparr>"

definition client_get_commit_index_response_to_proto :: "client_get_commit_index_response \<Rightarrow> pb_client_get_commit_index_response" where
  "client_get_commit_index_response_to_proto g = \<lparr>
     pir_commit_index = cir_commit_index g, pir_err = cir_error g\<rparr>"

definition client_get_commit_index_response_from_proto :: "pb_client_get_commit_index_response \<Rightarrow> client_get_commit_index_response" where
  "client_get_commit_index_response_from_proto g = \<lparr>
     cir_commit_index = pir_commit_index g, cir_error = pir_err g\<rparr>"

definition client_get_hash_response_to_proto :: "client_get_hash_response \<Rightarrow> pb_client_get_hash_response" where
  "client_get_hash_response_to_proto g = \<lparr>
     phr_hash = chr_hash g, phr_count = chr_count g, phr_err = chr_error g\<rparr>"

definition client_get_hash_response_from_proto :: "pb_client_get_hash_response \<Rightarrow> client_get_hash_response" where
  "client_get_hash_response_from_proto g = \<lparr>
     chr_hash = phr_hash g, chr_count = phr_count g, chr_error = phr_err g\<rparr>"

definition client_get_ae_batch_stats_response_to_proto :: "client_get_ae_batch_stats_response \<Rightarrow> pb_client_get_ae_batch_stats_response" where
  "client_get_ae_batch_stats_response_to_proto g = \<lparr>
     psr_ae_count = csr_ae_count g, psr_ae_entries = csr_ae_entries g, psr_err = csr_error g\<rparr>"

definition client_get_ae_batch_stats_response_from_proto :: "pb_client_get_ae_batch_stats_response \<Rightarrow> client_get_ae_batch_stats_response" where
  "client_get_ae_batch_stats_response_from_proto g = \<lparr>
     csr_ae_count = psr_ae_count g, csr_ae_entries = psr_ae_entries g, csr_error = psr_err g\<rparr>"

definition client_apply_request_to_proto :: "bytes list \<Rightarrow> pb_commands" where
  "client_apply_request_to_proto g = commands_to_proto g"

definition client_apply_request_from_proto :: "pb_commands \<Rightarrow> bytes list" where
  "client_apply_request_from_proto p = commands_from_proto p"

definition client_apply_timed_request_to_proto :: "bytes list \<Rightarrow> pb_commands" where
  "client_apply_timed_request_to_proto g = commands_to_proto g"

definition client_apply_timed_request_from_proto :: "pb_commands \<Rightarrow> bytes list" where
  "client_apply_timed_request_from_proto p = commands_from_proto p"

definition client_echo_request_to_proto :: "bytes list \<Rightarrow> pb_commands" where
  "client_echo_request_to_proto g = commands_to_proto g"

definition client_echo_request_from_proto :: "pb_commands \<Rightarrow> bytes list" where
  "client_echo_request_from_proto p = commands_from_proto p"

definition client_echo_response_to_proto :: "int \<Rightarrow> pb_client_echo_response" where
  "client_echo_response_to_proto n = \<lparr>per_n = n\<rparr>"

definition client_echo_response_from_proto :: "pb_client_echo_response \<Rightarrow> int" where
  "client_echo_response_from_proto p = per_n p"

definition client_get_hash_request_to_proto :: "u64 \<Rightarrow> pb_client_get_hash_request" where
  "client_get_hash_request_to_proto at_count = \<lparr>phq_at_count = at_count\<rparr>"

definition client_get_hash_request_from_proto :: "pb_client_get_hash_request \<Rightarrow> u64" where
  "client_get_hash_request_from_proto p = phq_at_count p"

lemmas proto_defs = commands_to_proto_def commands_from_proto_def
  entry_meta_to_proto_def entry_meta_from_proto_def
  write_pba_batch_request_to_proto_def write_pba_batch_request_from_proto_def
  write_pba_batch_response_to_proto_def write_pba_batch_response_from_proto_def
  request_vote_request_to_proto_def request_vote_request_from_proto_def
  request_vote_response_to_proto_def request_vote_response_from_proto_def
  append_entries_request_to_proto_def append_entries_request_from_proto_def
  append_entries_response_to_proto_def append_entries_response_from_proto_def
  client_apply_response_to_proto_def client_apply_response_from_proto_def
  client_apply_timed_response_to_proto_def client_apply_timed_response_from_proto_def
  client_get_commit_index_response_to_proto_def client_get_commit_index_response_from_proto_def
  client_get_hash_response_to_proto_def client_get_hash_response_from_proto_def
  client_get_ae_batch_stats_response_to_proto_def client_get_ae_batch_stats_response_from_proto_def
  client_apply_request_to_proto_def client_apply_request_from_proto_def
  client_apply_timed_request_to_proto_def client_apply_timed_request_from_proto_def
  client_echo_request_to_proto_def client_echo_request_from_proto_def
  client_echo_response_to_proto_def client_echo_response_from_proto_def
  client_get_hash_request_to_proto_def client_get_hash_request_from_proto_def

section \<open>Round trips\<close>

text \<open>
  A conversion that loses nothing, in both directions: a message structure is determined by its
  protobuf message and the protobuf message by the structure.
\<close>

locale message_conversion =
  fixes to_pb :: "'g \<Rightarrow> 'p" and from_pb :: "'p \<Rightarrow> 'g"
  assumes from_to: "from_pb (to_pb g) = g" and to_from: "to_pb (from_pb p) = p"
begin

lemma same_message: "to_pb g = to_pb g' \<longleftrightarrow> g = g'"
  by (metis from_to)

lemma bij_conversion: "bij to_pb"
  by (rule bijI') (auto simp: same_message intro: to_from [symmetric])

text \<open>Repeated fields convert element by element.\<close>

lemma from_to_list: "map from_pb (map to_pb gs) = gs"
  by (simp add: comp_def from_to)

lemma to_from_list: "map to_pb (map from_pb ps) = ps"
  by (simp add: comp_def to_from)

end

interpretation meta_conv: message_conversion entry_meta_to_proto entry_meta_from_proto
  by unfold_locales (simp_all add: proto_defs)

interpretation batch_req_conv: message_conversion write_pba_batch_request_to_proto write_pba_batch_request_from_proto
  by unfold_locales (simp_all add: proto_defs)

interpretation batch_rsp_conv: message_conversion write_pba_batch_response_to_proto write_pba_batch_response_from_proto
  by unfold_locales (simp_all add: proto_defs)

interpretation vote_req_conv: message_conversion request_vote_request_to_proto request_vote_request_from_proto
  by unfold_locales (simp_all add: proto_defs)

interpretation vote_rsp_conv: message_conversion request_vote_response_to_proto request_vote_response_from_proto
  by unfold_locales (simp_all add: proto_defs)

interpretation ae_req_conv: message_conversion append_entries_request_to_proto append_entries_request_from_proto
  by unfold_locales (simp_all add: append_entries_request_to_proto_def append_entries_request_from_proto_def
    comp_def meta_conv.from_to meta_conv.to_from)

interpretation ae_rsp_conv: message_conversion append_entries_response_to_proto append_entries_response_from_proto
  by unfold_locales (simp_all add: proto_defs)

interpretation apply_rsp_conv: message_conversion client_apply_response_to_proto client_apply_response_from_proto
  by unfold_locales (simp_all add: proto_defs)

interpretation timed_rsp_conv: message_conversion client_apply_timed_response_to_proto client_apply_timed_response_from_proto
  by unfold_locales (simp_all add: proto_defs)

interpretation commit_rsp_conv: message_conversion client_get_commit_index_response_to_proto client_get_commit_index_response_from_proto
  by unfold_locales (simp_all add: proto_defs)

interpretation hash_rsp_conv: message_conversion client_get_hash_response_to_proto client_get_hash_response_from_proto
  by unfold_locales (simp_all add: proto_defs)

interpretation stats_rsp_conv: message_conversion client_get_ae_batch_stats_response_to_proto client_get_ae_batch_stats_response_from_proto
  by unfold_locales (simp_all add: proto_defs)

interpretation apply_req_conv: message_conversion client_apply_request_to_proto client_apply_request_from_proto
  by unfold_locales (simp_all add: proto_defs)

interpretation timed_req_conv: message_conversion client_apply_timed_request_to_proto client_apply_timed_request_from_proto
  by unfold_locales (simp_all add: proto_defs)

interpretation echo_req_conv: message_conversion client_echo_request_to_proto client_echo_request_from_proto
  by unfold_locales (simp_all add: proto_defs)

interpretation echo_rsp_conv: message_conversion client_echo_response_to_proto client_echo_response_from_proto
  by unfold_locales (simp_all add: proto_defs)

interpretation hash_req_conv: message_conversion client_get_hash_request_to_proto client_get_hash_request_from_proto
  by unfold_locales (simp_all add: proto_defs)

end
