(* ===== verification/Clients.thy ===== *)
theory Clients
  imports Rpc ProtoConv PbaCopy
begin

text \<open>
  \<open>net/src/raft_rpc_clients.cpp\<close>: the transport to the peers, which dials lazily, waits two seconds
  after a failed dial and drops a connection on which a call failed, and the client of the storage
  node. A connection is a number. Dialling and invoking happen outside the lock, so a call is the
  sections \<open>call_start\<close>, \<open>call_dialed\<close> and \<open>call_done\<close>, between which other calls run; \<open>call_peer\<close> is
  their sequence. Times are nanoseconds of the steady clock. Protobuf serialisation is a parameter
  per message type: the result flag with the bytes, and the result flag with the message as it is
  left by the parser.
\<close>

section \<open>Method names and message codecs\<close>

definition kAppendEntries :: string where "kAppendEntries = ''Server.HandleAppendEntriesRequest''"
definition kRequestVote :: string where "kRequestVote = ''Server.HandleRequestVoteRequest''"
definition kClientApply :: string where "kClientApply = ''Server.ClientApply''"
definition kClientApplyTimed :: string where "kClientApplyTimed = ''Server.ClientApplyTimed''"
definition kClientEcho :: string where "kClientEcho = ''Server.ClientEcho''"
definition kClientGetCommitIndex :: string where
  "kClientGetCommitIndex = ''Server.ClientGetCommitIndex''"
definition kClientGetHash :: string where "kClientGetHash = ''Server.ClientGetHash''"
definition kClientGetAEBatchStats :: string where
  "kClientGetAEBatchStats = ''Server.ClientGetAEBatchStats''"
definition kWritePBABatch :: string where "kWritePBABatch = ''BlockCopyServer.HandleWritePBABatch''"

record 'm pb_codec =
  pb_serialize :: "'m \<Rightarrow> bool \<times> bytes"
  pb_parse :: "bytes \<Rightarrow> bool \<times> 'm"

text \<open>What protobuf documents of a message: its bytes parse back to it.\<close>

definition carries :: "'m pb_codec \<Rightarrow> 'm \<Rightarrow> bool" where
  "carries c m \<longleftrightarrow> fst (pb_serialize c m) \<and> pb_parse c (snd (pb_serialize c m)) = (True, m)"

section \<open>The transport to the peers\<close>

definition kDialBackoffSeconds :: int where "kDialBackoffSeconds = 2"
definition kDefaultBlockCopyPort :: int where "kDefaultBlockCopyPort = 5050"

record peer =
  peer_id :: u64
  peer_addr :: string
  peer_conn :: "nat option"
  next_dial_time :: int

definition RpcRaftTransport :: "(u64 \<times> string) list \<Rightarrow> peer list" where
  "RpcRaftTransport eps =
     map (\<lambda>(i, a). \<lparr>peer_id = i, peer_addr = a, peer_conn = None, next_dial_time = 0\<rparr>) eps"

datatype call_plan = GiveUp | Dial string | Invoke nat

definition call_start :: "int \<Rightarrow> int \<Rightarrow> peer list \<Rightarrow> call_plan" where
  "call_start peer_index t ps =
     (if peer_index < 0 \<or> nat peer_index \<ge> length ps then GiveUp
      else
        let p = ps ! nat peer_index in
        case peer_conn p of
          Some c \<Rightarrow> Invoke c
        | None \<Rightarrow> if t < next_dial_time p then GiveUp else Dial (peer_addr p))"

text \<open>The end of a dial: the connection to use, if there is one.\<close>

definition call_dialed :: "nat \<Rightarrow> int \<Rightarrow> string + nat \<Rightarrow> peer list \<Rightarrow> nat option \<times> peer list" where
  "call_dialed i t res ps =
     (case res of
        Inr fresh \<Rightarrow>
          let p = ps ! i;
              p = (if peer_conn p = None then p\<lparr>peer_conn := Some fresh, next_dial_time := 0\<rparr> else p)
          in (peer_conn p, ps[i := p])
      | Inl e \<Rightarrow>
          (None, ps[i := (ps ! i)\<lparr>next_dial_time := t + kDialBackoffSeconds * 1000000000\<rparr>]))"

definition call_done :: "nat \<Rightarrow> nat \<Rightarrow> bytes outcome \<Rightarrow> peer list \<Rightarrow> bytes option \<times> peer list" where
  "call_done i c res ps =
     (case res of
        Ret body \<Rightarrow> (Some body, ps)
      | _ \<Rightarrow> (None, if peer_conn (ps ! i) = Some c then ps[i := (ps ! i)\<lparr>peer_conn := None\<rparr>] else ps))"

definition call_peer ::
  "(string \<Rightarrow> string + nat) \<Rightarrow> (nat \<Rightarrow> string \<Rightarrow> bytes \<Rightarrow> bytes outcome) \<Rightarrow> int \<Rightarrow> int \<Rightarrow>
   int \<Rightarrow> string \<Rightarrow> bytes \<Rightarrow> peer list \<Rightarrow> bytes option \<times> peer list" where
  "call_peer dial invoke t0 t1 peer_index method req_body ps =
     (case call_start peer_index t0 ps of
        GiveUp \<Rightarrow> (None, ps)
      | Invoke c \<Rightarrow> call_done (nat peer_index) c (invoke c method req_body) ps
      | Dial a \<Rightarrow>
          (case call_dialed (nat peer_index) t1 (dial a) ps of
             (None, ps) \<Rightarrow> (None, ps)
           | (Some c, ps) \<Rightarrow> call_done (nat peer_index) c (invoke c method req_body) ps))"

text \<open>
  The two calls of the transport, from the bytes \<open>call_peer\<close> returns for a method and a body; the
  answer is \<open>None\<close> where the code returns false.
\<close>

definition transport_append_entries ::
  "pb_append_entries_request pb_codec \<Rightarrow> pb_append_entries_response pb_codec \<Rightarrow>
   (string \<Rightarrow> bytes \<Rightarrow> bytes option) \<Rightarrow> append_entries_request \<Rightarrow> append_entries_response option" where
  "transport_append_entries cq cr call req =
     (case call kAppendEntries (snd (pb_serialize cq (append_entries_request_to_proto req))) of
        None \<Rightarrow> None
      | Some rsp_body \<Rightarrow>
          let (ok, proto_rsp) = pb_parse cr rsp_body
          in if ok then Some (append_entries_response_from_proto proto_rsp) else None)"

definition transport_request_vote ::
  "pb_request_vote_request pb_codec \<Rightarrow> pb_request_vote_response pb_codec \<Rightarrow>
   (string \<Rightarrow> bytes \<Rightarrow> bytes option) \<Rightarrow> request_vote_request \<Rightarrow> request_vote_response option" where
  "transport_request_vote cq cr call req =
     (case call kRequestVote (snd (pb_serialize cq (request_vote_request_to_proto req))) of
        None \<Rightarrow> None
      | Some rsp_body \<Rightarrow>
          let (ok, proto_rsp) = pb_parse cr rsp_body
          in if ok then Some (request_vote_response_from_proto proto_rsp) else None)"

section \<open>The client of the storage node\<close>

record bc_client =
  bc_host :: string
  bc_conn :: "nat option"

definition RpcBlockCopyClient :: "string \<Rightarrow> bc_client" where
  "RpcBlockCopyClient host =
     \<lparr>bc_host = (if host \<noteq> [] \<and> CHR '':'' \<notin> set host
                 then host @ '':'' @ to_string kDefaultBlockCopyPort else host),
      bc_conn = None\<rparr>"

definition bc_connect :: "(string \<Rightarrow> string + nat) \<Rightarrow> bc_client \<Rightarrow> (string + nat) \<times> bc_client" where
  "bc_connect dial c =
     (case bc_conn c of
        Some h \<Rightarrow> (Inr h, c)
      | None \<Rightarrow>
          (case dial (bc_host c) of
             Inl e \<Rightarrow> (Inl (''connect to storage node failed: '' @ e), c)
           | Inr h \<Rightarrow> (Inr h, c\<lparr>bc_conn := Some h\<rparr>)))"

text \<open>The result: an error text, or the copy time. The text of an undefined outcome is empty.\<close>

definition write_pba_batch ::
  "pb_write_pba_batch_request pb_codec \<Rightarrow> pb_write_pba_batch_response pb_codec \<Rightarrow>
   (string \<Rightarrow> string + nat) \<Rightarrow> (nat \<Rightarrow> string \<Rightarrow> bytes \<Rightarrow> bytes outcome) \<Rightarrow>
   u64 list \<Rightarrow> u64 list \<Rightarrow> u64 list \<Rightarrow> int \<Rightarrow> int \<Rightarrow> bc_client \<Rightarrow> (string + int) \<times> bc_client" where
  "write_pba_batch cq cr dial invoke srcs dsts sizes sdev ddev c =
     (if srcs = [] then (Inr 0, c)
      else if bc_host c = [] then (Inl ''no storage host configured'', c)
      else case bc_connect dial c of
        (Inl e, c) \<Rightarrow> (Inl e, c)
      | (Inr conn, c) \<Rightarrow>
          let req = \<lparr>pba_srcs = srcs, pba_dsts = dsts, batch_nbytes = sizes, block_size = 0,
                batch_src_dev = sdev, batch_dst_dev = ddev\<rparr>;
              (ok, body) = pb_serialize cq (write_pba_batch_request_to_proto req)
          in if \<not> ok then (Inl ''serialize WritePBABatch request failed'', c)
             else case invoke conn kWritePBABatch body of
               Ret rsp_body \<Rightarrow>
                 let (ok, proto_rsp) = pb_parse cr rsp_body in
                 if \<not> ok then (Inl ''parse WritePBABatch response failed'', c)
                 else
                   let rsp = write_pba_batch_response_from_proto proto_rsp in
                   if batch_error rsp \<noteq> [] then (Inl (''blkcopy storage error: '' @ batch_error rsp), c)
                   else (Inr (batch_copy_nanos rsp), c)
             | Exc e \<Rightarrow>
                 (Inl (''blkcopy remote error: '' @ e),
                  if bc_conn c = Some conn then c\<lparr>bc_conn := None\<rparr> else c)
             | Ub \<Rightarrow> (Inl '''', c))"

section \<open>Back-off and invalidation\<close>

text \<open>What the sections of concurrent calls do to the table of peers.\<close>

datatype peer_event = Dialed nat int "string + nat" | Done nat nat "bytes outcome"

definition peer_step :: "peer_event \<Rightarrow> peer list \<Rightarrow> peer list" where
  "peer_step ev ps = (case ev of
      Dialed i t res \<Rightarrow> snd (call_dialed i t res ps)
    | Done i c res \<Rightarrow> snd (call_done i c res ps))"

definition failed_on :: "nat \<Rightarrow> nat \<Rightarrow> peer_event \<Rightarrow> bool" where
  "failed_on i c ev \<longleftrightarrow> (case ev of Dialed _ _ _ \<Rightarrow> False
     | Done i' c' res \<Rightarrow> i' = i \<and> c' = c \<and> (\<forall>b. res \<noteq> Ret b))"

lemma peer_step_keeps:
  assumes "peer_conn (ps ! i) = Some c" "\<not> failed_on i c ev"
  shows "peer_conn (peer_step ev ps ! i) = Some c"
proof (cases ev)
  case (Dialed j t res)
  then show ?thesis
    using assms
    by (cases res; cases "i < length ps"; cases "j = i")
      (auto simp: peer_step_def call_dialed_def Let_def nth_list_update list_update_beyond)
next
  case (Done j c' res)
  then show ?thesis
    using assms
    by (cases res; cases "i < length ps"; cases "j = i")
      (auto simp: peer_step_def call_done_def failed_on_def nth_list_update list_update_beyond)
qed

text \<open>No dial of the peer succeeds, and none ends before \<open>t1\<close>.\<close>

definition no_dial_succeeds :: "nat \<Rightarrow> int \<Rightarrow> peer_event \<Rightarrow> bool" where
  "no_dial_succeeds i t1 ev \<longleftrightarrow> (case ev of Dialed j t res \<Rightarrow> j = i \<longrightarrow> (\<exists>e. res = Inl e) \<and> t1 \<le> t | Done _ _ _ \<Rightarrow> True)"

lemma peer_step_pause:
  assumes "i < length ps" "t1 + 2000000000 \<le> next_dial_time (ps ! i)" "no_dial_succeeds i t1 ev"
  shows "i < length (peer_step ev ps)" "t1 + 2000000000 \<le> next_dial_time (peer_step ev ps ! i)"
proof -
  have u: "ps[j := p] ! i = (if j = i then p else ps ! i)" for j p using assms(1) by auto
  show "i < length (peer_step ev ps)" "t1 + 2000000000 \<le> next_dial_time (peer_step ev ps ! i)"
    using assms
    by (auto simp: peer_step_def no_dial_succeeds_def call_dialed_def call_done_def kDialBackoffSeconds_def Let_def u
      split: peer_event.splits sum.splits outcome.splits)
qed

lemma peer_steps_pause:
  assumes "i < length ps" "t1 + 2000000000 \<le> next_dial_time (ps ! i)" "\<forall>ev \<in> set evs. no_dial_succeeds i t1 ev"
  shows "i < length (fold peer_step evs ps) \<and> t1 + 2000000000 \<le> next_dial_time (fold peer_step evs ps ! i)"
  using assms
proof (induction evs arbitrary: ps)
  case (Cons ev evs)
  from peer_step_pause [of i ps t1 ev] Cons show ?case by simp
qed simp

text \<open>
  C25. The transport keeps a good connection and gives a dead peer a pause. In every interleaving of
  the calls' lock sections a peer's connection stays until a call on that very connection fails, so a
  late failure on an old connection does not drop the one another call has opened. And after a failed
  dial of a peer, whatever calls to it and to others start, end and fail in between, no call dials the
  peer before two seconds have passed, unless a dial that was already under way has succeeded.
\<close>

theorem peer_connections:
  "(peer_conn (ps ! i) = Some c \<and> (\<forall>ev \<in> set evs. \<not> failed_on i c ev) \<longrightarrow>
     peer_conn (fold peer_step evs ps ! i) = Some c) \<and>
   (i < length ps \<and> (\<forall>ev \<in> set evs. no_dial_succeeds i t1 ev) \<and> t < t1 + 2000000000 \<longrightarrow>
     call_start (int i) t (fold peer_step evs (peer_step (Dialed i t1 (Inl e)) ps)) \<noteq> Dial a)"
proof -
  have "peer_conn (fold peer_step evs ps ! i) = Some c"
    if "peer_conn (ps ! i) = Some c" "\<forall>ev \<in> set evs. \<not> failed_on i c ev"
    using that by (induction evs arbitrary: ps) (auto simp: peer_step_keeps)
  moreover have "call_start (int i) t (fold peer_step evs (peer_step (Dialed i t1 (Inl e)) ps)) \<noteq> Dial a"
    if i: "i < length ps" and evs: "\<forall>ev \<in> set evs. no_dial_succeeds i t1 ev" and t: "t < t1 + 2000000000"
  proof -
    let ?ps = "peer_step (Dialed i t1 (Inl e)) ps"
    have "i < length ?ps" "t1 + 2000000000 \<le> next_dial_time (?ps ! i)"
      using i by (simp_all add: peer_step_def call_dialed_def kDialBackoffSeconds_def)
    from peer_steps_pause [OF this evs] t show ?thesis by (auto simp: call_start_def Let_def split: option.splits)
  qed
  ultimately show ?thesis by blast
qed

theorem peer_connections_witness:
  "let ps = RpcRaftTransport [(1, ''n1:9000''), (2, ''n2:9000'')];
       ps1 = snd (call_dialed 0 5 (Inr 7) ps)
   in peer_conn (fold peer_step [Done 0 6 (Exc ''closed''), Done 1 7 (Exc ''closed'')] ps1 ! 0) = Some 7 \<and>
      call_start 1 1000 (fold peer_step [Done 0 7 (Exc ''closed''), Dialed 1 6 (Inl ''refused'')]
        (peer_step (Dialed 1 5 (Inl ''refused'')) ps1)) \<noteq> Dial ''n2:9000''"
proof -
  define ps where "ps = RpcRaftTransport [(1, ''n1:9000''), (2, ''n2:9000'')]"
  define ps1 where "ps1 = snd (call_dialed 0 5 (Inr 7) ps)"
  have c: "peer_conn (ps1 ! 0) = Some 7" "length ps1 = 2"
    by (simp_all add: ps1_def ps_def RpcRaftTransport_def call_dialed_def)
  show ?thesis
    using peer_connections [of ps1 0 7 "[Done 0 6 (Exc ''closed''), Done 1 7 (Exc ''closed'')]"]
      peer_connections [of ps1 1 0 "[Done 0 7 (Exc ''closed''), Dialed 1 6 (Inl ''refused'')]" 5 1000 "''refused''" "''n2:9000''"] c
    unfolding Let_def ps_def [symmetric] ps1_def [symmetric]
    by (simp add: failed_on_def no_dial_succeeds_def)
qed

end
