(* ===== verification/StateMachines.thy ===== *)
theory StateMachines
  imports State Wire
begin

text \<open>
  The two state machines a node can be started with: \<open>HashStateMachine\<close>
  (\<open>net/include/raft_statemachine_hash.h\<close>) keeps an FNV-1a hash of all command bytes and a count,
  \<open>NoopStateMachine\<close> (\<open>core/include/raft_statemachine_noop.h\<close>) the count only. The server model of
  theory \<open>State\<close> has its state machine as a function from the commands applied so far and the next
  command to an answer; \<open>replies\<close> gives that function for a machine with a state of its own.
\<close>

section \<open>Operations\<close>

text \<open>The loop that writes the count into the eight bytes of the result.\<close>

definition count_bytes :: "u64 \<Rightarrow> bytes" where
  "count_bytes c = map (\<lambda>i. ucast (drop_bit (8 * i) c AND 0xFF)) [0..<8]"

record hash_machine =
  hm_hash :: u64
  hm_count :: u64

definition HashStateMachine :: hash_machine where
  "HashStateMachine = \<lparr>hm_hash = 14695981039346656037, hm_count = 0\<rparr>"

definition fnv_byte :: "u8 \<Rightarrow> u64 \<Rightarrow> u64" where
  "fnv_byte b h = (h XOR ucast b) * 1099511628211"

definition hash_apply :: "bytes \<Rightarrow> hash_machine \<Rightarrow> apply_result \<times> hash_machine" where
  "hash_apply cmd m =
     (let m = m\<lparr>hm_hash := fold fnv_byte cmd (hm_hash m)\<rparr>;
          m = m\<lparr>hm_count := hm_count m + 1\<rparr>
      in (\<lparr>res_result = count_bytes (hm_count m), res_error = []\<rparr>, m))"

text \<open>\<open>snprintf\<close> with \<open>%016llx\<close>: sixteen hexadecimal digits, the most significant first.\<close>

definition hex_digit :: "nat \<Rightarrow> char" where
  "hex_digit d = char_of (if d < 10 then 48 + d else 87 + d)"

definition hex16 :: "u64 \<Rightarrow> string" where
  "hex16 h = map (\<lambda>i. hex_digit (unat (drop_bit (4 * (15 - i)) h AND 0xF))) [0..<16]"

definition snapshot :: "hash_machine \<Rightarrow> string \<times> u64" where
  "snapshot m = (hex16 (hm_hash m), hm_count m)"

definition noop_apply :: "bytes \<Rightarrow> u64 \<Rightarrow> apply_result \<times> u64" where
  "noop_apply cmd c = (let c = c + 1 in (\<lparr>res_result = count_bytes c, res_error = []\<rparr>, c))"

section \<open>Machines as functions of the history\<close>

definition run_machine :: "(bytes \<Rightarrow> 'm \<Rightarrow> apply_result \<times> 'm) \<Rightarrow> 'm \<Rightarrow> bytes list \<Rightarrow> 'm" where
  "run_machine ap m cmds = fold (\<lambda>c m. snd (ap c m)) cmds m"

definition replies ::
  "(bytes \<Rightarrow> 'm \<Rightarrow> apply_result \<times> 'm) \<Rightarrow> 'm \<Rightarrow> bytes list \<Rightarrow> bytes \<Rightarrow> apply_result" where
  "replies ap m history cmd = fst (ap cmd (run_machine ap m history))"

text \<open>
  The contract both machines keep: the answer to a command is the number of commands applied so far,
  eight bytes little-endian, with no error. A machine that keeps it is described by how it counts.
\<close>

locale counting_machine =
  fixes ap :: "bytes \<Rightarrow> 'm \<Rightarrow> apply_result \<times> 'm" and start :: 'm and cnt :: "'m \<Rightarrow> u64"
  assumes start_zero: "cnt start = 0"
    and counts: "cnt (snd (ap c m)) = cnt m + 1"
    and answers: "fst (ap c m) = \<lparr>res_result = count_bytes (cnt m + 1), res_error = []\<rparr>"
begin

lemma count_run: "cnt (run_machine ap m cmds) = cnt m + of_nat (length cmds)"
  by (induction cmds arbitrary: m) (simp_all add: run_machine_def counts)

lemma reply_position:
  "replies ap start history cmd = \<lparr>res_result = count_bytes (of_nat (length history) + 1), res_error = []\<rparr>"
  by (simp add: replies_def answers count_run start_zero)

end

interpretation hash_sm: counting_machine hash_apply HashStateMachine hm_count
  by unfold_locales (simp_all add: hash_apply_def HashStateMachine_def Let_def)

interpretation noop_sm: counting_machine noop_apply 0 "\<lambda>c. c"
  by unfold_locales (simp_all add: noop_apply_def Let_def)

section \<open>Properties\<close>

text \<open>
  The no-operation machine answers like the hash machine: after the same commands both return the
  position of the command in the log, so that a client cannot tell which one a node runs.
\<close>

theorem noop_answers_like_hash:
  "replies noop_apply 0 history cmd = replies hash_apply HashStateMachine history cmd"
  by (simp add: hash_sm.reply_position noop_sm.reply_position)

lemma hash_run: "hm_hash (run_machine hash_apply m cmds) = fold fnv_byte (concat cmds) (hm_hash m)"
  by (induction cmds arbitrary: m) (simp_all add: run_machine_def hash_apply_def Let_def)

lemma hex_digit_inj: "d < 16 \<Longrightarrow> e < 16 \<Longrightarrow> hex_digit d = hex_digit e \<Longrightarrow> d = e"
proof -
  assume "d < 16" "e < 16" "hex_digit d = hex_digit e"
  then have "of_char (hex_digit d) = (of_char (hex_digit e) :: nat)" by simp
  then show "d = e"
    using \<open>d < 16\<close> \<open>e < 16\<close> by (auto simp: hex_digit_def of_char_of split: if_splits)
qed

lemma hex16_inj: "hex16 a = hex16 b \<Longrightarrow> a = b"
proof (rule bit_word_eqI)
  fix n assume eq: "hex16 a = hex16 b" and "n < LENGTH(64)"
  then have n: "n < 64" by simp
  let ?i = "15 - n div 4"
  have i: "?i < 16" "15 - ?i = n div 4" using n by auto
  have lt: "unat (drop_bit k (w :: u64) AND 0xF) < 16" for k w
  proof -
    have "drop_bit k w AND 0xF \<le> 0xF" by (metis word_and_le1)
    then show ?thesis by (simp add: word_le_nat_alt)
  qed
  have "hex16 a ! ?i = hex16 b ! ?i" using eq by simp
  then have "hex_digit (unat (drop_bit (4 * (n div 4)) a AND 0xF)) =
      hex_digit (unat (drop_bit (4 * (n div 4)) b AND 0xF))"
    using i by (simp add: hex16_def)
  from hex_digit_inj [OF lt lt this]
  have "drop_bit (4 * (n div 4)) a AND 0xF = drop_bit (4 * (n div 4)) b AND 0xF"
    by (simp only: word_unat_eq_iff)
  then have "bit (drop_bit (4 * (n div 4)) a AND 0xF) (n mod 4) = bit (drop_bit (4 * (n div 4)) b AND 0xF) (n mod 4)"
    by simp
  moreover have "(0xF :: u64) = mask 4" by (simp add: mask_eq_exp_minus_1)
  moreover have "n mod 4 < 64" using n by (meson le_less_trans mod_less_eq_dividend)
  ultimately show "bit a n = bit b n" by (simp add: bit_simps)
qed

text \<open>
  A snapshot identifies what was applied: its count is the number of commands and its text the
  FNV-1a hash over their bytes in order, and two nodes that report the same text have the same hash.
\<close>

theorem snapshot_of_run:
  "snapshot (run_machine hash_apply HashStateMachine cmds) =
     (hex16 (fold fnv_byte (concat cmds) 14695981039346656037), of_nat (length cmds)) \<and>
   (hex16 a = hex16 b \<longleftrightarrow> a = b)"
proof -
  have "hm_count (run_machine hash_apply HashStateMachine cmds) = of_nat (length cmds)"
    by (simp add: hash_sm.count_run hash_sm.start_zero)
  moreover have "hm_hash (run_machine hash_apply HashStateMachine cmds) =
      fold fnv_byte (concat cmds) 14695981039346656037"
    by (simp add: hash_run HashStateMachine_def)
  ultimately show ?thesis using hex16_inj by (auto simp: snapshot_def)
qed

end
