(* ===== verification/Dispatch.thy ===== *)
theory Dispatch
  imports Clients StateMachines Apply
begin

text \<open>
  Method dispatch on both servers: \<open>net/src/raft_tcp_server.cpp\<close> for a Raft node and
  \<open>net/src/raft_blockcopy_net.cpp\<close> for a storage node. A body is parsed, converted, handed to the
  handler, and the answer converted and serialised; the result of \<open>ParseFromArray\<close> is not looked at,
  so after a failed parse the handler sees the message as the parser left it.

  The calls of a running node that wait for other threads are arguments: what \<open>Server::apply\<close> and
  \<open>Server::apply_timed\<close> end with (theory \<open>Apply\<close> has their sections), the block copy client, the
  measured times of the AppendEntries handler, and the snapshots that successive readings of a hash
  state machine give, \<open>None\<close> for a node that runs another state machine.
\<close>

section \<open>Codecs and environment\<close>

record pb_lib =
  lib_ae_req :: "pb_append_entries_request pb_codec"
  lib_ae_rsp :: "pb_append_entries_response pb_codec"
  lib_vote_req :: "pb_request_vote_request pb_codec"
  lib_vote_rsp :: "pb_request_vote_response pb_codec"
  lib_apply_req :: "pb_commands pb_codec"
  lib_apply_rsp :: "pb_client_apply_response pb_codec"
  lib_timed_req :: "pb_commands pb_codec"
  lib_timed_rsp :: "pb_client_apply_timed_response pb_codec"
  lib_echo_req :: "pb_commands pb_codec"
  lib_echo_rsp :: "pb_client_echo_response pb_codec"
  lib_commit_rsp :: "pb_client_get_commit_index_response pb_codec"
  lib_hash_req :: "pb_client_get_hash_request pb_codec"
  lib_hash_rsp :: "pb_client_get_hash_response pb_codec"
  lib_stats_rsp :: "pb_client_get_ae_batch_stats_response pb_codec"

record node_calls =
  nc_apply :: "bytes list \<Rightarrow> server \<Rightarrow> ((apply_result \<times> bool) \<times> server) option"
  nc_apply_timed :: "bytes list \<Rightarrow> server \<Rightarrow> ((apply_result \<times> apply_timings \<times> bool) \<times> server) option"
  nc_copy :: blockcopy_client
  nc_times :: handler_times
  nc_hash :: "(nat \<Rightarrow> string \<times> u64) option"

section \<open>Client methods\<close>

definition client_apply_rsp :: "apply_result \<Rightarrow> bool \<Rightarrow> client_apply_response" where
  "client_apply_rsp res busy =
     \<lparr>car_error = res_error res, car_busy = busy,
      car_retry_after_ms = (if busy then apply_busy_retry_after_ms else 0)\<rparr>"

definition client_apply_timed_rsp ::
  "apply_result \<Rightarrow> apply_timings \<Rightarrow> bool \<Rightarrow> client_apply_timed_response" where
  "client_apply_timed_rsp res t busy =
     \<lparr>ctr_error = res_error res, ctr_l_handler_ns = at_l_handler t, ctr_l_persist_ns = at_l_persist t,
      ctr_ae_net_ns = at_ae_net t, ctr_f_handler_ns = at_f_handler t, ctr_repl_net_ns = at_repl_net t,
      ctr_storage_io_ns = at_storage_io t, ctr_quorum_wait_ns = at_quorum_wait t, ctr_mutex_ns = at_mutex t,
      ctr_total_ns = at_total t, ctr_busy = busy,
      ctr_retry_after_ms = (if busy then apply_busy_retry_after_ms else 0),
      ctr_post_rpc_ns = at_post_rpc t, ctr_commit_wait_ns = at_commit_wait t,
      ctr_wg_scheduling_ns = at_wg_scheduling t\<rparr>"

definition echo_size :: "bytes list \<Rightarrow> int" where
  "echo_size commands = fold (\<lambda>c n. n + int (length c)) commands 0"

text \<open>The waiting loop: a first reading, then at most \<open>left\<close> more while the count is too low.\<close>

fun poll_hash :: "nat \<Rightarrow> u64 \<Rightarrow> (nat \<Rightarrow> string \<times> u64) \<Rightarrow> nat \<Rightarrow> string \<times> u64" where
  "poll_hash 0 at_count snaps i = snaps i"
| "poll_hash (Suc left) at_count snaps i =
     (if snd (snaps i) < at_count then poll_hash left at_count snaps (Suc i) else snaps i)"

definition client_hash_rsp :: "(nat \<Rightarrow> string \<times> u64) option \<Rightarrow> u64 \<Rightarrow> client_get_hash_response" where
  "client_hash_rsp hash at_count =
     (case hash of
        None \<Rightarrow>
          \<lparr>chr_hash = [], chr_count = 0,
           chr_error = ''state machine does not expose a hash -- start the node with -statemachine hash''\<rparr>
      | Some snaps \<Rightarrow>
          let snap = (if at_count > 0 then poll_hash 2000 at_count snaps 0 else snaps 0)
          in \<lparr>chr_hash = fst snap, chr_count = snd snap,
              chr_error = (if at_count > 0 \<and> snd snap \<noteq> at_count
                then ''count '' @ to_string (uint (snd snap)) @ '' != requested '' @ to_string (uint at_count)
                else [])\<rparr>)"

definition dispatch_client_method :: "pb_lib \<Rightarrow> node_calls \<Rightarrow> server dispatcher" where
  "dispatch_client_method lib nc method body s =
     (let reply = (\<lambda>bs s. Some (Ret (True, bs), s)) in
      if method = kClientApply then
        let commands = client_apply_request_from_proto (snd (pb_parse (lib_apply_req lib) body)) in
        case nc_apply nc commands s of
          None \<Rightarrow> None
        | Some ((res, busy), s) \<Rightarrow>
            reply (snd (pb_serialize (lib_apply_rsp lib)
                     (client_apply_response_to_proto (client_apply_rsp res busy)))) s
      else if method = kClientApplyTimed then
        let commands = client_apply_timed_request_from_proto (snd (pb_parse (lib_timed_req lib) body)) in
        case nc_apply_timed nc commands s of
          None \<Rightarrow> None
        | Some ((res, t, busy), s) \<Rightarrow>
            reply (snd (pb_serialize (lib_timed_rsp lib)
                     (client_apply_timed_response_to_proto (client_apply_timed_rsp res t busy)))) s
      else if method = kClientEcho then
        let commands = client_echo_request_from_proto (snd (pb_parse (lib_echo_req lib) body)) in
        reply (snd (pb_serialize (lib_echo_rsp lib)
                 (client_echo_response_to_proto (echo_size commands)))) s
      else if method = kClientGetCommitIndex then
        reply (snd (pb_serialize (lib_commit_rsp lib)
                 (client_get_commit_index_response_to_proto
                    \<lparr>cir_commit_index = commit_index (raft s), cir_error = []\<rparr>))) s
      else if method = kClientGetHash then
        let at_count = client_get_hash_request_from_proto (snd (pb_parse (lib_hash_req lib) body)) in
        reply (snd (pb_serialize (lib_hash_rsp lib)
                 (client_get_hash_response_to_proto (client_hash_rsp (nc_hash nc) at_count)))) s
      else if method = kClientGetAEBatchStats then
        reply (snd (pb_serialize (lib_stats_rsp lib)
                 (client_get_ae_batch_stats_response_to_proto
                    \<lparr>csr_ae_count = ae_count (prof s), csr_ae_entries = ae_entries (prof s), csr_error = []\<rparr>))) s
      else Some (Ret (False, []), s))"

section \<open>The dispatcher of a Raft node\<close>

definition dispatch_raft_method :: "pb_lib \<Rightarrow> node_calls \<Rightarrow> server dispatcher" where
  "dispatch_raft_method lib nc method body s =
     (if method = kAppendEntries then
        let req = append_entries_request_from_proto (snd (pb_parse (lib_ae_req lib) body)) in
        Some (andthen (handle_append_entries (nc_copy nc) (nc_times nc) req s) (\<lambda>rsp s.
          (Ret (True, snd (pb_serialize (lib_ae_rsp lib) (append_entries_response_to_proto rsp))), s)))
      else if method = kRequestVote then
        let req = request_vote_request_from_proto (snd (pb_parse (lib_vote_req lib) body)) in
        Some (andthen (handle_request_vote_request req s) (\<lambda>rsp s.
          (Ret (True, snd (pb_serialize (lib_vote_rsp lib) (request_vote_response_to_proto rsp))), s)))
      else dispatch_client_method lib nc method body s)"

section \<open>The dispatcher of a storage node\<close>

definition dispatch_blockcopy_method ::
  "pb_write_pba_batch_request pb_codec \<Rightarrow> pb_write_pba_batch_response pb_codec \<Rightarrow>
   (nat \<times> io_event) list \<Rightarrow> (blockcopy_server \<times> devices) dispatcher" where
  "dispatch_blockcopy_method cq cr sched method body st =
     (if method = kWritePBABatch then
        let req = write_pba_batch_request_from_proto (snd (pb_parse cq body)) in
        map_option (\<lambda>(rsp, st).
            (Ret (True, snd (pb_serialize cr (write_pba_batch_response_to_proto rsp))), st))
          (handle_write_pba_batch sched req (fst st) (snd st))
      else Some (Ret (False, []), st))"

section \<open>Remote calls are handler calls\<close>

lemmas method_names = kAppendEntries_def kRequestVote_def kClientApply_def kClientApplyTimed_def
  kClientEcho_def kClientGetCommitIndex_def kClientGetHash_def kClientGetAEBatchStats_def kWritePBABatch_def

text \<open>What \<open>call_peer\<close> gets back over a working connection to a node.\<close>

definition remote_call ::
  "'st dispatcher \<Rightarrow> (nat \<Rightarrow> int) \<Rightarrow> 'st \<Rightarrow> string \<Rightarrow> bytes \<Rightarrow> bytes option" where
  "remote_call dispatch lim st method body = (case wire_call dispatch lim method body st of
      Some (Ret rsp, st') \<Rightarrow> Some rsp
    | _ \<Rightarrow> None)"

text \<open>
  RequestVote across the wire: the candidate's \<open>request_vote\<close> returns what the voter's handler
  answers to the same request, and the voter's state is the one its handler leaves. With a protobuf
  library whose messages parse back, frames and conversions lose nothing on the way.
\<close>

theorem remote_request_vote:
  assumes h: "handle_request_vote_request req s = (Ret rsp, s')"
    and q: "carries (lib_vote_req lib) (request_vote_request_to_proto req)"
    and r: "carries (lib_vote_rsp lib) (request_vote_response_to_proto rsp)"
    and len: "length (snd (pb_serialize (lib_vote_req lib) (request_vote_request_to_proto req))) < 2 ^ 32"
      "length (snd (pb_serialize (lib_vote_rsp lib) (request_vote_response_to_proto rsp))) < 2 ^ 32"
    and lim: "\<forall>n. 0 < lim n"
  shows "transport_request_vote (lib_vote_req lib) (lib_vote_rsp lib)
      (remote_call (dispatch_raft_method lib nc) lim s) req = Some rsp \<and>
    wire_call (dispatch_raft_method lib nc) lim kRequestVote
      (snd (pb_serialize (lib_vote_req lib) (request_vote_request_to_proto req))) s =
      Some (Ret (snd (pb_serialize (lib_vote_rsp lib) (request_vote_response_to_proto rsp))), s')"
proof -
  let ?b = "snd (pb_serialize (lib_vote_req lib) (request_vote_request_to_proto req))"
  let ?r = "snd (pb_serialize (lib_vote_rsp lib) (request_vote_response_to_proto rsp))"
  have "dispatch_raft_method lib nc kRequestVote ?b s = Some (Ret (True, ?r), s')"
    using q h by (simp add: dispatch_raft_method_def carries_def vote_req_conv.from_to)
      (simp add: method_names)
  then have "answer (dispatch_raft_method lib nc) (str_bytes kRequestVote) ?b s = Some (Ret ([], ?r), s')"
    by (simp add: answer_def)
  from wire_call_ok [OF _ _ len(1) lim this _ len(2)]
  have "wire_call (dispatch_raft_method lib nc) lim kRequestVote ?b s = Some (Ret ?r, s')"
    by (simp add: method_names)
  then show ?thesis
    using r by (simp add: transport_request_vote_def remote_call_def carries_def vote_rsp_conv.from_to)
qed

text \<open>
  C17. AppendEntries across the wire: the leader's \<open>append_entries\<close> returns what the follower's
  handler answers to the same request, metadata records and timings included, and the follower's
  state is the one its handler leaves.
\<close>

theorem remote_append_entries:
  assumes h: "handle_append_entries (nc_copy nc) (nc_times nc) req s = (Ret rsp, s')"
    and q: "carries (lib_ae_req lib) (append_entries_request_to_proto req)"
    and r: "carries (lib_ae_rsp lib) (append_entries_response_to_proto rsp)"
    and len: "length (snd (pb_serialize (lib_ae_req lib) (append_entries_request_to_proto req))) < 2 ^ 32"
      "length (snd (pb_serialize (lib_ae_rsp lib) (append_entries_response_to_proto rsp))) < 2 ^ 32"
    and lim: "\<forall>n. 0 < lim n"
  shows "transport_append_entries (lib_ae_req lib) (lib_ae_rsp lib)
      (remote_call (dispatch_raft_method lib nc) lim s) req = Some rsp \<and>
    wire_call (dispatch_raft_method lib nc) lim kAppendEntries
      (snd (pb_serialize (lib_ae_req lib) (append_entries_request_to_proto req))) s =
      Some (Ret (snd (pb_serialize (lib_ae_rsp lib) (append_entries_response_to_proto rsp))), s')"
proof -
  let ?b = "snd (pb_serialize (lib_ae_req lib) (append_entries_request_to_proto req))"
  let ?r = "snd (pb_serialize (lib_ae_rsp lib) (append_entries_response_to_proto rsp))"
  have "dispatch_raft_method lib nc kAppendEntries ?b s = Some (Ret (True, ?r), s')"
    using q h by (simp add: dispatch_raft_method_def carries_def ae_req_conv.from_to)
  then have "answer (dispatch_raft_method lib nc) (str_bytes kAppendEntries) ?b s = Some (Ret ([], ?r), s')"
    by (simp add: answer_def)
  from wire_call_ok [OF _ _ len(1) lim this _ len(2)]
  have "wire_call (dispatch_raft_method lib nc) lim kAppendEntries ?b s = Some (Ret ?r, s')"
    by (simp add: method_names)
  then show ?thesis
    using r by (simp add: transport_append_entries_def remote_call_def carries_def ae_rsp_conv.from_to)
qed

section \<open>Calls between sample nodes\<close>

text \<open>A codec of the vote messages: the fields as eight-byte words, and one byte for the grant.\<close>

definition vote_req_codec :: "pb_request_vote_request pb_codec" where
  "vote_req_codec =
     \<lparr>pb_serialize = \<lambda>m. (True, mem_of 8 (pvq_term m) @ mem_of 8 (pvq_candidate_id m) @
         mem_of 8 (pvq_last_log_index m) @ mem_of 8 (pvq_last_log_term m)),
      pb_parse = \<lambda>b. (length b = 32,
        \<lparr>pvq_term = mem_to (take 8 b), pvq_candidate_id = mem_to (take 8 (drop 8 b)),
         pvq_last_log_index = mem_to (take 8 (drop 16 b)), pvq_last_log_term = mem_to (drop 24 b)\<rparr>)\<rparr>"

definition vote_rsp_codec :: "pb_request_vote_response pb_codec" where
  "vote_rsp_codec =
     \<lparr>pb_serialize = \<lambda>m. (True, mem_of 8 (pvr_term m) @ [if pvr_vote_granted m then 1 else 0]),
      pb_parse = \<lambda>b. (length b = 9, \<lparr>pvr_term = mem_to (take 8 b), pvr_vote_granted = b ! 8 = 1\<rparr>)\<rparr>"

lemma vote_codecs_carry: "carries vote_req_codec m" "carries vote_rsp_codec r"
  using mem_to_of [where ?'a = 64 and n = 8]
  by (simp_all add: carries_def vote_req_codec_def vote_rsp_codec_def nth_append)

text \<open>A codec for one message.\<close>

definition fixed_codec :: "'m \<Rightarrow> 'm pb_codec" where
  "fixed_codec m = \<lparr>pb_serialize = \<lambda>_. (True, [1]), pb_parse = \<lambda>_. (True, m)\<rparr>"

lemma fixed_codec_carries: "carries (fixed_codec m) m" "length (snd (pb_serialize (fixed_codec m) m')) < 2 ^ 32"
  by (simp_all add: carries_def fixed_codec_def)

definition sample_lib ::
  "pb_append_entries_request \<Rightarrow> pb_append_entries_response \<Rightarrow> pb_lib" where
  "sample_lib q r =
     \<lparr>lib_ae_req = fixed_codec q, lib_ae_rsp = fixed_codec r, lib_vote_req = vote_req_codec,
      lib_vote_rsp = vote_rsp_codec, lib_apply_req = fixed_codec \<lparr>pc_commands = []\<rparr>,
      lib_apply_rsp = fixed_codec (client_apply_response_to_proto (client_apply_rsp ok_result False)),
      lib_timed_req = fixed_codec \<lparr>pc_commands = []\<rparr>,
      lib_timed_rsp = fixed_codec (client_apply_timed_response_to_proto
        (client_apply_timed_rsp ok_result ApplyTimings False)),
      lib_echo_req = fixed_codec \<lparr>pc_commands = []\<rparr>, lib_echo_rsp = fixed_codec \<lparr>per_n = 0\<rparr>,
      lib_commit_rsp = fixed_codec \<lparr>pir_commit_index = 0, pir_err = []\<rparr>,
      lib_hash_req = fixed_codec \<lparr>phq_at_count = 0\<rparr>,
      lib_hash_rsp = fixed_codec \<lparr>phr_hash = [], phr_count = 0, phr_err = []\<rparr>,
      lib_stats_rsp = fixed_codec \<lparr>psr_ae_count = 0, psr_ae_entries = 0, psr_err = []\<rparr>\<rparr>"

definition sample_calls :: node_calls where
  "sample_calls =
     \<lparr>nc_apply = \<lambda>cmds s. Some ((ok_result, False), s),
      nc_apply_timed = \<lambda>cmds s. Some ((ok_result, ApplyTimings, False), s),
      nc_copy = no_copy, nc_times = sample_handler_times, nc_hash = None\<rparr>"

definition stale_vote :: request_vote_request where
  "stale_vote = \<lparr>rvq_term = 0, candidate_id = 2, last_log_index = 3, last_log_term = 1\<rparr>"

lemma stale_vote_refused:
  "handle_request_vote_request stale_vote sample_node =
     (Ret \<lparr>rvr_term = 1, vote_granted = False\<rparr>, sample_node)"
  by (simp add: handle_request_vote_request_def update_term_def stale_vote_def)

theorem remote_request_vote_witness:
  "\<exists>q r. transport_request_vote vote_req_codec vote_rsp_codec
      (remote_call (dispatch_raft_method (sample_lib q r) sample_calls) (\<lambda>_. 3) sample_node) stale_vote =
    Some \<lparr>rvr_term = 1, vote_granted = False\<rparr>"
proof -
  define lib where "lib = sample_lib (append_entries_request_to_proto sample_append)
    (append_entries_response_to_proto AppendEntriesResponse)"
  have lib: "lib_vote_req lib = vote_req_codec" "lib_vote_rsp lib = vote_rsp_codec"
    by (simp_all add: lib_def sample_lib_def)
  have "length (snd (pb_serialize vote_req_codec m)) < 2 ^ 32"
    "length (snd (pb_serialize vote_rsp_codec r)) < 2 ^ 32" for m r
    by (simp_all add: vote_req_codec_def vote_rsp_codec_def)
  then have "transport_request_vote vote_req_codec vote_rsp_codec
      (remote_call (dispatch_raft_method lib sample_calls) (\<lambda>_. 3) sample_node) stale_vote =
    Some \<lparr>rvr_term = 1, vote_granted = False\<rparr>"
    using remote_request_vote [OF stale_vote_refused, of lib "\<lambda>_. 3" sample_calls]
    by (simp add: lib vote_codecs_carry)
  then show ?thesis unfolding lib_def by blast
qed

theorem remote_append_entries_witness:
  "\<exists>lib rsp. transport_append_entries (lib_ae_req lib) (lib_ae_rsp lib)
      (remote_call (dispatch_raft_method lib sample_calls) (\<lambda>_. 3) sample_follower) sample_append = Some rsp"
proof -
  obtain rsp t where run: "handle_append_entries (nc_copy sample_calls) (nc_times sample_calls)
      sample_append sample_follower = (Ret rsp, t)"
    using sample_append_run by (auto simp: sample_calls_def)
  define lib where "lib = sample_lib (append_entries_request_to_proto sample_append)
    (append_entries_response_to_proto rsp)"
  have lib: "lib_ae_req lib = fixed_codec (append_entries_request_to_proto sample_append)"
    "lib_ae_rsp lib = fixed_codec (append_entries_response_to_proto rsp)"
    by (simp_all add: lib_def sample_lib_def)
  show ?thesis
    using remote_append_entries [OF run, of lib "\<lambda>_. 3"]
    by (intro exI [of _ lib] exI [of _ rsp])
      (simp add: lib fixed_codec_carries(1) fixed_codec_carries(2) [simplified])
qed

end
