(* ===== verification/CopyPath.thy ===== *)
theory CopyPath
  imports Dispatch
begin

text \<open>
  The path of the data of a replicated batch, over three components: a follower cuts the destination
  range in its ring into chunks (\<open>do_pba_copy\<close>, theory \<open>PbaCopy\<close>), its block copy client sends them to
  the storage node in one request (theories \<open>Clients\<close>, \<open>Rpc\<close>, \<open>Wire\<close>), and the storage node's workers
  copy them (theory \<open>Storage\<close>).
\<close>

section \<open>The storage node as the block copy client of a follower\<close>

definition batch_request :: "chunk list \<Rightarrow> int \<Rightarrow> int \<Rightarrow> WritePBABatchReq" where
  "batch_request cs sdev ddev =
     \<lparr>pba_srcs = map fst cs, pba_dsts = map (fst \<circ> snd) cs, batch_nbytes = map (snd \<circ> snd) cs,
      block_size = 0, batch_src_dev = sdev, batch_dst_dev = ddev\<rparr>"

text \<open>
  \<open>rt\<close> is the round trip the follower measures around the call, \<open>lim\<close> what a system call on the
  connection moves, \<open>sched\<close> the order of the storage node's workers.
\<close>

definition storage_node ::
  "pb_write_pba_batch_request pb_codec \<Rightarrow> pb_write_pba_batch_response pb_codec \<Rightarrow>
   (nat \<times> io_event) list \<Rightarrow> (nat \<Rightarrow> int) \<Rightarrow> int \<Rightarrow> bc_client \<Rightarrow> blockcopy_server \<times> devices \<Rightarrow>
   blockcopy_client" where
  "storage_node cq cr sched lim rt c st cs sdev ddev =
     (case fst (write_pba_batch cq cr (\<lambda>_. Inr 0)
             (\<lambda>_ method body. case wire_call (dispatch_blockcopy_method cq cr sched) lim method body st of
                Some (r, _) \<Rightarrow> r | None \<Rightarrow> Ub)
             (map fst cs) (map (fst \<circ> snd) cs) (map (snd \<circ> snd) cs) sdev ddev c) of
        Inl e \<Rightarrow> Inl e
      | Inr ns \<Rightarrow> Inr (rt, ns))"

lemma storage_node_answer:
  assumes "cs \<noteq> []" "bc_host c \<noteq> []" "\<forall>n. 0 < lim n"
    and h: "handle_write_pba_batch sched (batch_request cs sdev ddev) s d = Some (rsp, s', d')"
    and q: "carries cq (write_pba_batch_request_to_proto (batch_request cs sdev ddev))"
      "length (snd (pb_serialize cq (write_pba_batch_request_to_proto (batch_request cs sdev ddev)))) < 2 ^ 32"
    and r: "carries cr (write_pba_batch_response_to_proto rsp)"
      "length (snd (pb_serialize cr (write_pba_batch_response_to_proto rsp))) < 2 ^ 32"
  shows "storage_node cq cr sched lim rt c (s, d) cs sdev ddev =
    (if batch_error rsp \<noteq> [] then Inl (''blkcopy storage error: '' @ batch_error rsp)
     else Inr (rt, batch_copy_nanos rsp))"
proof -
  let ?b = "snd (pb_serialize cq (write_pba_batch_request_to_proto (batch_request cs sdev ddev)))"
  let ?r = "snd (pb_serialize cr (write_pba_batch_response_to_proto rsp))"
  have "dispatch_blockcopy_method cq cr sched kWritePBABatch ?b (s, d) = Some (Ret (True, ?r), s', d')"
    using q(1) h by (simp add: dispatch_blockcopy_method_def carries_def batch_req_conv.from_to)
  then have "answer (dispatch_blockcopy_method cq cr sched) (str_bytes kWritePBABatch) ?b (s, d) =
      Some (Ret ([], ?r), s', d')"
    by (simp add: answer_def)
  from wire_call_ok [OF _ _ q(2) assms(3) this _ r(2)]
  have w: "wire_call (dispatch_blockcopy_method cq cr sched) lim kWritePBABatch ?b (s, d) =
      Some (Ret ?r, s', d')"
    by (simp add: method_names)
  obtain h' c' where "bc_connect (\<lambda>_. Inr 0) c = (Inr h', c')"
    by (cases "bc_conn c") (auto simp: bc_connect_def)
  moreover have "fst (pb_serialize cq (write_pba_batch_request_to_proto (batch_request cs sdev ddev)))"
    "pb_parse cr ?r = (True, write_pba_batch_response_to_proto rsp)"
    using q(1) r(1) by (simp_all add: carries_def)
  ultimately show ?thesis
    using assms(1,2) w
    by (simp add: storage_node_def write_pba_batch_def batch_request_def [symmetric] Let_def
        split_beta batch_rsp_conv.from_to)
qed

section \<open>Chunks as entries of the batch\<close>

lemma chunk_addrs:
  assumes "i < length cs"
  shows "set (map snd (chunk_bytes (cs ! i))) = addrs (fst (snd (cs ! i))) (unat (snd (snd (cs ! i))))"
    "set (map fst (chunk_bytes (cs ! i))) = addrs (fst (cs ! i)) (unat (snd (snd (cs ! i))))"
  by (auto simp: chunk_bytes_def addrs_def split_beta)

lemma distinct_concat_parts:
  "distinct (concat xss) \<Longrightarrow> i < length xss \<Longrightarrow> j < length xss \<Longrightarrow> i \<noteq> j \<Longrightarrow> set (xss ! i) \<inter> set (xss ! j) = {}"
proof (induction xss arbitrary: i j)
  case (Cons xs xss)
  have head: "set xs \<inter> set (xss ! k) = {}" if "k < length xss" for k
    using Cons.prems(1) nth_mem [OF that] by auto
  have rest: "set (xss ! k) \<inter> set (xss ! l) = {}" if "k < length xss" "l < length xss" "k \<noteq> l" for k l
    using Cons.prems(1) that by (intro Cons.IH) auto
  show ?case
    using Cons.prems head rest by (cases i; cases j) (auto simp: Int_commute)
qed simp

text \<open>The ring bytes of a range that is not longer than the ring are distinct.\<close>

lemma ring_byte_inj:
  assumes "0 < n"
  shows "inj_on (ring_byte n slot) {..<512 * n}"
proof (rule inj_onI)
  fix k k' assume k: "k \<in> {..<512 * n}" "k' \<in> {..<512 * n}" and "ring_byte n slot k = ring_byte n slot k'"
  then have "(512 * slot + k) mod (512 * n) = (512 * slot + k') mod (512 * n)"
    by (simp add: ring_byte_def)
  then have "k mod (512 * n) = k' mod (512 * n)"
    by (simp add: nat_mod_eq_iff)
  then show "k = k'" using k by simp
qed

text \<open>Every one of them has a device byte, and no two of them the same one.\<close>

lemma ring_byte_mapped:
  assumes "ring_mapped xs n"
  shows "\<exists>a. phys_of xs (ring_byte (unat n) slot k) = Some a"
proof -
  let ?m = "512 * unat n"
  have "0 < unat n" using assms by (simp add: ring_mapped_def)
  then have "(512 * slot + k) mod ?m < ?m" by simp
  then have "int ((512 * slot + k) mod ?m) < int ?m" by (rule iffD2 [OF of_nat_less_iff])
  then have "ring_byte (unat n) slot k < 512 + int ?m" by (simp only: ring_byte_def add_less_cancel_left)
  also have "int ?m = 512 * int (unat n)" by simp
  finally have "ring_byte (unat n) slot k < 512 + 512 * int (unat n)" .
  moreover have "512 \<le> ring_byte (unat n) slot k" by (simp add: ring_byte_def)
  ultimately show ?thesis using ring_mapped_at [OF assms] by blast
qed

lemma ring_at_inj:
  assumes "ring_mapped xs n" "wf_file xs" "m \<le> 512 * unat n"
  shows "inj_on (\<lambda>k. the (phys_of xs (ring_byte (unat n) slot k))) {..<m}"
proof (rule inj_onI)
  fix k k' assume k: "k \<in> {..<m}" "k' \<in> {..<m}"
    and "the (phys_of xs (ring_byte (unat n) slot k)) = the (phys_of xs (ring_byte (unat n) slot k'))"
  then have "ring_byte (unat n) slot k = ring_byte (unat n) slot k'"
    using ring_byte_mapped [OF assms(1), of slot k] ring_byte_mapped [OF assms(1), of slot k'] assms(2)
    by (auto simp: wf_file_def inj_on_def)
  moreover have "0 < unat n" using assms(1) by (simp add: ring_mapped_def)
  ultimately show "k = k'"
    using k assms(3) ring_byte_inj [of "unat n" slot] by (auto simp: inj_on_def)
qed

definition chunk_job :: "chunk list \<Rightarrow> int \<Rightarrow> int \<Rightarrow> copy_job" where
  "chunk_job cs sfd dfd = \<lparr>job_src_fd = sfd, job_dst_fd = dfd, job_srcs = map fst cs,
     job_dsts = map (fst \<circ> snd) cs, job_sizes = map (snd \<circ> snd) cs\<rparr>"

lemma checked_chunk_job:
  assumes "check_batch (batch_request cs sdev ddev) s = Inr (j, m)" "cs \<noteq> []"
    "get_fd sdev s = Some sfd" "get_fd ddev s = Some dfd"
  shows "j = chunk_job cs sfd dfd"
  using assms
  by (auto simp: check_batch_def batch_request_def batch_sizes_def chunk_job_def Let_def split: if_splits)

lemma chunk_job_disjoint:
  assumes "distinct (map snd (concat (map chunk_bytes cs)))"
    and "sfd = dfd \<longrightarrow> set (map fst (concat (map chunk_bytes cs))) \<inter>
      set (map snd (concat (map chunk_bytes cs))) = {}"
  shows "job_disjoint (chunk_job cs sfd dfd)"
proof -
  let ?j = "chunk_job cs sfd dfd"
  let ?out = "map (\<lambda>c. map snd (chunk_bytes c)) cs"
  have e: "entry_dst ?j i = set (?out ! i)" "entry_src ?j i = set (map fst (chunk_bytes (cs ! i)))"
    if "i < length cs" for i
    using that chunk_addrs [OF that] by (simp_all add: entry_dst_def entry_src_def chunk_job_def)
  have d: "distinct (concat ?out)" using assms(1) by (simp add: map_concat comp_def)
  have dst: "entry_dst ?j i \<inter> entry_dst ?j i' = {}" if "i < length cs" "i' < length cs" "i \<noteq> i'" for i i'
    using distinct_concat_parts [OF d, of i i'] that unfolding e(1) [OF that(1)] e(1) [OF that(2)] by simp
  have src: "entry_src ?j i \<inter> entry_dst ?j i' = {}" if "i < length cs" "i' < length cs" "sfd = dfd" for i i'
  proof -
    have sub: "set (chunk_bytes (cs ! i)) \<subseteq> set (concat (map chunk_bytes cs))"
      "set (chunk_bytes (cs ! i')) \<subseteq> set (concat (map chunk_bytes cs))"
      using nth_mem [OF that(1)] nth_mem [OF that(2)] by auto
    have "set (map fst (chunk_bytes (cs ! i))) \<subseteq> set (map fst (concat (map chunk_bytes cs)))"
      "set (map snd (chunk_bytes (cs ! i'))) \<subseteq> set (map snd (concat (map chunk_bytes cs)))"
      unfolding set_map by (intro image_mono sub)+
    then show ?thesis
      using assms(2) that unfolding e(1) [OF that(2)] e(2) [OF that(1)] nth_map [OF that(2)] by blast
  qed
  have "length (job_srcs ?j) = length cs" "job_src_fd ?j = sfd" "job_dst_fd ?j = dfd"
    by (simp_all add: chunk_job_def)
  then show ?thesis using dst src by (simp add: job_disjoint_def entry_apart_def)
qed

lemma copied_chunks:
  assumes "\<forall>i < length cs. copied (chunk_job cs sfd dfd) d d' i"
    and "(a, b) \<in> set (concat (map chunk_bytes cs))"
  shows "d' dfd b = d sfd a"
proof -
  obtain x where "x \<in> set cs" "(a, b) \<in> set (chunk_bytes x)" using assms(2) by auto
  then obtain i where i: "i < length cs" "(a, b) \<in> set (chunk_bytes (cs ! i))"
    by (metis in_set_conv_nth)
  then obtain k where "k < unat (snd (snd (cs ! i)))" "a = fst (cs ! i) + of_nat k"
    "b = fst (snd (cs ! i)) + of_nat k"
    by (auto simp: chunk_bytes_def split_beta)
  then show ?thesis using assms(1) i(1) by (simp add: copied_def chunk_job_def)
qed

section \<open>The block copy, end to end\<close>

text \<open>
  C15. The block copy of a follower, end to end: the follower gets an answer that tells whether the
  storage node's copy succeeded, and when it says so, every ring byte from the destination slot on,
  around the end of the ring, holds the byte of the source range, on the device the storage node
  knows under the follower's index. The range is the requested blocks rounded up to whole pages; the
  ring file's extents share no device byte, the range is not longer than the ring, and on one device
  the source does not overlap the ring.
\<close>

theorem block_copy_end_to_end:
  assumes m: "ring_mapped xs (ring_slots (ring f))" "cache_of f = Some xs" "wf_file xs"
    and slot: "unat slot \<le> unat (ring_slots (ring f))"
    and r: "r = align_up (nblocks * SECTOR_SIZE) PAGE_SIZE" "512 dvd unat r" "r \<noteq> 0"
      "unat r \<le> 512 * unat (ring_slots (ring f))"
    and f: "src \<noteq> 0" "nblocks \<noteq> 0" "has_blockcopy f"
    and cs: "pba_chunks f r slot src = Ret cs" "bc_host c \<noteq> []" "\<forall>n. 0 < lim n"
    and h: "handle_write_pba_batch sched (batch_request cs sdev ddev) s d = Some (rsp, s', d')"
    and q: "carries cq (write_pba_batch_request_to_proto (batch_request cs sdev ddev))"
      "length (snd (pb_serialize cq (write_pba_batch_request_to_proto (batch_request cs sdev ddev)))) < 2 ^ 32"
    and p: "carries cr (write_pba_batch_response_to_proto rsp)"
      "length (snd (pb_serialize cr (write_pba_batch_response_to_proto rsp))) < 2 ^ 32"
    and fd: "get_fd sdev s = Some sfd" "get_fd ddev s = Some dfd"
      "sfd = dfd \<longrightarrow> (\<forall>k < unat r. \<forall>l. phys_of xs l \<noteq> Some (src + of_nat k))"
  shows "do_pba_copy (storage_node cq cr sched lim rt c (s, d)) src nblocks slot sdev ddev f =
      (if batch_error rsp \<noteq> [] then Exc (''do_pba_copy: blkcopy storage error: '' @ batch_error rsp)
       else Ret (rt, batch_copy_nanos rsp)) \<and>
    (batch_error rsp = [] \<longrightarrow> (\<forall>k < unat r.
       d' dfd (the (phys_of xs (ring_byte (unat (ring_slots (ring f))) (unat slot) k))) =
       d sfd (src + of_nat k)))"
proof -
  let ?N = "unat (ring_slots (ring f))"
  let ?at = "\<lambda>k. the (phys_of xs (ring_byte ?N (unat slot) k))"
  have bytes: "concat (map chunk_bytes cs) = map (\<lambda>k. (src + of_nat k, ?at k)) [0..<unat r]"
    using pba_chunks_ok [OF m(1,2) slot r(2), of src] cs(1) by simp
  have ne: "cs \<noteq> []" using bytes r(3) by (auto simp: unat_eq_0)
  have ans: "storage_node cq cr sched lim rt c (s, d) cs sdev ddev =
      (if batch_error rsp \<noteq> [] then Inl (''blkcopy storage error: '' @ batch_error rsp)
       else Inr (rt, batch_copy_nanos rsp))"
    by (rule storage_node_answer [OF ne cs(2,3) h q p])

  have "job_disjoint (chunk_job cs sfd dfd)"
  proof (rule chunk_job_disjoint)
    show "distinct (map snd (concat (map chunk_bytes cs)))"
      using ring_at_inj [OF m(1,3) r(4)] by (simp add: bytes comp_def distinct_map atLeast_upt [symmetric] lessThan_atLeast0)
    show "sfd = dfd \<longrightarrow> set (map fst (concat (map chunk_bytes cs))) \<inter>
        set (map snd (concat (map chunk_bytes cs))) = {}"
      using fd(3) ring_byte_mapped [OF m(1)] by (fastforce simp: bytes)
  qed
  moreover have "\<exists>m. check_batch (batch_request cs sdev ddev) s = Inr (chunk_job cs sfd dfd, m)"
    if "batch_error rsp = []"
    using success_checked [OF h] that ne checked_chunk_job [OF _ ne fd(1,2)]
    by (fastforce simp: batch_request_def)
  ultimately have "\<forall>i < length cs. copied (chunk_job cs sfd dfd) d d' i" if "batch_error rsp = []"
    using batch_copies_ok [OF h] that ne by (fastforce simp: batch_request_def)
  moreover have "(src + of_nat k, ?at k) \<in> set (concat (map chunk_bytes cs))" if "k < unat r" for k
    unfolding bytes using that by simp
  ultimately have "d' dfd (?at k) = d sfd (src + of_nat k)" if "batch_error rsp = []" "k < unat r" for k
    using that copied_chunks by blast
  then show ?thesis
    using f r(1) cs(1) by (simp add: do_pba_copy_def Let_def ans)
qed


section \<open>A block copied over the wire\<close>

definition sample_copier :: server where
  "sample_copier = sample_node\<lparr>has_blockcopy := True\<rparr>"

definition sample_chunks :: "chunk list" where
  "sample_chunks = [(81920, 4608, 4096)]"

definition sample_turns :: "(nat \<times> io_event) list" where
  "sample_turns = [(0, IoOk, 1), (0, IoOk, 1), (0, IoOk, 1)]"

lemma sample_copier_chunks: "pba_chunks sample_copier 4096 0 81920 = Ret sample_chunks"
  by code_simp

lemma sample_copier_wf: "wf_file [sample_extent]"
  by (rule wf_file_single) (simp add: wf_extents_def wf_extent_def ext_end_def sample_extent_def)

lemma sample_copier_ring:
  "ring_mapped [sample_extent] (ring_slots (ring sample_copier))"
  "cache_of sample_copier = Some [sample_extent]" "has_blockcopy sample_copier"
  "ring_slots (ring sample_copier) = 127"
  using sample_ring_mapped by (simp_all add: sample_copier_def cache_of_def sample_fd_def)

lemma sample_copy_run:
  "\<exists>rsp s' d'. handle_write_pba_batch sample_turns (batch_request sample_chunks 0 1) sample_store sample_devices =
     Some (rsp, s', d') \<and> batch_error rsp = ''''"
proof -
  let ?req = "batch_request sample_chunks 0 1"
  have c: "check_batch ?req sample_store = Inr (chunk_job sample_chunks 3 4, 4096)" by code_simp
  have w: "length (pba_srcs ?req) = 1" "batch_workers 1 sample_store = 1"
    "count_list (map fst sample_turns) 0 = 3" by code_simp+
  then obtain rsp s' d' where r:
    "handle_write_pba_batch sample_turns ?req sample_store sample_devices = Some (rsp, s', d')"
    using batch_answered [of ?req sample_store sample_turns sample_devices] by auto
  have "pba_srcs ?req \<noteq> []" "offsets_ok (chunk_job sample_chunks 3 4)" "calls_ok sample_turns"
    "\<forall>b. memalign_ok (pool_heap (pool sample_store)) b"
    by (simp_all add: batch_request_def sample_chunks_def offsets_ok_def chunk_job_def calls_ok_def
        sample_turns_def sample_store_def BlockCopyServer_def sample_heap_def)
  from batch_succeeds [OF r this(1) c this(4,2,3)] r show ?thesis by blast
qed

theorem block_copy_end_to_end_witness:
  "\<exists>cq cr rsp s' d'.
     handle_write_pba_batch sample_turns (batch_request sample_chunks 0 1) sample_store sample_devices =
       Some (rsp, s', d') \<and>
     do_pba_copy (storage_node cq cr sample_turns (\<lambda>_. 3) 7 (RpcBlockCopyClient ''s0'') (sample_store, sample_devices))
       81920 8 0 0 1 sample_copier = Ret (7, batch_copy_nanos rsp) \<and>
     (\<forall>k < 4096. d' 4 (the (phys_of [sample_extent] (ring_byte 127 0 k))) = 9)"
proof -
  obtain rsp s' d' where r:
    "handle_write_pba_batch sample_turns (batch_request sample_chunks 0 1) sample_store sample_devices =
       Some (rsp, s', d')" "batch_error rsp = ''''"
    using sample_copy_run by blast
  define cq where "cq = fixed_codec (write_pba_batch_request_to_proto (batch_request sample_chunks 0 1))"
  define cr where "cr = fixed_codec (write_pba_batch_response_to_proto rsp)"
  have fds: "get_fd 0 sample_store = Some 3" "get_fd 1 sample_store = Some 4" by code_simp+
  have size: "(4096 :: u64) = align_up (8 * SECTOR_SIZE) PAGE_SIZE" by code_simp
  have "512 dvd unat (4096 :: u64)" by simp
  moreover have "bc_host (RpcBlockCopyClient ''s0'') \<noteq> []" by (simp add: RpcBlockCopyClient_def)
  ultimately show ?thesis
    using block_copy_end_to_end [OF sample_copier_ring(1,2) sample_copier_wf _ size _ _ _ _ _
        sample_copier_ring(3) sample_copier_chunks _ _ r(1)
        fixed_codec_carries(1) fixed_codec_carries(2) fixed_codec_carries(1) fixed_codec_carries(2) fds,
        of "RpcBlockCopyClient ''s0''" "\<lambda>_. 3" 7] r
    by (intro exI [of _ cq] exI [of _ cr] exI [of _ rsp] exI [of _ s'] exI [of _ d'])
      (simp add: sample_copier_ring(4) cq_def cr_def sample_devices_def)
qed

end
