(* ===== verification/Memory.thy ===== *)
theory Memory
  imports Storage
begin

text \<open>
  Who owns which block of memory. \<open>AlignedBuffer\<close> (\<open>raft_types.cpp\<close>) holds a block from
  \<open>posix_memalign\<close> and hands it on when it is moved; its operations are modelled here on a heap in which
  freeing a block that is not allocated and writing outside a block are undefined. What the buffer
  contains is the subject of theory Device. The destructors of the storage node are here too.
\<close>

section \<open>Checked memory\<close>

definition free_mem :: "nat option \<Rightarrow> heap \<Rightarrow> unit outcome \<times> heap" where
  "free_mem p h = (case p of
      None \<Rightarrow> (Ret (), h)
    | Some b \<Rightarrow> if live h b = None then (Ub, h) else (Ret (), free_block b h))"

text \<open>An access to \<open>n\<close> bytes from offset \<open>off\<close> of a block.\<close>

definition access :: "nat option \<Rightarrow> u64 \<Rightarrow> u64 \<Rightarrow> heap \<Rightarrow> unit outcome \<times> heap" where
  "access p off n h = (case p of
      None \<Rightarrow> (Ub, h)
    | Some b \<Rightarrow> (case live h b of
        None \<Rightarrow> (Ub, h)
      | Some cap \<Rightarrow> if unat off + unat n \<le> unat cap then (Ret (), h) else (Ub, h)))"

section \<open>AlignedBuffer\<close>

record buffer =
  own_data :: "nat option"
  own_size :: u64
  own_cap :: u64

definition empty_buffer :: buffer where
  "empty_buffer = \<lparr>own_data = None, own_size = 0, own_cap = 0\<rparr>"

definition resize_mem :: "u64 \<Rightarrow> u64 \<Rightarrow> buffer \<Rightarrow> heap \<Rightarrow> buffer outcome \<times> heap" where
  "resize_mem new_size align b h =
     (if new_size > own_cap b then
        let aligned_cap = align_up new_size align in
        case posix_memalign aligned_cap h of
          (None, h) \<Rightarrow> (Exc ''AlignedBuffer::resize: posix_memalign failed'', h)
        | (Some raw, h) \<Rightarrow>
            andthen (if own_data b \<noteq> None \<and> own_size b > 0
                     then andthen (access (own_data b) 0 (own_size b) h) (\<lambda>_. access (Some raw) 0 (own_size b))
                     else (Ret (), h)) (\<lambda>_ h.
            andthen (access (Some raw) (own_size b) (aligned_cap - own_size b) h) (\<lambda>_ h.
            andthen (free_mem (own_data b) h) (\<lambda>_ h.
              (Ret \<lparr>own_data = Some raw, own_size = new_size, own_cap = aligned_cap\<rparr>, h))))
      else if new_size > own_size b then
        andthen (access (own_data b) (own_size b) (new_size - own_size b) h) (\<lambda>_ h.
          (Ret (b\<lparr>own_size := new_size\<rparr>), h))
      else (Ret (b\<lparr>own_size := new_size\<rparr>), h))"

definition reset_mem :: "buffer \<Rightarrow> heap \<Rightarrow> buffer outcome \<times> heap" where
  "reset_mem b h = andthen (free_mem (own_data b) h) (\<lambda>_ h. (Ret empty_buffer, h))"

text \<open>The variables of the type, by number, and the heap.\<close>

record memory =
  mem_heap :: heap
  mem_bufs :: "nat \<rightharpoonup> buffer"

datatype buffer_op =
    Default nat
  | Construct nat u64 u64
  | MoveConstruct nat nat
  | MoveAssign nat nat
  | Resize nat u64 u64
  | Clear nat
  | Destroy nat

definition put_buffer :: "nat \<Rightarrow> buffer option \<Rightarrow> memory \<Rightarrow> memory" where
  "put_buffer v b m = m\<lparr>mem_bufs := (mem_bufs m)(v := b)\<rparr>"

definition on_heap :: "(heap \<Rightarrow> buffer outcome \<times> heap) \<Rightarrow> (buffer \<Rightarrow> memory \<Rightarrow> memory) \<Rightarrow> memory \<Rightarrow> unit outcome \<times> memory" where
  "on_heap f k m =
     (case f (mem_heap m) of
        (Ret b, h) \<Rightarrow> (Ret (), k b (m\<lparr>mem_heap := h\<rparr>))
      | (Exc e, h) \<Rightarrow> (Exc e, m\<lparr>mem_heap := h\<rparr>)
      | (Ub, h) \<Rightarrow> (Ub, m\<lparr>mem_heap := h\<rparr>))"

definition buffer_at :: "nat \<Rightarrow> memory \<Rightarrow> buffer" where
  "buffer_at v m = (case mem_bufs m v of Some b \<Rightarrow> b | None \<Rightarrow> empty_buffer)"

text \<open>A constructor that throws leaves no object behind.\<close>

fun buffer_step :: "buffer_op \<Rightarrow> memory \<Rightarrow> unit outcome \<times> memory" where
  "buffer_step (Default v) m = (Ret (), put_buffer v (Some empty_buffer) m)"
| "buffer_step (Construct v n a) m = on_heap (resize_mem n a empty_buffer) (\<lambda>b. put_buffer v (Some b)) m"
| "buffer_step (MoveConstruct v w) m =
     (Ret (), put_buffer w (Some empty_buffer) (put_buffer v (Some (buffer_at w m)) m))"
| "buffer_step (MoveAssign v w) m =
     (if v \<noteq> w then
        on_heap (reset_mem (buffer_at v m)) (\<lambda>_ m'.
          put_buffer w (Some empty_buffer) (put_buffer v (Some (buffer_at w m)) m')) m
      else (Ret (), m))"
| "buffer_step (Resize v n a) m = on_heap (resize_mem n a (buffer_at v m)) (\<lambda>b. put_buffer v (Some b)) m"
| "buffer_step (Clear v) m = (Ret (), put_buffer v (Some ((buffer_at v m)\<lparr>own_size := 0\<rparr>)) m)"
| "buffer_step (Destroy v) m = on_heap (reset_mem (buffer_at v m)) (\<lambda>_. put_buffer v None) m"

text \<open>
  What the language and the callers see to: an object is constructed where none is and used while it
  exists; an alignment is not 0 and the size not within one alignment of \<open>2\<^sup>64\<close>.
\<close>

definition size_ok :: "u64 \<Rightarrow> u64 \<Rightarrow> bool" where
  "size_ok n a \<longleftrightarrow> 0 < a \<and> unat n + unat a \<le> 18446744073709551616"

fun scoped :: "buffer_op \<Rightarrow> memory \<Rightarrow> bool" where
  "scoped (Default v) m = (mem_bufs m v = None)"
| "scoped (Construct v n a) m = (mem_bufs m v = None \<and> size_ok n a)"
| "scoped (MoveConstruct v w) m = (mem_bufs m v = None \<and> mem_bufs m w \<noteq> None)"
| "scoped (MoveAssign v w) m = (mem_bufs m v \<noteq> None \<and> mem_bufs m w \<noteq> None)"
| "scoped (Resize v n a) m = (mem_bufs m v \<noteq> None \<and> size_ok n a)"
| "scoped (Clear v) m = (mem_bufs m v \<noteq> None)"
| "scoped (Destroy v) m = (mem_bufs m v \<noteq> None)"

inductive buffer_run :: "memory \<Rightarrow> memory \<Rightarrow> bool" for m0 where
  start: "buffer_run m0 m0"
| step: "buffer_run m0 m \<Longrightarrow> scoped op m \<Longrightarrow> buffer_step op m = (r, m') \<Longrightarrow> buffer_run m0 m'"

section \<open>The destructors of the storage node\<close>

fun free_all :: "(nat \<times> u64) list \<Rightarrow> heap \<Rightarrow> unit outcome \<times> heap" where
  "free_all [] h = (Ret (), h)"
| "free_all ((b, _) # bs) h = andthen (free_mem (Some b) h) (\<lambda>_. free_all bs)"

definition pool_destroy :: "buf_pool \<Rightarrow> unit outcome \<times> heap" where
  "pool_destroy p = free_all (free_list p) (pool_heap p)"

text \<open>The descriptors that \<open>~BlockCopyServer\<close> closes.\<close>

definition closed_fds :: "int list \<Rightarrow> int list" where
  "closed_fds xs = filter (\<lambda>fd. fd \<ge> 0) xs"

section \<open>One owner for each block\<close>

definition buffer_ok :: "heap \<Rightarrow> buffer \<Rightarrow> bool" where
  "buffer_ok h b \<longleftrightarrow> own_size b \<le> own_cap b \<and>
     (case own_data b of None \<Rightarrow> own_cap b = 0 | Some p \<Rightarrow> live h p = Some (own_cap b))"

text \<open>
  Each buffer's block is allocated with its capacity, no two buffers have the same block, and every
  allocated block is some buffer's.
\<close>

definition memory_inv :: "memory \<Rightarrow> bool" where
  "memory_inv m \<longleftrightarrow>
     (\<forall>v b. mem_bufs m v = Some b \<longrightarrow> buffer_ok (mem_heap m) b) \<and>
     (\<forall>v w b c p. mem_bufs m v = Some b \<longrightarrow> mem_bufs m w = Some c \<longrightarrow> own_data b = Some p \<longrightarrow> own_data c = Some p \<longrightarrow> v = w) \<and>
     (\<forall>p. live (mem_heap m) p \<noteq> None \<longrightarrow> (\<exists>v b. mem_bufs m v = Some b \<and> own_data b = Some p)) \<and>
     (\<forall>p. live (mem_heap m) p \<noteq> None \<longrightarrow> p < next_block (mem_heap m))"

lemma align_up_covers:
  assumes "size_ok n a"
  shows "n \<le> align_up n a"
proof -
  have a: "0 < unat a" using assms by (simp add: size_ok_def word_less_nat_alt)
  with assms have "unat (align_up n a) = (unat n + unat a - 1) div unat a * unat a"
    by (intro unat_align_up) (auto simp: size_ok_def)
  then show ?thesis using div_mult_ge [OF a, of "unat n"] by (simp add: word_le_nat_alt)
qed

lemma access_live:
  "live h p = Some cap \<Longrightarrow> off \<le> cap \<Longrightarrow> n \<le> cap - off \<Longrightarrow> access (Some p) off n h = (Ret (), h)"
  by (simp add: access_def word_le_nat_alt unat_u64_sub)

lemma empty_buffer_ok [simp]: "buffer_ok h empty_buffer" "own_data empty_buffer = None"
  by (simp_all add: buffer_ok_def empty_buffer_def)

lemma reset_mem_ok:
  assumes "buffer_ok h b"
  shows "reset_mem b h = (Ret empty_buffer, case own_data b of None \<Rightarrow> h | Some p \<Rightarrow> free_block p h)"
  using assms by (auto simp: reset_mem_def free_mem_def buffer_ok_def split: option.splits)

text \<open>A resize keeps the block, or fails with the heap as it was, or moves to a new block and frees the old one.\<close>

lemma resize_mem_ok:
  assumes ok: "buffer_ok h b" "size_ok n a" and fresh: "\<forall>p. live h p \<noteq> None \<longrightarrow> p < next_block h"
  shows "(\<exists>b'. resize_mem n a b h = (Ret b', h) \<and> buffer_ok h b' \<and> own_data b' = own_data b) \<or>
    (\<exists>e h'. resize_mem n a b h = (Exc e, h') \<and> live h' = live h \<and> next_block h' = Suc (next_block h)) \<or>
    (\<exists>b' h'. resize_mem n a b h = (Ret b', h') \<and> buffer_ok h' b' \<and> own_data b' = Some (next_block h) \<and>
      next_block h' = Suc (next_block h) \<and>
      (\<forall>p. live h' p = (if own_data b = Some p then None else if p = next_block h then Some (own_cap b') else live h p)))"
proof (cases "n > own_cap b")
  case True
  let ?c = "align_up n a"
  have c: "n \<le> ?c" by (rule align_up_covers [OF ok(2)])
  have s: "own_size b \<le> own_cap b" using ok(1) by (simp add: buffer_ok_def)
  with True c have sc: "own_size b \<le> ?c" by simp
  obtain r h1 where m: "posix_memalign ?c h = (r, h1)" by fastforce
  show ?thesis
  proof (cases r)
    case None
    with m True show ?thesis by (auto simp: resize_mem_def posix_memalign_def Let_def split: if_splits)
  next
    case (Some raw)
    with m have h1: "raw = next_block h" "live h1 = (live h)(raw \<mapsto> ?c)" "next_block h1 = Suc raw"
      by (auto simp: posix_memalign_def Let_def split: if_splits)
    have old: "live h1 p = Some (own_cap b) \<and> p \<noteq> raw" if "own_data b = Some p" for p
      using that ok(1) fresh h1 by (auto simp: buffer_ok_def)
    have acc: "access (Some raw) 0 (own_size b) h1 = (Ret (), h1)" "access (Some raw) (own_size b) (?c - own_size b) h1 = (Ret (), h1)"
      using sc h1 by (auto intro!: access_live)
    have rd: "access (own_data b) 0 (own_size b) h1 = (Ret (), h1)" if "own_data b \<noteq> None"
      using that old s by (auto intro!: access_live)
    let ?h = "case own_data b of None \<Rightarrow> h1 | Some p \<Rightarrow> free_block p h1"
    have fr: "free_mem (own_data b) h1 = (Ret (), ?h)"
      using old by (auto simp: free_mem_def split: option.splits)
    have run: "resize_mem n a b h = (Ret \<lparr>own_data = Some raw, own_size = n, own_cap = ?c\<rparr>, ?h)"
      using True m Some acc rd fr by (auto simp: resize_mem_def Let_def)
    have "live ?h p = (if own_data b = Some p then None else if p = raw then Some ?c else live h p)" for p
      using h1 by (auto simp: free_block_def split: option.splits)
    moreover have "next_block ?h = Suc raw" using h1 by (auto simp: free_block_def split: option.splits)
    moreover have "own_data b \<noteq> Some raw" using old by blast
    ultimately have "buffer_ok ?h \<lparr>own_data = Some raw, own_size = n, own_cap = ?c\<rparr>" using c by (simp add: buffer_ok_def)
    with run h1 \<open>next_block ?h = Suc raw\<close> \<open>\<And>p. live ?h p = _ p\<close> show ?thesis by auto
  qed
next
  case False
  then have n: "n \<le> own_cap b" by simp
  show ?thesis
  proof (cases "n > own_size b")
    case True
    then have "own_cap b \<noteq> 0" using n by auto
    then obtain p where p: "own_data b = Some p" "live h p = Some (own_cap b)"
      using ok(1) by (auto simp: buffer_ok_def split: option.splits)
    have "access (own_data b) (own_size b) (n - own_size b) h = (Ret (), h)"
      unfolding p(1) using True n p(2) by (intro access_live) (auto simp: word_le_nat_alt word_less_nat_alt unat_u64_sub)
    with True False ok(1) n show ?thesis by (auto simp: resize_mem_def buffer_ok_def split: option.splits)
  next
    case 2: False
    with False ok(1) n show ?thesis by (auto simp: resize_mem_def buffer_ok_def split: option.splits)
  qed
qed

lemma memory_inv_parts:
  assumes "memory_inv m"
  shows "mem_bufs m v = Some b \<Longrightarrow> buffer_ok (mem_heap m) b"
    "mem_bufs m v = Some b \<Longrightarrow> mem_bufs m w = Some c \<Longrightarrow> own_data b = Some p \<Longrightarrow> own_data c = Some p \<Longrightarrow> v = w"
    "live (mem_heap m) p \<noteq> None \<Longrightarrow> \<exists>v b. mem_bufs m v = Some b \<and> own_data b = Some p"
    "\<forall>p. live (mem_heap m) p \<noteq> None \<longrightarrow> p < next_block (mem_heap m)"
  using assms unfolding memory_inv_def by blast+

lemma buffer_ok_frame:
  "buffer_ok h b \<Longrightarrow> (\<And>p. own_data b = Some p \<Longrightarrow> live h' p = live h p) \<Longrightarrow> buffer_ok h' b"
  by (auto simp: buffer_ok_def split: option.splits)

text \<open>
  A buffer that takes the place of an old one: with the same block, or with a new one while the block
  of the old one is freed.
\<close>

lemma replace_inv:
  assumes inv: "memory_inv m" and at: "b = buffer_at v m"
    and ok: "case nb of None \<Rightarrow> True | Some b' \<Rightarrow> buffer_ok h' b'"
    and new: "case nb of None \<Rightarrow> fresh = None | Some b' \<Rightarrow> own_data b' = fresh"
    and live: "\<forall>p. live h' p = (if fresh = Some p then Some c else if own_data b = Some p then None else live (mem_heap m) p)"
    and nxt: "\<forall>p. fresh = Some p \<longrightarrow> live (mem_heap m) p = None \<and> p < next_block h'" "next_block (mem_heap m) \<le> next_block h'"
  shows "memory_inv (put_buffer v nb (m\<lparr>mem_heap := h'\<rparr>))"
proof -
  note i = memory_inv_parts [OF inv]
  have b: "mem_bufs m v = Some d \<Longrightarrow> d = b" for d using at by (simp add: buffer_at_def)
  have other: "own_data d \<noteq> own_data b \<or> own_data d = None" "own_data d \<noteq> fresh \<or> own_data d = None"
    "buffer_ok h' d" if "mem_bufs m w = Some d" "w \<noteq> v" for w d
  proof -
    have live_d: "own_data d = Some p \<Longrightarrow> live (mem_heap m) p \<noteq> None" for p
      using i(1) [OF that(1)] by (auto simp: buffer_ok_def)
    show 1: "own_data d \<noteq> own_data b \<or> own_data d = None"
    proof (cases "mem_bufs m v")
      case None
      then show ?thesis by (cases "own_data d") (simp_all add: at buffer_at_def empty_buffer_def)
    next
      case (Some e)
      then show ?thesis using i(2) [OF that(1) Some] that(2) b by fastforce
    qed
    show 2: "own_data d \<noteq> fresh \<or> own_data d = None" using live_d nxt(1) by (cases "own_data d") auto
    have "live h' p = live (mem_heap m) p" if "own_data d = Some p" for p
      using 1 2 that unfolding live [rule_format] by auto
    then show "buffer_ok h' d" by (rule buffer_ok_frame [OF i(1) [OF that(1)]])
  qed
  have owner: "\<exists>w d. mem_bufs m w = Some d \<and> w \<noteq> v \<and> own_data d = Some p"
    if "live (mem_heap m) p \<noteq> None" "own_data b \<noteq> Some p" for p using i(3) [OF that(1)] that(2) b by metis
  show ?thesis unfolding memory_inv_def
  proof (intro conjI allI impI)
    fix w d assume "mem_bufs (put_buffer v nb (m\<lparr>mem_heap := h'\<rparr>)) w = Some d"
    then show "buffer_ok (mem_heap (put_buffer v nb (m\<lparr>mem_heap := h'\<rparr>))) d"
      using ok other(3) by (auto simp: put_buffer_def split: if_splits)
  next
    fix w x d e p
    assume "mem_bufs (put_buffer v nb (m\<lparr>mem_heap := h'\<rparr>)) w = Some d" "own_data d = Some p"
      "mem_bufs (put_buffer v nb (m\<lparr>mem_heap := h'\<rparr>)) x = Some e" "own_data e = Some p"
    then show "w = x"
      using new other(2) [of w d] other(2) [of x e] i(2) [of w d x e p]
      by (auto simp: put_buffer_def split: if_splits)
  next
    fix p assume "live (mem_heap (put_buffer v nb (m\<lparr>mem_heap := h'\<rparr>))) p \<noteq> None"
    then have l: "live h' p \<noteq> None" by (simp add: put_buffer_def)
    show "\<exists>w d. mem_bufs (put_buffer v nb (m\<lparr>mem_heap := h'\<rparr>)) w = Some d \<and> own_data d = Some p"
    proof (cases "fresh = Some p")
      case True
      then show ?thesis using new by (cases nb) (auto simp: put_buffer_def)
    next
      case False
      then obtain w d where "mem_bufs m w = Some d" "w \<noteq> v" "own_data d = Some p"
        using l live owner by (metis (full_types))
      then show ?thesis by (auto simp: put_buffer_def)
    qed
    show "p < next_block (mem_heap (put_buffer v nb (m\<lparr>mem_heap := h'\<rparr>)))"
      using l live nxt i(4) by (cases "fresh = Some p") (auto simp: put_buffer_def split: if_splits)
  qed
qed

lemma same_block_inv:
  assumes inv: "memory_inv m" and v: "mem_bufs m v = Some b" and b': "own_data b' = own_data b" "buffer_ok (mem_heap m) b'"
  shows "memory_inv (put_buffer v (Some b') m)"
proof -
  note i = memory_inv_parts [OF inv]
  have eq: "\<exists>e. mem_bufs m w = Some e \<and> own_data e = own_data d" if "mem_bufs (put_buffer v (Some b') m) w = Some d" for w d
    using that v b'(1) by (auto simp: put_buffer_def split: if_splits)
  have up: "\<exists>e. mem_bufs (put_buffer v (Some b') m) w = Some e \<and> own_data e = own_data d" if "mem_bufs m w = Some d" for w d
    using that v b'(1) by (auto simp: put_buffer_def)
  have h: "mem_heap (put_buffer v (Some b') m) = mem_heap m" by (simp add: put_buffer_def)
  have ok: "buffer_ok (mem_heap m) d" if "mem_bufs (put_buffer v (Some b') m) w = Some d" for w d
    using that b'(2) i(1) by (auto simp: put_buffer_def split: if_splits)
  have uniq: "w = x" if "mem_bufs (put_buffer v (Some b') m) w = Some d" "mem_bufs (put_buffer v (Some b') m) x = Some e"
      "own_data d = Some p" "own_data e = Some p" for w x d e p
    using eq [OF that(1)] eq [OF that(2)] that(3,4) i(2) by fastforce
  have leak: "\<exists>w d. mem_bufs (put_buffer v (Some b') m) w = Some d \<and> own_data d = Some p" if "live (mem_heap m) p \<noteq> None" for p
    using i(3) [OF that] up by metis
  show ?thesis unfolding memory_inv_def h using ok uniq leak i(4) by blast
qed

lemma move_inv:
  assumes inv: "memory_inv m" and w: "mem_bufs m w \<noteq> None" "v \<noteq> w" and v: "own_data (buffer_at v m) = None"
  shows "memory_inv (put_buffer w (Some empty_buffer) (put_buffer v (Some (buffer_at w m)) m))"
proof -
  note i = memory_inv_parts [OF inv]
  let ?m = "put_buffer w (Some empty_buffer) (put_buffer v (Some (buffer_at w m)) m)"
  let ?f = "\<lambda>x. if x = v then w else x"
  have h: "mem_heap ?m = mem_heap m" by (simp add: put_buffer_def)
  have src: "mem_bufs ?m x = Some d \<Longrightarrow> d = empty_buffer \<and> x = w \<or> x \<noteq> w \<and> mem_bufs m (?f x) = Some d" for x d
    using w by (auto simp: put_buffer_def buffer_at_def split: if_splits)
  have dst: "mem_bufs ?m (if x = w then v else x) = Some d" if "mem_bufs m x = Some d" "own_data d \<noteq> None" for x d
    using that w(2) v by (auto simp: put_buffer_def buffer_at_def)
  show ?thesis unfolding memory_inv_def h
  proof (intro conjI allI impI)
    fix x d assume "mem_bufs ?m x = Some d"
    from src [OF this] show "buffer_ok (mem_heap m) d" using i(1) by auto
  next
    fix x y d e p assume a: "mem_bufs ?m x = Some d" "mem_bufs ?m y = Some e" "own_data d = Some p" "own_data e = Some p"
    then have "mem_bufs m (?f x) = Some d" "mem_bufs m (?f y) = Some e" "x \<noteq> w" "y \<noteq> w"
      using src [OF a(1)] src [OF a(2)] by auto
    with i(2) a(3,4) have "?f x = ?f y" by blast
    with \<open>x \<noteq> w\<close> \<open>y \<noteq> w\<close> show "x = y" by (auto split: if_splits)
  next
    fix p assume "live (mem_heap m) p \<noteq> None"
    from i(3) [OF this] obtain x d where "mem_bufs m x = Some d" "own_data d = Some p" by blast
    with dst show "\<exists>x d. mem_bufs ?m x = Some d \<and> own_data d = Some p" by (metis option.discI)
  qed (use i(4) in blast)
qed

lemma resize_step_inv:
  assumes inv: "memory_inv m" and n: "size_ok n a"
    and run: "on_heap (resize_mem n a (buffer_at v m)) (\<lambda>b. put_buffer v (Some b)) m = (r, m')"
  shows "r \<noteq> Ub \<and> memory_inv m'"
proof -
  note i = memory_inv_parts [OF inv]
  let ?b = "buffer_at v m"
  have ok: "buffer_ok (mem_heap m) ?b" using i(1) by (auto simp: buffer_at_def split: option.splits)
  have fresh: "live (mem_heap m) (next_block (mem_heap m)) = None" using i(4) by blast
  consider b' where "resize_mem n a ?b (mem_heap m) = (Ret b', mem_heap m)" "buffer_ok (mem_heap m) b'" "own_data b' = own_data ?b"
    | e h' where "resize_mem n a ?b (mem_heap m) = (Exc e, h')" "live h' = live (mem_heap m)"
        "next_block h' = Suc (next_block (mem_heap m))"
    | b' h' where "resize_mem n a ?b (mem_heap m) = (Ret b', h')" "buffer_ok h' b'"
        "own_data b' = Some (next_block (mem_heap m))" "next_block h' = Suc (next_block (mem_heap m))"
        "\<forall>p. live h' p = (if own_data ?b = Some p then None else if p = next_block (mem_heap m) then Some (own_cap b') else live (mem_heap m) p)"
    using resize_mem_ok [OF ok n i(4)] by blast
  then show ?thesis
  proof cases
    case 1
    have "memory_inv (put_buffer v (Some b') m)"
    proof (cases "mem_bufs m v")
      case None
      then show ?thesis using replace_inv [OF inv refl, where nb = "Some b'" and h' = "mem_heap m" and v = v and fresh = None] 1
        by (simp add: buffer_at_def)
    next
      case (Some b)
      then show ?thesis using same_block_inv [OF inv Some] 1 by (simp add: buffer_at_def)
    qed
    with 1 run show ?thesis by (auto simp: on_heap_def)
  next
    case 2
    then have "buffer_ok h' d = buffer_ok (mem_heap m) d" for d by (auto simp: buffer_ok_def split: option.splits)
    with 2 inv have "memory_inv (m\<lparr>mem_heap := h'\<rparr>)" unfolding memory_inv_def by (simp add: less_SucI)
    with 2 run show ?thesis by (auto simp: on_heap_def)
  next
    case 3
    have "own_data ?b \<noteq> Some (next_block (mem_heap m))" using ok fresh by (auto simp: buffer_ok_def)
    then have "\<forall>p. live h' p = (if Some (next_block (mem_heap m)) = Some p then Some (own_cap b')
        else if own_data ?b = Some p then None else live (mem_heap m) p)" using 3(5) by auto
    then have "memory_inv (put_buffer v (Some b') (m\<lparr>mem_heap := h'\<rparr>))"
      using replace_inv [OF inv refl, where nb = "Some b'" and h' = h' and fresh = "Some (next_block (mem_heap m))" and
        c = "own_cap b'" and v = v] 3(2-4) fresh by simp
    with 3 run show ?thesis by (auto simp: on_heap_def)
  qed
qed

lemma reset_inv:
  fixes v :: nat
  assumes inv: "memory_inv m" and nb: "nb = None \<or> nb = Some empty_buffer"
  defines "h' \<equiv> case own_data (buffer_at v m) of None \<Rightarrow> mem_heap m | Some p \<Rightarrow> free_block p (mem_heap m)"
  shows "reset_mem (buffer_at v m) (mem_heap m) = (Ret empty_buffer, h')" "memory_inv (put_buffer v nb (m\<lparr>mem_heap := h'\<rparr>))"
proof -
  note i = memory_inv_parts [OF inv]
  have ok: "buffer_ok (mem_heap m) (buffer_at v m)" using i(1) by (auto simp: buffer_at_def split: option.splits)
  show "reset_mem (buffer_at v m) (mem_heap m) = (Ret empty_buffer, h')" unfolding h'_def by (rule reset_mem_ok [OF ok])
  have "\<forall>p. live h' p = (if own_data (buffer_at v m) = Some p then None else live (mem_heap m) p)" "next_block h' = next_block (mem_heap m)"
    by (auto simp: h'_def free_block_def split: option.splits)
  then show "memory_inv (put_buffer v nb (m\<lparr>mem_heap := h'\<rparr>))"
    using nb by (intro replace_inv [OF inv refl, where fresh = None]) auto
qed

lemma put_buffer_twice [simp]: "put_buffer v b (put_buffer v c m) = put_buffer v b m"
  by (simp add: put_buffer_def)

lemma buffer_step_inv:
  assumes inv: "memory_inv m" and sc: "scoped op m" and run: "buffer_step op m = (r, m')"
  shows "r \<noteq> Ub \<and> memory_inv m'"
proof (cases op)
  case (Default v)
  then have "m' = put_buffer v (Some empty_buffer) m" "buffer_at v m = empty_buffer" "r = Ret ()"
    using run sc by (auto simp: buffer_at_def)
  then show ?thesis using reset_inv(2) [OF inv, of "Some empty_buffer" v] by simp
next
  case (Construct v n a)
  then have "buffer_at v m = empty_buffer" "size_ok n a" using sc by (auto simp: buffer_at_def)
  then show ?thesis using resize_step_inv [OF inv, of n a v r m'] run Construct by simp
next
  case (MoveConstruct v w)
  then have "v \<noteq> w" "own_data (buffer_at v m) = None" using sc by (auto simp: buffer_at_def)
  then show ?thesis using move_inv [OF inv, of w v] sc run MoveConstruct by auto
next
  case (MoveAssign v w)
  show ?thesis
  proof (cases "v = w")
    case False
    let ?h = "case own_data (buffer_at v m) of None \<Rightarrow> mem_heap m | Some p \<Rightarrow> free_block p (mem_heap m)"
    let ?n = "put_buffer v (Some empty_buffer) (m\<lparr>mem_heap := ?h\<rparr>)"
    note rs = reset_inv [OF inv, of "Some empty_buffer" v]
    have at: "buffer_at w ?n = buffer_at w m" "buffer_at v ?n = empty_buffer" "mem_bufs ?n w \<noteq> None"
      using False sc MoveAssign by (simp_all add: buffer_at_def put_buffer_def)
    have "memory_inv (put_buffer w (Some empty_buffer) (put_buffer v (Some (buffer_at w ?n)) ?n))"
      using at False by (intro move_inv rs(2)) auto
    then show ?thesis using run rs(1) False MoveAssign at(1) by (auto simp: on_heap_def)
  qed (use run inv MoveAssign in auto)
next
  case (Resize v n a)
  then show ?thesis using resize_step_inv [OF inv, of n a v r m'] run sc by simp
next
  case (Clear v)
  then obtain b where b: "mem_bufs m v = Some b" using sc by auto
  have "buffer_ok (mem_heap m) (b\<lparr>own_size := 0\<rparr>)"
    using memory_inv_parts(1) [OF inv b] by (auto simp: buffer_ok_def split: option.splits)
  then show ?thesis using same_block_inv [OF inv b] run Clear b by (auto simp: buffer_at_def)
next
  case (Destroy v)
  then show ?thesis using reset_inv [OF inv, of None v] run by (auto simp: on_heap_def)
qed

text \<open>
  C24. Memory safety of \<open>AlignedBuffer\<close>: in every run of constructions, moves (onto itself too), resizes and
  destructions that starts without allocated blocks, no operation frees a block twice or touches
  bytes outside its block, an allocation that fails included; every allocated block belongs to exactly one
  buffer, and once all buffers are destroyed nothing is allocated.
\<close>

theorem buffers_own_blocks:
  assumes run: "buffer_run m0 m" and m0: "mem_bufs m0 = Map.empty" "live (mem_heap m0) = Map.empty"
  shows "(scoped op m \<longrightarrow> fst (buffer_step op m) \<noteq> Ub) \<and>
    (\<forall>p. live (mem_heap m) p \<noteq> None \<longrightarrow> (\<exists>!v. \<exists>b. mem_bufs m v = Some b \<and> own_data b = Some p)) \<and>
    (mem_bufs m = Map.empty \<longrightarrow> live (mem_heap m) = Map.empty)"
proof -
  have "memory_inv m"
    using run
  proof induction
    case start
    then show ?case using m0 by (simp add: memory_inv_def)
  next
    case (step m op r m')
    then show ?case using buffer_step_inv by blast
  qed
  note i = memory_inv_parts [OF this]
  have "fst (buffer_step op m) \<noteq> Ub" if "scoped op m"
    using buffer_step_inv [OF \<open>memory_inv m\<close> that, of "fst (buffer_step op m)" "snd (buffer_step op m)"] by simp
  moreover have "\<exists>!v. \<exists>b. mem_bufs m v = Some b \<and> own_data b = Some p" if "live (mem_heap m) p \<noteq> None" for p
    using i(3) [OF that] i(2) by blast
  moreover have "live (mem_heap m) = Map.empty" if "mem_bufs m = Map.empty"
    using i(3) that by (intro ext) force
  ultimately show ?thesis by blast
qed

theorem buffers_own_blocks_witness:
  "\<exists>m. buffer_run \<lparr>mem_heap = \<lparr>live = Map.empty, next_block = 0, memalign_ok = \<lambda>_. True\<rparr>, mem_bufs = Map.empty\<rparr> m \<and>
     live (mem_heap m) 0 = Some 512 \<and> (\<exists>!v. \<exists>b. mem_bufs m v = Some b \<and> own_data b = Some 0)"
proof -
  let ?init = "\<lparr>mem_heap = \<lparr>live = Map.empty, next_block = 0, memalign_ok = \<lambda>_. True\<rparr>, mem_bufs = Map.empty\<rparr>"
  let ?m = "snd (buffer_step (Construct 7 100 512) ?init)"
  have s: "scoped (Construct 7 100 512) ?init" by (simp add: size_ok_def unat_u64_numeral)
  have "buffer_step (Construct 7 100 512) ?init = (fst (buffer_step (Construct 7 100 512) ?init), ?m)" by (rule prod.collapse [symmetric])
  then have run: "buffer_run ?init ?m" by (rule buffer_run.step [OF buffer_run.start s])
  have l: "live (mem_heap ?m) 0 = Some 512"
    by (simp add: on_heap_def resize_mem_def posix_memalign_def empty_buffer_def access_def free_mem_def align_up_def
        put_buffer_def unat_u64_numeral)
  have "\<exists>!v. \<exists>b. mem_bufs ?m v = Some b \<and> own_data b = Some 0"
    using buffers_own_blocks [OF run, of "Clear 7"] l by simp
  with run l show ?thesis by blast
qed

section \<open>The end of the pool\<close>

text \<open>Destroying the pool frees each of its buffers once, and no block that is still in use.\<close>

lemma free_all_ok:
  "distinct (map fst bs) \<Longrightarrow> \<forall>(b, cap) \<in> set bs. live h b \<noteq> None \<Longrightarrow>
   \<exists>h'. free_all bs h = (Ret (), h') \<and> (\<forall>p. live h' p = (if p \<in> fst ` set bs then None else live h p))"
proof (induction bs arbitrary: h)
  case (Cons x bs)
  obtain b cap where x: "x = (b, cap)" by fastforce
  have "\<forall>(c, cap) \<in> set bs. live (free_block b h) c \<noteq> None" using Cons.prems x by (force simp: free_block_def)
  from Cons.IH [OF _ this] Cons.prems x obtain h' where
    h': "free_all bs (free_block b h) = (Ret (), h')" "\<forall>p. live h' p = (if p \<in> fst ` set bs then None else live (free_block b h) p)"
    by auto
  have "free_mem (Some b) h = (Ret (), free_block b h)" using Cons.prems x by (simp add: free_mem_def)
  then show ?case using h' x by (auto simp: free_block_def)
qed simp

lemma pool_destroy_frees:
  assumes "pool_inv p"
  shows "\<exists>h. pool_destroy p = (Ret (), h) \<and>
    (\<forall>b. live h b = (if b \<in> fst ` set (free_list p) then None else live (pool_heap p) b))"
  unfolding pool_destroy_def using assms by (intro free_all_ok) (auto simp: pool_inv_def)

end
