(* ===== verification/Rdma.thy ===== *)
theory Rdma
  imports Rpc
begin

text \<open>
  The data path of \<open>net/src/raft_rdma_transport.cpp\<close>, the transport a node uses unless told
  otherwise: frames in registered buffers, one message per send, waiting for completions with a spin
  phase and a blocking phase, the client call and the connection loop of the server.

  The verbs library is a parameter. \<open>v_cq\<close> gives the results of the successive polls of the
  completion queue; a receive completion comes with the bytes the adapter has put into the receive
  buffer. \<open>v_clock\<close>, \<open>v_stop\<close>, \<open>v_chan\<close> and \<open>v_post\<close> give the readings of the clock (in nanoseconds)
  and of the stop flag, the results of waiting on the completion channel and of posting work, each by
  the number of readings made before. The loops may run for ever and are partial functions.
  A handle is a connection, so the test for a null handle is left out.
\<close>

section \<open>Connections and the verbs library\<close>

definition kHdrBytes :: nat where "kHdrBytes = 8"
definition kPollSliceMs :: int where "kPollSliceMs = 200"
definition kCallTimeoutMs :: int where "kCallTimeoutMs = 5000"
definition kSpinServeUs :: int where "kSpinServeUs = 0"
definition kSpinClientUs :: int where "kSpinClientUs = 2000"
definition kRdmaMaxMessageBytes :: nat where "kRdmaMaxMessageBytes = 1048576"

datatype cq_result = CqFail string | CqEmpty | CqBad string | CqSend | CqRecv bytes

text \<open>
  \<open>poll\<close> on the completion channel: an error, an interrupted call, the end of the time slice, or an
  event, with the errors that taking the event and arming the queue again may have.
\<close>

datatype chan_result = PollFail string | PollIntr | PollQuiet | PollEvent "string option" "string option"

record verbs =
  v_cq :: "nat \<Rightarrow> cq_result"
  v_clock :: "nat \<Rightarrow> int"
  v_stop :: "nat \<Rightarrow> bool"
  v_chan :: "nat \<Rightarrow> int \<Rightarrow> chan_result"
  v_post :: "nat \<Rightarrow> string option"

text \<open>
  An \<open>RdmaConn\<close>: which of its pointers are set, the two buffers (empty for a null pointer), the stop
  flag, and, of the queue pair, the receives that are posted and the messages that were sent.
  \<open>rc_polls\<close> and \<open>rc_tick\<close> count the readings.
\<close>

record rdma_conn =
  rc_id :: bool
  rc_qp :: bool
  rc_pd :: bool
  rc_chan :: bool
  rc_cq :: bool
  rc_send_mr :: bool
  rc_recv_mr :: bool
  send_buf :: bytes
  recv_buf :: bytes
  rc_stop :: bool
  posted :: nat
  messages :: "bytes list"
  rc_polls :: nat
  rc_tick :: nat

section \<open>Frames\<close>

definition put_be32 :: "u32 \<Rightarrow> bytes" where
  "put_be32 v = [ucast (drop_bit 24 v AND 0xFF), ucast (drop_bit 16 v AND 0xFF),
     ucast (drop_bit 8 v AND 0xFF), ucast (v AND 0xFF)]"

definition get_be32 :: "bytes \<Rightarrow> u32" where
  "get_be32 p = push_bit 24 (ucast (p ! 0)) OR push_bit 16 (ucast (p ! 1)) OR
     push_bit 8 (ucast (p ! 2)) OR ucast (p ! 3)"

definition encode_frame :: "bytes \<Rightarrow> bytes \<Rightarrow> rdma_conn \<Rightarrow> nat outcome \<times> rdma_conn" where
  "encode_frame head body c =
     (let total = kHdrBytes + length head + length body in
      if total > kRdmaMaxMessageBytes then
        (Exc (''rdma: message too large ('' @ to_string (int total) @ '' > '' @
              to_string (int kRdmaMaxMessageBytes) @ '')''), c)
      else
        let buf = memcpy_at 0 (put_be32 (of_nat (length head))) (send_buf c);
            buf = memcpy_at 4 (put_be32 (of_nat (length body))) buf;
            buf = memcpy_at kHdrBytes head buf;
            buf = (if body \<noteq> [] then memcpy_at (kHdrBytes + length head) body buf else buf)
        in (Ret total, c\<lparr>send_buf := buf\<rparr>))"

definition decode_frame :: "nat \<Rightarrow> rdma_conn \<Rightarrow> (bytes \<times> bytes) outcome" where
  "decode_frame received c =
     (if received < kHdrBytes then Exc ''rdma: short frame''
      else
        let head_len = unat (get_be32 (recv_buf c));
            body_len = unat (get_be32 (drop 4 (recv_buf c)))
        in if head_len + body_len + kHdrBytes > received then Exc ''rdma: truncated frame''
           else Ret (take head_len (drop kHdrBytes (recv_buf c)),
                     take body_len (drop (kHdrBytes + head_len) (recv_buf c))))"

section \<open>Posting work and waiting for it\<close>

definition post_recv :: "verbs \<Rightarrow> rdma_conn \<Rightarrow> unit outcome \<times> rdma_conn" where
  "post_recv v c =
     (let k = rc_tick c; c = c\<lparr>rc_tick := Suc k\<rparr> in
      case v_post v k of
        Some e \<Rightarrow> (Exc (''rdma: ibv_post_recv: '' @ e), c)
      | None \<Rightarrow> (Ret (), c\<lparr>posted := Suc (posted c)\<rparr>))"

definition post_send :: "verbs \<Rightarrow> nat \<Rightarrow> rdma_conn \<Rightarrow> unit outcome \<times> rdma_conn" where
  "post_send v len c =
     (let k = rc_tick c; c = c\<lparr>rc_tick := Suc k\<rparr> in
      case v_post v k of
        Some e \<Rightarrow> (Exc (''rdma: ibv_post_send: '' @ e), c)
      | None \<Rightarrow> (Ret (), c\<lparr>messages := messages c @ [take len (send_buf c)]\<rparr>))"

text \<open>The part of \<open>ibv_wc\<close> the code looks at: the opcode, and the byte count of a receive.\<close>

datatype wc = WcSend | WcRecv nat

definition take_completion :: "verbs \<Rightarrow> rdma_conn \<Rightarrow> wc option outcome \<times> rdma_conn" where
  "take_completion v c =
     (let k = rc_polls c; c = c\<lparr>rc_polls := Suc k\<rparr> in
      case v_cq v k of
        CqFail e \<Rightarrow> (Exc (''rdma: ibv_poll_cq: '' @ e), c)
      | CqEmpty \<Rightarrow> (Ret None, c)
      | CqBad e \<Rightarrow> (Exc (''rdma: completion failed: '' @ e), c)
      | CqSend \<Rightarrow> (Ret (Some WcSend), c)
      | CqRecv m \<Rightarrow> (Ret (Some (WcRecv (length m))),
          c\<lparr>recv_buf := m @ drop (length m) (recv_buf c), posted := posted c - 1\<rparr>))"

definition read_clock :: "verbs \<Rightarrow> rdma_conn \<Rightarrow> int \<times> rdma_conn" where
  "read_clock v c = (v_clock v (rc_tick c), c\<lparr>rc_tick := Suc (rc_tick c)\<rparr>)"

text \<open>\<open>duration_cast\<close> to milliseconds and the cast to \<open>int\<close>.\<close>

definition elapsed_ms :: "int \<Rightarrow> int" where
  "elapsed_ms ns = sint (word_of_int (ns div 1000000) :: 32 word)"

text \<open>The three tests of the spin loop after an empty poll.\<close>

definition stop_set :: "verbs \<Rightarrow> bool \<Rightarrow> rdma_conn \<Rightarrow> bool \<times> rdma_conn" where
  "stop_set v has_stop c =
     (if has_stop then (v_stop v (rc_tick c), c\<lparr>rc_tick := Suc (rc_tick c)\<rparr>) else (False, c))"

definition timed_out :: "verbs \<Rightarrow> int \<Rightarrow> int \<Rightarrow> rdma_conn \<Rightarrow> bool \<times> rdma_conn" where
  "timed_out v t_start timeout_ms c =
     (if timeout_ms \<ge> 0 then
        (let (t, c) = read_clock v c in (elapsed_ms (t - t_start) \<ge> timeout_ms, c))
      else (False, c))"

definition spin_over :: "verbs \<Rightarrow> int \<Rightarrow> int \<Rightarrow> rdma_conn \<Rightarrow> bool \<times> rdma_conn" where
  "spin_over v spin_us spin_end c =
     (if spin_us \<ge> 0 then (let (t, c) = read_clock v c in (t \<ge> spin_end, c)) else (False, c))"

datatype spun = Got wc | Quit | Fallback

partial_function (option) spin ::
  "verbs \<Rightarrow> int \<Rightarrow> int \<Rightarrow> bool \<Rightarrow> int \<Rightarrow> int \<Rightarrow> rdma_conn \<Rightarrow> (spun outcome \<times> rdma_conn) option" where
  "spin v t_start timeout_ms has_stop spin_us spin_end c =
     (case take_completion v c of
        (Ret (Some w), c) \<Rightarrow> Some (Ret (Got w), c)
      | (Ret None, c) \<Rightarrow>
          (let (stop, c) = stop_set v has_stop c in
           if stop then Some (Ret Quit, c)
           else
             let (late, c) = timed_out v t_start timeout_ms c in
             if late then Some (Ret Quit, c)
             else
               let (over, c) = spin_over v spin_us spin_end c in
               if over then Some (Ret Fallback, c)
               else spin v t_start timeout_ms has_stop spin_us spin_end c)
      | (Exc e, c) \<Rightarrow> Some (Exc e, c)
      | (Ub, c) \<Rightarrow> Some (Ub, c))"

text \<open>The blocking phase; its result is whether to go round again.\<close>

definition poll_channel :: "verbs \<Rightarrow> int \<Rightarrow> rdma_conn \<Rightarrow> bool outcome \<times> rdma_conn" where
  "poll_channel v slice_ms c =
     (let k = rc_tick c; c = c\<lparr>rc_tick := Suc k\<rparr> in
      case v_chan v k slice_ms of
        PollFail e \<Rightarrow> (Exc (''rdma: poll(comp_channel): '' @ e), c)
      | PollIntr \<Rightarrow> (Ret True, c)
      | PollQuiet \<Rightarrow> (Ret True, c)
      | PollEvent (Some e) _ \<Rightarrow> (Exc (''rdma: ibv_get_cq_event: '' @ e), c)
      | PollEvent None (Some e) \<Rightarrow> (Exc (''rdma: ibv_req_notify_cq: '' @ e), c)
      | PollEvent None None \<Rightarrow> (Ret True, c))"

definition block_phase :: "verbs \<Rightarrow> int \<Rightarrow> int \<Rightarrow> rdma_conn \<Rightarrow> bool outcome \<times> rdma_conn" where
  "block_phase v t_start timeout_ms c =
     (if timeout_ms \<ge> 0 then
        let (t, c) = read_clock v c;
            left = timeout_ms - elapsed_ms (t - t_start)
        in if left \<le> 0 then (Ret False, c) else poll_channel v (min left kPollSliceMs) c
      else poll_channel v kPollSliceMs c)"

partial_function (option) wait_loop ::
  "verbs \<Rightarrow> int \<Rightarrow> int \<Rightarrow> bool \<Rightarrow> int \<Rightarrow> rdma_conn \<Rightarrow> (wc option outcome \<times> rdma_conn) option" where
  "wait_loop v t_start timeout_ms has_stop spin_us c =
     (let (t, c) = read_clock v c;
          spin_end = t + (if spin_us > 0 then spin_us else 0) * 1000
      in Option.bind (spin v t_start timeout_ms has_stop spin_us spin_end c) (\<lambda>(r, c).
           case r of
             Ret (Got w) \<Rightarrow> Some (Ret (Some w), c)
           | Ret Quit \<Rightarrow> Some (Ret None, c)
           | Ret Fallback \<Rightarrow>
               (case block_phase v t_start timeout_ms c of
                  (Ret again, c) \<Rightarrow>
                    if again then wait_loop v t_start timeout_ms has_stop spin_us c
                    else Some (Ret None, c)
                | (Exc e, c) \<Rightarrow> Some (Exc e, c)
                | (Ub, c) \<Rightarrow> Some (Ub, c))
           | Exc e \<Rightarrow> Some (Exc e, c)
           | Ub \<Rightarrow> Some (Ub, c)))"

definition wait_completion ::
  "verbs \<Rightarrow> int \<Rightarrow> bool \<Rightarrow> int \<Rightarrow> rdma_conn \<Rightarrow> (wc option outcome \<times> rdma_conn) option" where
  "wait_completion v timeout_ms has_stop spin_us c =
     (let (t_start, c) = read_clock v c in wait_loop v t_start timeout_ms has_stop spin_us c)"

section \<open>The client call\<close>

partial_function (option) await_both ::
  "verbs \<Rightarrow> string \<Rightarrow> bool \<Rightarrow> bool \<Rightarrow> nat \<Rightarrow> rdma_conn \<Rightarrow> (nat outcome \<times> rdma_conn) option" where
  "await_both v method got_send got_recv received c =
     (if got_send \<and> got_recv then Some (Ret received, c)
      else Option.bind (wait_completion v kCallTimeoutMs False kSpinClientUs c) (\<lambda>(r, c).
        case r of
          Ret None \<Rightarrow> Some (Exc (''rdma_invoke: timed out on '' @ method), c)
        | Ret (Some (WcRecv n)) \<Rightarrow> await_both v method got_send True n c
        | Ret (Some WcSend) \<Rightarrow> await_both v method True got_recv received c
        | Exc e \<Rightarrow> Some (Exc e, c)
        | Ub \<Rightarrow> Some (Ub, c)))"

definition invoke_reply :: "verbs \<Rightarrow> string \<Rightarrow> nat \<Rightarrow> rdma_conn \<Rightarrow> bytes outcome \<times> rdma_conn" where
  "invoke_reply v err_prefix received c =
     andthen (decode_frame received c, c) (\<lambda>(err, body) c.
     andthen (post_recv v c) (\<lambda>_ c.
       if err \<noteq> [] then (Exc (err_prefix @ bytes_str err), c) else (Ret body, c)))"

definition rdma_invoke ::
  "verbs \<Rightarrow> string \<Rightarrow> bytes \<Rightarrow> string \<Rightarrow> rdma_conn \<Rightarrow> (bytes outcome \<times> rdma_conn) option" where
  "rdma_invoke v method req_body err_prefix c =
     (case andthen (encode_frame (str_bytes method) req_body c) (\<lambda>len c. post_send v len c) of
        (Ret _, c) \<Rightarrow>
          map_option (\<lambda>m. andthen m (invoke_reply v err_prefix))
            (await_both v method False False 0 c)
      | (Exc e, c) \<Rightarrow> Some (Exc e, c)
      | (Ub, c) \<Rightarrow> Some (Ub, c))"

section \<open>The connection loop of the server\<close>

definition send_answer :: "verbs \<Rightarrow> bytes \<Rightarrow> bytes \<Rightarrow> rdma_conn \<Rightarrow> unit outcome \<times> rdma_conn" where
  "send_answer v err rsp_body c =
     andthen (post_recv v c) (\<lambda>_ c.
     andthen (encode_frame err (if err = [] then rsp_body else []) c) (\<lambda>len c. post_send v len c))"

partial_function (option) serve_rdma_connection ::
  "verbs \<Rightarrow> 'st dispatcher \<Rightarrow> rdma_conn \<Rightarrow> 'st \<Rightarrow> (unit outcome \<times> rdma_conn \<times> 'st) option" where
  "serve_rdma_connection v dispatch c st =
     Option.bind (wait_completion v (- 1) True kSpinServeUs c) (\<lambda>(r, c).
       case r of
         Ret None \<Rightarrow> Some (Ret (), c, st)
       | Ret (Some WcSend) \<Rightarrow> serve_rdma_connection v dispatch c st
       | Ret (Some (WcRecv n)) \<Rightarrow>
           (case decode_frame n c of
              Ret (method, body) \<Rightarrow>
                Option.bind (answer dispatch method body st) (\<lambda>(a, st).
                  case a of
                    Ret (err, rsp_body) \<Rightarrow>
                      (case send_answer v err rsp_body c of
                         (Ret _, c) \<Rightarrow> serve_rdma_connection v dispatch c st
                       | (Exc e, c) \<Rightarrow> Some (Ret (), c, st)
                       | (Ub, c) \<Rightarrow> Some (Ub, c, st))
                  | Exc e \<Rightarrow> Some (Ret (), c, st)
                  | Ub \<Rightarrow> Some (Ub, c, st))
            | Exc e \<Rightarrow> Some (Ret (), c, st)
            | Ub \<Rightarrow> Some (Ub, c, st))
       | Exc e \<Rightarrow> Some (Ret (), c, st)
       | Ub \<Rightarrow> Some (Ub, c, st))"

section \<open>Frames round trip\<close>

lemma length_put_be32 [simp]: "length (put_be32 v) = 4"
  by (simp add: put_be32_def)

lemma get_put_be32 [simp]: "get_be32 (put_be32 v @ rest) = v"
proof -
  have u: "(ucast (x AND 0xFF) :: u8) = ucast x" for x :: u32
  proof (rule bit_word_eqI)
    fix n assume n: "n < LENGTH(8)"
    have m: "(0xFF :: u32) = mask 8" by (simp add: mask_eq_exp_minus_1)
    show "bit (ucast (x AND 0xFF) :: u8) n = bit (ucast x :: u8) n" using n by (simp add: m bit_simps)
  qed
  have p: "put_be32 v = rev (mem_of 4 v)"
    by (simp add: put_be32_def mem_of_def u numeral_eq_Suc)
  have g: "get_be32 ([a, b, c, d] @ rest) = mem_to [d, c, b, a]" for a b c d
    by (simp add: get_be32_def mem_to_def push_bit_or or.assoc)
  obtain a b c d where m: "mem_of 4 v = [d, c, b, a]" by (simp add: mem_of_def numeral_eq_Suc)
  have "get_be32 (put_be32 v @ rest) = mem_to (mem_of 4 v)" using g [of a b c d] by (simp add: p m)
  then show ?thesis by (simp add: mem_to_of)
qed

definition rdma_frame :: "bytes \<Rightarrow> bytes \<Rightarrow> bytes" where
  "rdma_frame head body =
     put_be32 (of_nat (length head)) @ put_be32 (of_nat (length body)) @ head @ body"

definition fits :: "bytes \<Rightarrow> bytes \<Rightarrow> bool" where
  "fits head body \<longleftrightarrow> 8 + length head + length body \<le> kRdmaMaxMessageBytes"

lemma length_rdma_frame [simp]: "length (rdma_frame head body) = 8 + length head + length body"
  by (simp add: rdma_frame_def)

lemma encode_fits:
  assumes "length (send_buf c) = kRdmaMaxMessageBytes" "fits head body"
  shows "\<exists>rest. encode_frame head body c =
    (Ret (8 + length head + length body), c\<lparr>send_buf := rdma_frame head body @ rest\<rparr>) \<and>
    length (rdma_frame head body @ rest) = kRdmaMaxMessageBytes"
proof -
  let ?rest = "drop (8 + length head + length body) (send_buf c)"
  have "8 + length head + length body \<le> length (send_buf c)" using assms by (simp add: fits_def)
  moreover from this have "encode_frame head body c =
      (Ret (8 + length head + length body), c\<lparr>send_buf := rdma_frame head body @ ?rest\<rparr>)"
    using assms
    by (auto simp: encode_frame_def fits_def kHdrBytes_def Let_def memcpy_at_def rdma_frame_def ac_simps)
  ultimately show ?thesis using assms by (intro exI [of _ ?rest]) (simp add: fits_def)
qed

lemma encode_too_large:
  "\<not> fits head body \<Longrightarrow> \<exists>e. encode_frame head body c = (Exc e, c)"
  by (simp add: encode_frame_def fits_def kHdrBytes_def Let_def)

lemma fits_unat:
  assumes "fits head body"
  shows "unat (of_nat (length head) :: u32) = length head" "unat (of_nat (length body) :: u32) = length body"
  using assms by (simp_all add: fits_def kRdmaMaxMessageBytes_def unat_len32)

lemma decode_rdma_frame:
  assumes "fits head body" "recv_buf c = rdma_frame head body @ rest"
  shows "decode_frame (8 + length head + length body) c = Ret (head, body)"
proof -
  have "get_be32 (recv_buf c) = of_nat (length head)" "get_be32 (drop 4 (recv_buf c)) = of_nat (length body)"
    using assms(2) by (simp_all add: rdma_frame_def)
  moreover have "drop 8 (recv_buf c) = head @ body @ rest"
    "drop (8 + length head) (recv_buf c) = body @ rest"
    using assms(2) by (simp_all add: rdma_frame_def)
  ultimately show ?thesis
    using fits_unat [OF assms(1)] by (simp add: decode_frame_def kHdrBytes_def Let_def)
qed

text \<open>Whatever arrives, the decoder only hands out bytes of the message itself.\<close>

lemma decode_inside:
  assumes "decode_frame n c = Ret (head, body)" "n \<le> length (recv_buf c)"
  shows "\<exists>hdr rest. length hdr = 8 \<and> take n (recv_buf c) = hdr @ head @ body @ rest"
proof -
  let ?h = "unat (get_be32 (recv_buf c))" and ?b = "unat (get_be32 (drop 4 (recv_buf c)))"
  have le: "?h + ?b + 8 \<le> n" and hb: "head = take ?h (drop 8 (recv_buf c))"
    "body = take ?b (drop (8 + ?h) (recv_buf c))"
    using assms(1) by (auto simp: decode_frame_def kHdrBytes_def Let_def split: if_splits)
  have "take (8 + ?h + ?b) (recv_buf c) = take 8 (recv_buf c) @ head @ body"
    unfolding hb by (simp add: take_add)
  moreover have "take (8 + ?h + ?b) (take n (recv_buf c)) = take (8 + ?h + ?b) (recv_buf c)"
    using le by (simp add: min_def)
  ultimately have "take n (recv_buf c) =
      take 8 (recv_buf c) @ head @ body @ drop (8 + ?h + ?b) (take n (recv_buf c))"
    using append_take_drop_id [of "8 + ?h + ?b" "take n (recv_buf c)"] by simp
  moreover have "length (take 8 (recv_buf c)) = 8" using le assms(2) by simp
  ultimately show ?thesis by blast
qed


section \<open>Waiting delivers the next completion\<close>

text \<open>
  Readings that do not disturb a call: it takes less than its timeout, nobody sets the stop flag, and
  posting and waiting do not fail.
\<close>

definition calm :: "verbs \<Rightarrow> bool" where
  "calm v \<longleftrightarrow> (\<forall>k. 0 \<le> v_clock v k \<and> v_clock v k < 5000000000 \<and> \<not> v_stop v k \<and> v_post v k = None \<and>
     (\<forall>t. v_chan v k t \<in> {PollIntr, PollQuiet, PollEvent None None}))"

definition next_cq :: "verbs \<Rightarrow> nat \<Rightarrow> nat \<Rightarrow> bool" where
  "next_cq v i n \<longleftrightarrow> (\<forall>k < n. v_cq v (i + k) = CqEmpty) \<and> v_cq v (i + n) \<noteq> CqEmpty"

lemma next_cq_skip:
  assumes "next_cq v i n" "m \<le> n"
  shows "next_cq v (i + m) (n - m)"
proof -
  have "v_cq v (i + m + k) = CqEmpty" if "k < n - m" for k
    using assms(1) that unfolding next_cq_def by (auto dest: spec [of _ "m + k"] simp: add.assoc)
  then show ?thesis using assms by (simp add: next_cq_def)
qed

lemma elapsed_small:
  assumes "- 2147483648000000 \<le> ns" "ns < 2147483648000000"
  shows "elapsed_ms ns = ns div 1000000"
proof -
  have "- 2147483648 \<le> ns div 1000000" "ns div 1000000 < 2147483648" using assms by auto
  then show ?thesis by (simp add: elapsed_ms_def signed_of_int signed_take_bit_int_eq_self)
qed

lemma calm_steps:
  assumes "calm v" "0 \<le> ts" "ts < 5000000000" "timeout < 0 \<or> 5000 \<le> timeout"
  shows "\<exists>k. stop_set v hs c = (False, c\<lparr>rc_tick := k\<rparr>)"
    "\<exists>k. timed_out v ts timeout c = (False, c\<lparr>rc_tick := k\<rparr>)"
    "\<exists>b k. spin_over v su e c = (b, c\<lparr>rc_tick := k\<rparr>)"
    "\<exists>k. block_phase v ts timeout c = (Ret True, c\<lparr>rc_tick := k\<rparr>)"
proof -
  have keep: "\<exists>k. c = c\<lparr>rc_tick := k\<rparr>" by (rule exI [of _ "rc_tick c"]) simp
  have c: "0 \<le> v_clock v k" "v_clock v k < 5000000000" "\<not> v_stop v k" for k
    using assms(1) by (auto simp: calm_def)
  have el: "elapsed_ms (v_clock v k - ts) < 5000" for k
    using c(1,2) [of k] assms(2,3) by (subst elapsed_small) auto
  have poll: "\<exists>k. poll_channel v t d = (Ret True, d\<lparr>rc_tick := k\<rparr>)" for t d
  proof -
    have "v_chan v (rc_tick d) t \<in> {PollIntr, PollQuiet, PollEvent None None}"
      using assms(1) by (simp add: calm_def)
    then show ?thesis by (auto simp: poll_channel_def Let_def)
  qed
  show "\<exists>k. stop_set v hs c = (False, c\<lparr>rc_tick := k\<rparr>)" using c(3) keep by (auto simp: stop_set_def)
  show "\<exists>k. timed_out v ts timeout c = (False, c\<lparr>rc_tick := k\<rparr>)"
    using el [of "rc_tick c"] assms(4) keep by (auto simp: timed_out_def read_clock_def not_le)
  show "\<exists>b k. spin_over v su e c = (b, c\<lparr>rc_tick := k\<rparr>)"
    using keep by (auto simp: spin_over_def read_clock_def)
  show "\<exists>k. block_phase v ts timeout c = (Ret True, c\<lparr>rc_tick := k\<rparr>)"
    using el [of "rc_tick c"] assms(4) poll [of _ "c\<lparr>rc_tick := Suc (rc_tick c)\<rparr>"] poll [of _ c]
    by (auto simp: block_phase_def read_clock_def not_le)
qed

definition as_spun :: "wc option outcome \<times> rdma_conn \<Rightarrow> spun outcome \<times> rdma_conn" where
  "as_spun m = (case m of (Ret (Some w), c) \<Rightarrow> (Ret (Got w), c) | (Ret None, c) \<Rightarrow> (Ret Quit, c)
     | (Exc e, c) \<Rightarrow> (Exc e, c) | (Ub, c) \<Rightarrow> (Ub, c))"

lemma take_completion_empty:
  "v_cq v (rc_polls c) = CqEmpty \<Longrightarrow> take_completion v c = (Ret None, c\<lparr>rc_polls := Suc (rc_polls c)\<rparr>)"
  by (simp add: take_completion_def)

lemma spin_calm:
  assumes "calm v" "0 \<le> ts" "ts < 5000000000" "timeout < 0 \<or> 5000 \<le> timeout" "next_cq v (rc_polls c) n"
  shows "(\<exists>t. spin v ts timeout hs su e c =
      Some (as_spun (take_completion v (c\<lparr>rc_polls := rc_polls c + n, rc_tick := t\<rparr>)))) \<or>
    (\<exists>m t. 0 < m \<and> m \<le> n \<and> spin v ts timeout hs su e c =
      Some (Ret Fallback, c\<lparr>rc_polls := rc_polls c + m, rc_tick := t\<rparr>))"
  using assms(5)
proof (induction n arbitrary: c)
  case 0
  then have "v_cq v (rc_polls c) \<noteq> CqEmpty" by (simp add: next_cq_def)
  then have "spin v ts timeout hs su e c = Some (as_spun (take_completion v c))"
    by (subst spin.simps) (auto simp: take_completion_def as_spun_def Let_def split: cq_result.splits)
  then show ?case by (intro disjI1 exI [of _ "rc_tick c"]) simp
next
  case (Suc n)
  have e: "v_cq v (rc_polls c) = CqEmpty" using Suc.prems by (auto simp: next_cq_def)
  let ?d = "c\<lparr>rc_polls := Suc (rc_polls c)\<rparr>"
  obtain k where a: "stop_set v hs ?d = (False, ?d\<lparr>rc_tick := k\<rparr>)" using calm_steps(1) [OF assms(1-4)] by blast
  obtain l where b: "timed_out v ts timeout (?d\<lparr>rc_tick := k\<rparr>) = (False, ?d\<lparr>rc_tick := l\<rparr>)"
    using calm_steps(2) [OF assms(1-4), of "?d\<lparr>rc_tick := k\<rparr>"] by auto
  obtain over t where o: "spin_over v su e (?d\<lparr>rc_tick := l\<rparr>) = (over, ?d\<lparr>rc_tick := t\<rparr>)"
    using calm_steps(3) [OF assms(1-4), of su e "?d\<lparr>rc_tick := l\<rparr>"] by auto
  let ?f = "?d\<lparr>rc_tick := t\<rparr>"
  have step: "spin v ts timeout hs su e c =
      (if over then Some (Ret Fallback, ?f) else spin v ts timeout hs su e ?f)"
    by (subst spin.simps) (use a b o in \<open>simp add: take_completion_empty [OF e]\<close>)
  have "next_cq v (rc_polls ?f) n" using next_cq_skip [OF Suc.prems, of 1] by simp
  note ih = Suc.IH [OF this]
  show ?case
  proof (cases over)
    case True
    then have "spin v ts timeout hs su e c = Some (Ret Fallback, c\<lparr>rc_polls := rc_polls c + 1, rc_tick := t\<rparr>)"
      using step by simp
    then show ?thesis by (intro disjI2 exI [of _ "1 :: nat"] exI [of _ t]) simp
  next
    case False
    from ih show ?thesis
    proof (elim disjE exE conjE)
      fix m t' assume "0 < m" "m \<le> n" "spin v ts timeout hs su e ?f =
          Some (Ret Fallback, ?f\<lparr>rc_polls := rc_polls ?f + m, rc_tick := t'\<rparr>)"
      then show ?thesis using step False by (intro disjI2 exI [of _ "Suc m"] exI [of _ t']) simp
    qed (use step False in auto)
  qed
qed


lemma wait_next:
  assumes "calm v" "0 \<le> ts" "ts < 5000000000" "timeout < 0 \<or> 5000 \<le> timeout" "next_cq v (rc_polls c) n"
  shows "\<exists>t. wait_loop v ts timeout hs su c =
    Some (take_completion v (c\<lparr>rc_polls := rc_polls c + n, rc_tick := t\<rparr>))"
  using assms(5)
proof (induction n arbitrary: c rule: less_induct)
  case (less n)
  let ?d = "c\<lparr>rc_tick := Suc (rc_tick c)\<rparr>"
  let ?e = "v_clock v (rc_tick c) + (if su > 0 then su else 0) * 1000"
  have nx: "next_cq v (rc_polls ?d) n" using less.prems by simp
  from spin_calm [OF assms(1-4) nx, of hs su ?e]
  show ?case
  proof (elim disjE exE conjE)
    fix t assume s: "spin v ts timeout hs su ?e ?d =
        Some (as_spun (take_completion v (?d\<lparr>rc_polls := rc_polls ?d + n, rc_tick := t\<rparr>)))"
    have "v_cq v (rc_polls c + n) \<noteq> CqEmpty" using less.prems by (simp add: next_cq_def)
    then have "wait_loop v ts timeout hs su c =
        Some (take_completion v (c\<lparr>rc_polls := rc_polls c + n, rc_tick := t\<rparr>))"
      using s by (subst wait_loop.simps)
        (auto simp: read_clock_def as_spun_def take_completion_def Let_def split: cq_result.splits)
    then show ?thesis by blast
  next
    fix m t assume m: "0 < m" "m \<le> n" and s: "spin v ts timeout hs su ?e ?d =
        Some (Ret Fallback, ?d\<lparr>rc_polls := rc_polls ?d + m, rc_tick := t\<rparr>)"
    let ?f = "c\<lparr>rc_polls := rc_polls c + m, rc_tick := t\<rparr>"
    obtain k where b: "block_phase v ts timeout ?f = (Ret True, ?f\<lparr>rc_tick := k\<rparr>)"
      using calm_steps(4) [OF assms(1-4)] by blast
    let ?g = "?f\<lparr>rc_tick := k\<rparr>"
    have step: "wait_loop v ts timeout hs su c = wait_loop v ts timeout hs su ?g"
      using s b by (subst wait_loop.simps) (simp add: read_clock_def Let_def)
    have "next_cq v (rc_polls ?g) (n - m)" using next_cq_skip [OF less.prems m(2)] by simp
    from less.IH [OF _ this] m show ?thesis using step by (auto simp: ac_simps)
  qed
qed

lemma wait_completion_next:
  assumes "calm v" "timeout < 0 \<or> 5000 \<le> timeout" "next_cq v (rc_polls c) n"
  shows "\<exists>t. wait_completion v timeout hs su c =
    Some (take_completion v (c\<lparr>rc_polls := rc_polls c + n, rc_tick := t\<rparr>))"
  using wait_next [OF assms(1) _ _ assms(2), of "v_clock v (rc_tick c)" "c\<lparr>rc_tick := Suc (rc_tick c)\<rparr>" n hs su]
    assms(1,3)
  by (auto simp: wait_completion_def read_clock_def calm_def)


section \<open>Calls and answers\<close>

text \<open>A connection after set-up: both buffers are there and a receive is posted.\<close>

definition conn_ready :: "rdma_conn \<Rightarrow> bool" where
  "conn_ready c \<longleftrightarrow> length (send_buf c) = kRdmaMaxMessageBytes \<and>
     length (recv_buf c) = kRdmaMaxMessageBytes \<and> posted c = 1"

text \<open>The completions that come up from the poll number \<open>i\<close> on, with any number of empty polls before each.\<close>

fun completions :: "verbs \<Rightarrow> nat \<Rightarrow> cq_result list \<Rightarrow> bool" where
  "completions v i [] = True"
| "completions v i (e # es) = (\<exists>n. next_cq v i n \<and> v_cq v (i + n) = e \<and> completions v (i + n + 1) es)"

lemma await_send:
  assumes "calm v" "completions v (rc_polls c) (CqSend # es)" "\<not> (gs \<and> gr)"
  shows "\<exists>c'. await_both v m gs gr n c = await_both v m True gr n c' \<and>
    completions v (rc_polls c') es \<and> (\<exists>i t. c' = c\<lparr>rc_polls := i, rc_tick := t\<rparr>)"
proof -
  obtain k where k: "next_cq v (rc_polls c) k" "v_cq v (rc_polls c + k) = CqSend"
    "completions v (rc_polls c + k + 1) es" using assms(2) by auto
  obtain t where "wait_completion v kCallTimeoutMs False kSpinClientUs c =
      Some (take_completion v (c\<lparr>rc_polls := rc_polls c + k, rc_tick := t\<rparr>))"
    using wait_completion_next [OF assms(1) _ k(1), of kCallTimeoutMs False kSpinClientUs]
    by (auto simp: kCallTimeoutMs_def)
  then have "await_both v m gs gr n c =
      await_both v m True gr n (c\<lparr>rc_polls := rc_polls c + k + 1, rc_tick := t\<rparr>)"
    using k(2) assms(3) by (subst await_both.simps) (cases c, auto simp: take_completion_def)
  then show ?thesis using k(3) by (intro exI conjI) (assumption | simp)+
qed

lemma await_recv:
  assumes "calm v" "completions v (rc_polls c) (CqRecv msg # es)" "\<not> (gs \<and> gr)"
  shows "\<exists>c'. await_both v m gs gr n c = await_both v m gs True (length msg) c' \<and>
    completions v (rc_polls c') es \<and>
    (\<exists>i t. c' = c\<lparr>recv_buf := msg @ drop (length msg) (recv_buf c), posted := posted c - 1,
       rc_polls := i, rc_tick := t\<rparr>)"
proof -
  obtain k where k: "next_cq v (rc_polls c) k" "v_cq v (rc_polls c + k) = CqRecv msg"
    "completions v (rc_polls c + k + 1) es" using assms(2) by auto
  obtain t where "wait_completion v kCallTimeoutMs False kSpinClientUs c =
      Some (take_completion v (c\<lparr>rc_polls := rc_polls c + k, rc_tick := t\<rparr>))"
    using wait_completion_next [OF assms(1) _ k(1), of kCallTimeoutMs False kSpinClientUs]
    by (auto simp: kCallTimeoutMs_def)
  then have "await_both v m gs gr n c = await_both v m gs True (length msg)
      (c\<lparr>recv_buf := msg @ drop (length msg) (recv_buf c), posted := posted c - 1,
         rc_polls := rc_polls c + k + 1, rc_tick := t\<rparr>)"
    using k(2) assms(3) by (subst await_both.simps) (cases c, auto simp: take_completion_def)
  then show ?thesis using k(3) by (intro exI conjI) (assumption | simp)+
qed

lemma await_both_done: "await_both v m True True n c = Some (Ret n, c)"
  by (subst await_both.simps) simp

text \<open>The two completions of a call, in either order.\<close>

lemma await_call:
  assumes "calm v" "completions v (rc_polls c) es" "es = [CqSend, CqRecv msg] \<or> es = [CqRecv msg, CqSend]"
  shows "\<exists>i t. await_both v m False False 0 c = Some (Ret (length msg),
    c\<lparr>recv_buf := msg @ drop (length msg) (recv_buf c), posted := posted c - 1, rc_polls := i, rc_tick := t\<rparr>)"
  using assms(3)
proof
  assume es: "es = [CqSend, CqRecv msg]"
  obtain a i t where a: "await_both v m False False 0 c = await_both v m True False 0 a"
    "completions v (rc_polls a) [CqRecv msg]" "a = c\<lparr>rc_polls := i, rc_tick := t\<rparr>"
    using await_send [OF assms(1) assms(2) [unfolded es], of False False m 0] by blast
  show ?thesis
    using await_recv [OF assms(1) a(2), of True False m 0] a(1,3) by (auto simp: await_both_done)
next
  assume es: "es = [CqRecv msg, CqSend]"
  obtain a i t where a: "await_both v m False False 0 c = await_both v m False True (length msg) a"
    "completions v (rc_polls a) [CqSend]"
    "a = c\<lparr>recv_buf := msg @ drop (length msg) (recv_buf c), posted := posted c - 1, rc_polls := i, rc_tick := t\<rparr>"
    using await_recv [OF assms(1) assms(2) [unfolded es], of False False m 0] by blast
  show ?thesis
    using await_send [OF assms(1) a(2), of False True m "length msg"] a(1,3) by (auto simp: await_both_done)
qed

lemma rdma_invoke_result:
  assumes "calm v" "conn_ready c" "fits (str_bytes method) body" "fits err rsp"
    and "completions v (rc_polls c) es"
    and "es = [CqSend, CqRecv (rdma_frame err rsp)] \<or> es = [CqRecv (rdma_frame err rsp), CqSend]"
  shows "\<exists>c'. rdma_invoke v method body pre c =
      Some (if err \<noteq> [] then Exc (pre @ bytes_str err) else Ret rsp, c') \<and>
    messages c' = messages c @ [rdma_frame (str_bytes method) body] \<and> conn_ready c'"
proof -
  let ?m = "str_bytes method"
  have post: "v_post v k = None" for k using assms(1) by (simp add: calm_def)
  obtain rest where enc: "encode_frame ?m body c =
      (Ret (8 + length ?m + length body), c\<lparr>send_buf := rdma_frame ?m body @ rest\<rparr>)"
    "length (rdma_frame ?m body @ rest) = kRdmaMaxMessageBytes"
    using encode_fits [OF _ assms(3), of c] assms(2) by (auto simp: conn_ready_def)
  let ?a = "c\<lparr>send_buf := rdma_frame ?m body @ rest, rc_tick := Suc (rc_tick c),
      messages := messages c @ [rdma_frame ?m body]\<rparr>"
  have sent: "andthen (encode_frame ?m body c) (\<lambda>len c. post_send v len c) = (Ret (), ?a)"
    using enc(1) post by (simp add: post_send_def Let_def)
  obtain i t where aw: "await_both v method False False 0 ?a = Some (Ret (length (rdma_frame err rsp)),
      ?a\<lparr>recv_buf := rdma_frame err rsp @ drop (length (rdma_frame err rsp)) (recv_buf c),
         posted := posted c - 1, rc_polls := i, rc_tick := t\<rparr>)" (is "_ = Some (_, ?b)")
    using await_call [OF assms(1) _ assms(6), of ?a "method"] assms(5) by auto
  have "decode_frame (8 + length err + length rsp) ?b = Ret (err, rsp)"
    by (rule decode_rdma_frame [OF assms(4)]) simp
  then have "invoke_reply v pre (length (rdma_frame err rsp)) ?b =
      (if err \<noteq> [] then Exc (pre @ bytes_str err) else Ret rsp,
       ?b\<lparr>rc_tick := Suc t, posted := posted c - 1 + 1\<rparr>)"
    using post by (simp add: invoke_reply_def post_recv_def Let_def)
  then show ?thesis
    using sent aw enc(2) assms(2,4) by (simp add: rdma_invoke_def conn_ready_def fits_def)
qed


section \<open>A connection served to its end\<close>

lemma serve_wait:
  assumes "calm v" "completions v (rc_polls c) (e # es)"
  shows "\<exists>k t. wait_completion v (- 1) True kSpinServeUs c =
      Some (take_completion v (c\<lparr>rc_polls := k, rc_tick := t\<rparr>)) \<and> v_cq v k = e \<and> completions v (Suc k) es"
proof -
  obtain n where "next_cq v (rc_polls c) n" "v_cq v (rc_polls c + n) = e" "completions v (rc_polls c + n + 1) es"
    using assms(2) by auto
  then show ?thesis
    using wait_completion_next [OF assms(1), of "- 1" c n True kSpinServeUs] by auto
qed

lemma serve_send_done:
  assumes "calm v" "conn_ready c" "completions v (rc_polls c) (CqSend # es)"
  shows "\<exists>c'. serve_rdma_connection v dispatch c st = serve_rdma_connection v dispatch c' st \<and>
    completions v (rc_polls c') es \<and> conn_ready c' \<and> messages c' = messages c"
proof -
  obtain k t where k: "wait_completion v (- 1) True kSpinServeUs c =
      Some (take_completion v (c\<lparr>rc_polls := k, rc_tick := t\<rparr>))" "v_cq v k = CqSend" "completions v (Suc k) es"
    using serve_wait [OF assms(1,3)] by blast
  let ?c = "c\<lparr>rc_tick := t, rc_polls := Suc k\<rparr>"
  have "serve_rdma_connection v dispatch c st = serve_rdma_connection v dispatch ?c st"
    using k(1,2) by (subst serve_rdma_connection.simps) (simp add: take_completion_def)
  then show ?thesis
    using k(3) assms(2) by (intro exI [of _ ?c]) (simp add: conn_ready_def)
qed

lemma serve_request:
  assumes "calm v" "conn_ready c" "completions v (rc_polls c) (CqRecv (rdma_frame method body) # es)"
    and "fits method body" "answer dispatch method body st = Some (Ret (err, rsp), st')"
    and "fits err (if err = [] then rsp else [])"
  shows "\<exists>c'. serve_rdma_connection v dispatch c st = serve_rdma_connection v dispatch c' st' \<and>
    completions v (rc_polls c') es \<and> conn_ready c' \<and>
    messages c' = messages c @ [rdma_frame err (if err = [] then rsp else [])]"
proof -
  let ?f = "rdma_frame method body" and ?r = "if err = [] then rsp else []"
  have post: "v_post v k = None" for k using assms(1) by (simp add: calm_def)
  obtain k t where k: "wait_completion v (- 1) True kSpinServeUs c =
      Some (take_completion v (c\<lparr>rc_polls := k, rc_tick := t\<rparr>))" "v_cq v k = CqRecv ?f" "completions v (Suc k) es"
    using serve_wait [OF assms(1,3)] by blast
  let ?c = "c\<lparr>rc_tick := t, rc_polls := Suc k, recv_buf := ?f @ drop (length ?f) (recv_buf c),
      posted := posted c - 1\<rparr>"
  let ?d = "?c\<lparr>rc_tick := Suc t, posted := 1\<rparr>"
  have tk: "take_completion v (c\<lparr>rc_polls := k, rc_tick := t\<rparr>) = (Ret (Some (WcRecv (length ?f))), ?c)"
    using k(2) by (cases c) (simp add: take_completion_def)
  have dec: "decode_frame (length ?f) ?c = Ret (method, body)"
    using decode_rdma_frame [OF assms(4), of ?c] by simp
  obtain rest where enc: "encode_frame err ?r ?d =
      (Ret (8 + length err + length ?r), ?d\<lparr>send_buf := rdma_frame err ?r @ rest\<rparr>)"
    "length (rdma_frame err ?r @ rest) = kRdmaMaxMessageBytes"
    using encode_fits [OF _ assms(6), of ?d] assms(2) by (auto simp: conn_ready_def)
  let ?e = "?d\<lparr>send_buf := rdma_frame err ?r @ rest, rc_tick := Suc (Suc t),
      messages := messages c @ [rdma_frame err ?r]\<rparr>"
  have p: "post_recv v ?c = (Ret (), ?d)"
    using post assms(2) by (simp add: post_recv_def Let_def conn_ready_def)
  have "post_send v (8 + length err + length ?r) (?d\<lparr>send_buf := rdma_frame err ?r @ rest\<rparr>) = (Ret (), ?e)"
    using post by (simp add: post_send_def Let_def)
  then have "send_answer v err rsp ?c = (Ret (), ?e)"
    unfolding send_answer_def p andthen_Ret enc(1) .
  then obtain a where a: "take_completion v (c\<lparr>rc_polls := k, rc_tick := t\<rparr>) = (Ret (Some (WcRecv (length ?f))), a)"
    "decode_frame (length ?f) a = Ret (method, body)" "send_answer v err rsp a = (Ret (), ?e)"
    using tk dec by blast
  have "serve_rdma_connection v dispatch c st = serve_rdma_connection v dispatch ?e st'"
    using assms(5) by (subst serve_rdma_connection.simps) (simp only: k(1) a bind.bind_lunit prod.case
        outcome.case option.case wc.case)
  then show ?thesis
    using k(3) enc(2) assms(2,4) by (intro exI [of _ ?e]) (simp add: conn_ready_def fits_def)
qed

lemma serve_bad:
  assumes "calm v" "completions v (rc_polls c) [CqBad e]"
  shows "\<exists>c'. serve_rdma_connection v dispatch c st = Some (Ret (), c', st) \<and> messages c' = messages c"
proof -
  obtain k t where k: "wait_completion v (- 1) True kSpinServeUs c =
      Some (take_completion v (c\<lparr>rc_polls := k, rc_tick := t\<rparr>))" "v_cq v k = CqBad e"
    using serve_wait [OF assms] by blast
  then show ?thesis by (subst serve_rdma_connection.simps) (simp add: take_completion_def)
qed

text \<open>
  What the adapter reports to a server: a response has been sent, or a request has arrived. The
  answers to the requests, in order.
\<close>

datatype server_event = SendDone | Request bytes bytes

primrec cq_of :: "server_event \<Rightarrow> cq_result" where
  "cq_of SendDone = CqSend"
| "cq_of (Request method body) = CqRecv (rdma_frame method body)"

fun serve_events :: "'st dispatcher \<Rightarrow> server_event list \<Rightarrow> 'st \<Rightarrow> (bytes list \<times> 'st) option" where
  "serve_events dispatch [] st = Some ([], st)"
| "serve_events dispatch (SendDone # es) st = serve_events dispatch es st"
| "serve_events dispatch (Request method body # es) st =
     (case answer dispatch method body st of
        Some (Ret (err, rsp), st) \<Rightarrow>
          if fits method body \<and> fits err (if err = [] then rsp else []) then
            map_option (\<lambda>(out, st). (rdma_frame err (if err = [] then rsp else []) # out, st))
              (serve_events dispatch es st)
          else None
      | _ \<Rightarrow> None)"

lemma rdma_served:
  assumes "calm v" "conn_ready c" "completions v (rc_polls c) (map cq_of es @ [CqBad e])"
    and "serve_events dispatch es st = Some (out, st')"
  shows "\<exists>c'. serve_rdma_connection v dispatch c st = Some (Ret (), c', st') \<and> messages c' = messages c @ out"
  using assms(2-4)
proof (induction dispatch es st arbitrary: c out rule: serve_events.induct)
  case (1 dispatch st)
  then show ?case using serve_bad [OF assms(1), of c e dispatch st] by auto
next
  case (2 dispatch es st)
  obtain a where a: "serve_rdma_connection v dispatch c st = serve_rdma_connection v dispatch a st"
    "completions v (rc_polls a) (map cq_of es @ [CqBad e])" "conn_ready a" "messages a = messages c"
    using serve_send_done [OF assms(1) "2.prems"(1), of "map cq_of es @ [CqBad e]" dispatch st] "2.prems"(2)
    by (auto simp del: completions.simps)
  show ?case using "2.IH" [OF a(3,2)] "2.prems"(3) a(1,4) by simp
next
  case (3 dispatch meth body es st)
  obtain err rsp st2 where an: "answer dispatch meth body st = Some (Ret (err, rsp), st2)"
    and fit: "fits meth body" "fits err (if err = [] then rsp else [])"
    using "3.prems"(3) by (auto split: option.splits outcome.splits if_splits)
  then obtain out2 where out: "serve_events dispatch es st2 = Some (out2, st')"
    "out = rdma_frame err (if err = [] then rsp else []) # out2"
    using "3.prems"(3) by (auto split: if_splits)
  obtain a where a: "serve_rdma_connection v dispatch c st = serve_rdma_connection v dispatch a st2"
    "completions v (rc_polls a) (map cq_of es @ [CqBad e])" "conn_ready a"
    "messages a = messages c @ [rdma_frame err (if err = [] then rsp else [])]"
    using serve_request [OF assms(1) "3.prems"(1) _ fit(1) an fit(2)] "3.prems"(2)
    by (auto simp del: completions.simps)
  show ?case using "3.IH" [OF an refl refl refl _ a(3,2) out(1)] fit out(2) a(1,4) by simp
qed


section \<open>The two transports agree\<close>

text \<open>
  One call on a fresh connection, both ends put together, as \<open>wire_call\<close> does it for TCP. The message
  the client posts is what the server's receive gets, after \<open>a\<close> empty polls, and the message the
  server posts is what the client's receive gets. \<open>b\<close> and \<open>d\<close> are the empty polls of the client;
  \<open>swap\<close> tells whether its receive completes before its send. After the call the server's next
  completion is the error of the closed connection.
\<close>

definition cq_script :: "cq_result list \<Rightarrow> nat \<Rightarrow> cq_result" where
  "cq_script es i = (if i < length es then es ! i else CqEmpty)"

definition fresh_conn :: rdma_conn where
  "fresh_conn = \<lparr>rc_id = True, rc_qp = True, rc_pd = True, rc_chan = True, rc_cq = True,
     rc_send_mr = True, rc_recv_mr = True, send_buf = replicate kRdmaMaxMessageBytes 0,
     recv_buf = replicate kRdmaMaxMessageBytes 0, rc_stop = False, posted = 1, messages = [],
     rc_polls = 0, rc_tick = 0\<rparr>"

definition call_script :: "nat \<Rightarrow> nat \<Rightarrow> bool \<Rightarrow> bytes \<Rightarrow> cq_result list" where
  "call_script b d swap r = replicate b CqEmpty @ (if swap then CqRecv r else CqSend) #
     replicate d CqEmpty @ [if swap then CqSend else CqRecv r]"

definition rdma_call ::
  "verbs \<Rightarrow> verbs \<Rightarrow> nat \<Rightarrow> nat \<Rightarrow> nat \<Rightarrow> bool \<Rightarrow>
   'st dispatcher \<Rightarrow> string \<Rightarrow> bytes \<Rightarrow> 'st \<Rightarrow> (bytes outcome \<times> 'st) option" where
  "rdma_call v w a b d swap dispatch method body st =
     (case encode_frame (str_bytes method) body fresh_conn of
        (Ret len, c) \<Rightarrow>
          (case serve_rdma_connection
                  (w\<lparr>v_cq := cq_script (replicate a CqEmpty @ [CqRecv (take len (send_buf c)), CqBad ''closed''])\<rparr>)
                  dispatch fresh_conn st of
             Some (Ret _, s, st) \<Rightarrow>
               map_option (\<lambda>(r, _). (r, st))
                 (rdma_invoke (v\<lparr>v_cq := cq_script (call_script b d swap (last (messages s)))\<rparr>)
                    method body ''remote error: '' fresh_conn)
           | _ \<Rightarrow> None)
      | _ \<Rightarrow> None)"

lemma fresh_ready [simp]: "conn_ready fresh_conn" "rc_polls fresh_conn = 0" "messages fresh_conn = []"
  by (simp_all add: fresh_conn_def conn_ready_def)

lemma calm_cq [simp]: "calm (v\<lparr>v_cq := f\<rparr>) = calm v"
  by (simp add: calm_def)

lemma next_cq_script:
  assumes "e \<noteq> CqEmpty"
  shows "next_cq (v\<lparr>v_cq := cq_script (xs @ replicate n CqEmpty @ e # ys)\<rparr>) (length xs) n \<and>
    cq_script (xs @ replicate n CqEmpty @ e # ys) (length xs + n) = e"
  using assms by (simp add: next_cq_def cq_script_def nth_append)

lemma completions_script:
  assumes "e \<noteq> CqEmpty"
    and "completions (v\<lparr>v_cq := cq_script ((xs @ replicate n CqEmpty @ [e]) @ ys)\<rparr>) (length xs + n + 1) es"
  shows "completions (v\<lparr>v_cq := cq_script (xs @ replicate n CqEmpty @ e # ys)\<rparr>) (length xs) (e # es)"
  using next_cq_script [OF assms(1), where v = v and xs = xs and n = n and ys = ys] assms(2)
  by (auto intro!: exI [of _ n])

lemma call_completions:
  "completions (v\<lparr>v_cq := cq_script (call_script b d swap r)\<rparr>) 0
     (if swap then [CqRecv r, CqSend] else [CqSend, CqRecv r])"
proof -
  let ?x = "if swap then CqRecv r else CqSend" and ?y = "if swap then CqSend else CqRecv r"
  let ?p = "[] @ replicate b CqEmpty @ [?x]"
  have n: "?x \<noteq> CqEmpty" "?y \<noteq> CqEmpty" by auto
  have "completions (v\<lparr>v_cq := cq_script (?p @ replicate d CqEmpty @ ?y # [])\<rparr>) (length ?p) [?y]"
    by (rule completions_script [OF n(2)]) simp
  then have "completions (v\<lparr>v_cq := cq_script ([] @ replicate b CqEmpty @ ?x # replicate d CqEmpty @ [?y])\<rparr>)
      (length ([] :: cq_result list)) [?x, ?y]"
    by (intro completions_script [OF n(1)]) simp
  then show ?thesis by (cases swap) (simp_all add: call_script_def)
qed

lemma server_completions:
  "completions (w\<lparr>v_cq := cq_script (replicate a CqEmpty @ [CqRecv m, CqBad x])\<rparr>) 0 [CqRecv m, CqBad x]"
proof -
  let ?p = "[] @ replicate a CqEmpty @ [CqRecv m]"
  have "completions (w\<lparr>v_cq := cq_script (?p @ replicate 0 CqEmpty @ CqBad x # [])\<rparr>) (length ?p) [CqBad x]"
    by (rule completions_script) simp_all
  then have "completions (w\<lparr>v_cq := cq_script ([] @ replicate a CqEmpty @ CqRecv m # [CqBad x])\<rparr>)
      (length ([] :: cq_result list)) [CqRecv m, CqBad x]"
    by (intro completions_script) simp_all
  then show ?thesis by simp
qed

lemma rdma_call_result:
  assumes "calm v" "calm w" "fits (str_bytes method) body"
    and an: "answer dispatch (str_bytes method) body st = Some (Ret (err, rsp), st')"
    and "fits err rsp" "err \<noteq> [] \<longrightarrow> rsp = []"
  shows "rdma_call v w a b d swap dispatch method body st =
    Some (if err \<noteq> [] then Exc (''remote error: '' @ bytes_str err) else Ret rsp, st')"
proof -
  let ?m = "str_bytes method"
  have r: "(if err = [] then rsp else []) = rsp" using assms(6) by auto
  obtain rest where enc: "encode_frame ?m body fresh_conn =
      (Ret (8 + length ?m + length body), fresh_conn\<lparr>send_buf := rdma_frame ?m body @ rest\<rparr>)"
    using encode_fits [OF _ assms(3), of fresh_conn] fresh_ready(1) by (auto simp: conn_ready_def)
  let ?w = "w\<lparr>v_cq := cq_script (replicate a CqEmpty @ [CqRecv (rdma_frame ?m body), CqBad ''closed''])\<rparr>"
  have "serve_events dispatch [Request ?m body] st = Some ([rdma_frame err rsp], st')"
    using an assms(3,5) r by simp
  then obtain s where s: "serve_rdma_connection ?w dispatch fresh_conn st = Some (Ret (), s, st')"
    "messages s = [rdma_frame err rsp]"
    using rdma_served [of ?w fresh_conn "[Request ?m body]" "''closed''" dispatch st] assms(2)
      server_completions [where w = w and a = a and m = "rdma_frame ?m body" and x = "''closed''"]
    by (auto simp del: completions.simps)
  let ?v = "v\<lparr>v_cq := cq_script (call_script b d swap (rdma_frame err rsp))\<rparr>"
  obtain c where "rdma_invoke ?v method body ''remote error: '' fresh_conn =
      Some (if err \<noteq> [] then Exc (''remote error: '' @ bytes_str err) else Ret rsp, c)"
    using rdma_invoke_result [of ?v fresh_conn "method" body err rsp, OF _ _ assms(3,5)] assms(1)
      call_completions [where v = v and b = b and d = d and swap = swap and r = "rdma_frame err rsp"]
    by (cases swap) (fastforce simp del: completions.simps)+
  then show ?thesis using enc s by (simp add: rdma_call_def)
qed

text \<open>
  C18. When the transports are interchangeable. In a run in which the call takes less than its five
  seconds, nobody sets the stop flag, and no post or poll fails, a call whose request and answer fit
  the registered buffers (8 bytes of lengths, method or error text, and body in at most 1 MiB) returns
  over RDMA what it returns over TCP, the answer of the dispatcher or an exception with its error
  text, and leaves the server's state as TCP would, whatever the number of polls and the order of the
  two completions. TCP answers larger messages up to 4 GiB as well; over RDMA the client refuses a
  larger request with an exception and sends nothing.
\<close>

theorem transports_agree:
  assumes "calm v" "calm w" "\<forall>n. 0 < lim n"
    and "method \<noteq> []" "length method \<le> 0xFFFF" "length body < 2 ^ 32"
    and "answer dispatch (str_bytes method) body st = Some (Ret (err, rsp), st')"
    and "length err \<le> 0xFFFF" "length rsp < 2 ^ 32" "err \<noteq> [] \<longrightarrow> rsp = []"
  shows "wire_call dispatch lim method body st \<noteq> None \<and>
    (fits (str_bytes method) body \<and> fits err rsp \<longrightarrow>
      rdma_call v w a b d swap dispatch method body st = wire_call dispatch lim method body st) \<and>
    (\<not> fits (str_bytes method) body \<longrightarrow> (\<exists>e. rdma_invoke v method body prefix c = Some (Exc e, c)))"
proof -
  have "\<exists>e. rdma_invoke v method body prefix c = Some (Exc e, c)" if "\<not> fits (str_bytes method) body"
    using encode_too_large [OF that, of c] by (auto simp: rdma_invoke_def)
  then show ?thesis
    using rdma_call_result [OF assms(1,2) _ assms(7) _ assms(10)] wire_call_ok [OF assms(4-6) assms(3,7-10)]
    by simp
qed

definition quiet_verbs :: verbs where
  "quiet_verbs = \<lparr>v_cq = \<lambda>_. CqEmpty, v_clock = \<lambda>_. 0, v_stop = \<lambda>_. False,
     v_chan = \<lambda>_ _. PollQuiet, v_post = \<lambda>_. None\<rparr>"

theorem transports_agree_witness:
  "rdma_call quiet_verbs quiet_verbs 3 2 0 True sample_dispatch ''Echo'' [1, 2] 5 =
     wire_call sample_dispatch (\<lambda>_. 4) ''Echo'' [1, 2] 5"
proof -
  have "calm quiet_verbs" by (simp add: calm_def quiet_verbs_def)
  then show ?thesis
    using transports_agree [OF _ _ _ _ _ _ sample_answer(1), where v = quiet_verbs and w = quiet_verbs and lim = "\<lambda>_. 4"
        and a = 3 and b = 2 and d = 0 and swap = True and st = 5]
    by (simp add: fits_def kRdmaMaxMessageBytes_def)
qed


section \<open>Waiting ends\<close>

definition is_completion :: "cq_result \<Rightarrow> bool" where
  "is_completion e \<longleftrightarrow> (case e of CqSend \<Rightarrow> True | CqRecv _ \<Rightarrow> True | _ \<Rightarrow> False)"

text \<open>A completion that was handed out came from one of the polls made meanwhile.\<close>

definition from_poll :: "verbs \<Rightarrow> rdma_conn \<Rightarrow> rdma_conn \<Rightarrow> bool" where
  "from_poll v c c' \<longleftrightarrow> (\<exists>i. rc_polls c \<le> i \<and> rc_polls c' = Suc i \<and> is_completion (v_cq v i))"

lemma take_completion_cases:
  obtains (got) w c' where "take_completion v c = (Ret (Some w), c')" "from_poll v c c'"
  | (empty) "take_completion v c = (Ret None, c\<lparr>rc_polls := Suc (rc_polls c)\<rparr>)"
  | (error) e c' where "take_completion v c = (Exc e, c')"
proof (cases "v_cq v (rc_polls c)")
  case CqSend
  then show thesis by (intro got) (auto simp: take_completion_def from_poll_def is_completion_def)
next
  case (CqRecv m)
  then show thesis by (intro got) (auto simp: take_completion_def from_poll_def is_completion_def)
next
  case CqEmpty
  then show thesis by (intro empty take_completion_empty)
next
  case (CqFail e)
  then show thesis by (intro error) (simp add: take_completion_def)
next
  case (CqBad e)
  then show thesis by (intro error) (simp add: take_completion_def)
qed

lemma test_polls [simp]:
  "stop_set v hs c = (b, c') \<Longrightarrow> rc_polls c' = rc_polls c"
  "timed_out v ts timeout c = (b, c') \<Longrightarrow> rc_polls c' = rc_polls c"
  "spin_over v su e c = (b, c') \<Longrightarrow> rc_polls c' = rc_polls c"
  by (auto simp: stop_set_def timed_out_def spin_over_def read_clock_def split: if_splits)

lemma block_phase_tick:
  "block_phase v ts timeout c = (r, c') \<Longrightarrow>
    rc_polls c' = rc_polls c \<and> (rc_tick c' = rc_tick c + 1 \<or> rc_tick c' = rc_tick c + 2)"
  by (auto simp: block_phase_def poll_channel_def read_clock_def Let_def
      split: if_splits chan_result.splits option.splits)

text \<open>
  Why a wait ends: every round of the spin loop makes tests, and a bound on the rounds goes down with
  each round whose tests let the wait go on. \<open>room n k\<close> says that reading number \<open>k\<close> is at most \<open>n\<close>
  readings past the last test.
\<close>

locale bounded_wait =
  fixes v :: verbs and ts timeout :: int and hs :: bool
    and room :: "nat \<Rightarrow> nat \<Rightarrow> bool" and left :: "nat \<Rightarrow> nat"
  assumes room_step: "room n k \<Longrightarrow> room (Suc n) (Suc k)"
    and room_mono: "room n k \<Longrightarrow> n \<le> m \<Longrightarrow> room m k"
    and left_mono: "room n k \<Longrightarrow> left (Suc k) \<le> left k"
    and tests: "room 6 (rc_tick c) \<Longrightarrow> stop_set v hs c = (False, c1) \<Longrightarrow>
      timed_out v ts timeout c1 = (False, c2) \<Longrightarrow> spin_over v su e c2 = (b, c3) \<Longrightarrow>
      room 2 (rc_tick c3) \<and> left (rc_tick c3) < left (rc_tick c)"
begin

lemma spin_ends:
  assumes "room 6 (rc_tick c)"
  shows "\<exists>r c'. spin v ts timeout hs su e c = Some (r, c') \<and>
    (r = Ret Fallback \<longrightarrow> room 2 (rc_tick c') \<and> left (rc_tick c') < left (rc_tick c) \<and> rc_polls c \<le> rc_polls c') \<and>
    (\<forall>w. r = Ret (Got w) \<longrightarrow> from_poll v c c')"
  using assms
proof (induction "left (rc_tick c)" arbitrary: c rule: less_induct)
  case less
  show ?case
  proof (cases v c rule: take_completion_cases)
    case (got w c')
    then show ?thesis by (subst spin.simps) auto
  next
    case (error e c')
    then show ?thesis by (subst spin.simps) auto
  next
    case empty
    let ?d = "c\<lparr>rc_polls := Suc (rc_polls c)\<rparr>"
    obtain s c1 where c1: "stop_set v hs ?d = (s, c1)" by fastforce
    obtain l c2 where c2: "timed_out v ts timeout c1 = (l, c2)" by fastforce
    obtain b c3 where c3: "spin_over v su e c2 = (b, c3)" by fastforce
    have go: "spin v ts timeout hs su e c =
        (if s then Some (Ret Quit, c1) else if l then Some (Ret Quit, c2)
         else if b then Some (Ret Fallback, c3) else spin v ts timeout hs su e c3)"
      by (subst spin.simps) (simp add: empty c1 c2 c3)
    show ?thesis
    proof (cases "s \<or> l")
      case True
      then show ?thesis using go by auto
    next
      case False
      then have t: "room 2 (rc_tick c3)" "left (rc_tick c3) < left (rc_tick c)"
        using tests [of ?d c1 c2 su e b c3] less.prems c1 c2 c3 by auto
      have p: "rc_polls c3 = Suc (rc_polls c)"
        using test_polls(1) [OF c1] test_polls(2) [OF c2] test_polls(3) [OF c3] by simp
      have later: "from_poll v c3 c' \<Longrightarrow> from_poll v c c'" for c' using p by (auto simp: from_poll_def)
      have "room 6 (rc_tick c3)" using room_mono [OF t(1), of 6] by simp
      then obtain r c' where r: "spin v ts timeout hs su e c3 = Some (r, c')"
        "r = Ret Fallback \<longrightarrow> room 2 (rc_tick c') \<and> left (rc_tick c') < left (rc_tick c3) \<and> rc_polls c3 \<le> rc_polls c'"
        "\<forall>w. r = Ret (Got w) \<longrightarrow> from_poll v c3 c'"
        using less.hyps [OF t(2)] by blast
      show ?thesis
      proof (cases b)
        case True
        then have "spin v ts timeout hs su e c = Some (Ret Fallback, c3)" using go False by simp
        then show ?thesis using t p by (intro exI conjI) (assumption | simp)+
      next
        case False
        then have "spin v ts timeout hs su e c = Some (r, c')" using go r(1) \<open>\<not> (s \<or> l)\<close> by simp
        then show ?thesis using r(2,3) t p later by (intro exI conjI) (assumption | force)+
      qed
    qed
  qed
qed

lemma wait_loop_ends:
  assumes "room 5 (rc_tick c)"
  shows "\<exists>r c'. wait_loop v ts timeout hs su c = Some (r, c') \<and> (\<forall>w. r = Ret (Some w) \<longrightarrow> from_poll v c c')"
  using assms
proof (induction "left (rc_tick c)" arbitrary: c rule: less_induct)
  case less
  let ?d = "c\<lparr>rc_tick := Suc (rc_tick c)\<rparr>"
  let ?e = "v_clock v (rc_tick c) + (if su > 0 then su else 0) * 1000"
  have "room 6 (rc_tick ?d)" using room_step [OF less.prems] by simp
  then obtain r a where a: "spin v ts timeout hs su ?e ?d = Some (r, a)"
    and fall: "r = Ret Fallback \<Longrightarrow> room 2 (rc_tick a) \<and> left (rc_tick a) < left (rc_tick ?d) \<and> rc_polls c \<le> rc_polls a"
    and got: "\<And>w. r = Ret (Got w) \<Longrightarrow> from_poll v c a"
    using spin_ends [of ?d su ?e] by (force simp: from_poll_def)
  show ?case
  proof (cases "r = Ret Fallback")
    case False
    then show ?thesis
      using a got by (subst wait_loop.simps)
        (auto simp: read_clock_def split: outcome.splits spun.splits)
  next
    case True
    obtain q b where b: "block_phase v ts timeout a = (q, b)" by fastforce
    have bt: "rc_polls b = rc_polls a" "rc_tick b = rc_tick a + 1 \<or> rc_tick b = rc_tick a + 2"
      using block_phase_tick [OF b] by auto
    have r3: "room 3 (Suc (rc_tick a))" using True fall room_step [of 2 "rc_tick a"] by simp
    then have r4: "room 4 (Suc (Suc (rc_tick a)))" using room_step [of 3 "Suc (rc_tick a)"] by simp
    have "room 5 (rc_tick b)"
      using bt(2) room_mono [OF r3, of 5] room_mono [OF r4, of 5] by auto
    moreover have "left (rc_tick b) < left (rc_tick c)"
      using bt(2) True fall left_mono [of 2 "rc_tick a"] left_mono [OF r3] left_mono [OF less.prems]
      by (auto simp: eval_nat_numeral)
    moreover have "from_poll v b c' \<Longrightarrow> from_poll v c c'" for c'
      using bt(1) True fall by (auto simp: from_poll_def)
    ultimately show ?thesis
      using less.hyps [of b] a b True
      by (subst wait_loop.simps) (auto simp: read_clock_def split: outcome.splits)
  qed
qed

end


text \<open>
  Two reasons to stop waiting. A timeout: the clock goes forward with every reading, by at most an
  hour. The stop flag: from some reading on it is set.
\<close>

definition ticking :: "verbs \<Rightarrow> bool" where
  "ticking v \<longleftrightarrow> (\<forall>k. v_clock v k < v_clock v (Suc k) \<and> v_clock v (Suc k) \<le> v_clock v k + 3600000000000)"

definition due :: "verbs \<Rightarrow> int \<Rightarrow> int \<Rightarrow> nat \<Rightarrow> nat \<Rightarrow> bool" where
  "due v ts timeout n k \<longleftrightarrow> ticking v \<and> 0 \<le> timeout \<and> timeout \<le> 1000000000 \<and> ts \<le> v_clock v k \<and>
     v_clock v k - ts \<le> timeout * 1000000 + int n * 3600000000000"

definition time_left :: "verbs \<Rightarrow> int \<Rightarrow> int \<Rightarrow> nat \<Rightarrow> nat" where
  "time_left v ts timeout k = nat (timeout * 1000000 + 36000000000000 - (v_clock v k - ts))"

lemma due_step: "due v ts timeout n k \<Longrightarrow> due v ts timeout (Suc n) (Suc k)"
  unfolding due_def ticking_def by (auto dest!: spec [of _ k] simp: algebra_simps)

lemma due_before:
  assumes "due v ts timeout n k" "n \<le> 7" "elapsed_ms (v_clock v k - ts) < timeout"
  shows "due v ts timeout 0 k"
proof -
  have "v_clock v k - ts < 2147483648000000" "0 \<le> v_clock v k - ts"
    using assms(1,2) by (auto simp: due_def)
  then have "elapsed_ms (v_clock v k - ts) = (v_clock v k - ts) div 1000000"
    by (intro elapsed_small) auto
  then have "(v_clock v k - ts) div 1000000 < timeout" using assms(3) by simp
  then have "v_clock v k - ts < timeout * 1000000" by linarith
  then show ?thesis using assms(1) by (simp add: due_def)
qed

lemma clock_ahead: "ticking v \<Longrightarrow> k < l \<Longrightarrow> v_clock v k < v_clock v l"
  by (rule lift_Suc_mono_less [of "v_clock v"]) (auto simp: ticking_def)

lemma due_tests:
  assumes "due v ts timeout 6 (rc_tick c)" "stop_set v hs c = (False, c1)"
    "timed_out v ts timeout c1 = (False, c2)" "spin_over v su e c2 = (b, c3)"
  shows "due v ts timeout 2 (rc_tick c3)" "rc_tick c < rc_tick c3"
proof -
  have t: "0 \<le> timeout" using assms(1) by (simp add: due_def)
  have c1: "rc_tick c1 = rc_tick c \<or> rc_tick c1 = Suc (rc_tick c)"
    using assms(2) by (auto simp: stop_set_def split: if_splits)
  then have d1: "due v ts timeout 7 (rc_tick c1)"
    using assms(1) due_step [OF assms(1)] by (auto simp: due_def)
  have c2: "rc_tick c2 = Suc (rc_tick c1)" and "elapsed_ms (v_clock v (rc_tick c1) - ts) < timeout"
    using assms(3) t by (auto simp: timed_out_def read_clock_def not_le)
  then have "due v ts timeout 0 (rc_tick c1)" using due_before [OF d1] by simp
  from due_step [OF this] due_step [OF due_step [OF this]]
  have "due v ts timeout 1 (rc_tick c2)" "due v ts timeout 2 (Suc (rc_tick c2))"
    unfolding c2 by (simp_all add: numeral_2_eq_2)
  moreover have "rc_tick c3 = rc_tick c2 \<or> rc_tick c3 = Suc (rc_tick c2)"
    using assms(4) by (auto simp: spin_over_def read_clock_def split: if_splits)
  ultimately show "due v ts timeout 2 (rc_tick c3)" "rc_tick c < rc_tick c3"
    using c1 c2 by (auto simp: due_def)
qed

interpretation deadline: bounded_wait v ts timeout hs "due v ts timeout" "time_left v ts timeout"
  for v ts timeout hs
proof unfold_locales
  fix n m k assume d: "due v ts timeout n k"
  show "due v ts timeout (Suc n) (Suc k)" by (rule due_step [OF d])
  show "time_left v ts timeout (Suc k) \<le> time_left v ts timeout k"
    using d clock_ahead [of v k "Suc k"] by (simp add: time_left_def due_def nat_mono)
  show "due v ts timeout m k" if "n \<le> m" using d that by (auto simp: due_def)
next
  fix c c1 c2 su e b c3
  assume d: "due v ts timeout 6 (rc_tick c)" and t: "stop_set v hs c = (False, c1)"
    "timed_out v ts timeout c1 = (False, c2)" "spin_over v su e c2 = (b, c3)"
  have "v_clock v (rc_tick c) < v_clock v (rc_tick c3)"
    using clock_ahead [OF _ due_tests(2) [OF d t]] d by (simp add: due_def)
  then show "due v ts timeout 2 (rc_tick c3) \<and> time_left v ts timeout (rc_tick c3) < time_left v ts timeout (rc_tick c)"
    using due_tests(1) [OF d t] d by (auto simp: time_left_def due_def)
qed

interpretation stopping: bounded_wait v ts timeout hs "\<lambda>n k. hs \<and> (\<forall>j \<ge> K. v_stop v j)" "\<lambda>k. K - k"
  for v ts timeout hs K
proof unfold_locales
  fix c c1 c2 su e b c3
  assume s: "hs \<and> (\<forall>j \<ge> K. v_stop v j)" and t: "stop_set v hs c = (False, c1)"
    "timed_out v ts timeout c1 = (False, c2)" "spin_over v su e c2 = (b, c3)"
  have "rc_tick c < K" "Suc (rc_tick c) = rc_tick c1"
    using s t(1) by (auto simp: stop_set_def not_le [symmetric])
  moreover have "rc_tick c1 \<le> rc_tick c2" "rc_tick c2 \<le> rc_tick c3"
    using t(2,3) by (auto simp: timed_out_def spin_over_def read_clock_def split: if_splits)
  ultimately show "(hs \<and> (\<forall>j \<ge> K. v_stop v j)) \<and> K - rc_tick c3 < K - rc_tick c"
    using s by auto
qed auto

lemma wait_timeout_ends:
  assumes "ticking v" "0 \<le> timeout" "timeout \<le> 1000000000"
  shows "\<exists>r c'. wait_completion v timeout hs su c = Some (r, c') \<and> (\<forall>w. r = Ret (Some w) \<longrightarrow> from_poll v c c')"
proof -
  let ?k = "rc_tick c" and ?ts = "v_clock v (rc_tick c)"
  have "due v ?ts timeout 0 ?k" using assms by (simp add: due_def)
  then have "due v ?ts timeout 5 (Suc ?k)"
    using due_step [of v ?ts timeout 0 ?k] by (auto simp: due_def)
  then show ?thesis
    using deadline.wait_loop_ends [of v ?ts timeout "c\<lparr>rc_tick := Suc ?k\<rparr>" hs su]
    by (simp add: wait_completion_def read_clock_def from_poll_def)
qed

lemma wait_stop_ends:
  assumes "\<forall>k \<ge> K. v_stop v k"
  shows "\<exists>r c'. wait_completion v timeout True su c = Some (r, c')"
  using stopping.wait_loop_ends [where hs = True and K = K and v = v and c = "c\<lparr>rc_tick := Suc (rc_tick c)\<rparr>"
      and ts = "v_clock v (rc_tick c)" and timeout = timeout and su = su] assms
  by (auto simp: wait_completion_def read_clock_def)

lemma await_ends:
  assumes "ticking v" "\<forall>i \<ge> J. \<not> is_completion (v_cq v i)"
  shows "\<exists>r c'. await_both v m gs gr n c = Some (r, c')"
proof (induction "J - rc_polls c" arbitrary: gs gr n c rule: less_induct)
  case less
  obtain r a where a: "wait_completion v kCallTimeoutMs False kSpinClientUs c = Some (r, a)"
    and got: "\<And>w. r = Ret (Some w) \<Longrightarrow> from_poll v c a"
    using wait_timeout_ends [OF assms(1), of kCallTimeoutMs False kSpinClientUs c]
    by (auto simp: kCallTimeoutMs_def)
  have ih: "\<exists>q c'. await_both v m gs gr n a = Some (q, c')" if w: "r = Ret (Some w)" for gs gr n w
  proof (rule less.hyps)
    obtain i where "rc_polls c \<le> i" "rc_polls a = Suc i" "is_completion (v_cq v i)"
      using got [OF w] by (auto simp: from_poll_def)
    moreover from this have "i < J" using assms(2) by (meson not_le)
    ultimately show "J - rc_polls a < J - rc_polls c" by simp
  qed
  show ?case
    by (subst await_both.simps) (use a ih in \<open>auto split: outcome.splits option.splits wc.splits\<close>)
qed

text \<open>
  C19. Nobody waits for ever: a client call returns, with an answer or an exception, when the clock
  goes on and the adapter reports finitely many completions, even if the peer never answers; and a
  server that waits for a request returns from the wait when its connection is told to stop.
\<close>

theorem rdma_waits_end:
  assumes "ticking v" "\<forall>i \<ge> J. \<not> is_completion (v_cq v i)" "\<forall>k \<ge> K. v_stop w k"
  shows "(\<exists>r c'. rdma_invoke v method body pre c = Some (r, c')) \<and>
    (\<exists>r d'. wait_completion w (- 1) True kSpinServeUs d = Some (r, d'))"
proof -
  obtain x a where x: "andthen (encode_frame (str_bytes method) body c) (\<lambda>len c. post_send v len c) = (x, a)"
    by fastforce
  obtain r b where "await_both v method False False 0 a = Some (r, b)"
    using await_ends [OF assms(1,2)] by blast
  then have "\<exists>r c'. rdma_invoke v method body pre c = Some (r, c')"
    using x by (cases x) (auto simp: rdma_invoke_def)
  then show ?thesis using wait_stop_ends [OF assms(3)] by blast
qed

theorem rdma_waits_end_witness:
  "(\<exists>r c'. rdma_invoke (quiet_verbs\<lparr>v_clock := \<lambda>k. 50 * int k\<rparr>) ''Echo'' [] [] fresh_conn = Some (r, c')) \<and>
   (\<exists>r d'. wait_completion (quiet_verbs\<lparr>v_stop := \<lambda>k. 7 \<le> k\<rparr>) (- 1) True kSpinServeUs fresh_conn = Some (r, d'))"
  by (rule rdma_waits_end [where J = 0 and K = 7]) (simp_all add: ticking_def quiet_verbs_def is_completion_def)

end
