(* ===== verification/Cli.thy ===== *)
theory Cli
  imports Prelude
begin

text \<open>
  \<open>net/src/raft_cli.cpp\<close>, the argument helpers the programs share, and the transport names of
  \<open>net/src/raft_rpc_conn.cpp\<close>. \<open>std::getline\<close> on a string stream gives the pieces between
  separators; at the end of the stream it gives nothing, so a trailing separator adds no empty piece.
\<close>

section \<open>Operations\<close>

function getlines :: "char \<Rightarrow> string \<Rightarrow> string list" where
  "getlines sep s =
     (if s = [] then []
      else takeWhile (\<lambda>c. c \<noteq> sep) s # getlines sep (tl (dropWhile (\<lambda>c. c \<noteq> sep) s)))"
  by auto

lemma length_dropWhile_tl: "s \<noteq> [] \<Longrightarrow> length (tl (dropWhile P s)) < length s"
  using length_dropWhile_le [of P s] by (cases "s") (auto simp: less_Suc_eq_le)

termination getlines
  by (relation "measure (\<lambda>(sep, s). length s)") (simp_all add: length_dropWhile_tl del: length_tl)

declare getlines.simps [simp del]

definition split :: "string \<Rightarrow> char \<Rightarrow> bool \<Rightarrow> string list" where
  "split s sep skip_empty = filter (\<lambda>item. \<not> (skip_empty \<and> item = [])) (getlines sep s)"

definition blank :: "char \<Rightarrow> bool" where
  "blank c \<longleftrightarrow> c = CHR '' '' \<or> c = CHR 0x09"

text \<open>\<open>find_first_not_of\<close> and \<open>find_last_not_of\<close>, and the part between them.\<close>

definition trim :: "string \<Rightarrow> string" where
  "trim s = rev (dropWhile blank (rev (dropWhile blank s)))"

definition split_trimmed :: "string \<Rightarrow> char \<Rightarrow> string list" where
  "split_trimmed s sep = map trim (filter (\<lambda>item. \<not> list_all blank item) (getlines sep s))"

text \<open>\<open>next_arg_value\<close>: the next argument and its index, or the end of the program.\<close>

definition next_arg_value :: "string list \<Rightarrow> nat \<Rightarrow> (string \<times> nat) option" where
  "next_arg_value argv i = (if i + 1 \<ge> length argv then None else Some (argv ! (i + 1), i + 1))"

record host_port =
  hp_host :: string
  hp_port :: int
  has_port :: bool

text \<open>\<open>std::string::rfind(':')\<close>: the text before and after the last colon.\<close>

definition last_colon :: "string \<Rightarrow> (string \<times> string) option" where
  "last_colon s =
     (if CHR '':'' \<in> set s then
        (let post = rev (takeWhile (\<lambda>c. c \<noteq> CHR '':'') (rev s))
         in Some (take (length s - length post - 1) s, post))
      else None)"

text \<open>\<open>std::atoi\<close>: leading white space, a sign, then digits up to the first other character.\<close>

definition digit :: "char \<Rightarrow> bool" where
  "digit c \<longleftrightarrow> 48 \<le> (of_char c :: nat) \<and> (of_char c :: nat) \<le> 57"

definition digits_value :: "string \<Rightarrow> int" where
  "digits_value s = fold (\<lambda>c v. 10 * v + (of_char c - 48)) s 0"

definition white :: "char \<Rightarrow> bool" where
  "white c \<longleftrightarrow> c = CHR '' '' \<or> 9 \<le> (of_char c :: nat) \<and> (of_char c :: nat) \<le> 13"

definition atoi :: "string \<Rightarrow> int" where
  "atoi s =
     (let s = dropWhile white s
      in case s of
           c # r \<Rightarrow>
             if c = CHR ''-'' then - digits_value (takeWhile digit r)
             else if c = CHR ''+'' then digits_value (takeWhile digit r)
             else digits_value (takeWhile digit s)
         | [] \<Rightarrow> 0)"

definition parse_host_port :: "string \<Rightarrow> host_port" where
  "parse_host_port addr = (case last_colon addr of
      None \<Rightarrow> \<lparr>hp_host = addr, hp_port = 0, has_port = False\<rparr>
    | Some (h, p) \<Rightarrow> \<lparr>hp_host = h, hp_port = atoi p, has_port = True\<rparr>)"

definition port_of :: "string \<Rightarrow> int" where
  "port_of addr = hp_port (parse_host_port addr)"

datatype transport_kind = Rdma | Tcp

definition parse_transport_kind :: "string \<Rightarrow> transport_kind option" where
  "parse_transport_kind s = (if s = ''rdma'' then Some Rdma else if s = ''tcp'' then Some Tcp else None)"

definition transport_kind_name :: "transport_kind \<Rightarrow> string" where
  "transport_kind_name k = (if k = Rdma then ''rdma'' else ''tcp'')"

section \<open>Splitting undoes joining\<close>

fun join :: "char \<Rightarrow> string list \<Rightarrow> string" where
  "join sep [] = []"
| "join sep [x] = x"
| "join sep (x # y # xs) = x @ sep # join sep (y # xs)"

lemma join_Cons: "xs \<noteq> [] \<Longrightarrow> join sep (x # xs) = x @ sep # join sep xs"
  by (cases xs) auto

lemma getlines_prefix:
  assumes "sep \<notin> set x"
  shows "getlines sep (x @ sep # s) = x # getlines sep s"
proof -
  have "takeWhile (\<lambda>c. c \<noteq> sep) (x @ sep # s) = x" "dropWhile (\<lambda>c. c \<noteq> sep) (x @ sep # s) = sep # s"
    using assms by (induction x) auto
  then show ?thesis by (subst getlines.simps) simp
qed

lemma getlines_last:
  assumes "sep \<notin> set x" "x \<noteq> []"
  shows "getlines sep x = [x]"
proof -
  have t: "takeWhile (\<lambda>c. c \<noteq> sep) x = x" "dropWhile (\<lambda>c. c \<noteq> sep) x = []" using assms(1) by auto
  have e: "getlines sep [] = []" by (subst getlines.simps) simp
  show ?thesis unfolding getlines.simps [of sep x] t using assms(2) by (simp add: e)
qed

lemma getlines_join:
  "xs \<noteq> [] \<Longrightarrow> \<forall>x \<in> set xs. sep \<notin> set x \<Longrightarrow> last xs \<noteq> [] \<Longrightarrow> getlines sep (join sep xs) = xs"
proof (induction xs)
  case (Cons x xs)
  then show ?case
    by (cases "xs = []") (auto simp: getlines_last join_Cons getlines_prefix)
qed simp

lemma decimal_digits: "list_all digit (decimal n)" "decimal n \<noteq> []"
proof (induction n rule: decimal.induct)
  case (1 n)
  have d: "digit (char_of (48 + k :: nat))" if "k < 10" for k
    using that by (simp add: digit_def of_char_of)
  {
    case 1
    show ?case using "1.IH" d [of n] d [of "n mod 10"] by (subst decimal.simps) auto
  next
    case 2
    show ?case by (subst decimal.simps) simp
  }
qed

lemma digits_value_decimal: "digits_value (decimal n) = int n"
proof (induction n rule: decimal.induct)
  case (1 n)
  have snoc: "digits_value (s @ [c]) = 10 * digits_value s + (of_char c - 48)" for s c
    by (simp add: digits_value_def)
  have c: "(of_char (char_of (48 + k :: nat)) :: int) - 48 = int k" if "k < 10" for k
  proof -
    have "(of_char (char_of (48 + k)) :: int) = int (of_char (char_of (48 + k)))"
      by (simp only: of_nat_of_char)
    then show ?thesis using that by (simp add: of_char_of)
  qed
  show ?case
  proof (cases "n < 10")
    case True
    then show ?thesis using c [of n] by (subst decimal.simps) (simp add: digits_value_def)
  next
    case False
    have "10 * int (n div 10) + int (n mod 10) = int n"
      by (metis mult_div_mod_eq of_nat_add of_nat_mult of_nat_numeral)
    then show ?thesis using 1 False c [of "n mod 10"] by (subst decimal.simps) (simp add: snoc)
  qed
qed

text \<open>
  Printing and parsing the command line agree: a list joined with separators splits back into its
  items, and an address made of a host and a decimal port parses back into them, whatever colons the
  host itself has.
\<close>

theorem cli_round_trips:
  assumes "xs \<noteq> []" "\<forall>x \<in> set xs. sep \<notin> set x" "last xs \<noteq> []"
  shows "split (join sep xs) sep False = xs \<and>
    parse_host_port (host @ '':'' @ decimal port) = \<lparr>hp_host = host, hp_port = int port, has_port = True\<rparr>"
proof -
  let ?d = "decimal port"
  have nc: "CHR '':'' \<notin> set ?d"
    using decimal_digits(1) [of port] by (auto simp: list_all_iff digit_def)
  have "takeWhile (\<lambda>c. c \<noteq> CHR '':'') (rev (host @ '':'' @ ?d)) = rev ?d"
    using nc takeWhile_append2 [of "rev ?d" "\<lambda>c. c \<noteq> CHR '':''" "CHR '':'' # rev host"] by auto
  then have col: "last_colon (host @ '':'' @ ?d) = Some (host, ?d)"
    by (simp add: last_colon_def)
  obtain c r where cr: "?d = c # r" "digit c" using decimal_digits [of port] by (cases ?d) auto
  have "takeWhile digit ?d = ?d" using decimal_digits(1) [of port] by (simp add: list_all_iff)
  moreover have "\<not> white c" "c \<noteq> CHR ''-''" "c \<noteq> CHR ''+''"
    using cr(2) by (auto simp: digit_def white_def)
  ultimately have "atoi ?d = int port"
    using digits_value_decimal [of port] cr(1) by (simp add: atoi_def Let_def)
  then show ?thesis
    using col getlines_join [OF assms] by (simp add: parse_host_port_def split_def)
qed

theorem cli_round_trips_witness:
  "split ''a,b'' CHR '','' False = [''a'', ''b''] \<and>
   parse_host_port ''::1:80'' = \<lparr>hp_host = ''::1'', hp_port = 80, has_port = True\<rparr>"
proof -
  have "decimal 80 = ''80''" by (simp add: decimal.simps char_of_def bit_0)
  then show ?thesis
    using cli_round_trips [of "[''a'', ''b'']" "CHR '',''" "''::1''" 80] by simp
qed

end
