(* ===== verification/RdmaSetup.thy ===== *)
theory RdmaSetup
  imports Rdma Cli
begin

text \<open>
  Setting up and tearing down RDMA connections, of \<open>net/src/raft_rdma_transport.cpp\<close>: the resources
  of an \<open>RdmaConn\<close>, \<open>rdma_dial\<close>, the accept path and the listener loop.

  The connection manager library is a parameter: \<open>cm_call\<close> gives the error text of a failing call by
  the name the code reports it under, \<open>cm_wait\<close> what waiting for an event ends with. The advice the
  code appends to some messages is not in ASCII; \<open>cm_advice\<close> stands for it. Releasing operations
  return the list of what they release, in order. Memory from \<open>new\<close> is always granted.
\<close>

section \<open>Resources\<close>

datatype resource = ResQp | ResSendMr | ResRecvMr | ResSendBuf | ResRecvBuf | ResCq | ResChan | ResPd | ResId | ResEc

definition RdmaConn_init :: rdma_conn where
  "RdmaConn_init = \<lparr>rc_id = False, rc_qp = False, rc_pd = False, rc_chan = False, rc_cq = False,
     rc_send_mr = False, rc_recv_mr = False, send_buf = [], recv_buf = [], rc_stop = False, posted = 0,
     messages = [], rc_polls = 0, rc_tick = 0\<rparr>"

definition drop_res :: "bool \<Rightarrow> resource \<Rightarrow> (rdma_conn \<Rightarrow> rdma_conn) \<Rightarrow> resource list \<times> rdma_conn \<Rightarrow>
    resource list \<times> rdma_conn" where
  "drop_res b r f m = (if b then (fst m @ [r], f (snd m)) else m)"

definition teardown :: "rdma_conn \<Rightarrow> resource list \<times> rdma_conn" where
  "teardown c =
     (let m = ([], c);
          m = drop_res (rc_id c \<and> rc_qp c) ResQp (\<lambda>c. c\<lparr>rc_qp := False\<rparr>) m;
          m = drop_res (rc_send_mr c) ResSendMr (\<lambda>c. c\<lparr>rc_send_mr := False\<rparr>) m;
          m = drop_res (rc_recv_mr c) ResRecvMr (\<lambda>c. c\<lparr>rc_recv_mr := False\<rparr>) m;
          m = drop_res (send_buf c \<noteq> []) ResSendBuf (\<lambda>c. c\<lparr>send_buf := []\<rparr>) m;
          m = drop_res (recv_buf c \<noteq> []) ResRecvBuf (\<lambda>c. c\<lparr>recv_buf := []\<rparr>) m;
          m = drop_res (rc_cq c) ResCq (\<lambda>c. c\<lparr>rc_cq := False\<rparr>) m;
          m = drop_res (rc_chan c) ResChan (\<lambda>c. c\<lparr>rc_chan := False\<rparr>) m;
          m = drop_res (rc_pd c) ResPd (\<lambda>c. c\<lparr>rc_pd := False\<rparr>) m
      in drop_res (rc_id c) ResId (\<lambda>c. c\<lparr>rc_id := False\<rparr>) m)"

section \<open>Library calls and set-up\<close>

datatype cm_type = AddrResolved | RouteResolved | Established | ConnectRequest | Disconnected
  | AddrError | RouteError | Rejected | ConnectError | OtherEvent string

text \<open>Waiting for an event: \<open>poll\<close> fails, times out, taking the event fails, or an event with the text of its error status.\<close>

datatype cm_result = CmPollFail string | CmTimeout | CmGetFail string | CmEvent cm_type "string option"

record cm_lib =
  cm_call :: "string \<Rightarrow> string option"
  cm_wait :: "cm_type \<Rightarrow> cm_result"
  cm_str :: "cm_type \<Rightarrow> string"
  cm_advice :: "cm_type \<Rightarrow> string"

definition lib_call :: "cm_lib \<Rightarrow> string \<Rightarrow> ('s \<Rightarrow> 's) \<Rightarrow> 's \<Rightarrow> unit outcome \<times> 's" where
  "lib_call lib name f s =
     (case cm_call lib name of
        Some e \<Rightarrow> (Exc (''rdma: '' @ name @ '': '' @ e), s)
      | None \<Rightarrow> (Ret (), f s))"

definition setup_conn :: "cm_lib \<Rightarrow> rdma_conn \<Rightarrow> unit outcome \<times> rdma_conn" where
  "setup_conn lib c =
     andthen (lib_call lib ''ibv_alloc_pd'' (\<lambda>c. c\<lparr>rc_pd := True\<rparr>) (c\<lparr>rc_id := True\<rparr>)) (\<lambda>_ c.
     andthen (lib_call lib ''ibv_create_comp_channel'' (\<lambda>c. c\<lparr>rc_chan := True\<rparr>) c) (\<lambda>_ c.
     andthen (lib_call lib ''ibv_create_cq'' (\<lambda>c. c\<lparr>rc_cq := True\<rparr>) c) (\<lambda>_ c.
     andthen (lib_call lib ''ibv_req_notify_cq'' (\<lambda>c. c) c) (\<lambda>_ c.
     andthen (lib_call lib ''rdma_create_qp'' (\<lambda>c. c\<lparr>rc_qp := True\<rparr>) c) (\<lambda>_ c.
       let c = c\<lparr>send_buf := replicate kRdmaMaxMessageBytes 0, recv_buf := replicate kRdmaMaxMessageBytes 0\<rparr> in
     andthen (lib_call lib ''ibv_reg_mr(send)'' (\<lambda>c. c\<lparr>rc_send_mr := True\<rparr>) c) (\<lambda>_ c.
       lib_call lib ''ibv_reg_mr(recv)'' (\<lambda>c. c\<lparr>rc_recv_mr := True\<rparr>) c))))))"

section \<open>Dialling\<close>

record rdma_handle =
  rh_ec :: bool
  rh_conn :: rdma_conn

definition RdmaClientHandle :: rdma_handle where
  "RdmaClientHandle = \<lparr>rh_ec = False, rh_conn = RdmaConn_init\<rparr>"

text \<open>The destructor of the handle, and then that of its connection.\<close>

definition destroy_handle :: "rdma_handle \<Rightarrow> resource list \<times> rdma_handle" where
  "destroy_handle h =
     (let (log1, c) = teardown (rh_conn h);
          log2 = (if rh_ec h then [ResEc] else []);
          (log3, c) = teardown c
      in (log1 @ log2 @ log3, \<lparr>rh_ec = False, rh_conn = c\<rparr>))"

definition on_conn ::
  "(rdma_conn \<Rightarrow> 'a outcome \<times> rdma_conn) \<Rightarrow> rdma_handle \<Rightarrow> 'a outcome \<times> rdma_handle" where
  "on_conn f h = (case f (rh_conn h) of (r, c) \<Rightarrow> (r, h\<lparr>rh_conn := c\<rparr>))"

definition split_addr :: "string \<Rightarrow> (string \<times> string) outcome" where
  "split_addr address =
     (case last_colon address of
        None \<Rightarrow> Exc (''rdma: address must be host:port -- got '' @ [CHR 0x27] @ address @ [CHR 0x27])
      | Some hp \<Rightarrow> Ret hp)"

definition expect_cm_event :: "cm_lib \<Rightarrow> cm_type \<Rightarrow> string \<Rightarrow> 's \<Rightarrow> unit outcome \<times> 's" where
  "expect_cm_event lib want peer_name s =
     (case cm_wait lib want of
        CmPollFail e \<Rightarrow> (Exc (''rdma: poll(cm event channel): '' @ e), s)
      | CmTimeout \<Rightarrow> (Exc (''rdma: '' @ peer_name @ '': timed out waiting for '' @ cm_str lib want), s)
      | CmGetFail e \<Rightarrow> (Exc (''rdma: rdma_get_cm_event: '' @ e), s)
      | CmEvent got status \<Rightarrow>
          if got \<noteq> want then
            (Exc (''rdma: '' @ peer_name @ '': '' @ cm_str lib got @
                  (case status of Some e \<Rightarrow> '' ('' @ e @ '')'' | None \<Rightarrow> []) @ cm_advice lib got), s)
          else (Ret (), s))"

definition dial_steps :: "cm_lib \<Rightarrow> verbs \<Rightarrow> string \<Rightarrow> rdma_handle \<Rightarrow> unit outcome \<times> rdma_handle" where
  "dial_steps lib v address h =
     andthen (lib_call lib ''rdma_create_event_channel'' (\<lambda>h. h\<lparr>rh_ec := True\<rparr>) h) (\<lambda>_ h.
     andthen (lib_call lib ''rdma_create_id'' (\<lambda>h. h\<lparr>rh_conn := (rh_conn h)\<lparr>rc_id := True\<rparr>\<rparr>) h) (\<lambda>_ h.
     andthen (lib_call lib (''rdma_resolve_addr('' @ address @ '')'') (\<lambda>h. h) h) (\<lambda>_ h.
     andthen (expect_cm_event lib AddrResolved address h) (\<lambda>_ h.
     andthen (lib_call lib ''rdma_resolve_route'' (\<lambda>h. h) h) (\<lambda>_ h.
     andthen (expect_cm_event lib RouteResolved address h) (\<lambda>_ h.
     andthen (on_conn (setup_conn lib) h) (\<lambda>_ h.
     andthen (on_conn (post_recv v) h) (\<lambda>_ h.
     andthen (lib_call lib (''rdma_connect('' @ address @ '')'') (\<lambda>h. h) h) (\<lambda>_ h.
       expect_cm_event lib Established address h)))))))))"

text \<open>The handle, or the exception and what unwinding releases.\<close>

definition rdma_dial :: "cm_lib \<Rightarrow> verbs \<Rightarrow> string \<Rightarrow> rdma_handle outcome \<times> resource list" where
  "rdma_dial lib v address =
     (case split_addr address of
        Ret (host, port) \<Rightarrow>
          (case cm_call lib ''getaddrinfo'' of
             Some e \<Rightarrow> (Exc (''rdma: getaddrinfo('' @ address @ ''): '' @ e), [])
           | None \<Rightarrow>
               (case dial_steps lib v address RdmaClientHandle of
                  (Ret _, h) \<Rightarrow> (Ret h, [])
                | (Exc e, h) \<Rightarrow> (Exc e, fst (destroy_handle h))
                | (Ub, h) \<Rightarrow> (Ub, [])))
      | Exc e \<Rightarrow> (Exc e, [])
      | Ub \<Rightarrow> (Ub, []))"

section \<open>Accepting\<close>

text \<open>The connection, or what the destructor releases after the id has been cleared.\<close>

definition accept_conn :: "cm_lib \<Rightarrow> verbs \<Rightarrow> rdma_conn option \<times> resource list" where
  "accept_conn lib v =
     (case andthen (setup_conn lib RdmaConn_init) (\<lambda>_ c. andthen (post_recv v c) (\<lambda>_ c.
             lib_call lib ''rdma_accept'' (\<lambda>c. c) c)) of
        (Ret _, c) \<Rightarrow> (Some c, [])
      | (_, c) \<Rightarrow> (None, fst (teardown (c\<lparr>rc_id := False\<rparr>))))"

text \<open>
  The listener: its connections, the connections that have a thread, and what it has released. The
  context of a connection's id is its position. A round of the loop sees the stop flag, then the
  result of \<open>poll\<close> and of taking the event.
\<close>

record rdma_listener =
  ls_conns :: "rdma_conn list"
  ls_threads :: "nat list"
  ls_released :: "resource list"

datatype wake = PollBroken | Interrupted | NoEvent | GetBroken | Event cm_type "nat option" cm_lib verbs

definition listener_event :: "cm_type \<Rightarrow> nat option \<Rightarrow> cm_lib \<Rightarrow> verbs \<Rightarrow> rdma_listener \<Rightarrow> rdma_listener" where
  "listener_event ty ctx lib v ls =
     (if ty = ConnectRequest then
        (case accept_conn lib v of
           (Some c, _) \<Rightarrow> ls\<lparr>ls_conns := ls_conns ls @ [c]\<rparr>
         | (None, log) \<Rightarrow> ls\<lparr>ls_released := ls_released ls @ log\<rparr>)
      else if ty = Established then
        (case ctx of Some i \<Rightarrow> ls\<lparr>ls_threads := ls_threads ls @ [i]\<rparr> | None \<Rightarrow> ls)
      else if ty = Disconnected then
        (case ctx of
           Some i \<Rightarrow> ls\<lparr>ls_conns := (ls_conns ls)[i := (ls_conns ls ! i)\<lparr>rc_stop := True\<rparr>]\<rparr>
         | None \<Rightarrow> ls)
      else ls)"

fun listener_loop :: "(bool \<times> wake) list \<Rightarrow> rdma_listener \<Rightarrow> rdma_listener option" where
  "listener_loop [] ls = None"
| "listener_loop ((stop, w) # ws) ls =
     (if stop then Some ls
      else case w of
        PollBroken \<Rightarrow> Some ls
      | Interrupted \<Rightarrow> listener_loop ws ls
      | NoEvent \<Rightarrow> listener_loop ws ls
      | GetBroken \<Rightarrow> Some ls
      | Event ty ctx lib v \<Rightarrow> listener_loop ws (listener_event ty ctx lib v ls))"

text \<open>After the loop: every connection is told to stop, the threads are joined, the connections destroyed.\<close>

definition listener_close :: "rdma_listener \<Rightarrow> rdma_listener" where
  "listener_close ls =
     (let conns = map (\<lambda>c. c\<lparr>rc_stop := True\<rparr>) (ls_conns ls) in
      ls\<lparr>ls_conns := [], ls_threads := [], ls_released := ls_released ls @
           concat (map (fst \<circ> teardown) conns) @ [ResId, ResEc]\<rparr>)"

text \<open>Whether the textual bind address is an IPv4 address is \<open>inet_ok\<close>; the error text of a failed bind ends in advice.\<close>

definition run_rdma_listener ::
  "cm_lib \<Rightarrow> (string \<Rightarrow> bool) \<Rightarrow> string \<Rightarrow> string \<Rightarrow> int \<Rightarrow> (bool \<times> wake) list \<Rightarrow>
   (unit outcome \<times> rdma_listener) option" where
  "run_rdma_listener lib inet_ok bind_advice bind_host port ws =
     (let ls = \<lparr>ls_conns = [], ls_threads = [], ls_released = []\<rparr> in
      case andthen (lib_call lib ''rdma_create_event_channel'' (\<lambda>s. s) ls) (\<lambda>_ s.
           andthen (lib_call lib ''rdma_create_id'' (\<lambda>s. s) s) (\<lambda>_ s.
             if bind_host \<noteq> [] \<and> bind_host \<noteq> ''0.0.0.0'' \<and> \<not> inet_ok bind_host then
               (Exc (''rdma: bind address '' @ [CHR 0x27] @ bind_host @ [CHR 0x27] @
                  '' is not an IPv4 address (RDMA needs the IPoIB address, not a hostname)''), s)
             else case cm_call lib ''rdma_bind_addr'' of
               Some e \<Rightarrow>
                 (Exc (''rdma: rdma_bind_addr('' @ (if bind_host = [] then ''0.0.0.0'' else bind_host) @ '':'' @
                    to_string port @ ''): '' @ e @ bind_advice), s)
             | None \<Rightarrow> lib_call lib ''rdma_listen'' (\<lambda>s. s) s)) of
        (Ret _, s) \<Rightarrow> map_option (\<lambda>s. (Ret (), listener_close s)) (listener_loop ws s)
      | (Exc e, s) \<Rightarrow> Some (Exc e, s)
      | (Ub, s) \<Rightarrow> Some (Ub, s))"


section \<open>Tearing down releases everything once\<close>

primrec holds :: "resource \<Rightarrow> rdma_conn \<Rightarrow> bool" where
  "holds ResQp c = rc_qp c"
| "holds ResSendMr c = rc_send_mr c"
| "holds ResRecvMr c = rc_recv_mr c"
| "holds ResSendBuf c = (send_buf c \<noteq> [])"
| "holds ResRecvBuf c = (recv_buf c \<noteq> [])"
| "holds ResCq c = rc_cq c"
| "holds ResChan c = rc_chan c"
| "holds ResPd c = rc_pd c"
| "holds ResId c = rc_id c"
| "holds ResEc c = False"

text \<open>
  An order in which resources may be released: a queue pair before its queues and its protection
  domain, memory regions before their buffers and the domain, a queue before its channel, all before
  the id, the id before the event channel.
\<close>

definition release_order :: "resource list" where
  "release_order = [ResQp, ResSendMr, ResRecvMr, ResSendBuf, ResRecvBuf, ResCq, ResChan, ResPd, ResId]"

lemma drop_res_parts:
  "fst (drop_res b r f m) = fst m @ (if b then [r] else [])"
  "b \<or> f (snd m) = snd m \<Longrightarrow> snd (drop_res b r f m) = f (snd m)"
  by (auto simp: drop_res_def)

lemma filter_one: "filter P (x # xs) = (if P x then [x] else []) @ filter P xs"
  by simp

definition cleared :: "rdma_conn \<Rightarrow> rdma_conn" where
  "cleared c = c\<lparr>rc_id := False, rc_qp := False, rc_pd := False, rc_chan := False, rc_cq := False,
     rc_send_mr := False, rc_recv_mr := False, send_buf := [], recv_buf := []\<rparr>"

lemma teardown_log:
  "fst (teardown c) = filter (\<lambda>r. holds r c \<and> (r = ResQp \<longrightarrow> rc_id c)) release_order"
  by (simp add: teardown_def Let_def drop_res_parts release_order_def filter_one conj_commute
      split del: if_split del: filter.simps)

lemma teardown_clears:
  assumes "rc_qp c \<longrightarrow> rc_id c"
  shows "snd (teardown c) = cleared c"
proof (cases c)
  case (fields i q p ch cq sm rm sb rb st po ms pl tk)
  have "i \<and> q \<or> \<not> q" using assms fields by auto
  then show ?thesis
    unfolding fields teardown_def Let_def
    by (simp add: drop_res_parts cleared_def eq_commute [of "[]"] split del: if_split)
qed

lemma teardown_all:
  assumes "rc_qp c \<longrightarrow> rc_id c"
  shows "teardown c = (filter (\<lambda>r. holds r c) release_order, cleared c)"
  using teardown_log [of c] teardown_clears [OF assms] assms
  by (intro prod_eqI) (auto intro!: filter_cong simp: release_order_def)

lemma cleared_holds [simp]: "\<not> holds r (cleared c)" "\<not> rc_qp (cleared c)"
  by (cases r) (simp_all add: cleared_def)

lemma filter_cleared [simp]: "filter (\<lambda>r. holds r (cleared c)) xs = []"
  by simp


section \<open>Dialling leaks nothing\<close>

text \<open>A connection as \<open>setup_conn\<close> and the first \<open>post_recv\<close> leave it.\<close>

definition whole :: "rdma_conn \<Rightarrow> bool" where
  "whole c \<longleftrightarrow> (\<forall>x \<in> set release_order. holds x c)"

lemma max_message_pos: "0 < kRdmaMaxMessageBytes"
  by (simp add: kRdmaMaxMessageBytes_def)

lemma setup_result:
  assumes "setup_conn lib c = (r, c')"
  shows "rc_id c'" "r \<noteq> Ub" "posted c' = posted c" "rc_tick c' = rc_tick c"
    "r = Ret () \<longrightarrow> whole c' \<and> length (send_buf c') = kRdmaMaxMessageBytes \<and>
       length (recv_buf c') = kRdmaMaxMessageBytes"
  using assms max_message_pos
  by (auto simp: setup_conn_def lib_call_def whole_def release_order_def Let_def split: option.splits)

lemma post_recv_whole: "post_recv v c = (r, c') \<Longrightarrow> r \<noteq> Ub \<and> whole c' = whole c \<and> rc_id c' = rc_id c \<and> rc_qp c' = rc_qp c"
  by (auto simp: post_recv_def whole_def release_order_def Let_def split: option.splits)

lemma accepted_state:
  assumes "andthen (setup_conn lib RdmaConn_init) (\<lambda>_ c. post_recv v c) = (r, c)"
  shows "rc_id c" "r \<noteq> Ub" "r = Ret () \<longrightarrow> whole c \<and> conn_ready c"
proof -
  obtain q a where a: "setup_conn lib RdmaConn_init = (q, a)" by fastforce
  note s = setup_result [OF a]
  have "rc_id c \<and> r \<noteq> Ub \<and> (r = Ret () \<longrightarrow> whole c \<and> conn_ready c)"
  proof (cases q)
    case (Ret u)
    then have "post_recv v a = (r, c)" using assms a by simp
    then show ?thesis
      using s Ret post_recv_whole [of v a r c]
      by (auto simp: conn_ready_def post_recv_def RdmaConn_init_def Let_def split: option.splits)
  qed (use s assms a in auto)
  then show "rc_id c" "r \<noteq> Ub" "r = Ret () \<longrightarrow> whole c \<and> conn_ready c" by auto
qed

text \<open>What a step ends with: \<open>P\<close> of the state after a return, \<open>Q\<close> after an exception.\<close>

definition ends :: "'a outcome \<times> 's \<Rightarrow> ('s \<Rightarrow> bool) \<Rightarrow> ('s \<Rightarrow> bool) \<Rightarrow> bool" where
  "ends m P Q \<longleftrightarrow> (case m of (Ret _, s) \<Rightarrow> P s | (Exc _, s) \<Rightarrow> Q s | (Ub, _) \<Rightarrow> False)"

lemma ends_andthen: "ends m R Q \<Longrightarrow> (\<And>a s. R s \<Longrightarrow> ends (f a s) P Q) \<Longrightarrow> ends (andthen m f) P Q"
proof (cases m)
  case (Pair r s)
  assume "ends m R Q" "\<And>a s. R s \<Longrightarrow> ends (f a s) P Q"
  then show ?thesis using Pair by (cases r) (auto simp: ends_def)
qed

lemma ends_lib_call: "P (f s) \<Longrightarrow> Q s \<Longrightarrow> ends (lib_call lib name f s) P Q"
  by (simp add: ends_def lib_call_def split: option.splits)

lemma ends_expect: "P s \<Longrightarrow> Q s \<Longrightarrow> ends (expect_cm_event lib want p s) P Q"
  by (simp add: ends_def expect_cm_event_def split: cm_result.splits)

definition qp_has_id :: "rdma_handle \<Rightarrow> bool" where
  "qp_has_id h \<longleftrightarrow> (rc_qp (rh_conn h) \<longrightarrow> rc_id (rh_conn h))"

lemma ends_setup:
  assumes "posted (rh_conn h) = 0"
  shows "ends (on_conn (setup_conn lib) h)
    (\<lambda>h'. rh_ec h' = rh_ec h \<and> whole (rh_conn h') \<and> conn_ready ((rh_conn h')\<lparr>posted := 1\<rparr>) \<and> posted (rh_conn h') = 0)
    qp_has_id"
proof -
  obtain r c where c: "setup_conn lib (rh_conn h) = (r, c)" by fastforce
  show ?thesis
    using setup_result [OF c] c assms
    by (cases r) (auto simp: ends_def on_conn_def conn_ready_def qp_has_id_def)
qed

lemma ends_post_recv:
  assumes "whole (rh_conn h)" "conn_ready ((rh_conn h)\<lparr>posted := 1\<rparr>)" "posted (rh_conn h) = 0"
  shows "ends (on_conn (post_recv v) h)
    (\<lambda>h'. rh_ec h' = rh_ec h \<and> whole (rh_conn h') \<and> conn_ready (rh_conn h')) qp_has_id"
  using assms
  by (auto simp: ends_def on_conn_def post_recv_def conn_ready_def qp_has_id_def whole_def release_order_def
      Let_def split: option.splits)

lemma dial_ends:
  "ends (dial_steps lib v address RdmaClientHandle)
     (\<lambda>h. rh_ec h \<and> whole (rh_conn h) \<and> conn_ready (rh_conn h)) qp_has_id"
proof -
  let ?P = "\<lambda>h. rh_ec h \<and> rh_conn h = RdmaConn_init\<lparr>rc_id := True\<rparr>"
  let ?W = "\<lambda>h. rh_ec h \<and> whole (rh_conn h) \<and> conn_ready (rh_conn h)"
  have start: "qp_has_id RdmaClientHandle" "qp_has_id (RdmaClientHandle\<lparr>rh_ec := True\<rparr>)"
    by (simp_all add: qp_has_id_def RdmaClientHandle_def RdmaConn_init_def)
  have p: "qp_has_id h" if "?P h" for h using that by (simp add: qp_has_id_def RdmaConn_init_def)
  have w: "qp_has_id h" if "?W h" for h
    using that by (simp add: qp_has_id_def whole_def release_order_def)
  have post: "ends (on_conn (post_recv v) h) ?W qp_has_id"
    if "rh_ec h \<and> whole (rh_conn h) \<and> conn_ready ((rh_conn h)\<lparr>posted := 1\<rparr>) \<and> posted (rh_conn h) = 0" for h
    using ends_post_recv [of h v] that by (auto simp: ends_def split: outcome.splits prod.splits)
  have prep: "ends (on_conn (setup_conn lib) h)
      (\<lambda>h. rh_ec h \<and> whole (rh_conn h) \<and> conn_ready ((rh_conn h)\<lparr>posted := 1\<rparr>) \<and> posted (rh_conn h) = 0) qp_has_id"
    if "?P h" for h
    using ends_setup [of h lib] that
    by (auto simp: RdmaConn_init_def ends_def split: outcome.splits prod.splits)
  show ?thesis
    unfolding dial_steps_def
    apply (rule ends_andthen [where R = "\<lambda>h. h = RdmaClientHandle\<lparr>rh_ec := True\<rparr>"])
     apply (simp add: ends_lib_call start)
    apply (rule ends_andthen [where R = ?P])
     apply (rule ends_lib_call)
      apply (simp add: RdmaClientHandle_def)
     apply (simp add: start)
    apply (rule ends_andthen [where R = ?P], rule ends_lib_call, assumption, erule p)+
    apply (rule ends_andthen [where R = ?P], rule ends_expect, assumption, erule p)
    apply (rule ends_andthen [where R = ?P], rule ends_lib_call, assumption, erule p)
    apply (rule ends_andthen [where R = ?P], rule ends_expect, assumption, erule p)
    apply (rule ends_andthen, erule prep)
    apply (rule ends_andthen, erule post)
    apply (rule ends_andthen [where R = ?W], rule ends_lib_call, assumption, erule w)
    apply (rule ends_expect, assumption, erule w)
    done
qed

text \<open>
  What the library and the allocator have handed out, told from their answers alone and not from the
  handle: the calls of a dial in order, each with whether it succeeds and what it creates by its
  documentation. The dial stops at the first call that fails.
\<close>

definition came :: "cm_lib \<Rightarrow> cm_type \<Rightarrow> bool" where
  "came lib want = (case cm_wait lib want of CmEvent got _ \<Rightarrow> got = want | _ \<Rightarrow> False)"

definition setup_calls :: "cm_lib \<Rightarrow> (bool \<times> resource list) list" where
  "setup_calls lib =
     [(cm_call lib ''ibv_alloc_pd'' = None, [ResPd]),
      (cm_call lib ''ibv_create_comp_channel'' = None, [ResChan]),
      (cm_call lib ''ibv_create_cq'' = None, [ResCq]),
      (cm_call lib ''ibv_req_notify_cq'' = None, []),
      (cm_call lib ''rdma_create_qp'' = None, [ResQp]),
      (True, [ResSendBuf]), (True, [ResRecvBuf]),
      (cm_call lib ''ibv_reg_mr(send)'' = None, [ResSendMr]),
      (cm_call lib ''ibv_reg_mr(recv)'' = None, [ResRecvMr])]"

definition dial_calls :: "cm_lib \<Rightarrow> verbs \<Rightarrow> string \<Rightarrow> (bool \<times> resource list) list" where
  "dial_calls lib v address =
     [(cm_call lib ''rdma_create_event_channel'' = None, [ResEc]),
      (cm_call lib ''rdma_create_id'' = None, [ResId]),
      (cm_call lib (''rdma_resolve_addr('' @ address @ '')'') = None, []), (came lib AddrResolved, []),
      (cm_call lib ''rdma_resolve_route'' = None, []), (came lib RouteResolved, [])]
     @ setup_calls lib @
     [(v_post v 0 = None, []),
      (cm_call lib (''rdma_connect('' @ address @ '')'') = None, []), (came lib Established, [])]"

definition made_by :: "(bool \<times> resource list) list \<Rightarrow> resource set" where
  "made_by calls = set (concat (map snd (takeWhile fst calls)))"

lemma all_resources:
  "(\<forall>x. P x) \<longleftrightarrow> P ResQp \<and> P ResSendMr \<and> P ResRecvMr \<and> P ResSendBuf \<and> P ResRecvBuf \<and> P ResCq \<and> P ResChan \<and>
     P ResPd \<and> P ResId \<and> P ResEc"
  by (metis resource.exhaust)

lemma made_by_Cons: "made_by ((ok, rs) # calls) = (if ok then set rs \<union> made_by calls else {})" "made_by [] = {}"
  by (cases ok; simp add: made_by_def del: set_concat) (simp add: made_by_def)

lemma made_by_append:
  "made_by (xs @ ys) = (if list_all fst xs then made_by xs \<union> made_by ys else made_by xs)"
proof (induction xs)
  case (Cons x xs)
  then show ?case by (cases x) (simp add: made_by_Cons Un_assoc)
qed (simp add: made_by_Cons)

text \<open>The connection has recorded what was made, however far the set-up got.\<close>

definition records :: "(bool \<times> resource list) list \<Rightarrow> resource set \<Rightarrow> unit outcome \<times> rdma_conn \<Rightarrow> bool" where
  "records calls S m \<longleftrightarrow> (\<forall>x. holds x (snd m) \<longleftrightarrow> x \<in> S \<union> made_by calls) \<and> (fst m = Ret () \<longleftrightarrow> list_all fst calls) \<and>
     rc_tick (snd m) = 0"

lemma records_call:
  assumes "\<forall>x. holds x c \<longleftrightarrow> x \<in> S" "rc_tick c = 0" "records calls (S \<union> set new) (g () (f c))"
  shows "records ((cm_call lib name = None, new) # calls) S (andthen (lib_call lib name f c) g)"
  using assms by (cases "cm_call lib name") (simp_all add: records_def lib_call_def made_by_Cons Un_assoc)

lemma records_last:
  assumes "\<forall>x. holds x c \<longleftrightarrow> x \<in> S" "\<forall>x. holds x (f c) \<longleftrightarrow> x \<in> S \<union> set new" "rc_tick c = 0" "rc_tick (f c) = 0"
  shows "records [(cm_call lib name = None, new)] S (lib_call lib name f c)"
  using assms by (cases "cm_call lib name") (simp_all add: records_def lib_call_def made_by_Cons)

lemma records_buffers: "records calls (S \<union> {ResSendBuf, ResRecvBuf}) m \<Longrightarrow>
    records ((True, [ResSendBuf]) # (True, [ResRecvBuf]) # calls) S m"
  by (auto simp: records_def made_by_Cons)

lemma setup_records: "records (setup_calls lib) {ResId} (setup_conn lib (RdmaConn_init\<lparr>rc_id := True\<rparr>))"
  unfolding setup_conn_def setup_calls_def Let_def using max_message_pos
  by (intro records_call records_last records_buffers; simp add: all_resources RdmaConn_init_def)

lemma post_recv_records:
  assumes "post_recv v c = (r, c')"
  shows "holds x c' = holds x c" "r = Ret () \<longleftrightarrow> v_post v (rc_tick c) = None"
  using assms by (cases x; auto simp: post_recv_def Let_def split: option.splits)+

lemma expect_came: "fst (expect_cm_event lib want peer s) = Ret () \<longleftrightarrow> came lib want" "snd (expect_cm_event lib want peer s) = s"
  by (simp_all add: expect_cm_event_def came_def split: cm_result.splits)

definition handle_holds :: "resource \<Rightarrow> rdma_handle \<Rightarrow> bool" where
  "handle_holds x h \<longleftrightarrow> holds x (rh_conn h) \<or> x = ResEc \<and> rh_ec h"

definition tracks :: "(bool \<times> resource list) list \<Rightarrow> resource set \<Rightarrow> unit outcome \<times> rdma_handle \<Rightarrow> bool" where
  "tracks calls S m \<longleftrightarrow> (\<forall>x. handle_holds x (snd m) \<longleftrightarrow> x \<in> S \<union> made_by calls) \<and> (fst m = Ret () \<longleftrightarrow> list_all fst calls)"

lemma tracks_call:
  assumes "\<forall>x. handle_holds x h \<longleftrightarrow> x \<in> S" "tracks calls (S \<union> set new) (g () (f h))"
  shows "tracks ((cm_call lib name = None, new) # calls) S (andthen (lib_call lib name f h) g)"
  using assms by (cases "cm_call lib name") (simp_all add: tracks_def lib_call_def made_by_Cons Un_assoc)

lemma tracks_event:
  assumes "\<forall>x. handle_holds x h \<longleftrightarrow> x \<in> S" "tracks calls S (g () h)"
  shows "tracks ((came lib want, []) # calls) S (andthen (expect_cm_event lib want peer h) g)"
  using assms expect_came [of lib want peer h]
  by (cases "expect_cm_event lib want peer h"; cases "fst (expect_cm_event lib want peer h)") (auto simp: tracks_def made_by_Cons)

lemma tracks_last:
  assumes "\<forall>x. handle_holds x h \<longleftrightarrow> x \<in> S"
  shows "tracks [(came lib want, [])] S (expect_cm_event lib want peer h)"
  using assms expect_came [of lib want peer h] by (auto simp: tracks_def made_by_Cons)

lemma tracks_setup:
  assumes h: "rh_ec h" "rh_conn h = RdmaConn_init\<lparr>rc_id := True\<rparr>"
    and rest: "\<And>c. \<forall>x. handle_holds x (h\<lparr>rh_conn := c\<rparr>) \<longleftrightarrow> x \<in> {ResEc, ResId} \<union> made_by (setup_calls lib) \<Longrightarrow>
      rc_tick c = 0 \<Longrightarrow> tracks calls ({ResEc, ResId} \<union> made_by (setup_calls lib)) (g () (h\<lparr>rh_conn := c\<rparr>))"
  shows "tracks (setup_calls lib @ calls) {ResEc, ResId} (andthen (on_conn (setup_conn lib) h) g)"
proof -
  obtain r c where c: "setup_conn lib (RdmaConn_init\<lparr>rc_id := True\<rparr>) = (r, c)" by fastforce
  have s: "\<forall>x. holds x c \<longleftrightarrow> x \<in> {ResId} \<union> made_by (setup_calls lib)" "r = Ret () \<longleftrightarrow> list_all fst (setup_calls lib)" "rc_tick c = 0"
    using setup_records [of lib] by (simp_all add: records_def c)
  then have hc: "\<forall>x. handle_holds x (h\<lparr>rh_conn := c\<rparr>) \<longleftrightarrow> x \<in> {ResEc, ResId} \<union> made_by (setup_calls lib)"
    using h(1) by (auto simp: handle_holds_def)
  with rest [OF hc s(3)] s(2) h(2) c show ?thesis
    by (cases r) (auto simp: on_conn_def tracks_def made_by_append)
qed

lemma tracks_post:
  assumes "\<forall>x. handle_holds x h \<longleftrightarrow> x \<in> S" "rc_tick (rh_conn h) = 0"
    and rest: "\<And>c. \<forall>x. handle_holds x (h\<lparr>rh_conn := c\<rparr>) \<longleftrightarrow> x \<in> S \<Longrightarrow> tracks calls S (g () (h\<lparr>rh_conn := c\<rparr>))"
  shows "tracks ((v_post v 0 = None, []) # calls) S (andthen (on_conn (post_recv v) h) g)"
proof -
  obtain r c where c: "post_recv v (rh_conn h) = (r, c)" by fastforce
  note p = post_recv_records [OF c]
  have "\<forall>x. handle_holds x (h\<lparr>rh_conn := c\<rparr>) \<longleftrightarrow> x \<in> S" using assms(1) p(1) by (simp add: handle_holds_def)
  with rest [OF this] p(2) assms(2) c show ?thesis
    by (cases r) (auto simp: on_conn_def tracks_def made_by_Cons)
qed

lemma dial_records: "tracks (dial_calls lib v address) {} (dial_steps lib v address RdmaClientHandle)"
proof -
  let ?h = "RdmaClientHandle\<lparr>rh_ec := True, rh_conn := RdmaConn_init\<lparr>rc_id := True\<rparr>\<rparr>"
  have n: "\<forall>x. \<not> handle_holds x RdmaClientHandle"
    by (simp add: all_resources handle_holds_def RdmaClientHandle_def RdmaConn_init_def)
  have e: "\<forall>x. handle_holds x (RdmaClientHandle\<lparr>rh_ec := True\<rparr>) \<longleftrightarrow> x = ResEc"
    by (simp add: all_resources handle_holds_def RdmaClientHandle_def RdmaConn_init_def)
  have h: "\<forall>x. handle_holds x ?h \<longleftrightarrow> x = ResEc \<or> x = ResId"
    by (simp add: all_resources handle_holds_def RdmaClientHandle_def RdmaConn_init_def)
  have i: "(RdmaClientHandle\<lparr>rh_ec := True\<rparr>)\<lparr>rh_conn := (rh_conn (RdmaClientHandle\<lparr>rh_ec := True\<rparr>))\<lparr>rc_id := True\<rparr>\<rparr> = ?h"
    by (simp add: RdmaClientHandle_def)
  let ?late = "[(v_post v 0 = None, []), (cm_call lib (''rdma_connect('' @ address @ '')'') = None, []), (came lib Established, [])]"
  let ?g = "\<lambda>_ h. andthen (on_conn (post_recv v) h) (\<lambda>_ h.
      andthen (lib_call lib (''rdma_connect('' @ address @ '')'') (\<lambda>h. h) h) (\<lambda>_ h.
      expect_cm_event lib Established address h))"
  have g: "tracks ?late S (?g () h')" if "\<forall>x. handle_holds x h' \<longleftrightarrow> x \<in> S" "rc_tick (rh_conn h') = 0" for S h'
    using that by (intro tracks_post tracks_call tracks_last) simp_all
  have "tracks (setup_calls lib @ ?late) {ResEc, ResId} (andthen (on_conn (setup_conn lib) ?h) ?g)"
    by (rule tracks_setup) (simp, simp, rule g, assumption, simp)
  then show ?thesis
    unfolding dial_calls_def dial_steps_def append_Cons append_Nil
    using n e h i
    by (intro tracks_call tracks_event) (simp_all add: insert_commute)
qed

text \<open>
  C20. A dial leaves nothing behind, however far it gets: the library and the allocator answer the
  calls of the dial in any way, and what they have handed out up to the first failing call is released
  when the handle is destroyed, all of it and each thing once, in an order in which nothing goes
  before what depends on it. A failing dial destroys the handle while unwinding; a dial whose calls
  all succeed returns the handle, with every resource made and a receive posted.
\<close>

theorem dial_releases:
  assumes "split_addr address = Ret hp" "cm_call lib ''getaddrinfo'' = None"
    and d: "dial_steps lib v address RdmaClientHandle = (r, h)"
  shows "r \<noteq> Ub \<and> (r = Ret () \<longleftrightarrow> list_all fst (dial_calls lib v address)) \<and>
    fst (destroy_handle h) = filter (\<lambda>x. x \<in> made_by (dial_calls lib v address)) (release_order @ [ResEc]) \<and>
    distinct (fst (destroy_handle h)) \<and> set (fst (destroy_handle h)) = made_by (dial_calls lib v address) \<and>
    (\<forall>e. r = Exc e \<longrightarrow> rdma_dial lib v address = (Exc e, fst (destroy_handle h))) \<and>
    (r = Ret () \<longrightarrow> rdma_dial lib v address = (Ret h, []) \<and> conn_ready (rh_conn h) \<and>
      made_by (dial_calls lib v address) = set (release_order @ [ResEc]))"
proof -
  have e: "ends (r, h) (\<lambda>h. rh_ec h \<and> whole (rh_conn h) \<and> conn_ready (rh_conn h)) qp_has_id"
    using dial_ends [of lib v address] by (simp add: d)
  have m: "\<forall>x. handle_holds x h \<longleftrightarrow> x \<in> made_by (dial_calls lib v address)" "r = Ret () \<longleftrightarrow> list_all fst (dial_calls lib v address)"
    using dial_records [of lib v address] by (simp_all add: tracks_def d)
  have q: "qp_has_id h" using e by (cases r) (auto simp: ends_def qp_has_id_def whole_def release_order_def)
  then have t: "teardown (rh_conn h) = (filter (\<lambda>x. holds x (rh_conn h)) release_order, cleared (rh_conn h))"
    by (intro teardown_all) (simp add: qp_has_id_def)
  have "cleared (cleared (rh_conn h)) = cleared (rh_conn h)" by (simp add: cleared_def)
  then have "teardown (cleared (rh_conn h)) = ([], cleared (rh_conn h))"
    using teardown_all [of "cleared (rh_conn h)"] by simp
  then have "fst (destroy_handle h) = filter (\<lambda>x. holds x (rh_conn h)) release_order @ (if rh_ec h then [ResEc] else [])"
    using t by (simp add: destroy_handle_def)
  also have "\<dots> = filter (\<lambda>x. handle_holds x h) (release_order @ [ResEc])"
    by (simp add: handle_holds_def release_order_def)
  finally have f: "fst (destroy_handle h) = filter (\<lambda>x. x \<in> made_by (dial_calls lib v address)) (release_order @ [ResEc])"
    using m(1) by simp
  have all: "\<forall>x. x \<in> set (release_order @ [ResEc])" by (simp add: all_resources release_order_def)
  have "made_by (dial_calls lib v address) = set (release_order @ [ResEc])" if "r = Ret ()"
    using e that m(1) all by (auto simp: ends_def handle_holds_def whole_def)
  moreover have "distinct (fst (destroy_handle h))" unfolding f by (intro distinct_filter) (simp add: release_order_def)
  moreover have "set (fst (destroy_handle h)) = made_by (dial_calls lib v address)" unfolding f set_filter using all by blast
  ultimately show ?thesis
    using e assms m(2) f by (cases r; cases hp) (auto simp: ends_def rdma_dial_def)
qed


definition working_lib :: cm_lib where
  "working_lib = \<lparr>cm_call = \<lambda>_. None, cm_wait = \<lambda>ty. CmEvent ty None, cm_str = \<lambda>_. ''event'', cm_advice = \<lambda>_. []\<rparr>"

text \<open>The remote end refuses: everything had been created.\<close>

definition refusing_lib :: cm_lib where
  "refusing_lib = working_lib\<lparr>cm_wait := \<lambda>ty. CmEvent (if ty = Established then Rejected else ty) None\<rparr>"

theorem dial_releases_witness:
  "\<exists>e. rdma_dial refusing_lib quiet_verbs ''n1:9000'' = (Exc e, release_order @ [ResEc])"
proof -
  have a: "split_addr ''n1:9000'' = Ret (''n1'', ''9000'')" by (simp add: split_addr_def last_colon_def)
  have g: "cm_call refusing_lib ''getaddrinfo'' = None" by (simp add: refusing_lib_def working_lib_def)
  obtain r h where d: "dial_steps refusing_lib quiet_verbs ''n1:9000'' RdmaClientHandle = (r, h)" by fastforce
  have "\<not> list_all fst (dial_calls refusing_lib quiet_verbs ''n1:9000'')"
    by (simp add: dial_calls_def setup_calls_def came_def refusing_lib_def working_lib_def quiet_verbs_def)
  moreover have "\<forall>x. x \<in> made_by (dial_calls refusing_lib quiet_verbs ''n1:9000'')"
    by (simp add: all_resources dial_calls_def setup_calls_def made_by_def came_def refusing_lib_def working_lib_def quiet_verbs_def)
  ultimately show ?thesis using dial_releases [OF a g d] by (cases r) auto
qed

section \<open>Accepting\<close>

lemma accept_some:
  assumes "accept_conn lib v = (Some c, log)"
  shows "whole c" "log = []"
proof -
  obtain r a where a: "andthen (setup_conn lib RdmaConn_init) (\<lambda>_ c. post_recv v c) = (r, a)" by fastforce
  have "andthen (setup_conn lib RdmaConn_init) (\<lambda>_ c. andthen (post_recv v c) (\<lambda>_ c.
      lib_call lib ''rdma_accept'' (\<lambda>c. c) c)) = andthen (r, a) (\<lambda>_ c. lib_call lib ''rdma_accept'' (\<lambda>c. c) c)"
    unfolding a [symmetric] by (auto simp: andthen_def split: prod.splits outcome.splits)
  then show "whole c" "log = []"
    using assms accepted_state [OF a]
    by (cases r; auto simp: accept_conn_def lib_call_def split: option.splits)+
qed

text \<open>
  A failed accept leaks: after the reject the code clears the id of the connection, so the destructor
  neither destroys the queue pair nor the id, but frees the queue and the protection domain they use.
\<close>

theorem failed_accept_leaks:
  assumes "\<forall>n. n \<noteq> ''rdma_accept'' \<longrightarrow> cm_call lib n = None" "cm_call lib ''rdma_accept'' = Some e"
    and "v_post v 0 = None"
  shows "accept_conn lib v =
    (None, [ResSendMr, ResRecvMr, ResSendBuf, ResRecvBuf, ResCq, ResChan, ResPd])"
  using assms max_message_pos
  by (simp add: accept_conn_def setup_conn_def lib_call_def post_recv_def RdmaConn_init_def Let_def
      teardown_log release_order_def)

section \<open>The listener keeps every connection until it returns\<close>

fun accepted :: "(bool \<times> wake) list \<Rightarrow> nat" where
  "accepted [] = 0"
| "accepted ((stop, w) # ws) =
     (if stop then 0
      else case w of
        PollBroken \<Rightarrow> 0
      | GetBroken \<Rightarrow> 0
      | Interrupted \<Rightarrow> accepted ws
      | NoEvent \<Rightarrow> accepted ws
      | Event ty ctx lib v \<Rightarrow>
          (if ty = ConnectRequest \<and> fst (accept_conn lib v) \<noteq> None then 1 else 0) + accepted ws)"

lemma listener_event_conns:
  assumes "\<forall>c \<in> set (ls_conns ls). whole c"
  shows "(\<forall>c \<in> set (ls_conns (listener_event ty ctx lib v ls)). whole c) \<and>
    length (ls_conns (listener_event ty ctx lib v ls)) =
      length (ls_conns ls) + (if ty = ConnectRequest \<and> fst (accept_conn lib v) \<noteq> None then 1 else 0)"
proof -
  have s: "whole (c\<lparr>rc_stop := True\<rparr>) = whole c" for c by (simp add: whole_def release_order_def)
  have upd: "whole c" if "c \<in> set ((ls_conns ls)[i := (ls_conns ls ! i)\<lparr>rc_stop := True\<rparr>])" for c i
  proof (cases "i < length (ls_conns ls)")
    case True
    then have "c = (ls_conns ls ! i)\<lparr>rc_stop := True\<rparr> \<or> c \<in> set (ls_conns ls)"
      using that set_update_subset_insert by fastforce
    then show ?thesis using True assms s nth_mem by metis
  qed (use that assms in \<open>simp add: list_update_beyond\<close>)
  obtain m log where m: "accept_conn lib v = (m, log)" by fastforce
  consider "ty = ConnectRequest" | "ty = Disconnected" | "ty \<noteq> ConnectRequest" "ty \<noteq> Disconnected" by blast
  then show ?thesis
  proof cases
    case 1
    then show ?thesis using assms m accept_some(1) [of lib v _ log] by (cases m) (auto simp: listener_event_def)
  next
    case 2
    then show ?thesis using assms upd by (cases ctx) (auto simp: listener_event_def)
  next
    case 3
    then show ?thesis using assms by (cases ctx) (auto simp: listener_event_def)
  qed
qed

lemma listener_loop_conns:
  "\<forall>c \<in> set (ls_conns ls). whole c \<Longrightarrow> listener_loop ws ls = Some s \<Longrightarrow>
    (\<forall>c \<in> set (ls_conns s). whole c) \<and> length (ls_conns s) = length (ls_conns ls) + accepted ws"
proof (induction ws arbitrary: ls)
  case (Cons sw ws)
  obtain stop w where sw: "sw = (stop, w)" by fastforce
  show ?case
  proof (cases stop)
    case False
    note p = Cons.prems [unfolded sw] False
    show ?thesis
    proof (cases w)
      case (Event ty ctx lib v)
      let ?ls = "listener_event ty ctx lib v ls"
      have e: "\<forall>c \<in> set (ls_conns ?ls). whole c" "length (ls_conns ?ls) =
          length (ls_conns ls) + (if ty = ConnectRequest \<and> fst (accept_conn lib v) \<noteq> None then 1 else 0)"
        using listener_event_conns [OF p(1), of ty ctx lib v] by blast+
      have "listener_loop ws ?ls = Some s" using p Event by simp
      from Cons.IH [OF e(1) this] e(2) show ?thesis unfolding sw using p(3) Event by simp
    qed (use p Cons.IH [OF p(1)] sw in auto)
  qed (use Cons.prems sw in simp)
qed simp

text \<open>
  A connection that its peer has closed stays with the listener until the listener returns:
  whatever events come, every accepted connection still has all its resources when the loop ends, and
  closing the listener then releases each of them once, in a safe order.
\<close>

theorem listener_keeps_connections:
  assumes "listener_loop ws \<lparr>ls_conns = [], ls_threads = [], ls_released = []\<rparr> = Some s"
  shows "length (ls_conns s) = accepted ws \<and> (\<forall>c \<in> set (ls_conns s). whole c) \<and>
    ls_released (listener_close s) =
      ls_released s @ concat (replicate (accepted ws) release_order) @ [ResId, ResEc]"
proof -
  have l: "\<forall>c \<in> set (ls_conns s). whole c" "length (ls_conns s) = accepted ws"
    using listener_loop_conns [OF _ assms] by auto
  have "fst (teardown (c\<lparr>rc_stop := True\<rparr>)) = release_order" if "whole c" for c
    using that by (auto simp: teardown_log whole_def release_order_def)
  then have "map (fst \<circ> teardown) (map (\<lambda>c. c\<lparr>rc_stop := True\<rparr>) (ls_conns s)) =
      map (\<lambda>_. release_order) (ls_conns s)"
    using l(1) by simp
  then show ?thesis
    using l by (simp add: listener_close_def map_replicate_const comp_def)
qed

theorem listener_keeps_connections_witness:
  "\<exists>s. listener_loop [(False, Event ConnectRequest None working_lib quiet_verbs),
       (False, Event Established (Some 0) working_lib quiet_verbs),
       (False, Event Disconnected (Some 0) working_lib quiet_verbs), (True, NoEvent)]
     \<lparr>ls_conns = [], ls_threads = [], ls_released = []\<rparr> = Some s \<and> length (ls_conns s) = 1 \<and> whole (ls_conns s ! 0)"
proof -
  let ?ws = "[(False, Event ConnectRequest None working_lib quiet_verbs),
       (False, Event Established (Some 0) working_lib quiet_verbs),
       (False, Event Disconnected (Some 0) working_lib quiet_verbs), (True, NoEvent)]"
  have "fst (accept_conn working_lib quiet_verbs) \<noteq> None"
    by (simp add: accept_conn_def setup_conn_def lib_call_def post_recv_def working_lib_def quiet_verbs_def
        RdmaConn_init_def Let_def)
  then have n: "accepted ?ws = 1" by simp
  obtain s where s: "listener_loop ?ws \<lparr>ls_conns = [], ls_threads = [], ls_released = []\<rparr> = Some s" by simp
  from listener_keeps_connections [OF s] n have "length (ls_conns s) = 1" "\<forall>c \<in> set (ls_conns s). whole c"
    by auto
  moreover from this have "ls_conns s ! 0 \<in> set (ls_conns s)" by (metis nth_mem zero_less_one)
  ultimately show ?thesis using s by blast
qed

end
