(* ===== verification/TcpSetup.thy ===== *)
theory TcpSetup
  imports Rpc Cli
begin

text \<open>
  Sockets of the TCP transport: \<open>tcp_connect\<close>, \<open>tcp_dial_http\<close> and the destructor of
  \<open>RpcClientHandle\<close> of \<open>net/src/raft_tcp_transport.cpp\<close>, and \<open>run_rpc_listener\<close> of
  \<open>net/src/raft_rpc_listener.cpp\<close>. The state is the set of descriptors that are open. The results of
  the system calls are scripts: \<open>getaddrinfo\<close> gives one attempt per address, \<open>accept\<close> one result per
  round. Socket options (time limits, \<open>TCP_NODELAY\<close>) are set without looking at the result; what
  the time limits do to reads and writes is in the script of the socket.
\<close>

section \<open>Dialling\<close>

text \<open>One address: no socket, a socket that does not connect, or a connection.\<close>

datatype dial_try = SocketFails | ConnectFails nat | Connects nat sock

fun try_addresses :: "dial_try list \<Rightarrow> nat set \<Rightarrow> (nat \<times> sock) option \<times> nat set" where
  "try_addresses [] fds = (None, fds)"
| "try_addresses (p # ps) fds =
     (case p of
        SocketFails \<Rightarrow> try_addresses ps fds
      | ConnectFails fd \<Rightarrow> try_addresses ps (insert fd fds - {fd})
      | Connects fd sk \<Rightarrow> (Some (fd, sk), insert fd fds))"

type_synonym resolver = "string \<Rightarrow> string \<Rightarrow> dial_try list option"

definition tcp_connect :: "resolver \<Rightarrow> string \<Rightarrow> int \<Rightarrow> nat set \<Rightarrow> (nat \<times> sock) outcome \<times> nat set" where
  "tcp_connect getaddrinfo host port fds =
     (case getaddrinfo host (to_string port) of
        None \<Rightarrow> (Exc (''tcp_connect: getaddrinfo failed for '' @ host), fds)
      | Some [] \<Rightarrow> (Exc (''tcp_connect: getaddrinfo failed for '' @ host), fds)
      | Some ps \<Rightarrow>
          (case try_addresses ps fds of
             (Some c, fds) \<Rightarrow> (Ret c, fds)
           | (None, fds) \<Rightarrow> (Exc (''tcp_connect: connect failed to '' @ host), fds)))"

text \<open>\<open>std::stoi\<close>: no digits, or a value that is no \<open>int\<close>, is an exception.\<close>

definition stoi :: "string \<Rightarrow> int outcome" where
  "stoi s =
     (let t = dropWhile white s;
          u = (case t of c # r \<Rightarrow> if c = CHR ''-'' \<or> c = CHR ''+'' then r else t | [] \<Rightarrow> []);
          v = atoi s
      in if takeWhile digit u = [] \<or> v < - (2 ^ 31) \<or> v \<ge> 2 ^ 31 then Exc ''stoi'' else Ret v)"

type_synonym tcp_handle = "nat \<times> rpc_handle"

definition tcp_dial_http :: "resolver \<Rightarrow> string \<Rightarrow> nat set \<Rightarrow> (tcp_handle outcome \<times> nat set) option" where
  "tcp_dial_http getaddrinfo address fds =
     (case last_colon address of
        None \<Rightarrow> Some (Exc (''tcp_dial_http: invalid address '' @ address), fds)
      | Some (host, p) \<Rightarrow>
          (case andthen (stoi p, fds) (\<lambda>port fds. tcp_connect getaddrinfo host port fds) of
             (Ret (fd, sk), fds) \<Rightarrow>
               map_option (\<lambda>(r, sk). (obind r (\<lambda>_. Ret (fd, RpcClientHandle sk)), fds))
                 (http_connect_handshake sk)
           | (Exc e, fds) \<Rightarrow> Some (Exc e, fds)
           | (Ub, fds) \<Rightarrow> Some (Ub, fds)))"

definition destroy_client :: "tcp_handle \<Rightarrow> nat set \<Rightarrow> nat set" where
  "destroy_client h fds = fds - {fst h}"

section \<open>Listening\<close>

text \<open>
  The calls before the loop: the descriptor of \<open>socket\<close>, whether \<open>bind\<close> to a port and \<open>listen\<close>
  succeed. The port is cut to 16 bits.
\<close>

record listen_calls =
  lc_socket :: "nat option"
  lc_bind :: "u16 \<Rightarrow> bool"
  lc_listen :: bool

text \<open>
  A round sees the stop flag, then the result of \<open>accept\<close> (a time-out is a failure). Each accepted
  connection goes to a thread of its own, which closes it; \<open>None\<close> is a loop still running.
\<close>

fun accept_loop :: "bool \<Rightarrow> (bool \<times> nat option) list \<Rightarrow> nat list \<Rightarrow> nat set \<Rightarrow> (nat list \<times> nat set) option" where
  "accept_loop has_stop [] conns fds = None"
| "accept_loop has_stop ((stop, acc) # ws) conns fds =
     (if has_stop \<and> stop then Some (conns, fds)
      else case acc of
        None \<Rightarrow> if has_stop then accept_loop has_stop ws conns fds else Some (conns, fds)
      | Some fd \<Rightarrow> accept_loop has_stop ws (conns @ [fd]) (insert fd fds))"

definition run_rpc_listener ::
  "listen_calls \<Rightarrow> string \<Rightarrow> int \<Rightarrow> bool \<Rightarrow> (bool \<times> nat option) list \<Rightarrow> nat set \<Rightarrow>
   (unit outcome \<times> nat list \<times> nat set) option" where
  "run_rpc_listener lc tag port has_stop ws fds =
     (let loc = ''run_rpc_listener('' @ tag @ '')'' in
      case lc_socket lc of
        None \<Rightarrow> Some (Exc (loc @ '': socket() failed''), [], fds)
      | Some lfd \<Rightarrow>
          let fds = insert lfd fds in
          if \<not> lc_bind lc (word_of_int port)
          then Some (Exc (loc @ '': bind() failed on port '' @ to_string port), [], fds - {lfd})
          else if \<not> lc_listen lc then Some (Exc (loc @ '': listen() failed''), [], fds - {lfd})
          else map_option (\<lambda>(conns, fds). (Ret (), conns, fds - {lfd})) (accept_loop has_stop ws [] fds))"

section \<open>Descriptors\<close>

text \<open>The kernel hands out descriptors that are not open.\<close>

fun fresh_tries :: "dial_try list \<Rightarrow> nat set \<Rightarrow> bool" where
  "fresh_tries [] fds = True"
| "fresh_tries (p # ps) fds =
     (case p of
        SocketFails \<Rightarrow> fresh_tries ps fds
      | ConnectFails fd \<Rightarrow> fd \<notin> fds \<and> fresh_tries ps fds
      | Connects fd sk \<Rightarrow> fd \<notin> fds)"

lemma try_addresses_fds:
  assumes "fresh_tries ps fds" "try_addresses ps fds = (r, fds')"
  shows "case r of None \<Rightarrow> fds' = fds | Some (fd, sk) \<Rightarrow> fd \<notin> fds \<and> fds' = insert fd fds \<and> Connects fd sk \<in> set ps"
  using assms
proof (induction ps fds rule: try_addresses.induct)
  case (2 p ps fds)
  then show ?case by (cases p) (auto split: option.splits)
qed auto

lemma tcp_connect_fds:
  assumes "\<forall>ps. getaddrinfo host (to_string port) = Some ps \<longrightarrow> fresh_tries ps fds"
  shows "(\<exists>fd sk. tcp_connect getaddrinfo host port fds = (Ret (fd, sk), insert fd fds) \<and> fd \<notin> fds) \<or>
    (\<exists>e. tcp_connect getaddrinfo host port fds = (Exc e, fds))"
proof (cases "getaddrinfo host (to_string port)")
  case (Some ps)
  then have "fresh_tries ps fds" using assms by simp
  show ?thesis
  proof (cases "try_addresses ps fds")
    case (Pair r fds')
    from try_addresses_fds [OF \<open>fresh_tries ps fds\<close> this] show ?thesis
      using Some Pair by (cases ps; cases r) (auto simp: tcp_connect_def)
  qed
qed (simp add: tcp_connect_def)

text \<open>
  Dialling: a handle owns exactly one new descriptor, which its destructor closes, and starts at
  sequence number 1; an exception leaves no descriptor behind, except that of a failed handshake,
  where the connected descriptor stays open and nobody knows it.
\<close>

theorem tcp_dial_descriptors:
  assumes addr: "last_colon address = Some (host, p)" "stoi p = Ret port"
    and fresh: "\<forall>ps. getaddrinfo host (to_string port) = Some ps \<longrightarrow> fresh_tries ps fds"
    and dial: "tcp_dial_http getaddrinfo address fds = Some (r, fds')"
  shows "case r of
      Ret (fd, h) \<Rightarrow> fd \<notin> fds \<and> fds' = insert fd fds \<and> next_seq h = 1 \<and> destroy_client (fd, h) fds' = fds
    | _ \<Rightarrow> (case fst (tcp_connect getaddrinfo host port fds) of
              Ret (fd, sk) \<Rightarrow> fd \<notin> fds \<and> fds' = insert fd fds
            | _ \<Rightarrow> fds' = fds)"
proof -
  from tcp_connect_fds [where getaddrinfo = getaddrinfo and host = host and port = port and fds = fds, OF fresh]
  show ?thesis
  proof (elim disjE exE conjE)
    fix fd sk
    assume c: "tcp_connect getaddrinfo host port fds = (Ret (fd, sk), insert fd fds)" "fd \<notin> fds"
    with dial addr obtain r0 sk' where "http_connect_handshake sk = Some (r0, sk')"
      and r: "r = obind r0 (\<lambda>_. Ret (fd, RpcClientHandle sk'))" "fds' = insert fd fds"
      by (auto simp: tcp_dial_http_def)
    with c show ?thesis by (cases r0) (auto simp: RpcClientHandle_def destroy_client_def)
  qed (use dial addr in \<open>auto simp: tcp_dial_http_def\<close>)
qed

text \<open>A storage node that accepts the connection but answers the handshake with an error.\<close>

definition sample_resolver :: resolver where
  "sample_resolver host port =
     (if host = ''storage'' then Some [SocketFails, ConnectFails 7, Connects 7 (sample_sock (str_bytes (''HTTP/1.0 404'' @ newlines)))]
      else None)"

lemma sample_refused:
  "\<exists>sk'. http_connect_handshake (sample_sock (str_bytes (''HTTP/1.0 404'' @ newlines))) =
     Some (Exc (''http_connect_handshake: unexpected response: HTTP/1.0 404'' @ newlines), sk')"
proof -
  let ?sk = "sample_sock (str_bytes (''HTTP/1.0 404'' @ newlines))"
  have h: "sock_healthy ?sk" by (simp add: sample_sock_def sock_healthy_def)
  then obtain a where a: "wire_write_all kConnectReq ?sk = Some (Ret (), a)" "arrived a = arrived ?sk" "sock_healthy a"
    using wire_write_all_ok [OF h, of kConnectReq] by (auto simp: sock_healthy_def)
  have e: "ends_head [] (str_bytes (''HTTP/1.0 404'' @ newlines))"
    "length (str_bytes (''HTTP/1.0 404'' @ newlines)) = 14"
    "\<not> contains (str_bytes ''200'') (str_bytes (''HTTP/1.0 404'' @ newlines))"
    "bytes_str (str_bytes (''HTTP/1.0 404'' @ newlines)) = ''HTTP/1.0 404'' @ newlines"
    by code_simp+
  show ?thesis
    using read_head_ok [OF a(3) _ e(1), of "[]" "''http_connect_handshake: read failed''"] a(1,2) e
    by (auto simp: http_connect_handshake_def sample_sock_def)
qed

theorem tcp_dial_descriptors_witness:
  "\<exists>e. tcp_dial_http sample_resolver ''storage:5050'' {3} = Some (Exc e, {3, 7})"
proof -
  have l: "last_colon ''storage:5050'' = Some (''storage'', ''5050'')" "stoi ''5050'' = Ret 5050" by code_simp+
  have c: "tcp_connect sample_resolver ''storage'' 5050 {3} =
      (Ret (7, sample_sock (str_bytes (''HTTP/1.0 404'' @ newlines))), {7, 3})"
    by (simp add: tcp_connect_def sample_resolver_def)
  with l sample_refused obtain e fds' where d: "tcp_dial_http sample_resolver ''storage:5050'' {3} = Some (Exc e, fds')"
    by (auto simp: tcp_dial_http_def)
  have "\<forall>ps. sample_resolver ''storage'' (to_string 5050) = Some ps \<longrightarrow> fresh_tries ps {3}"
    by (simp add: sample_resolver_def)
  from tcp_dial_descriptors [OF l this d] c have "fds' = {3, 7}" by auto
  with d show ?thesis by blast
qed

text \<open>
  Listening: whenever the listener ends, by an exception or after the stop flag, its own descriptor
  is closed again, and the only descriptors it adds are those it handed to connection threads.
\<close>

lemma accept_loop_fds:
  "accept_loop has_stop ws conns fds = Some (conns', fds') \<Longrightarrow>
   \<exists>new. conns' = conns @ new \<and> fds' = fds \<union> set new \<and> set new \<subseteq> {fd. \<exists>b. (b, Some fd) \<in> set ws}"
proof (induction has_stop ws conns fds rule: accept_loop.induct)
  case (2 has_stop stop acc ws conns fds)
  show ?case
  proof (cases "has_stop \<and> stop \<or> acc = None \<and> \<not> has_stop")
    case True
    with 2(3) show ?thesis by (auto split: option.splits)
  next
    case False
    then have go: "\<not> (has_stop \<and> stop)" by simp
    show ?thesis
    proof (cases acc)
      case None
      with False have "has_stop" by simp
      with "2.IH"(1) [OF go None this] "2.prems" go None show ?thesis by fastforce
    next
      case (Some fd)
      from "2.IH"(2) [OF go Some] "2.prems" go Some obtain new
        where "conns' = (conns @ [fd]) @ new" "fds' = insert fd fds \<union> set new"
          "set new \<subseteq> {fd. \<exists>b. (b, Some fd) \<in> set ws}" by auto
      then show ?thesis using Some by (intro exI [of _ "fd # new"]) auto
    qed
  qed
qed simp

theorem listener_descriptors:
  assumes "run_rpc_listener lc tag port has_stop ws fds = Some (r, conns, fds')"
    and "\<And>lfd. lc_socket lc = Some lfd \<Longrightarrow> lfd \<notin> fds \<and> (\<forall>b. (b, Some lfd) \<notin> set ws)"
  shows "fds' = fds \<union> set conns \<and> (r = Ret () \<or> conns = [])"
proof (cases "lc_socket lc")
  case (Some lfd)
  note f = assms(2) [OF Some]
  show ?thesis
  proof (cases "lc_bind lc (word_of_int port) \<and> lc_listen lc")
    case True
    then obtain c g where g: "accept_loop has_stop ws [] (insert lfd fds) = Some (c, g)"
      "r = Ret ()" "conns = c" "fds' = g - {lfd}"
      using assms(1) Some by (auto simp: run_rpc_listener_def Let_def)
    from accept_loop_fds [OF g(1)] f g(2-4) show ?thesis by auto
  qed (use assms(1) Some f in \<open>auto simp: run_rpc_listener_def Let_def split: if_splits\<close>)
qed (use assms(1) in \<open>auto simp: run_rpc_listener_def\<close>)

theorem listener_descriptors_witness:
  "run_rpc_listener \<lparr>lc_socket = Some 4, lc_bind = \<lambda>p. p = 6001, lc_listen = True\<rparr> ''raft'' 6001 True
     [(False, Some 5), (False, None), (False, Some 6), (True, None)] {3} = Some (Ret (), [5, 6], {5, 6, 3})"
proof -
  let ?ws = "[(False, Some 5), (False, None), (False, Some 6), (True, None)] :: (bool \<times> nat option) list"
  let ?lc = "\<lparr>lc_socket = Some 4, lc_bind = \<lambda>p. p = 6001, lc_listen = True\<rparr>"
  obtain g where g: "run_rpc_listener ?lc ''raft'' 6001 True ?ws {3} = Some (Ret (), [5, 6], g)"
    by (simp add: run_rpc_listener_def)
  from listener_descriptors [OF g] have "g = {3} \<union> set [5, 6]" by simp
  with g show ?thesis by simp
qed


end
