(* ===== verification/Connections.thy ===== *)
theory Connections
  imports RdmaSetup TcpSetup
begin

text \<open>
  \<open>net/src/raft_rpc_conn.cpp\<close>: a connection is one of the two transports, and this is the only place
  where they differ. Shows that a connection gives back everything it took when it is closed, after
  any number of calls.
\<close>

section \<open>Connections and dialers\<close>

datatype rpc_conn = TcpRpcConn tcp_handle | RdmaRpcConn rdma_handle

text \<open>What dialling meets: name resolution, the RDMA libraries, the open descriptors, the releases so far.\<close>

record net_world =
  nw_resolver :: resolver
  nw_lib :: cm_lib
  nw_verbs :: verbs
  nw_fds :: "nat set"
  nw_released :: "resource list"

definition kErrPrefix :: string where
  "kErrPrefix = ''remote error: ''"

definition invoke :: "verbs \<Rightarrow> string \<Rightarrow> bytes \<Rightarrow> rpc_conn \<Rightarrow> (bytes outcome \<times> rpc_conn) option" where
  "invoke v meth req_body conn =
     (case conn of
        TcpRpcConn (fd, h) \<Rightarrow>
          map_option (\<lambda>(r, h). (r, TcpRpcConn (fd, h))) (rpc_invoke meth req_body kErrPrefix h)
      | RdmaRpcConn h \<Rightarrow>
          map_option (\<lambda>(r, c). (r, RdmaRpcConn (h\<lparr>rh_conn := c\<rparr>)))
            (rdma_invoke v meth req_body kErrPrefix (rh_conn h)))"

text \<open>The destructors.\<close>

definition close_conn :: "rpc_conn \<Rightarrow> net_world \<Rightarrow> net_world" where
  "close_conn conn w =
     (case conn of
        TcpRpcConn h \<Rightarrow> w\<lparr>nw_fds := destroy_client h (nw_fds w)\<rparr>
      | RdmaRpcConn h \<Rightarrow> w\<lparr>nw_released := nw_released w @ fst (destroy_handle h)\<rparr>)"

definition tcp_dialer :: "string \<Rightarrow> net_world \<Rightarrow> (rpc_conn outcome \<times> net_world) option" where
  "tcp_dialer address w =
     map_option (\<lambda>(r, fds). (obind r (\<lambda>h. Ret (TcpRpcConn h)), w\<lparr>nw_fds := fds\<rparr>))
       (tcp_dial_http (nw_resolver w) address (nw_fds w))"

definition rdma_dialer :: "string \<Rightarrow> net_world \<Rightarrow> (rpc_conn outcome \<times> net_world) option" where
  "rdma_dialer address w =
     (case rdma_dial (nw_lib w) (nw_verbs w) address of
        (r, rel) \<Rightarrow> Some (obind r (\<lambda>h. Ret (RdmaRpcConn h)), w\<lparr>nw_released := nw_released w @ rel\<rparr>))"

definition dialer_for :: "transport_kind \<Rightarrow> string \<Rightarrow> net_world \<Rightarrow> (rpc_conn outcome \<times> net_world) option" where
  "dialer_for kind = (if kind = Rdma then rdma_dialer else tcp_dialer)"

section \<open>Calls keep the resources of a connection\<close>

lemma whole_simps [simp]:
  "whole (c\<lparr>posted := n\<rparr>) = whole c" "whole (c\<lparr>messages := ms\<rparr>) = whole c"
  "whole (c\<lparr>rc_polls := n\<rparr>) = whole c" "whole (c\<lparr>rc_tick := n\<rparr>) = whole c"
  by (simp_all add: whole_def release_order_def)

lemma whole_buffers:
  "whole c \<Longrightarrow> b \<noteq> [] \<Longrightarrow> whole (c\<lparr>send_buf := b\<rparr>)" "whole c \<Longrightarrow> b \<noteq> [] \<Longrightarrow> whole (c\<lparr>recv_buf := b\<rparr>)"
  "whole c \<Longrightarrow> send_buf c \<noteq> [] \<and> recv_buf c \<noteq> [] \<and> rc_id c"
  by (simp_all add: whole_def release_order_def)

lemma memcpy_at_Nil [simp]: "memcpy_at k d buf = [] \<longleftrightarrow> d = [] \<and> (k = 0 \<or> buf = []) \<and> length buf \<le> k"
  by (auto simp: memcpy_at_def)

lemma encode_frame_whole: "encode_frame h b c = (r, c') \<Longrightarrow> whole c \<Longrightarrow> whole c'"
  by (auto simp: encode_frame_def Let_def put_be32_def kHdrBytes_def intro!: whole_buffers(1) split: if_splits)

lemma take_completion_whole: "take_completion v c = (r, c') \<Longrightarrow> whole c \<Longrightarrow> whole c'"
  using whole_buffers(3) [of c]
  by (auto simp: take_completion_def Let_def intro!: whole_buffers(2) split: cq_result.splits)

lemma post_whole:
  "post_send v n c = (r, c') \<Longrightarrow> whole c' = whole c" "post_recv v c = (r, c') \<Longrightarrow> whole c' = whole c"
  by (auto simp: post_send_def post_recv_def Let_def split: option.splits)

lemma clock_whole:
  "stop_set v b c = (x, c') \<Longrightarrow> whole c' = whole c" "timed_out v t0 ms c = (x, c') \<Longrightarrow> whole c' = whole c"
  "spin_over v us e c = (x, c') \<Longrightarrow> whole c' = whole c" "read_clock v c = (t, c') \<Longrightarrow> whole c' = whole c"
  by (auto simp: stop_set_def timed_out_def spin_over_def read_clock_def Let_def split: if_splits)

lemma block_phase_whole: "block_phase v t0 ms c = (y, c') \<Longrightarrow> whole c' = whole c"
  by (auto simp: block_phase_def poll_channel_def read_clock_def Let_def
      split: if_splits chan_result.splits option.splits)

lemma spin_whole:
  assumes "spin v t0 ms st us e c = Some y" "whole c"
  shows "whole (snd y)"
proof -
  have "whole c \<longrightarrow> whole (snd y)"
    by (rule spin.raw_induct [OF _ assms(1)])
      (fastforce dest: take_completion_whole clock_whole split: prod.splits outcome.splits option.splits if_splits)
  with assms(2) show ?thesis by blast
qed

lemma wait_loop_whole:
  assumes "wait_loop v t0 ms st us c = Some y" "whole c"
  shows "whole (snd y)"
proof -
  have "whole c \<longrightarrow> whole (snd y)"
  proof (rule wait_loop.raw_induct [OF _ assms(1)], intro impI, goal_cases)
    case (1 wl v t0 ms st us c y)
    obtain t a where a: "read_clock v c = (t, a)" by fastforce
    with 1(2) obtain r b where b: "spin v t0 ms st us (t + (if us > 0 then us else 0) * 1000) a = Some (r, b)"
      and y: "(case r of Ret (Got w) \<Rightarrow> Some (Ret (Some w), b) | Ret Quit \<Rightarrow> Some (Ret None, b)
        | Ret Fallback \<Rightarrow> (case block_phase v t0 ms b of
            (Ret again, c) \<Rightarrow> if again then wl v t0 ms st us c else Some (Ret None, c)
          | (Exc e, c) \<Rightarrow> Some (Exc e, c) | (Ub, c) \<Rightarrow> Some (Ub, c))
        | Exc e \<Rightarrow> Some (Exc e, b) | Ub \<Rightarrow> Some (Ub, b)) = Some y"
      by (auto simp: bind_eq_Some_conv Let_def)
    have w: "whole b" using spin_whole [OF b] clock_whole(4) [OF a] 1(3) by simp
    obtain q d where d: "block_phase v t0 ms b = (q, d)" by fastforce
    then have "whole d" using block_phase_whole w by blast
    with y w d 1(1) [of v t0 ms st us d y] show ?case
      by (auto split: outcome.splits spun.splits if_splits)
  qed
  with assms(2) show ?thesis by blast
qed

lemma wait_completion_whole: "wait_completion v ms st us c = Some (r, c') \<Longrightarrow> whole c \<Longrightarrow> whole c'"
  using wait_loop_whole [of v _ ms st us] by (fastforce simp: wait_completion_def dest: clock_whole split: prod.splits)

lemma await_both_whole:
  assumes "await_both v meth b1 b2 n c = Some y" "whole c"
  shows "whole (snd y)"
proof -
  have "whole c \<longrightarrow> whole (snd y)"
  proof (rule await_both.raw_induct [OF _ assms(1)], intro impI, goal_cases)
    case (1 ab v meth b1 b2 n c y)
    show ?case
    proof (cases "b1 \<and> b2")
      case False
      with 1(2) obtain r a where a: "wait_completion v kCallTimeoutMs False kSpinClientUs c = Some (r, a)"
        and y: "(case r of Ret None \<Rightarrow> Some (Exc (''rdma_invoke: timed out on '' @ meth), a)
          | Ret (Some (WcRecv n)) \<Rightarrow> ab v meth b1 True n a | Ret (Some WcSend) \<Rightarrow> ab v meth True b2 n a
          | Exc e \<Rightarrow> Some (Exc e, a) | Ub \<Rightarrow> Some (Ub, a)) = Some y"
        by (auto simp: bind_eq_Some_conv)
      have "whole a" using wait_completion_whole [OF a] 1(3) by simp
      with y 1(1) show ?thesis by (auto split: outcome.splits option.splits wc.splits)
    qed (use 1(2,3) in auto)
  qed
  with assms(2) show ?thesis by blast
qed

lemma invoke_reply_whole: "whole (snd (invoke_reply v pre n c)) = whole c"
  by (auto simp: invoke_reply_def andthen_def dest: post_whole(2) split: outcome.splits prod.splits)

lemma rdma_invoke_whole:
  assumes "rdma_invoke v meth body pre c = Some y" "whole c"
  shows "whole (snd y)"
proof -
  obtain r a where a: "andthen (encode_frame (str_bytes meth) body c) (\<lambda>len c. post_send v len c) = (r, a)" by fastforce
  then have w: "whole a"
    using assms(2) by (auto simp: andthen_def dest: encode_frame_whole post_whole(1) split: outcome.splits prod.splits)
  show ?thesis
  proof (cases r)
    case (Ret u)
    with assms(1) a obtain m where m: "await_both v meth False False 0 a = Some m"
      and y: "y = andthen m (invoke_reply v pre)" by (auto simp: rdma_invoke_def)
    from await_both_whole [OF m w] show ?thesis
      unfolding y by (cases m; cases "fst m") (auto simp: invoke_reply_whole)
  qed (use assms(1) a w in \<open>auto simp: rdma_invoke_def\<close>)
qed

section \<open>Open, use, close\<close>

text \<open>Some calls on a connection, each with its result.\<close>

inductive used :: "verbs \<Rightarrow> rpc_conn \<Rightarrow> rpc_conn \<Rightarrow> bool" for v where
  used_refl: "used v c c"
| used_call: "used v c c' \<Longrightarrow> invoke v meth body c' = Some (r, c'') \<Longrightarrow> used v c c''"

fun same_owner :: "rpc_conn \<Rightarrow> rpc_conn \<Rightarrow> bool" where
  "same_owner (TcpRpcConn (fd, h)) (TcpRpcConn (fd', h')) = (fd = fd')"
| "same_owner (RdmaRpcConn h) (RdmaRpcConn h') = (rh_ec h = rh_ec h' \<and> (whole (rh_conn h) \<longrightarrow> whole (rh_conn h')))"
| "same_owner _ _ = False"

lemma used_owner: "used v c c' \<Longrightarrow> same_owner c c'"
proof (induction rule: used.induct)
  case (used_refl c)
  show ?case by (cases c) auto
next
  case (used_call c c' meth body r c'')
  then show ?case
    by (cases c; cases c') (auto simp: invoke_def dest: rdma_invoke_whole)
qed

lemma destroy_whole:
  assumes "rh_ec h" "whole (rh_conn h)"
  shows "fst (destroy_handle h) = release_order @ [ResEc]"
proof -
  have t: "teardown (rh_conn h) = (release_order, cleared (rh_conn h))"
    using teardown_all [of "rh_conn h"] assms(2) by (simp add: whole_def whole_buffers(3) [OF assms(2)])
  have "teardown (cleared (rh_conn h)) = ([], cleared (cleared (rh_conn h)))"
    using teardown_all [of "cleared (rh_conn h)"] by simp
  with t assms(1) show ?thesis by (simp add: destroy_handle_def)
qed

lemma rdma_dial_Ret:
  assumes "rdma_dial lib v address = (Ret h, rel)"
  shows "rel = [] \<and> rh_ec h \<and> whole (rh_conn h)"
proof -
  from assms have "dial_steps lib v address RdmaClientHandle = (Ret (), h)" "rel = []"
    by (auto simp: rdma_dial_def split: outcome.splits option.splits prod.splits)
  with dial_ends [of lib v address] show ?thesis by (simp add: ends_def)
qed

text \<open>
  A connection gives back what it took: whatever calls were made on it, and whether they succeeded
  or not, closing it leaves the open descriptors as they were before the dial, and an RDMA connection
  has released each of its ten resources once, in a safe order.
\<close>

theorem connection_gives_back:
  assumes dial: "dialer_for kind address w = Some (Ret c, w')"
    and use: "used (nw_verbs w) c c'"
    and fresh: "\<And>host p port ps. last_colon address = Some (host, p) \<Longrightarrow> stoi p = Ret port \<Longrightarrow>
      nw_resolver w host (to_string port) = Some ps \<Longrightarrow> fresh_tries ps (nw_fds w)"
  shows "nw_fds (close_conn c' w') = nw_fds w \<and>
    nw_released (close_conn c' w') = nw_released w @ (if kind = Rdma then release_order @ [ResEc] else [])"
proof (cases "kind = Rdma")
  case True
  then obtain h rel where d: "rdma_dial (nw_lib w) (nw_verbs w) address = (Ret h, rel)" "c = RdmaRpcConn h"
    "w' = w\<lparr>nw_released := nw_released w @ rel\<rparr>"
    using dial by (auto simp: dialer_for_def rdma_dialer_def obind_eq_Ret split: prod.splits)
  note r = rdma_dial_Ret [OF d(1)]
  with used_owner [OF use] d(2) obtain h' where "c' = RdmaRpcConn h'" "rh_ec h'" "whole (rh_conn h')"
    by (cases c') auto
  with r d(3) True show ?thesis by (simp add: close_conn_def destroy_whole)
next
  case False
  then obtain h fds' where d: "tcp_dial_http (nw_resolver w) address (nw_fds w) = Some (Ret h, fds')"
    "c = TcpRpcConn h" "w' = w\<lparr>nw_fds := fds'\<rparr>"
    using dial by (auto simp: dialer_for_def tcp_dialer_def obind_eq_Ret)
  obtain host p where l: "last_colon address = Some (host, p)"
    using d(1) by (auto simp: tcp_dial_http_def split: option.splits)
  obtain port where s: "stoi p = Ret port"
    using d(1) l by (cases "stoi p") (auto simp: tcp_dial_http_def)
  have "\<forall>ps. nw_resolver w host (to_string port) = Some ps \<longrightarrow> fresh_tries ps (nw_fds w)"
    using fresh [OF l s] by blast
  from tcp_dial_descriptors [OF l s this d(1)]
  have f: "fst h \<notin> nw_fds w" "fds' = insert (fst h) (nw_fds w)" by (auto split: prod.splits)
  from used_owner [OF use] d(2) obtain h' where "c' = TcpRpcConn h'" "fst h' = fst h"
    by (cases c'; cases h) auto
  with f d(3) False show ?thesis by (simp add: close_conn_def destroy_client_def)
qed

end
