(* ===== verification/Serving.thy ===== *)
theory Serving
  imports Connections Dispatch
begin

text \<open>
  How a node and a storage node serve (\<open>raft_tcp_server.cpp\<close>, \<open>raft_blockcopy_net.cpp\<close>): the choice of
  the listener by the transport, the dispatcher of a connection, and the factories of the calling
  side. Shows that the state of the server after a series of requests on one connection does not depend
  on the transport.
\<close>

section \<open>Connections\<close>

definition serve_connection ::
  "pb_lib \<Rightarrow> node_calls \<Rightarrow> sock \<Rightarrow> server \<Rightarrow> (unit outcome \<times> wire_server \<times> server) option" where
  "serve_connection lib nc sk s = serve_rpc_connection (dispatch_raft_method lib nc) sk s"

definition blockcopy_serve_connection ::
  "pb_write_pba_batch_request pb_codec \<Rightarrow> pb_write_pba_batch_response pb_codec \<Rightarrow> (nat \<times> io_event) list \<Rightarrow>
   sock \<Rightarrow> blockcopy_server \<times> devices \<Rightarrow> (unit outcome \<times> wire_server \<times> blockcopy_server \<times> devices) option" where
  "blockcopy_serve_connection cq cr sched sk st = serve_rpc_connection (dispatch_blockcopy_method cq cr sched) sk st"

section \<open>Listeners\<close>

text \<open>What the two listeners meet, and how far they come.\<close>

record serve_world =
  sv_lib :: cm_lib
  sv_inet_ok :: "string \<Rightarrow> bool"
  sv_bind_advice :: string
  sv_wakes :: "(bool \<times> wake) list"
  sv_listen :: listen_calls
  sv_accepts :: "(bool \<times> nat option) list"
  sv_fds :: "nat set"

datatype served = ServedRdma rdma_listener | ServedTcp "nat list" "nat set"

definition run_server :: "string \<Rightarrow> transport_kind \<Rightarrow> string \<Rightarrow> int \<Rightarrow> bool \<Rightarrow> serve_world \<Rightarrow> (unit outcome \<times> served) option" where
  "run_server tag kind bind_host port has_stop w =
     (if kind = Rdma
      then map_option (\<lambda>(r, ls). (r, ServedRdma ls))
             (run_rdma_listener (sv_lib w) (sv_inet_ok w) (sv_bind_advice w) bind_host port (sv_wakes w))
      else map_option (\<lambda>(r, conns, fds). (r, ServedTcp conns fds))
             (run_rpc_listener (sv_listen w) tag port has_stop (sv_accepts w) (sv_fds w)))"

definition run_raft_server :: "transport_kind \<Rightarrow> string \<Rightarrow> int \<Rightarrow> bool \<Rightarrow> serve_world \<Rightarrow> (unit outcome \<times> served) option" where
  "run_raft_server = run_server ''raft''"

definition run_blockcopy_server :: "transport_kind \<Rightarrow> string \<Rightarrow> int \<Rightarrow> bool \<Rightarrow> serve_world \<Rightarrow> (unit outcome \<times> served) option" where
  "run_blockcopy_server = run_server ''blockcopy''"

section \<open>Factories\<close>

definition make_raft_transport ::
  "transport_kind \<Rightarrow> (u64 \<times> string) list \<Rightarrow> peer list \<times> (string \<Rightarrow> net_world \<Rightarrow> (rpc_conn outcome \<times> net_world) option)" where
  "make_raft_transport kind eps = (RpcRaftTransport eps, dialer_for kind)"

definition make_blockcopy_client ::
  "transport_kind \<Rightarrow> string \<Rightarrow> bc_client \<times> (string \<Rightarrow> net_world \<Rightarrow> (rpc_conn outcome \<times> net_world) option)" where
  "make_blockcopy_client kind host = (RpcBlockCopyClient host, dialer_for kind)"

text \<open>The device list of the library, \<open>None\<close> when it gives none, and the number of entries.\<close>

definition rdma_devices_available :: "int option \<Rightarrow> bool" where
  "rdma_devices_available devs = (case devs of None \<Rightarrow> False | Some num \<Rightarrow> num > 0)"

section \<open>The state after a connection\<close>

lemma served_same_state:
  "serve_all dispatch qs st = Some (out, st1) \<Longrightarrow>
   serve_events dispatch (map (\<lambda>(m, seq, body). Request m body) qs) st = Some (outs, st2) \<Longrightarrow> st1 = st2"
proof (induction dispatch qs st arbitrary: out outs rule: serve_all.induct)
  case (2 dispatch m seq body qs st)
  obtain e rsp st3 where a: "answer dispatch m body st = Some (Ret (e, rsp), st3)"
    using "2.prems"(1) by (auto split: option.splits outcome.splits prod.splits)
  with "2.prems" show ?case
    using "2.IH" [OF a refl refl refl] by (auto split: if_splits)
qed simp

text \<open>
  A node that serves the same requests over TCP and over RDMA ends in the same state, having answered
  them all.
\<close>

lemma raft_server_transports:
  assumes tcp: "sock_healthy sk" "arrived sk = kConnectReq @ concat (map frame_of qs)" "\<forall>q \<in> set qs. wf_request q"
      "serve_all (dispatch_raft_method lib nc) qs s = Some (out, s1)"
    and rdma: "calm v" "conn_ready c"
      "completions v (rc_polls c) (map cq_of (map (\<lambda>(m, seq, body). Request m body) qs) @ [CqBad e])"
      "serve_events (dispatch_raft_method lib nc) (map (\<lambda>(m, seq, body). Request m body) qs) s = Some (outs, s2)"
  shows "\<exists>w c' s'. serve_connection lib nc sk s = Some (Ret (), w, s') \<and> sent (server_sock w) = sent sk @ kConnectOk @ out \<and>
    serve_rdma_connection v (dispatch_raft_method lib nc) c s = Some (Ret (), c', s') \<and> messages c' = messages c @ outs"
proof -
  have "s1 = s2" by (rule served_same_state [OF tcp(4) rdma(4)])
  with connection_served_lemma [OF tcp] rdma_served [OF rdma] show ?thesis
    unfolding serve_connection_def by blast
qed

end
