(* ===== verification/NodeInv.thy ===== *)
theory NodeInv
  imports Node
begin

text \<open>
  The type invariant of a node's log state over all its threads. \<open>Node\<close> lets the critical sections
  run in any order with any arguments; here the second section of the append-entries handler
  (\<open>ae_complete\<close>) runs only while the tail is still where its first section left it. Under that
  discipline (\<open>serial_step\<close>) the indices of the log, the commit index and \<open>last_applied\<close> stay
  consistent along every run, the commit index and \<open>last_applied\<close> never move back, and the commit
  rule and the apply loop never read outside the log. The last section shows that the discipline is
  needed and that the code does not enforce it: two handlers whose copies overlap both append.
\<close>

section \<open>The invariant\<close>

text \<open>
  On top of \<open>node_inv\<close>: the member count is a 64-bit number, and the next entry to apply lies
  between the oldest entry in memory and the one after the commit index.
\<close>

definition log_state_ok :: "server \<Rightarrow> bool" where
  "log_state_ok s \<longleftrightarrow> node_inv s \<and> length (cluster (raft s)) < 18446744073709551616 \<and>
     oldest_log_index s \<le> last_applied (raft s) \<and>
     unat (last_applied (raft s)) \<le> unat (commit_index (raft s)) + 1"

definition index_forward :: "server \<Rightarrow> server \<Rightarrow> bool" where
  "index_forward s t \<longleftrightarrow> commit_index (raft s) \<le> commit_index (raft t) \<and>
     last_applied (raft s) \<le> last_applied (raft t)"

text \<open>The invariant in natural numbers.\<close>

lemma log_state_ok_iff:
  "log_state_ok s \<longleftrightarrow> wf_cluster (raft s) \<and> length (cluster (raft s)) < 18446744073709551616 \<and>
     rlog (raft s) \<noteq> [] \<and> length (rlog (raft s)) \<le> unat (tail_log_index (ring s)) \<and>
     unat (commit_index (raft s)) < unat (tail_log_index (ring s)) \<and>
     unat (tail_log_index (ring s)) < unat (last_applied (raft s)) + length (rlog (raft s)) \<and>
     unat (last_applied (raft s)) \<le> unat (commit_index (raft s)) + 1"
proof (cases "wf_log s")
  case True
  from unat_oldest [OF this] have "oldest_log_index s \<le> last_applied (raft s) \<longleftrightarrow>
    unat (tail_log_index (ring s)) < unat (last_applied (raft s)) + length (rlog (raft s))"
    unfolding word_le_nat_alt by linarith
  with True show ?thesis by (auto simp: log_state_ok_def node_inv_def wf_log_def word_less_nat_alt)
qed (auto simp: log_state_ok_def node_inv_def wf_log_def)

text \<open>Sections that leave all of these alone.\<close>

definition log_frame :: "server \<Rightarrow> server \<Rightarrow> bool" where
  "log_frame s t \<longleftrightarrow> length (rlog (raft t)) = length (rlog (raft s)) \<and>
     tail_log_index (ring t) = tail_log_index (ring s) \<and>
     commit_index (raft t) = commit_index (raft s) \<and> last_applied (raft t) = last_applied (raft s)"

lemma log_frame_refl [simp]: "log_frame s s"
  by (simp add: log_frame_def)

lemma log_frame_trans: "log_frame s t \<Longrightarrow> log_frame t u \<Longrightarrow> log_frame s u"
  by (simp add: log_frame_def)

lemma log_frame_andthen:
  assumes "log_frame s (snd m)" "\<And>a. fst m = Ret a \<Longrightarrow> log_frame (snd m) (snd (f a (snd m)))"
  shows "log_frame s (snd (andthen m f))"
  using assms by (cases m; cases "fst m") (auto intro: log_frame_trans)

text \<open>One section: the cluster table keeps its shape and the log state moves as the invariant allows.\<close>

definition same_members :: "server \<Rightarrow> server \<Rightarrow> bool" where
  "same_members s t \<longleftrightarrow> cluster_index (raft t) = cluster_index (raft s) \<and>
     length (cluster (raft t)) = length (cluster (raft s))"

lemma vote_move_members: "vote_move s t \<Longrightarrow> same_members s t"
  by (simp add: vote_move_def same_members_def)

lemma frame_ok:
  assumes "log_frame s t" "same_members s t" "log_state_ok s"
  shows "log_state_ok t \<and> index_forward s t"
  using assms unfolding log_state_ok_iff log_frame_def same_members_def index_forward_def wf_cluster_def
  by (metis length_0_conv order_refl)

section \<open>Sections that keep the log state\<close>

lemma log_frame_ring: "(\<And>g. tail_log_index (f g) = tail_log_index g) \<Longrightarrow> log_frame s (upd_ring f s)"
  by (simp add: log_frame_def upd_ring_def)

lemma log_frame_same: "raft t = raft s \<Longrightarrow> ring t = ring s \<Longrightarrow> log_frame s t"
  by (simp add: log_frame_def)

lemma log_frame_member [simp]: "log_frame s (update_member i f t) = log_frame s t"
  by (simp add: log_frame_def)

lemma log_frame_reset [simp]: "log_frame s (reset_election_timeout t) = log_frame s t"
  by (simp add: log_frame_def)

lemma log_frame_persist [simp]: "log_frame s (snd (persist_circular w n t)) = log_frame s t"
  by (simp add: log_frame_def persist_fields)

lemma log_frame_update_term: "wf_cluster (raft s) \<Longrightarrow> log_frame s (snd (update_term msg s))"
  by (simp add: log_frame_def update_term_raft)

lemma log_frame_heartbeat: "log_frame s (heartbeat s)"
  by (simp add: log_frame_def heartbeat_def Let_def now_def upd_raft_def)

lemma log_frame_build: "log_frame s (snd (ae_build fi s))"
proof -
  have "log_frame s (snd (clamp_next fi s))" by (simp add: clamp_next_def Let_def)
  then show ?thesis
    unfolding ae_build_def Let_def
    by (cases "clamp_next fi s") (auto split: outcome.split option.split prod.split)
qed

lemma log_frame_leader_copy: "log_frame s (snd (ae_leader_copy bc fi r s))"
  by (auto simp: ae_leader_copy_def Let_def split: outcome.split prod.split)

lemma log_frame_success: "log_frame s (apply_ae_success fi nx n has t) = log_frame s t"
proof -
  have "log_frame s (upd_raft (\<lambda>r. r\<lparr>heartbeat_timeout := 0\<rparr>) u) = log_frame s u" for u
    by (simp add: log_frame_def upd_raft_def)
  then show ?thesis unfolding apply_ae_success_def by (simp only: Let_def split: if_split) simp
qed

lemma log_frame_backoff: "log_frame s (snd (apply_ae_failure_backoff fi pidx cterm cidx sent s))"
  by (simp add: apply_ae_failure_backoff_def Let_def split: outcome.split)

lemma log_frame_finish: "log_frame s (snd (ae_finish fi sink r rsp tm s))"
proof -
  have smp: "log_frame t (ae_record_sample sink x t)" for t x
    by (rule log_frame_same) (simp_all add: ae_record_sample_def Let_def split: option.split)
  have "log_frame t (snd (case rsp of
        None \<Rightarrow> (Ret (), t)
      | Some rsp \<Rightarrow>
          if aer_term rsp > current_term (raft t) then (Ret (), t)
          else if aer_term rsp \<noteq> aeq_term (round_req r) \<and> role (raft t) = Leader then (Ret (), t)
          else
            let s = (if success rsp \<and> round_has_entries r
                     then ae_record_sample sink (ae_sample sink rsp tm t) t else t)
            in if success rsp
               then (Ret (), apply_ae_success fi (round_next r) (round_len r) (round_has_entries r) s)
               else andthen (apply_ae_failure_backoff fi (prev_log_index (round_req r))
                               (conflict_term rsp) (conflict_index rsp) (round_next r) s)
                      (\<lambda>_ s. (Ret (), s))))" for t
    by (auto simp: Let_def andthen_const_snd log_frame_success log_frame_backoff smp split: option.split)
  from log_frame_trans [OF _ this] show ?thesis unfolding ae_finish_def by (simp add: Let_def)
qed

lemma log_frame_timeout: "log_frame s (snd (timeout s))"
proof -
  have c: "log_frame s (candidacy s)" by (simp add: candidacy_def log_frame_def) (simp add: upd_raft_def)
  have "log_frame s (snd (andthen (persist_circular False 0 (candidacy s)) (\<lambda>_ s. (Ret (), request_vote s))))"
    by (rule log_frame_andthen) (simp_all add: c log_frame_same)
  then show ?thesis by (simp add: timeout_cases log_frame_same)
qed

lemma log_frame_vote_request:
  assumes "wf_cluster (raft s)"
  shows "log_frame s (snd (handle_request_vote_request req s))"
proof -
  have "log_frame t (snd (andthen (persist_circular False 0 (voted (candidate_id req) t))
        (\<lambda>_ u. (Ret \<lparr>rvr_term = current_term (raft t), vote_granted = True\<rparr>, u))))" for t
    by (simp add: andthen_const_snd voted_def)
  then show ?thesis
    unfolding handle_request_vote_cases [OF assms]
    by (intro log_frame_andthen log_frame_update_term [OF assms]) auto
qed

lemma log_frame_vote_response:
  "wf_cluster (raft s) \<Longrightarrow> log_frame s (snd (request_vote_finish i req rsp s))"
  unfolding request_vote_finish_def
  by (auto intro!: log_frame_andthen log_frame_update_term split: option.split)

lemmas log_frames = log_frame_heartbeat log_frame_build log_frame_leader_copy log_frame_finish
  log_frame_timeout log_frame_vote_request log_frame_vote_response


section \<open>Sections that move the log state\<close>

text \<open>A section that extends the log at its end and moves the commit index forward.\<close>

lemma extend_ok:
  assumes ok: "log_state_ok s" and mem: "same_members s t" and inv: "node_inv t"
    and la: "last_applied (raft t) = last_applied (raft s)"
    and c: "commit_index (raft s) \<le> commit_index (raft t)"
    and len: "unat (tail_log_index (ring t)) + length (rlog (raft s)) =
      unat (tail_log_index (ring s)) + length (rlog (raft t))"
  shows "log_state_ok t \<and> index_forward s t"
  using assms unfolding log_state_ok_iff index_forward_def same_members_def
  by (auto simp: node_inv_def wf_log_def word_less_nat_alt word_le_nat_alt)

lemma advance_ring: "ring (snd (advance_commit_index tm s)) = ring s"
  by (cases "raise_commit s"; cases "fst (raise_commit s)")
    (use raise_commit_fields(1) [of s] in \<open>auto simp: advance_commit_index_def Let_def\<close>)

lemma quiet_members: "quiet s t \<Longrightarrow> wf_cluster (raft s) \<Longrightarrow> same_members s t"
  by (simp add: quiet_move vote_move_members)

lemma log_state_wf: "log_state_ok s \<Longrightarrow> wf_cluster (raft s)" "log_state_ok s \<Longrightarrow> node_inv s"
  "log_state_ok s \<Longrightarrow> wf_log s"
  by (simp_all add: log_state_ok_def node_inv_def)

lemma advance_ok:
  assumes "log_state_ok s"
  shows "log_state_ok (snd (advance_commit_index tm s)) \<and>
    index_forward s (snd (advance_commit_index tm s))"
proof -
  let ?t = "snd (advance_commit_index tm s)" and ?u = "snd (raise_commit s)"
  have mem: "same_members s ?t"
    by (rule quiet_members [OF quiet_advance log_state_wf(1) [OF assms]])
  have c: "commit_index (raft s) \<le> commit_index (raft ?u) \<and> commit_index (raft ?u) < tail_log_index (ring s)"
    using raise_commit_majority [of s] assms
    by (cases "commit_index (raft ?u) = commit_index (raft s)") (auto simp: log_state_ok_def node_inv_def)
  have r: "rlog (raft ?t) = rlog (raft s)" "last_applied (raft ?t) = last_applied (raft s)"
    "commit_index (raft s) \<le> commit_index (raft ?t)" "commit_index (raft ?t) < tail_log_index (ring s)"
    using c assms by (auto simp: advance_commit_raft log_state_ok_def node_inv_def)
  have "node_inv ?t"
    using r mem log_state_wf [OF assms]
    by (simp add: node_inv_def wf_log_def advance_ring same_members_def wf_cluster_def)
  from extend_ok [OF assms mem this] r show ?thesis by (simp add: advance_ring)
qed

lemma apply_pending_ok:
  assumes "log_state_ok s"
  shows "log_state_ok (snd (apply_pending ns s)) \<and> index_forward s (snd (apply_pending ns s))"
proof (cases "role (raft s) = Leader")
  case True
  obtain t where t: "apply_loop 0 (oldest_log_index s) s = (Ret (), t)" "apply_result_ok s t"
    using apply_loop_ok [OF log_state_wf(3) [OF assms] True refl] assms by (auto simp: log_state_ok_def)
  let ?u = "snd (apply_pending ns s)"
  have u: "raft ?u = raft t" "ring ?u = ring s"
    using t True by (simp_all add: apply_pending_def apply_result_ok_def)
  have "same_members s ?u"
    by (rule quiet_members [OF quiet_apply_pending log_state_wf(1) [OF assms]])
  moreover have "apply_end_index s = unat (commit_index (raft s)) + 1"
    using assms by (auto simp: log_state_ok_iff apply_end_index_def)
  then have "unat (last_applied (raft ?u)) = unat (commit_index (raft s)) + 1"
    "length (rlog (raft ?u)) = length (rlog (raft s))" "commit_index (raft ?u) = commit_index (raft s)"
    using t(2) u by (simp_all add: apply_result_ok_def)
  ultimately show ?thesis
    using assms u unfolding log_state_ok_iff index_forward_def same_members_def wf_cluster_def
    by (auto simp: word_le_nat_alt)
qed (use assms in \<open>simp add: apply_pending_def index_forward_def\<close>)

lemma free_slots_tail: "tail_log_index (snd (free_slots is freed g)) = tail_log_index g"
  by (induction "is" freed g rule: free_slots.induct)
    (auto simp: trace_slot_map_def Let_def split: option.splits)

lemma trim_ok:
  assumes "log_state_ok s"
  shows "log_state_ok (trim_log_locked mm s) \<and> index_forward s (trim_log_locked mm s)"
  using trim_log_locked_cases [OF log_state_wf(3) [OF assms], of mm]
proof (elim disjE exE conjE)
  fix n
  assume n: "n \<le> unat (min mm (last_applied (raft s))) - unat (oldest_log_index s)"
    "n \<le> length (rlog (raft s)) - 1"
    and t: "trim_log_locked mm s = upd_raft (\<lambda>r. r\<lparr>rlog := take 1 (rlog r) @ drop (1 + n) (rlog r)\<rparr>) s"
  note d = drop_oldest [OF log_state_wf(3) [OF assms] n(2)]
  have "unat (oldest_log_index s) + n \<le> unat (last_applied (raft s))"
    using n(1) assms by (auto simp: log_state_ok_def word_le_nat_alt min_def split: if_splits)
  with d(1,2) assms show ?thesis
    unfolding t by (auto simp: log_state_ok_def node_inv_def index_forward_def word_le_nat_alt)
      (simp_all add: upd_raft_def wf_cluster_def)
qed (use assms in \<open>simp add: index_forward_def\<close>)

lemma slot_gc_ok:
  assumes "log_state_ok s"
  shows "log_state_ok (do_slot_gc a b s) \<and> index_forward s (do_slot_gc a b s)"
proof (cases "role (raft s) = Leader")
  case True
  obtain freed g where g: "free_slots (indices_after (gc_up_to (ring s)) (min_match s)) False (ring s) = (freed, g)"
    by fastforce
  define g1 where "g1 = g\<lparr>gc_up_to := min_match s, gc_has_run := True\<rparr>"
  define s1 where "s1 = s\<lparr>ring := (if freed then recompute_head_slot g1 else g1)\<rparr>"
  define s2 where "s2 = (if freed then s1\<lparr>ring_not_full_notified := True\<rparr> else s1)"
  define u where "u = (if freed \<and> profiling s2 then s2\<lparr>prof := (prof s2)\<lparr>aci_backpres_ns := b\<rparr>\<rparr> else s2)"
  let ?t = "trim_log_locked (min_match s) u"
  have "do_slot_gc a b s = (if profiling ?t
      then ?t\<lparr>prof := (prof ?t)\<lparr>aci_slot_gc_ns := (if freed then a - aci_backpres_ns (prof ?t) else a)\<rparr>\<rparr> else ?t)"
    using True unfolding do_slot_gc_def g Let_def u_def s2_def s1_def g1_def by simp
  then have d: "raft (do_slot_gc a b s) = raft ?t" "ring (do_slot_gc a b s) = ring ?t" by simp_all
  have "tail_log_index g1 = tail_log_index (ring s)"
    using g free_slots_tail [of "indices_after (gc_up_to (ring s)) (min_match s)" False "ring s"]
    by (simp add: g1_def)
  then have u: "raft u = raft s" "tail_log_index (ring u) = tail_log_index (ring s)"
    by (simp_all add: u_def s2_def s1_def recompute_head_slot_def Let_def split: prod.split)
  have "log_state_ok u" "index_forward s u"
    using frame_ok [of s u] u assms by (simp_all add: log_frame_def same_members_def)
  with trim_ok [of u "min_match s"] u d show ?thesis
    unfolding log_state_ok_iff index_forward_def by auto
qed (use assms in \<open>simp add: do_slot_gc_def index_forward_def\<close>)


lemma index_forward_refl [simp]: "index_forward s s"
  by (simp add: index_forward_def)

lemma index_forward_trans: "index_forward s t \<Longrightarrow> index_forward t u \<Longrightarrow> index_forward s u"
  by (auto simp: index_forward_def)

text \<open>The follower's handler: the two sections and their common end.\<close>

lemma accept_ok:
  assumes "log_state_ok s"
  shows "log_state_ok (snd (ae_accept tm pre w2 post req rsp s)) \<and>
    index_forward s (snd (ae_accept tm pre w2 post req rsp s))"
proof -
  have la: "last_applied (raft (adopt_commit req s)) = last_applied (raft s)"
    by (simp add: adopt_commit_def upd_raft_def)
  show ?thesis
    by (rule extend_ok [OF assms quiet_members [OF quiet_accept log_state_wf(1) [OF assms]]
          ae_accept_inv [OF log_state_wf(2) [OF assms]] _ ae_accept_commit [OF log_state_wf(2) [OF assms]]])
      (simp_all add: ae_accept_snd persist_fields la)
qed

lemma receive_ok:
  assumes "log_state_ok s"
  shows "log_state_ok (snd (ae_receive tm req s)) \<and> index_forward s (snd (ae_receive tm req s))"
proof -
  let ?P = "\<lambda>t. last_applied (raft t) = last_applied (raft s) \<and> rlog (raft t) = rlog (raft s) \<and>
    tail_log_index (ring t) = tail_log_index (ring s)"
  note wf = log_state_wf [OF assms]
  have u: "?P (snd (update_term (aeq_term req) s))" using update_term_raft [OF wf(1)] by simp
  have la: "last_applied (raft (adopt_commit req t)) = last_applied (raft t)"
    "last_applied (raft (ae_follow req t)) = last_applied (raft t)" for t
    by (simp_all add: adopt_commit_def ae_follow_def upd_raft_def)
  have "?P (snd (ae_receive tm req s))"
    unfolding ae_receive_def Let_def
    by (rule andthen_state [where P = ?P, OF u])
      (use u in \<open>auto simp: upd_ring_def andthen_const_snd ae_accept_snd persist_fields la
        split: option.splits outcome.splits\<close>)
  then show ?thesis
    by (intro extend_ok [OF assms quiet_members [OF quiet_receive wf(1)] ae_receive_inv(1)
          _ ae_receive_commit]) (simp_all add: wf)
qed

lemma push_metas_applied: "last_applied (raft (push_metas skip i ms s)) = last_applied (raft s)"
  by (induction skip i ms s rule: push_metas.induct)
    (simp_all add: push_meta_def make_entry_def upd_ring_def upd_raft_def Let_def)

lemma complete_ok:
  assumes ok: "log_state_ok s" and fit: "ae_progress_ok req s (CopyBlocks rsp new_tail skip slot)"
    and bound: "unat new_tail + unat (num_entries req) < 18446744073709551616"
  shows "log_state_ok (snd (ae_complete tm req rsp' new_tail skip copy s)) \<and>
    index_forward s (snd (ae_complete tm req rsp' new_tail skip copy s))"
proof -
  let ?a = "ae_appended req new_tail skip s"
  have sk: "unat new_tail + unat skip = unat (tail_log_index (ring s))" "unat skip \<le> unat (num_entries req)"
    using fit by (auto simp: ae_progress_ok_def)
  note inv = ae_appended_inv [OF log_state_wf(2) [OF ok] bound sk]
  have len: "unat (tail_log_index (ring ?a)) + length (rlog (raft s)) =
      unat (tail_log_index (ring s)) + length (rlog (raft ?a))"
  proof (cases "length (entry_metas req) = unat (num_entries req)")
    case True
    note a = ae_appended_log [OF bound sk True]
    have "length (rlog (raft ?a)) = length (rlog (raft s)) + (unat (num_entries req) - unat skip)"
      using arg_cong [OF a(1), of length] True by simp
    with a(2) show ?thesis by simp
  qed (simp add: ae_appended_def)
  have mem: "same_members s ?a" and la: "last_applied (raft ?a) = last_applied (raft s)"
    using push_metas_fields [of skip 0 "entry_metas req" s]
    by (simp_all add: same_members_def ae_appended_def upd_ring_def push_metas_applied)
  have a: "log_state_ok ?a \<and> index_forward s ?a"
    using extend_ok [OF ok mem conjunct1 [OF inv] la _ len] inv by simp
  have "snd (ae_complete tm req rsp' new_tail skip copy s) =
      (case copy of None \<Rightarrow> s | Some _ \<Rightarrow> snd (ae_accept tm 0 0 0 req rsp' ?a))"
    by (simp add: ae_complete_snd ae_accept_snd split: option.split)
  with a accept_ok [of ?a tm 0 0 0 req rsp'] ok show ?thesis
    by (auto simp: index_forward_def split: option.splits)
qed

text \<open>The leader's sections that append: a client batch and the no-op of a new leader.\<close>

lemma append_ok:
  assumes ok: "log_state_ok s" and mem: "same_members s t"
    and bound: "unat (tail_log_index (ring s)) + length es < 18446744073709551616"
    and log: "rlog (raft t) = rlog (raft s) @ es"
      "tail_log_index (ring t) = tail_log_index (ring s) + of_nat (length es)"
    and same: "commit_index (raft t) = commit_index (raft s)" "last_applied (raft t) = last_applied (raft s)"
  shows "log_state_ok t \<and> index_forward s t"
proof -
  have n: "unat (of_nat (length es) :: u64) = length es" using bound by (intro unat_u64_of_nat) simp
  then have "unat (tail_log_index (ring t)) = unat (tail_log_index (ring s)) + length es"
    unfolding log(2) using bound by (subst unat_u64_add) simp_all
  with ok mem log(1) same show ?thesis
    unfolding log_state_ok_iff index_forward_def same_members_def wf_cluster_def by auto
qed

lemma apply_append_ok:
  assumes ok: "log_state_ok s"
    and bound: "unat (tail_log_index (ring s)) + length cmds < 18446744073709551616"
  shows "log_state_ok (snd (apply_append cmds col timed a_held s)) \<and>
    index_forward s (snd (apply_append cmds col timed a_held s))"
proof -
  let ?p = "push_commands col cmds s" and ?t = "snd (apply_append cmds col timed a_held s)"
  obtain r u where r: "persist_circular True (int (length cmds)) ?p = (r, u)" by fastforce
  have u: "raft u = raft ?p" "tail_log_index (ring u) = tail_log_index (ring ?p)"
    using persist_fields(10,8) [of True "int (length cmds)" ?p] r by simp_all
  have mem: "same_members s ?t"
    by (rule quiet_members [OF quiet_apply_append log_state_wf(1) [OF ok]])
  show ?thesis
  proof (cases "\<exists>e. r = Exc e")
    case True
    then obtain res where run: "apply_append cmds col timed a_held s = (Ret (Finished res False), ?t)"
      using r by (auto simp: apply_append_def)
    have "length (rlog (raft s)) + length cmds < 18446744073709551616"
      using ok bound by (simp add: log_state_ok_iff)
    from roll_back_append [OF run log_state_wf(3) [OF ok] this] show ?thesis
      by (intro frame_ok ok mem) (simp add: log_frame_def)
  next
    case False
    then have "raft ?t = raft ?p" "tail_log_index (ring ?t) = tail_log_index (ring ?p)"
      using r u by (auto simp: apply_append_def Let_def split: outcome.splits)
    with append_ok [OF ok mem, of "map (client_entry s col cmds) [0..<length cmds]"] bound
    show ?thesis by (simp add: push_commands_eq)
  qed
qed

lemma promotion_ok:
  "log_state_ok s \<Longrightarrow> log_state_ok (snd (apply_on_promotion o' s)) \<and>
     index_forward s (snd (apply_on_promotion o' s))"
proof (induction o' s rule: apply_on_promotion.induct)
  case (1 o' s)
  show ?case
  proof (cases "apply_ready o' s \<and> (\<exists>e. log_at s (last_applied (raft s)) = Ret e)")
    case True
    then obtain e where e: "apply_ready o' s" "log_at s (last_applied (raft s)) = Ret e" by blast
    let ?s = "if command e \<noteq> [] then snd (sm_apply (command e) s) else s"
    let ?u = "upd_raft (\<lambda>r. r\<lparr>last_applied := last_applied r + 1\<rparr>) ?s"
    have step: "apply_on_promotion o' s = apply_on_promotion o' ?u"
      using e by (subst apply_on_promotion.simps) (simp add: Let_def)
    have la: "unat (last_applied (raft s) + 1) = unat (last_applied (raft s)) + 1"
      "unat (last_applied (raft s)) \<le> unat (commit_index (raft s))"
      using e(1) unat_u64_inc [of "last_applied (raft s)" "tail_log_index (ring s)"]
      by (simp_all add: apply_ready_def word_less_nat_alt word_le_nat_alt)
    have u: "raft ?u = (raft s)\<lparr>last_applied := last_applied (raft s) + 1\<rparr>" "ring ?u = ring s"
      by (simp_all add: upd_raft_def sm_apply_def)
    have "log_state_ok ?u" "index_forward s ?u"
      using 1(2) la unfolding log_state_ok_iff index_forward_def u
      by (auto simp: wf_cluster_def word_le_nat_alt)
    with 1(1) [OF e refl] show ?thesis unfolding step by (auto simp: index_forward_def)
  next
    case False
    then have "snd (apply_on_promotion o' s) = s"
      by (subst apply_on_promotion.simps) (auto split: outcome.splits)
    with 1(2) show ?thesis by (simp add: index_forward_def)
  qed
qed

text \<open>The end of a promotion: the no-op, its persist, the followers' restart.\<close>

lemma noop_ok:
  assumes ok: "log_state_ok s"
    and bound: "unat (tail_log_index (ring s)) + 1 < 18446744073709551616"
  defines "t \<equiv> snd (let (noop, s) = make_entry s;
       s = upd_raft (\<lambda>r. r\<lparr>rlog := rlog r @ [noop\<lparr>e_term := current_term r\<rparr>]\<rparr>) s;
       s = upd_ring (\<lambda>g. g\<lparr>tail_log_index := tail_log_index g + 1\<rparr>) s
     in andthen (persist_circular True 1 s) (\<lambda>_ s.
       let s = upd_raft (\<lambda>r. r\<lparr>cluster := map (\<lambda>m. m\<lparr>next_index := tail_log_index (ring s) - 1,
                 match_index := 0\<rparr>) (cluster r)\<rparr>) s;
           (t, s) = now s
       in (Ret (), upd_raft (\<lambda>r. r\<lparr>heartbeat_timeout := t\<rparr>) s)))"
  shows "log_state_ok t \<and> index_forward s t"
proof -
  let ?e = "(fst (make_entry s))\<lparr>e_term := current_term (raft s)\<rparr>"
  have "\<exists>e. rlog (raft t) = rlog (raft s) @ [e] \<and> tail_log_index (ring t) = tail_log_index (ring s) + 1 \<and>
    same_members s t \<and> commit_index (raft t) = commit_index (raft s) \<and>
    last_applied (raft t) = last_applied (raft s)"
    unfolding t_def Let_def make_entry_def prod.case
    by (rule andthen_state)
      (simp_all add: persist_fields upd_raft_def upd_ring_def now_def same_members_def)
  then show ?thesis using append_ok [OF ok, of t "[e]" for e] bound by auto
qed

lemma become_leader_ok:
  assumes ok: "log_state_ok s"
    and bound: "unat (tail_log_index (ring s)) + 1 < 18446744073709551616"
  shows "log_state_ok (snd (become_leader s)) \<and> index_forward s (snd (become_leader s))"
proof (cases "quorum_missing (raft s) = 0")
  case True
  define a where "a = upd_ring (\<lambda>g. (rebuild_slot_states_from_map g)\<lparr>gc_up_to := 0, gc_has_run := False\<rparr>)
    (upd_raft (\<lambda>r. r\<lparr>role := Leader\<rparr>) s)"
  define b where "b = snd (load_deferred [1..<length (rlog (raft a))] a)"
  define c where "c = snd (apply_on_promotion (oldest_log_index b) b)"
  have a: "raft a = (raft s)\<lparr>role := Leader\<rparr>" "tail_log_index (ring a) = tail_log_index (ring s)"
    by (simp_all add: a_def upd_ring_def upd_raft_def)
  obtain l where "raft b = (raft a)\<lparr>rlog := l\<rparr>" "length l = length (rlog (raft a))" "ring b = ring a"
    using load_deferred_fields [of "[1..<length (rlog (raft a))]" a] map_eq_imp_length_eq
    by (metis b_def)
  then have "log_frame s b" "same_members s b"
    using a by (simp_all add: log_frame_def same_members_def)
  then have b: "log_state_ok b" "index_forward s b" using frame_ok [OF _ _ ok] by simp_all
  have c: "log_state_ok c" "index_forward s c" "ring c = ring b"
    using promotion_ok [OF b(1), of "oldest_log_index b"] index_forward_trans [OF b(2)]
      apply_on_promotion_fields [of "oldest_log_index b" b] by (simp_all add: c_def)
  have n: "unat (tail_log_index (ring c)) + 1 < 18446744073709551616"
    using bound c(3) \<open>log_frame s b\<close> by (simp add: log_frame_def)
  let ?P = "\<lambda>t. log_state_ok t \<and> index_forward s t"
  show ?thesis
    using True unfolding become_leader_def Let_def
    by (simp only: if_True simp_thms flip: a_def, intro andthen_state [where P = ?P])
      (use b c noop_ok [OF c(1) n] index_forward_trans [OF c(2)] in \<open>simp_all add: c_def b_def Let_def\<close>)
qed (use ok in \<open>simp add: become_leader_minority\<close>)


section \<open>Every run of a node\<close>

text \<open>
  The steps of \<open>Node\<close> with their arguments tied to what the code has at hand. \<open>ae_complete\<close> runs
  while the values its first section computed still fit the log; the sections that append run
  while the index fits into 64 bits.
\<close>

inductive serial_step :: "server \<Rightarrow> server \<Rightarrow> bool" where
  sr_advance: "serial_step s (snd (advance_commit_index tm s))"
| sr_heartbeat: "serial_step s (heartbeat s)"
| sr_ae_receive: "serial_step s (snd (ae_receive htm req s))"
| sr_ae_complete:
    "ae_progress_ok req s (CopyBlocks rsp new_tail skip slot) \<Longrightarrow>
     unat new_tail + unat (num_entries req) < 18446744073709551616 \<Longrightarrow>
     serial_step s (snd (ae_complete htm req rsp' new_tail skip copy s))"
| sr_ae_accept: "serial_step s (snd (ae_accept htm pre w2 post req rsp s))"
| sr_ae_build: "serial_step s (snd (ae_build fi s))"
| sr_ae_leader_copy: "serial_step s (snd (ae_leader_copy bc fi r s))"
| sr_ae_count_send: "serial_step s (ae_count_send r s)"
| sr_ae_finish: "serial_step s (snd (ae_finish fi sink r ok_rsp rtm s))"
| sr_apply_begin:
    "unat (tail_log_index (ring s)) + length cmds < 18446744073709551616 \<Longrightarrow>
     serial_step s (snd (apply_begin cmds timed mutex_a a_held s))"
| sr_apply_resume:
    "unat (tail_log_index (ring s)) + length cmds < 18446744073709551616 \<Longrightarrow>
     serial_step s (snd (apply_resume cmds col tsink a_held s))"
| sr_apply_replicate: "serial_step s (apply_replicate p s)"
| sr_apply_wake: "serial_step s (apply_worker_wake s)"
| sr_apply_pending: "serial_step s (snd (apply_pending ns s))"
| sr_gc_wake: "serial_step s (slot_gc_worker_wake s)"
| sr_slot_gc: "serial_step s (do_slot_gc gc_ns bp_ns s)"
| sr_stop: "serial_step s (stop_signal s)"
| sr_spawn: "serial_step s (append_entries sink s)"
| sr_timeout: "unat (current_term (raft s)) + 1 < 18446744073709551616 \<Longrightarrow> serial_step s (snd (timeout s))"
| sr_become_leader:
    "unat (tail_log_index (ring s)) + 1 < 18446744073709551616 \<Longrightarrow> serial_step s (snd (become_leader s))"
| sr_vote_request: "serial_step s (snd (handle_request_vote_request req s))"
| sr_vote_response: "int i \<noteq> cluster_index (raft s) \<Longrightarrow> serial_step s (snd (request_vote_finish i req rsp s))"

text \<open>They are steps of the node, so everything shown of its voting holds of them too.\<close>

lemma serial_step_node: "serial_step s t \<Longrightarrow> node_step s t"
  by (cases rule: serial_step.cases) (auto intro: background.intros node_step.intros)

lemma step_frame_ok:
  assumes "log_frame s t" "node_step s t" "log_state_ok s"
  shows "log_state_ok t \<and> index_forward s t"
  using frame_ok [OF assms(1) _ assms(3)] node_step_move [OF assms(2) log_state_wf(1) [OF assms(3)]]
    vote_move_members by blast

lemma apply_enter_ok:
  assumes "log_state_ok s" "unat (tail_log_index (ring s)) + length cmds < 18446744073709551616"
  shows "log_state_ok (snd (apply_enter cmds col timed a_held s)) \<and>
    index_forward s (snd (apply_enter cmds col timed a_held s))"
    "log_state_ok (snd (apply_resume cmds col timed a_held s)) \<and>
    index_forward s (snd (apply_resume cmds col timed a_held s))"
  using assms apply_append_ok [OF assms] by (auto simp: apply_enter_def apply_resume_def)

lemma apply_begin_ok:
  assumes "log_state_ok s" "unat (tail_log_index (ring s)) + length cmds < 18446744073709551616"
  shows "log_state_ok (snd (apply_begin cmds timed mutex_a a_held s)) \<and>
    index_forward s (snd (apply_begin cmds timed mutex_a a_held s))"
proof -
  have "log_state_ok (snd (apply_enter cmds col sink a_held t)) \<and>
    index_forward s (snd (apply_enter cmds col sink a_held t))"
    if t: "raft t = raft s" "ring t = ring s" for t col sink
    using apply_enter_ok(1) [of t cmds col sink a_held] assms t
    unfolding log_state_ok_iff [of t] log_state_ok_iff [of s] index_forward_def by simp
  then show ?thesis
    using assms(1) by (simp add: apply_begin_def Let_def new_collector_def new_sink_def)
qed

lemma serial_step_ok:
  assumes step: "serial_step s t" and ok: "log_state_ok s"
  shows "log_state_ok t \<and> index_forward s t"
proof -
  note wf = log_state_wf(1) [OF ok]
  have "log_frame s t \<or> log_state_ok t \<and> index_forward s t"
    using step
  proof cases
    case (sr_ae_complete req rsp new_tail skip slot htm rsp' copy)
    with complete_ok [OF ok sr_ae_complete(2,3)] show ?thesis by simp
  qed (simp_all add: ok wf log_frames advance_ok receive_ok accept_ok apply_enter_ok(2) apply_begin_ok
      apply_pending_ok slot_gc_ok become_leader_ok log_frame_same ae_count_send_def apply_replicate_def
      apply_worker_wake_def slot_gc_worker_wake_def stop_signal_def split: apply_progress.split)
  with step_frame_ok [OF _ serial_step_node [OF step] ok] show ?thesis by blast
qed

interpretation log_run: forward_steps serial_step log_state_ok index_forward
  by unfold_locales (fact serial_step_ok index_forward_refl index_forward_trans)+


text \<open>A node that has started satisfies the invariant.\<close>

lemma startup_ok:
  assumes "init_storage h s = Some (Ret u, t, h')" "length (cluster (raft s)) < 18446744073709551616"
  shows "log_state_ok t"
proof -
  have "wf_cluster (raft t)" "length (rlog (raft t)) = 1" "length (cluster (raft t)) = length (cluster (raft s))"
    using init_storage_header [OF assms(1)] by auto
  with init_storage_indices [OF assms(1)] assms(2) show ?thesis by (auto simp: log_state_ok_iff)
qed

text \<open>
  C12. The log state is well formed in every reachable state of a node: from start-up on, whatever
  the threads do in serial steps, the log is an interval of indices that ends at the tail, the
  commit index lies below the tail, and the next entry to apply lies between the oldest entry in
  memory and the one after the commit index. From any reachable state on, the commit index and
  \<open>last_applied\<close> never move back, and there the commit rule and the apply loop return: they never
  read outside the log.
\<close>

theorem reachable_log_state:
  assumes "init_storage h s0 = Some (Ret u, s, h')" "length (cluster (raft s0)) < 18446744073709551616"
    and "serial_step\<^sup>*\<^sup>* s t" "serial_step\<^sup>*\<^sup>* t t'"
  shows "log_state_ok t \<and> index_forward t t' \<and>
    fst (advance_commit_index tm t) = Ret () \<and> fst (apply_pending ns t) = Ret ()"
proof -
  have t: "log_state_ok t" using log_run.run [OF assms(3) startup_ok [OF assms(1,2)]] by blast
  then have "node_inv t" "length (cluster (raft t)) < 18446744073709551616"
    "unat (oldest_log_index t) \<le> unat (commit_index (raft t)) + 1"
    by (auto simp: log_state_ok_def word_le_nat_alt)
  then have "fst (advance_commit_index tm t) = Ret ()" by (rule advance_commit_returns)
  moreover have "fst (apply_pending ns t) = Ret ()"
  proof (cases "role (raft t) = Leader")
    case True
    with apply_loop_ok [OF log_state_wf(3) [OF t] True refl, of 0] t show ?thesis
      by (auto simp: log_state_ok_def apply_pending_def)
  qed (simp add: apply_pending_def)
  ultimately show ?thesis using t log_run.run [OF assms(4) t] by blast
qed

text \<open>
  The sample node starts, takes an append-entries request and then a vote request.
\<close>

theorem reachable_log_state_witness:
  "\<exists>s h' t t'. init_storage sample_host sample_node = Some (Ret (), s, h') \<and>
     t = snd (ae_receive sample_handler_times sample_append s) \<and>
     t' = snd (handle_request_vote_request sample_vote t) \<and>
     log_state_ok t \<and> index_forward t t' \<and> fst (advance_commit_index sample_aci_times t) = Ret ()"
proof -
  obtain s h' where run: "init_storage sample_host sample_node = Some (Ret (), s, h')"
    using sample_boot by blast
  have "serial_step\<^sup>*\<^sup>* s (snd (ae_receive sample_handler_times sample_append s))"
    "serial_step\<^sup>*\<^sup>* t (snd (handle_request_vote_request sample_vote t))" for t
    by (intro r_into_rtranclp serial_step.intros)+
  from reachable_log_state [OF run _ this] run show ?thesis by fastforce
qed

section \<open>Overlapping handlers\<close>

text \<open>
  What \<open>ae_complete\<close> does to the log and the tail, whatever the state it finds.
\<close>

lemma ae_complete_log:
  assumes "length (entry_metas req) = unat (num_entries req)"
  shows "map e_term (rlog (raft (snd (ae_complete tm req rsp new_tail skip (Some c) s)))) =
      map e_term (rlog (raft s)) @ drop (unat skip) (map meta_term (entry_metas req))"
    and "tail_log_index (ring (snd (ae_complete tm req rsp new_tail skip (Some c) s))) =
      new_tail + num_entries req"
  using ae_appended_terms [OF assms, of new_tail skip s] assms
  by (simp_all add: ae_complete_snd persist_fields) (simp add: ae_appended_def upd_ring_def)

lemma copy_blocks_progress:
  assumes "node_inv s" "ae_receive tm req s = (Ret (CopyBlocks rsp new_tail skip slot), t)"
  shows "node_inv t" "rlog (raft t) = rlog (raft s)" "tail_log_index (ring t) = tail_log_index (ring s)"
    "new_tail + skip = tail_log_index (ring s)" "unat skip \<le> unat (num_entries req)"
proof -
  note p = ae_receive_inv(2) [OF assms] and l = ae_receive_log [OF assms]
  show "node_inv t" using ae_receive_inv(1) [OF assms(1), of tm req] assms(2) by simp
  show "rlog (raft t) = rlog (raft s)" "tail_log_index (ring t) = tail_log_index (ring s)"
    using l by simp_all
  have "unat (new_tail + skip) = unat new_tail + unat skip"
    using p unat_u64_less [of "tail_log_index (ring t)"]
    by (intro unat_u64_add) (auto simp: ae_progress_ok_def)
  then show "new_tail + skip = tail_log_index (ring s)" "unat skip \<le> unat (num_entries req)"
    using p l by (auto simp: ae_progress_ok_def u64_eq_iff)
qed

text \<open>
  C13. Overlapping append-entries handlers corrupt the log. The handler drops the lock for the block
  copy and does not look at the log again afterwards: when two handlers have passed their checks
  before the first completes, both append the entries they counted as new, but the tail index
  moves as if only the second had run. The log then holds the new entries of both requests one after
  the other, and the oldest index, which the code computes from the tail and the length, is too
  small by the number of entries the first handler added.
\<close>

theorem overlapping_copies:
  assumes inv: "node_inv s"
    and r1: "ae_receive tm1 req1 s = (Ret (CopyBlocks rsp1 nt1 skip1 slot1), s1)" "\<not> data_already_copied req1"
    and r2: "ae_receive tm2 req2 s1 = (Ret (CopyBlocks rsp2 nt2 skip2 slot2), s2)"
    and m: "length (entry_metas req1) = unat (num_entries req1)"
      "length (entry_metas req2) = unat (num_entries req2)"
    and e1: "ae_complete tm1 req1 rsp1 nt1 skip1 (Some c1) s2 = (x1, s3)"
    and e2: "ae_complete tm2 req2 rsp2 nt2 skip2 (Some c2) s3 = (x2, t)"
  shows "map e_term (rlog (raft t)) = map e_term (rlog (raft s)) @
      drop (unat skip1) (map meta_term (entry_metas req1)) @
      drop (unat skip2) (map meta_term (entry_metas req2)) \<and>
    tail_log_index (ring t) = tail_log_index (ring s) + (num_entries req2 - skip2) \<and>
    oldest_log_index t = oldest_log_index s - (num_entries req1 - skip1)"
proof -
  note p1 = copy_blocks_progress [OF inv r1(1)]
  note p2 = copy_blocks_progress [OF p1(1) r2]
  note a1 = ae_complete_log [OF m(1), of tm1 rsp1 nt1 skip1 c1 s2, unfolded e1 snd_conv]
  note a2 = ae_complete_log [OF m(2), of tm2 rsp2 nt2 skip2 c2 s3, unfolded e2 snd_conv]
  have l: "map e_term (rlog (raft t)) = map e_term (rlog (raft s)) @
      drop (unat skip1) (map meta_term (entry_metas req1)) @ drop (unat skip2) (map meta_term (entry_metas req2))"
    by (simp add: a1 a2 p1(2) p2(2))
  have "nt2 = tail_log_index (ring s) - skip2" using p2(4) p1(3) by (simp add: eq_diff_eq)
  then have tl: "tail_log_index (ring t) = tail_log_index (ring s) + (num_entries req2 - skip2)"
    by (simp add: a2)
  have "of_nat (unat a - unat b) = a - b" if "unat b \<le> unat a" for a b :: u64
    using that by (simp add: of_nat_diff)
  then have "of_nat (length (rlog (raft t))) =
      (of_nat (length (rlog (raft s))) :: u64) + (num_entries req1 - skip1) + (num_entries req2 - skip2)"
    using arg_cong [OF l, of "\<lambda>xs. of_nat (length xs) :: u64"] m p1(5) p2(5) by simp
  moreover have "rlog (raft s) \<noteq> []" using inv by (simp add: node_inv_def wf_log_def)
  moreover from this l have "rlog (raft t) \<noteq> []" by (metis Nil_is_append_conv map_is_Nil_conv)
  ultimately show ?thesis using l tl by (simp add: oldest_log_index_def log_size_def)
qed

text \<open>The sample follower gets the same request twice, with the copy of the first still under way.\<close>

definition sample_retry :: append_entries_request where
  "sample_retry = sample_append\<lparr>data_already_copied := False\<rparr>"

lemma sample_retry_receive:
  assumes "rlog (raft s) = rlog (raft sample_node)" "tail_log_index (ring s) = 3"
    "current_term (raft s) = 1" "role (raft s) = Follower"
  shows "ae_receive sample_handler_times sample_retry s =
    (Ret (CopyBlocks (AppendEntriesResponse\<lparr>aer_term := 1\<rparr>) 3 0 2),
     upd_ring (\<lambda>g. g\<lparr>tail_slot := 2\<rparr>) (reset_election_timeout s))"
proof -
  let ?s = "reset_election_timeout s"
  have u: "update_term 1 s = (Ret False, s)" using assms by (simp add: update_term_stay)
  have o: "oldest_log_index ?s = 1" by (simp add: oldest_log_index_def log_size_def assms)
  have "prev_log_check sample_retry ?s = Ret None"
    by (simp add: prev_log_check_def sample_retry_def sample_append_def o log_at_def log_slice_def assms)
  with u show ?thesis
    by (simp add: ae_receive_def sample_retry_def sample_append_def ae_follow_def Let_def
        ae_batch_known_def skip_count_def assms) (simp add: upd_ring_def)
qed

theorem overlapping_copies_witness:
  "\<exists>rsp s1 s2 s3 t x1 x2.
     ae_receive sample_handler_times sample_retry sample_follower = (Ret (CopyBlocks rsp 3 0 2), s1) \<and>
     ae_receive sample_handler_times sample_retry s1 = (Ret (CopyBlocks rsp 3 0 2), s2) \<and>
     ae_complete sample_handler_times sample_retry rsp 3 0 (Some (0, 0)) s2 = (x1, s3) \<and>
     ae_complete sample_handler_times sample_retry rsp 3 0 (Some (0, 0)) s3 = (x2, t) \<and>
     map e_term (rlog (raft t)) = [0, 1, 1, 1, 1] \<and> tail_log_index (ring t) = 4 \<and>
     oldest_log_index t = 0 \<and> \<not> wf_log t"
proof -
  define s1 where "s1 = upd_ring (\<lambda>g. g\<lparr>tail_slot := 2\<rparr>) (reset_election_timeout sample_follower)"
  define s2 where "s2 = upd_ring (\<lambda>g. g\<lparr>tail_slot := 2\<rparr>) (reset_election_timeout s1)"
  let ?rsp = "AppendEntriesResponse\<lparr>aer_term := 1\<rparr>"
  have f: "rlog (raft s1) = rlog (raft sample_node)" "tail_log_index (ring s1) = 3"
    "current_term (raft s1) = 1" "role (raft s1) = Follower"
    by (simp_all add: s1_def) (simp_all add: upd_ring_def)
  have r1: "ae_receive sample_handler_times sample_retry sample_follower = (Ret (CopyBlocks ?rsp 3 0 2), s1)"
    unfolding s1_def by (rule sample_retry_receive) simp_all
  have r2: "ae_receive sample_handler_times sample_retry s1 = (Ret (CopyBlocks ?rsp 3 0 2), s2)"
    unfolding s2_def by (rule sample_retry_receive [OF f])
  obtain x1 s3 where e1: "ae_complete sample_handler_times sample_retry ?rsp 3 0 (Some (0, 0)) s2 = (x1, s3)"
    by fastforce
  obtain x2 t where e2: "ae_complete sample_handler_times sample_retry ?rsp 3 0 (Some (0, 0)) s3 = (x2, t)"
    by fastforce
  have m: "\<not> data_already_copied sample_retry" "length (entry_metas sample_retry) = unat (num_entries sample_retry)"
    "entry_metas sample_retry = [\<lparr>meta_term = 1, meta_cmd_len = 5\<rparr>]" "num_entries sample_retry = 1"
    by (simp_all add: sample_retry_def sample_append_def)
  have o: "oldest_log_index sample_follower = 1" by (simp add: oldest_log_index_def log_size_def)
  from overlapping_copies [OF sample_follower_ok(1) r1 m(1) r2 m(2) m(2) e1 e2] m(3,4) o
  have c: "map e_term (rlog (raft t)) = [0, 1, 1, 1, 1]" "tail_log_index (ring t) = 4" "oldest_log_index t = 0"
    by simp_all
  have "length (rlog (raft t)) = 5" using arg_cong [OF c(1), of length] by simp
  with c have "\<not> wf_log t" by (simp add: wf_log_def)
  with r1 r2 e1 e2 c show ?thesis by (intro exI conjI) assumption+
qed


end
