(* ===== verification/NodeMain.thy ===== *)
theory NodeMain
  imports NodeInv Cli StateMachines Clients Storage
begin

text \<open>
  The programs that put the parts together: \<open>apps/raft_node_main.cpp\<close> and
  \<open>apps/raft_blockcopy_server_main.cpp\<close>, up to the point where the threads and the listener run. A
  program ends with an exit code, or runs with what it has assembled. Output to the terminal is left
  out, apart from the state line of \<open>-debug\<close>. Whether RDMA devices exist, the machine's storage and
  what \<open>open\<close> returns for a device are arguments.
\<close>

section \<open>Arguments\<close>

text \<open>
  The programs share the shape of their argument loop: a flag takes the next argument as its value,
  takes it if it can be read and ends the program otherwise, stands alone, asks for help or is unknown.
\<close>

datatype 'a flag = TakesValue "string \<Rightarrow> 'a \<Rightarrow> 'a" | TakesChecked "string \<Rightarrow> 'a \<Rightarrow> 'a option" | Plain "'a \<Rightarrow> 'a" | Help | Unknown

datatype 'a parsed = Exits int | Parsed 'a

function arg_loop :: "(string \<Rightarrow> 'a flag) \<Rightarrow> string list \<Rightarrow> nat \<Rightarrow> 'a \<Rightarrow> 'a parsed" where
  "arg_loop flag argv i a =
     (if i < length argv then
        (case flag (argv ! i) of
           TakesValue f \<Rightarrow>
             (case next_arg_value argv i of
                None \<Rightarrow> Exits 1
              | Some (v, j) \<Rightarrow> arg_loop flag argv (j + 1) (f v a))
         | TakesChecked f \<Rightarrow>
             (case next_arg_value argv i of
                None \<Rightarrow> Exits 1
              | Some (v, j) \<Rightarrow> (case f v a of None \<Rightarrow> Exits 1 | Some a \<Rightarrow> arg_loop flag argv (j + 1) a))
         | Plain f \<Rightarrow> arg_loop flag argv (i + 1) (f a)
         | Help \<Rightarrow> Exits 0
         | Unknown \<Rightarrow> Exits 1)
      else Parsed a)"
  by auto

termination arg_loop
  by (relation "measure (\<lambda>(flag, argv, i, a). length argv - i)")
    (auto simp: next_arg_value_def split: if_splits)

declare arg_loop.simps [simp del]

text \<open>\<open>std::strtoull\<close> in base 10: a value that does not fit gives the largest number, a minus sign negates.\<close>

definition strtoull :: "string \<Rightarrow> u64" where
  "strtoull s =
     (let v = atoi s
      in if \<bar>v\<bar> \<ge> 2 ^ 64 then - 1 else word_of_int v)"

section \<open>The Raft node\<close>

record member_spec =
  ms_id :: u64
  ms_address :: string
  ms_device_path :: string
  ms_storage_host :: string

definition bad_entry :: "string \<Rightarrow> string \<Rightarrow> string" where
  "bad_entry spec why = ''invalid -cluster entry '' @ [CHR 0x27] @ spec @ [CHR 0x27] @ why"

definition parse_member :: "string \<Rightarrow> member_spec outcome" where
  "parse_member spec =
     (let f = split spec (CHR ''@'') False in
      if length f < 4 then Exc (bad_entry spec '' (expected id@raft_addr@device_path@storage_host)'')
      else
        let m = \<lparr>ms_id = strtoull (f ! 0), ms_address = f ! 1, ms_device_path = f ! 2,
                 ms_storage_host = f ! 3\<rparr>
        in if ms_id m = 0 then Exc (bad_entry spec '': id must be > 0'')
           else if CHR '':'' \<notin> set (ms_address m) then Exc (bad_entry spec '': raft_addr must be host:port'')
           else Ret m)"

record node_args =
  my_id :: u64
  cluster_str :: string
  arg_metadata_dir :: string
  arg_heartbeat_ms :: int
  arg_mode :: string
  arg_transport :: string
  arg_statemachine :: string
  ring_pages :: u64
  profile :: bool
  debug :: bool
  arg_loop_sleep_us :: int
  log_trim :: u64
  ae_batch :: u64
  ae_batch_bytes :: u64

definition node_defaults :: node_args where
  "node_defaults = \<lparr>my_id = 0, cluster_str = [], arg_metadata_dir = ''.'', arg_heartbeat_ms = 300,
     arg_mode = ''destination'', arg_transport = ''rdma'', arg_statemachine = ''noop'',
     ring_pages = DEFAULT_NUM_PAGES, profile = False, debug = False, arg_loop_sleep_us = 200,
     log_trim = 8192, ae_batch = 0, ae_batch_bytes = 0\<rparr>"

definition node_flag :: "string \<Rightarrow> node_args flag" where
  "node_flag arg =
     (if arg = ''-id'' then TakesValue (\<lambda>v a. a\<lparr>my_id := strtoull v\<rparr>)
      else if arg = ''-cluster'' then TakesValue (\<lambda>v a. a\<lparr>cluster_str := v\<rparr>)
      else if arg = ''-metadata-dir'' then TakesValue (\<lambda>v a. a\<lparr>arg_metadata_dir := v\<rparr>)
      else if arg = ''-heartbeat-ms'' then TakesValue (\<lambda>v a. a\<lparr>arg_heartbeat_ms := atoi v\<rparr>)
      else if arg = ''-transport'' then TakesValue (\<lambda>v a. a\<lparr>arg_transport := v\<rparr>)
      else if arg = ''-statemachine'' then TakesValue (\<lambda>v a. a\<lparr>arg_statemachine := v\<rparr>)
      else if arg = ''-mode'' then TakesValue (\<lambda>v a. a\<lparr>arg_mode := v\<rparr>)
      else if arg = ''-ring-pages'' then TakesValue (\<lambda>v a. a\<lparr>ring_pages := strtoull v\<rparr>)
      else if arg = ''-profile'' then Plain (\<lambda>a. a\<lparr>profile := True\<rparr>)
      else if arg = ''-debug'' then Plain (\<lambda>a. a\<lparr>debug := True\<rparr>)
      else if arg = ''-loop-sleep-us'' then TakesValue (\<lambda>v a. a\<lparr>arg_loop_sleep_us := atoi v\<rparr>)
      else if arg = ''-log-trim'' then TakesValue (\<lambda>v a. a\<lparr>log_trim := strtoull v\<rparr>)
      else if arg = ''-ae-batch'' then TakesValue (\<lambda>v a. a\<lparr>ae_batch := strtoull v\<rparr>)
      else if arg = ''-ae-batch-bytes'' then TakesValue (\<lambda>v a. a\<lparr>ae_batch_bytes := strtoull v\<rparr>)
      else if arg = ''-h'' \<or> arg = ''--help'' then Help
      else Unknown)"

text \<open>The members in order; empty pieces are skipped, the first bad entry is an exception.\<close>

fun parse_members :: "string list \<Rightarrow> member_spec list outcome" where
  "parse_members [] = Ret []"
| "parse_members (spec # specs) =
     (if spec = [] then parse_members specs
      else obind (parse_member spec) (\<lambda>m. obind (parse_members specs) (\<lambda>ms. Ret (m # ms))))"

text \<open>The loop keeps the last member with the node's id.\<close>

definition find_my_index :: "u64 \<Rightarrow> member_spec list \<Rightarrow> int" where
  "find_my_index me members =
     fold (\<lambda>(i, m) r. if ms_id m = me then int i else r) (enumerate 0 members) (- 1)"

definition state_machine_of :: "string \<Rightarrow> (bytes list \<Rightarrow> bytes \<Rightarrow> apply_result) option" where
  "state_machine_of name =
     (if name = ''noop'' then Some (replies noop_apply 0)
      else if name = ''hash'' then Some (replies hash_apply HashStateMachine)
      else None)"

definition replication_mode_of :: "string \<Rightarrow> replication_mode option" where
  "replication_mode_of name =
     (if name = ''leader'' then Some LeaderSide
      else if name = ''destination'' then Some DestinationSide
      else None)"

definition to_member :: "member_spec \<Rightarrow> cluster_member" where
  "to_member m = (ClusterMember (ms_id m))\<lparr>member_address := ms_address m,
     member_device_path := ms_device_path m, storage_host := ms_storage_host m\<rparr>"

text \<open>The server as it goes into \<open>init_storage\<close>.\<close>

definition assemble ::
  "environment \<Rightarrow> node_args \<Rightarrow> member_spec list \<Rightarrow> int \<Rightarrow> (bytes list \<Rightarrow> bytes \<Rightarrow> apply_result) \<Rightarrow>
   replication_mode \<Rightarrow> server" where
  "assemble ev a members my_index sm mode =
     (let me = members ! nat my_index;
          s = Server_init ev sm;
          s = s\<lparr>ring := configure (ring_pages a) (ring s)\<rparr>;
          s = (if ae_batch a > 0 then s\<lparr>max_ae_batch := ae_batch a\<rparr> else s);
          s = (if ae_batch_bytes a > 0 then s\<lparr>max_ae_batch_bytes := ae_batch_bytes a\<rparr> else s)
      in s\<lparr>raft := (raft s)\<lparr>node_id := my_id a, cluster_index := my_index, address := ms_address me,
               heartbeat_ms := arg_heartbeat_ms a, cluster := map to_member members\<rparr>,
           io := (io s)\<lparr>device_path := ms_device_path me, metadata_dir := arg_metadata_dir a\<rparr>,
           debug_enabled := debug a, loop_sleep_us := arg_loop_sleep_us a,
           ring := (ring s)\<lparr>log_trim_threshold := log_trim a\<rparr>,
           prof := (prof s)\<lparr>prof_enabled := (if profile a then 1 else 0)\<rparr>,
           repl_mode := mode, has_transport := True, has_blockcopy := True\<rparr>)"

record running_node =
  rn_server :: server
  rn_host :: host
  rn_kind :: transport_kind
  rn_peers :: "peer list"
  rn_blockcopy :: bc_client
  rn_listen_host :: string
  rn_port :: int

datatype 'a program_end = ProgramExits int | ProgramRuns 'a | ProgramUndefined

text \<open>The threads and the listener, once the storage is ready.\<close>

definition node_start :: "transport_kind \<Rightarrow> member_spec list \<Rightarrow> int \<Rightarrow> server \<Rightarrow> host \<Rightarrow> running_node" where
  "node_start kind members my_index s h =
     \<lparr>rn_server = start s, rn_host = h, rn_kind = kind,
      rn_peers = RpcRaftTransport (map (\<lambda>m. (ms_id m, ms_address m)) members),
      rn_blockcopy = RpcBlockCopyClient (ms_storage_host (members ! nat my_index)),
      rn_listen_host = hp_host (parse_host_port (address (raft s))),
      rn_port = port_of (address (raft s))\<rparr>"

text \<open>\<open>None\<close>: \<open>init_storage\<close> does not end.\<close>

definition node_main :: "environment \<Rightarrow> bool \<Rightarrow> host \<Rightarrow> string list \<Rightarrow> running_node program_end option" where
  "node_main ev rdma_devices_available h argv =
     (case arg_loop node_flag argv 1 node_defaults of
        Exits c \<Rightarrow> Some (ProgramExits c)
      | Parsed a \<Rightarrow>
          if my_id a = 0 \<or> cluster_str a = [] then Some (ProgramExits 1)
          else case parse_members (split (cluster_str a) (CHR '','') False) of
            Exc e \<Rightarrow> Some (ProgramExits 1)
          | Ub \<Rightarrow> Some ProgramUndefined
          | Ret members \<Rightarrow>
              let my_index = find_my_index (my_id a) members in
              if members = [] \<or> my_index < 0 then Some (ProgramExits 1)
              else case (state_machine_of (arg_statemachine a), replication_mode_of (arg_mode a),
                         parse_transport_kind (arg_transport a)) of
                (Some sm, Some mode, Some kind) \<Rightarrow>
                  if kind = Rdma \<and> \<not> rdma_devices_available then Some (ProgramExits 1)
                  else
                    map_option (\<lambda>r. case r of
                        (Ret _, s, h) \<Rightarrow> ProgramRuns (node_start kind members my_index s h)
                      | (Exc e, s, h) \<Rightarrow> ProgramExits 1
                      | (Ub, s, h) \<Rightarrow> ProgramUndefined)
                      (init_storage h (assemble ev a members my_index sm mode))
              | _ \<Rightarrow> Some (ProgramExits 1))"

text \<open>The end of \<open>main\<close>, after the signal: the listener has been joined.\<close>

definition node_shutdown :: "running_node \<Rightarrow> server" where
  "node_shutdown rn = stop (rn_server rn)"

text \<open>The line \<open>-debug\<close> prints each second.\<close>

definition state_line :: "server \<Rightarrow> string" where
  "state_line s =
     (let n = (\<lambda>w :: u64. to_string (uint w)) in
      ''[state] '' @ to_string_ServerState (role (raft s)) @ '' term='' @ n (current_term (raft s)) @
      '' tail='' @ n (tail_log_index (ring s)) @ '' commit='' @ n (commit_index (raft s)) @
      '' applied='' @ n (last_applied (raft s)) @ '' log_len='' @ to_string (int (length (rlog (raft s)))) @
      concat (map (\<lambda>m. '' | p'' @ n (member_id m) @ '' vf='' @ n (voted_for m) @
        '' next='' @ n (next_index m) @ '' match='' @ n (match_index m)) (cluster (raft s))))"

section \<open>The storage node\<close>

record store_args =
  sa_addr :: string
  sa_transport :: string
  sa_devices :: string
  sa_workers :: int

definition store_defaults :: "nat \<Rightarrow> store_args" where
  "store_defaults hw = \<lparr>sa_addr = ''0.0.0.0:5050'', sa_transport = ''rdma'', sa_devices = ''/dev/nvme0n1'',
     sa_workers = (let w = (if hw = 0 then 4 else int hw) in if w > 16 then 16 else w)\<rparr>"

definition store_flag :: "string \<Rightarrow> store_args flag" where
  "store_flag arg =
     (if arg = ''-addr'' then TakesValue (\<lambda>v a. a\<lparr>sa_addr := v\<rparr>)
      else if arg = ''-transport'' then TakesValue (\<lambda>v a. a\<lparr>sa_transport := v\<rparr>)
      else if arg = ''-devices'' then TakesValue (\<lambda>v a. a\<lparr>sa_devices := v\<rparr>)
      else if arg = ''-copy-workers'' then TakesValue (\<lambda>v a. a\<lparr>sa_workers := atoi v\<rparr>)
      else if arg = ''-h'' \<or> arg = ''--help'' then Help
      else Unknown)"

text \<open>What the program listens with: its server, the transport, host and port.\<close>

record running_store =
  rs_server :: blockcopy_server
  rs_kind :: transport_kind
  rs_host :: string
  rs_port :: int

definition store_main ::
  "nat \<Rightarrow> bool \<Rightarrow> (string \<Rightarrow> int) \<Rightarrow> heap \<Rightarrow> string list \<Rightarrow> running_store program_end" where
  "store_main hw rdma_devices_available open_device hp argv =
     (case arg_loop store_flag argv 1 (store_defaults hw) of
        Exits c \<Rightarrow> ProgramExits c
      | Parsed a \<Rightarrow>
          let devices = split_trimmed (sa_devices a) (CHR '','');
              fds = map open_device devices
          in if devices = [] \<or> \<not> list_all (\<lambda>fd. fd \<ge> 0) fds then ProgramExits 1
             else
               let workers = (if sa_workers a < 1 then 1 else sa_workers a);
                   server = BlockCopyServer fds workers hp
               in case parse_transport_kind (sa_transport a) of
                    None \<Rightarrow> ProgramExits 1
                  | Some kind \<Rightarrow>
                      if kind = Rdma \<and> \<not> rdma_devices_available then ProgramExits 1
                      else
                        let listen_at = parse_host_port (sa_addr a) in
                        if \<not> has_port listen_at then ProgramExits 1
                        else ProgramRuns \<lparr>rs_server = server, rs_kind = kind, rs_host = hp_host listen_at,
                               rs_port = hp_port listen_at\<rparr>)"

section \<open>Parsing a command line\<close>

text \<open>A command line written from settings: a flag alone or a flag with its value.\<close>

definition words_of :: "(string \<times> string option) list \<Rightarrow> string list" where
  "words_of ss = concat (map (\<lambda>(f, v). f # (case v of Some v \<Rightarrow> [v] | None \<Rightarrow> [])) ss)"

definition setting_ok :: "(string \<Rightarrow> 'a flag) \<Rightarrow> string \<times> string option \<Rightarrow> bool" where
  "setting_ok flag = (\<lambda>(f, v). case flag f of TakesValue _ \<Rightarrow> v \<noteq> None | Plain _ \<Rightarrow> v = None | _ \<Rightarrow> False)"

definition apply_setting :: "(string \<Rightarrow> 'a flag) \<Rightarrow> string \<times> string option \<Rightarrow> 'a \<Rightarrow> 'a" where
  "apply_setting flag = (\<lambda>(f, v). case flag f of
     TakesValue g \<Rightarrow> g (the v) | Plain g \<Rightarrow> g | _ \<Rightarrow> (\<lambda>a. a))"

lemma words_of_simps [simp]:
  "words_of [] = []" "words_of ((f, Some v) # ss) = f # v # words_of ss" "words_of ((f, None) # ss) = f # words_of ss"
  by (simp_all add: words_of_def)

lemma arg_loop_words:
  "list_all (setting_ok flag) ss \<Longrightarrow>
   arg_loop flag (pre @ words_of ss @ ws) (length pre) a =
     arg_loop flag (pre @ words_of ss @ ws) (length (pre @ words_of ss)) (fold (apply_setting flag) ss a)"
proof (induction ss arbitrary: pre a)
  case (Cons s ss)
  obtain f v where s: "s = (f, v)" by fastforce
  from Cons.prems s have ok: "setting_ok flag (f, v)" "list_all (setting_ok flag) ss" by simp_all
  show ?case
  proof (cases "flag f")
    case (TakesValue g)
    then obtain x where v: "v = Some x" using ok(1) by (auto simp: setting_ok_def)
    have "arg_loop flag (pre @ words_of (s # ss) @ ws) (length pre) a =
        arg_loop flag ((pre @ [f, x]) @ words_of ss @ ws) (length (pre @ [f, x])) (g x a)"
      using TakesValue v s by (subst arg_loop.simps) (simp add: next_arg_value_def nth_append)
    with Cons.IH [OF ok(2), of "pre @ [f, x]" "g x a"] v s TakesValue show ?thesis
      by (simp add: apply_setting_def)
  next
    case (Plain g)
    then have v: "v = None" using ok(1) by (simp add: setting_ok_def)
    have "arg_loop flag (pre @ words_of (s # ss) @ ws) (length pre) a =
        arg_loop flag ((pre @ [f]) @ words_of ss @ ws) (length (pre @ [f])) (g a)"
      using Plain v s by (subst arg_loop.simps) simp
    with Cons.IH [OF ok(2), of "pre @ [f]" "g a"] v s Plain show ?thesis
      by (simp add: apply_setting_def)
  qed (use ok(1) in \<open>simp_all add: setting_ok_def\<close>)
qed simp

text \<open>
  The argument loop reads a command line setting by setting, the last value of a flag winning; a
  last flag without its value ends the program with code 1, and so does an unknown word.
\<close>

theorem arg_loop_settings:
  assumes "list_all (setting_ok flag) ss"
  shows "arg_loop flag (prog # words_of ss) 1 a = Parsed (fold (apply_setting flag) ss a)"
    "flag f = TakesValue g \<Longrightarrow> arg_loop flag (prog # words_of ss @ [f]) 1 a = Exits 1"
    "flag f = Unknown \<Longrightarrow> arg_loop flag (prog # words_of ss @ f # rest) 1 a = Exits 1"
proof -
  note at = arg_loop_words [OF assms, of "[prog]", simplified]
  show "arg_loop flag (prog # words_of ss) 1 a = Parsed (fold (apply_setting flag) ss a)"
    using at [of "[]" a] by (simp add: arg_loop.simps [of _ _ "Suc (length (words_of ss))"])
  show "flag f = TakesValue g \<Longrightarrow> arg_loop flag (prog # words_of ss @ [f]) 1 a = Exits 1"
    using at [of "[f]" a] by (simp add: arg_loop.simps [of _ _ "Suc (length (words_of ss))"] next_arg_value_def)
  show "flag f = Unknown \<Longrightarrow> arg_loop flag (prog # words_of ss @ f # rest) 1 a = Exits 1"
    using at [of "f # rest" a] by (simp add: arg_loop.simps [of _ _ "Suc (length (words_of ss))"] nth_append)
qed


section \<open>A node that runs is well formed\<close>

lemma parse_member_Ret:
  "parse_member spec = Ret m \<Longrightarrow> ms_id m \<noteq> 0 \<and> CHR '':'' \<in> set (ms_address m)"
  by (auto simp: parse_member_def Let_def split: if_splits)

lemma parse_members_Ret:
  "parse_members specs = Ret ms \<Longrightarrow> list_all (\<lambda>m. ms_id m \<noteq> 0 \<and> CHR '':'' \<in> set (ms_address m)) ms"
  by (induction specs arbitrary: ms)
    (auto simp: obind_eq_Ret parse_member_Ret split: if_splits)

lemma find_my_index_bound:
  "find_my_index me ms < int (length ms) \<and>
   (0 \<le> find_my_index me ms \<longrightarrow> ms_id (ms ! nat (find_my_index me ms)) = me)"
proof (induction ms rule: rev_induct)
  case (snoc m ms)
  have e: "find_my_index me (ms @ [m]) = (if ms_id m = me then int (length ms) else find_my_index me ms)"
    by (simp add: find_my_index_def enumerate_append_eq)
  from snoc show ?case
    unfolding e by (auto simp: nth_append nat_less_iff)
qed (simp add: find_my_index_def)

lemma assemble_fields:
  fixes ev a ms i sm mode
  defines "s \<equiv> assemble ev a ms i sm mode"
  shows "node_id (raft s) = my_id a" "cluster_index (raft s) = i" "cluster (raft s) = map to_member ms"
    "address (raft s) = ms_address (ms ! nat i)" "device_path (io s) = ms_device_path (ms ! nat i)"
    "num_pages (ring s) = max 2 (ring_pages a)" "has_transport s" "has_blockcopy s" "sm_reply s = sm"
    "repl_mode s = mode"
  by (auto simp: s_def assemble_def Let_def configure_def max_def Server_init_def)

lemma init_storage_identity:
  assumes "init_storage h s = Some (Ret u, t, h')"
  shows "node_id (raft t) = node_id (raft s)" "cluster_index (raft t) = cluster_index (raft s)"
    "map member_id (cluster (raft t)) = map member_id (cluster (raft s))"
    "address (raft t) = address (raft s)"
proof -
  from assms obtain c c' r where r: "read_header (fresh_log (s\<lparr>io := (io s)\<lparr>cached_fd := Some c'\<rparr>\<rparr>)) = (Ret (), r)"
    and t: "t = fresh_indices r" by (rule init_storage_Ret)
  let ?f = "fresh_log (s\<lparr>io := (io s)\<lparr>cached_fd := Some c'\<rparr>\<rparr>)"
  have w: "wf_cluster (raft ?f)" using read_header_not_wf [of ?f] r by auto
  obtain tm v where h: "header_state c' = (tm, v)" by fastforce
  have "cached_fd (io ?f) = Some c'" by (simp add: fresh_log_fields)
  from read_header_wf [OF w this h] r have q: "raft r = (raft ?f)\<lparr>current_term := tm, cluster := (cluster (raft ?f))
      [nat (cluster_index (raft ?f)) := (cluster (raft ?f) ! nat (cluster_index (raft ?f)))\<lparr>voted_for := v\<rparr>]\<rparr>" by auto
  have f: "node_id (raft ?f) = node_id (raft s)" "address (raft ?f) = address (raft s)"
    by (simp_all add: fresh_log_def make_entry_def upd_ring_def upd_raft_def)
  have g: "node_id (raft t) = node_id (raft r)" "address (raft t) = address (raft r)"
    by (simp_all add: t fresh_indices_def reset_election_timeout_def upd_raft_def upd_ring_def now_def
        uniform_int_def Let_def)
  show "node_id (raft t) = node_id (raft s)" "address (raft t) = address (raft s)"
    using f g by (simp_all add: q)
  show "cluster_index (raft t) = cluster_index (raft s)"
    by (simp add: t fresh_indices_fields q fresh_log_fields)
  have "map member_id (xs[i := (xs ! i)\<lparr>voted_for := v\<rparr>]) = map member_id xs" for xs i
    by (cases "i < length xs") (simp_all add: map_update list_update_same_conv list_update_beyond not_less)
  then show "map member_id (cluster (raft t)) = map member_id (cluster (raft s))"
    by (simp add: t fresh_indices_fields q fresh_log_fields)
qed

text \<open>Starting the threads leaves the Raft state alone.\<close>

lemma start_fields [simp]: "raft (start s) = raft s" "ring (start s) = ring s" "started (workers (start s))"
  by (simp_all add: start_def)

lemma node_main_Runs:
  assumes "node_main ev rdma_ok h argv = Some (ProgramRuns rn)"
  obtains a members sm mode u s h' where
    "parse_members (split (cluster_str a) (CHR '','') False) = Ret members" "my_id a \<noteq> 0"
    "0 \<le> find_my_index (my_id a) members" "rn_kind rn = Rdma \<longrightarrow> rdma_ok"
    "state_machine_of (arg_statemachine a) = Some sm"
    "init_storage h (assemble ev a members (find_my_index (my_id a) members) sm mode) = Some (Ret u, s, h')"
    "rn_server rn = start s" "rn_peers rn = RpcRaftTransport (map (\<lambda>m. (ms_id m, ms_address m)) members)"
    "rn_port rn = port_of (address (raft s))"
  using assms unfolding node_main_def node_start_def Let_def
  by (auto split: parsed.splits if_splits outcome.splits option.splits prod.splits simp: not_less)
    (metis (full_types) old.unit.exhaust outcome.exhaust)+

text \<open>
  C14. A node that gets past its command line and its storage is well formed: its own entry of the
  member list carries its id, every member has an id other than 0 and an address with a port, the
  transport has one peer per member in the same order, it is a follower with its three threads
  started, RDMA is used only where there is a device, and its log state satisfies the invariant,
  now and along every serial run of its threads.
\<close>

theorem node_main_well_formed:
  assumes run: "node_main ev rdma_ok h argv = Some (ProgramRuns rn)"
    and small: "length (rn_peers rn) < 18446744073709551616"
    and steps: "serial_step\<^sup>*\<^sup>* (rn_server rn) t"
  defines "r \<equiv> raft (rn_server rn)"
  shows "0 \<le> cluster_index r \<and> cluster_index r < int (length (cluster r)) \<and> node_id r \<noteq> 0 \<and>
    member_id (cluster r ! nat (cluster_index r)) = node_id r \<and>
    map member_id (cluster r) = map peer_id (rn_peers rn) \<and>
    list_all (\<lambda>p. peer_id p \<noteq> 0 \<and> CHR '':'' \<in> set (peer_addr p) \<and> peer_conn p = None) (rn_peers rn) \<and>
    role r = Follower \<and> started (workers (rn_server rn)) \<and> (rn_kind rn = Rdma \<longrightarrow> rdma_ok) \<and>
    log_state_ok (rn_server rn) \<and> log_state_ok t"
proof -
  from run obtain a members sm mode u s h' where
    m: "parse_members (split (cluster_str a) (CHR '','') False) = Ret members" "my_id a \<noteq> 0"
    and i: "0 \<le> find_my_index (my_id a) members" and k: "rn_kind rn = Rdma \<longrightarrow> rdma_ok"
    and s: "init_storage h (assemble ev a members (find_my_index (my_id a) members) sm mode) = Some (Ret u, s, h')"
    "rn_server rn = start s" "rn_peers rn = RpcRaftTransport (map (\<lambda>m. (ms_id m, ms_address m)) members)"
    by (rule node_main_Runs)
  let ?i = "find_my_index (my_id a) members"
  note id = init_storage_identity [OF s(1), unfolded assemble_fields]
  have len: "length (cluster (raft s)) = length members"
    using arg_cong [OF id(3), of length] by simp
  have mi: "map member_id (cluster (raft s)) = map ms_id members"
    using id(3) by (simp add: to_member_def ClusterMember_def comp_def)
  have ok: "log_state_ok s"
    using startup_ok [OF s(1)] small by (simp add: assemble_fields s(3) RpcRaftTransport_def)
  then have st: "log_state_ok (rn_server rn)" by (simp add: s(2) log_state_ok_iff)
  have "member_id (cluster (raft s) ! nat ?i) = ms_id (members ! nat ?i)"
    using arg_cong [OF mi, of "\<lambda>xs. xs ! nat ?i"] find_my_index_bound [of "my_id a" members] i len
    by (simp add: nat_less_iff)
  then have me: "member_id (cluster (raft s) ! nat ?i) = my_id a" "?i < int (length members)"
    using find_my_index_bound [of "my_id a" members] i by simp_all
  have ps: "map peer_id (rn_peers rn) = map ms_id members"
    "list_all (\<lambda>p. peer_id p \<noteq> 0 \<and> CHR '':'' \<in> set (peer_addr p) \<and> peer_conn p = None) (rn_peers rn)"
    using parse_members_Ret [OF m(1)]
    by (simp_all add: s(3) RpcRaftTransport_def comp_def list_all_iff split_beta)
  have "role (raft s) = Follower" using init_storage_indices [OF s(1)] by blast
  moreover have "log_state_ok t" using log_run.run [OF steps st] by blast
  ultimately show ?thesis
    using i k m(2) id len mi me ps st by (simp add: r_def s(2))
qed


definition sample_line :: "string list" where
  "sample_line = ''raft_node'' # words_of [(''-id'', Some ''2''),
     (''-cluster'', Some ''1@10.0.0.1:6001@/dev/a@10.0.0.9,2@10.0.0.2:6002@/dev/b@10.0.0.9''),
     (''-transport'', Some ''tcp''), (''-ring-pages'', Some ''16''), (''-debug'', None)]"

definition sample_members :: "member_spec list" where
  "sample_members = [\<lparr>ms_id = 1, ms_address = ''10.0.0.1:6001'', ms_device_path = ''/dev/a'', ms_storage_host = ''10.0.0.9''\<rparr>,
     \<lparr>ms_id = 2, ms_address = ''10.0.0.2:6002'', ms_device_path = ''/dev/b'', ms_storage_host = ''10.0.0.9''\<rparr>]"

lemma sample_line_parsed:
  "arg_loop node_flag sample_line 1 node_defaults = Parsed (node_defaults\<lparr>my_id := 2,
     cluster_str := ''1@10.0.0.1:6001@/dev/a@10.0.0.9,2@10.0.0.2:6002@/dev/b@10.0.0.9'',
     arg_transport := ''tcp'', ring_pages := 16, debug := True\<rparr>)"
  by code_simp

lemma sample_members_parsed:
  "parse_members (split ''1@10.0.0.1:6001@/dev/a@10.0.0.9,2@10.0.0.2:6002@/dev/b@10.0.0.9'' (CHR '','') False) =
     Ret sample_members" "find_my_index 2 sample_members = 1"
  by code_simp+

lemma sample_node_runs:
  "\<exists>rn. node_main sample_env False sample_host sample_line = Some (ProgramRuns rn) \<and>
     length (rn_peers rn) = 2 \<and> rn_port rn = 6002"
proof -
  define a where "a = node_defaults\<lparr>my_id := 2,
     cluster_str := ''1@10.0.0.1:6001@/dev/a@10.0.0.9,2@10.0.0.2:6002@/dev/b@10.0.0.9'',
     arg_transport := ''tcp'', ring_pages := 16, debug := True\<rparr>"
  have af: "my_id a = 2" "cluster_str a \<noteq> []" "arg_transport a = ''tcp''" "ring_pages a = 16"
    "arg_statemachine a = ''noop''" "arg_mode a = ''destination''"
    "parse_members (split (cluster_str a) (CHR '','') False) = Ret sample_members"
    using sample_members_parsed(1) by (simp_all add: a_def node_defaults_def)
  let ?s = "assemble sample_env a sample_members 1 (replies noop_apply 0) DestinationSide"
  have n: "file_size_bytes (ring ?s) = 65536"
    by (simp add: file_size_bytes_def assemble_fields af size_defs)
  have "device_path (io ?s) \<noteq> []" "wf_cluster (raft ?s)"
    by (simp_all add: assemble_fields wf_cluster_def sample_members_def)
  then obtain t h' where i: "init_storage sample_host ?s = Some (Ret (), t, h')"
    using init_storage_ok [OF sample_host_ready(1), of ?s "[sample_extent]"] sample_tiles sample_reports
      sample_ring_extents n by auto
  have "address (raft t) = ''10.0.0.2:6002''"
    using init_storage_identity(4) [OF i] by (simp add: assemble_fields sample_members_def)
  moreover have "port_of ''10.0.0.2:6002'' = 6002" by code_simp
  moreover have "sample_members \<noteq> []" "length sample_members = 2" by (simp_all add: sample_members_def)
  ultimately show ?thesis
    using i af sample_line_parsed sample_members_parsed(2)
    by (simp add: node_main_def node_start_def Let_def state_machine_of_def replication_mode_of_def parse_transport_kind_def
        RpcRaftTransport_def flip: a_def)
qed

theorem node_main_well_formed_witness:
  "\<exists>rn. node_main sample_env False sample_host sample_line = Some (ProgramRuns rn) \<and> rn_kind rn = Tcp \<and>
     member_id (cluster (raft (rn_server rn)) ! nat (cluster_index (raft (rn_server rn)))) =
       node_id (raft (rn_server rn)) \<and>
     log_state_ok (snd (handle_request_vote_request sample_vote (rn_server rn)))"
proof -
  obtain rn where rn: "node_main sample_env False sample_host sample_line = Some (ProgramRuns rn)"
    "length (rn_peers rn) = 2" using sample_node_runs by blast
  have "serial_step\<^sup>*\<^sup>* (rn_server rn) (snd (handle_request_vote_request sample_vote (rn_server rn)))"
    by (intro r_into_rtranclp sr_vote_request)
  from node_main_well_formed [OF rn(1) _ this] rn show ?thesis by (cases "rn_kind rn") auto
qed


section \<open>A storage node that runs has its devices open\<close>

text \<open>
  A storage node that gets past its command line has at least one device and one worker, and the
  index of a cluster member leads to the descriptor of the device at that place of the list.
\<close>

theorem store_main_devices:
  assumes "store_main hw rdma_ok open_device hp argv = ProgramRuns rs"
  shows "(\<exists>devices. devices \<noteq> [] \<and> fds (rs_server rs) = map open_device devices) \<and>
    1 \<le> copy_workers (rs_server rs) \<and> (rs_kind rs = Rdma \<longrightarrow> rdma_ok) \<and>
    (\<forall>i < length (fds (rs_server rs)). get_fd (int i) (rs_server rs) = Some (fds (rs_server rs) ! i) \<and>
       0 \<le> fds (rs_server rs) ! i)"
proof -
  obtain a where a: "arg_loop store_flag argv 1 (store_defaults hw) = Parsed a"
    using assms by (auto simp: store_main_def split: parsed.splits)
  let ?d = "split_trimmed (sa_devices a) (CHR '','')"
  have d: "?d \<noteq> []" "list_all (\<lambda>fd. fd \<ge> 0) (map open_device ?d)"
    and s: "rs_server rs = BlockCopyServer (map open_device ?d) (if sa_workers a < 1 then 1 else sa_workers a) hp"
      "rs_kind rs = Rdma \<longrightarrow> rdma_ok"
    using assms a by (auto simp: store_main_def Let_def split: if_splits option.splits)
  have "1 \<le> copy_workers (rs_server rs)" "fds (rs_server rs) = map open_device ?d"
    by (simp_all add: s BlockCopyServer_def)
  with d s(2) show ?thesis by (auto simp: get_fd_def list_all_iff)
qed

theorem store_main_devices_witness:
  "\<exists>rs. store_main 64 False (\<lambda>d. if d = ''/dev/a'' then 3 else 4) sample_heap
     [''server'', ''-devices'', ''/dev/a, /dev/b'', ''-transport'', ''tcp''] = ProgramRuns rs \<and>
     get_fd 1 (rs_server rs) = Some 4 \<and> copy_workers (rs_server rs) = 16 \<and> rs_port rs = 5050"
proof -
  let ?open = "\<lambda>d. if d = ''/dev/a'' then 3 else 4 :: int"
  let ?argv = "[''server'', ''-devices'', ''/dev/a, /dev/b'', ''-transport'', ''tcp'']"
  have p: "arg_loop store_flag ?argv 1 (store_defaults 64) =
      Parsed \<lparr>sa_addr = ''0.0.0.0:5050'', sa_transport = ''tcp'', sa_devices = ''/dev/a, /dev/b'', sa_workers = 16\<rparr>"
    "split_trimmed ''/dev/a, /dev/b'' (CHR '','') = [''/dev/a'', ''/dev/b'']"
    "parse_host_port ''0.0.0.0:5050'' = \<lparr>hp_host = ''0.0.0.0'', hp_port = 5050, has_port = True\<rparr>"
    "parse_transport_kind ''tcp'' = Some Tcp"
    by code_simp+
  then obtain rs where rs: "store_main 64 False ?open sample_heap ?argv = ProgramRuns rs"
    "fds (rs_server rs) = [3, 4]" "copy_workers (rs_server rs) = 16" "rs_port rs = 5050"
    by (simp add: store_main_def Let_def BlockCopyServer_def)
  from store_main_devices [OF rs(1)] rs(2) have "get_fd (int 1) (rs_server rs) = Some 4"
    by (auto simp del: of_nat_1)
  with rs show ?thesis by (intro exI [of _ rs]) simp
qed


end
