(* ===== verification/ClientMain.thy ===== *)
theory ClientMain
  imports NodeMain
begin

text \<open>
  \<open>apps/raft_client_main.cpp\<close>: finding the leader, applying commands in batches, asking every node.
  A remote call is what it comes back with: it throws, or it returns the parsed protobuf message. The
  search and the apply loop have no bound of their own and take the answers as a list; \<open>None\<close> is a
  loop that has used up the list and goes on. Averages in floating point are left out.
\<close>

section \<open>Arguments\<close>

record client_args =
  ca_addrs :: string
  ca_op :: string
  ca_n :: int
  ca_size :: int
  ca_batch :: int
  ca_at_count :: u64
  ca_timeout_s :: int
  ca_transport :: string

definition client_defaults :: client_args where
  "client_defaults = \<lparr>ca_addrs = [], ca_op = ''apply'', ca_n = 10, ca_size = 512, ca_batch = 1,
     ca_at_count = 0, ca_timeout_s = 15, ca_transport = ''rdma''\<rparr>"

definition client_flag :: "string \<Rightarrow> client_args flag" where
  "client_flag arg =
     (if arg = ''-addrs'' then TakesValue (\<lambda>v a. a\<lparr>ca_addrs := v\<rparr>)
      else if arg = ''-op'' then TakesValue (\<lambda>v a. a\<lparr>ca_op := v\<rparr>)
      else if arg = ''-n'' then TakesValue (\<lambda>v a. a\<lparr>ca_n := atoi v\<rparr>)
      else if arg = ''-size'' then TakesValue (\<lambda>v a. a\<lparr>ca_size := atoi v\<rparr>)
      else if arg = ''-batch'' then TakesValue (\<lambda>v a. a\<lparr>ca_batch := atoi v\<rparr>)
      else if arg = ''-at-count'' then TakesValue (\<lambda>v a. a\<lparr>ca_at_count := strtoull v\<rparr>)
      else if arg = ''-timeout-s'' then TakesValue (\<lambda>v a. a\<lparr>ca_timeout_s := atoi v\<rparr>)
      else if arg = ''-transport'' then TakesValue (\<lambda>v a. a\<lparr>ca_transport := v\<rparr>)
      else if arg = ''-h'' \<or> arg = ''--help'' then Help
      else Unknown)"

text \<open>The settings after the checks, or the exit code; a batch below 1 becomes 1.\<close>

definition client_setup :: "bool \<Rightarrow> string list \<Rightarrow> (client_args \<times> string list \<times> transport_kind) parsed" where
  "client_setup rdma_devices_available argv =
     (case arg_loop client_flag argv 1 client_defaults of
        Exits c \<Rightarrow> Exits c
      | Parsed a \<Rightarrow>
          let addrs = split (ca_addrs a) (CHR '','') True in
          if addrs = [] then Exits 1
          else
            let a = (if ca_batch a < 1 then a\<lparr>ca_batch := 1\<rparr> else a) in
            case parse_transport_kind (ca_transport a) of
              None \<Rightarrow> Exits 1
            | Some kind \<Rightarrow>
                if kind = Rdma \<and> \<not> rdma_devices_available then Exits 1 else Parsed (a, addrs, kind))"

section \<open>Finding the leader\<close>

text \<open>A call: the dial throws, the call throws, or an answer.\<close>

datatype 'r call_result = DialThrows string | CallThrows string | Answers 'r

record leader =
  lead_index :: nat
  probe_commands :: u64

text \<open>One pass over the addresses: the first node that applied the probe command, or is busy.\<close>

fun probe_round :: "nat \<Rightarrow> pb_client_apply_response call_result list \<Rightarrow> u64 \<Rightarrow> leader option" where
  "probe_round i [] probes = None"
| "probe_round i (r # rs) probes =
     (case r of
        DialThrows e \<Rightarrow> probe_round (i + 1) rs probes
      | CallThrows e \<Rightarrow> probe_round (i + 1) rs probes
      | Answers rsp \<Rightarrow>
          if pcr_err rsp = [] \<and> \<not> pcr_busy rsp then Some \<lparr>lead_index = i, probe_commands = probes + 1\<rparr>
          else if pcr_busy rsp then Some \<lparr>lead_index = i, probe_commands = probes\<rparr>
          else probe_round (i + 1) rs probes)"

text \<open>A round of the search reads the clock, then calls the nodes.\<close>

fun find_leader :: "int \<Rightarrow> (int \<times> pb_client_apply_response call_result list) list \<Rightarrow> leader outcome option" where
  "find_leader deadline [] = None"
| "find_leader deadline ((t, rs) # rounds) =
     (if t < deadline then
        (case probe_round 0 rs 0 of
           Some l \<Rightarrow> Some (Ret l)
         | None \<Rightarrow> find_leader deadline rounds)
      else Some (Exc ''no leader found within timeout''))"

section \<open>Applying commands\<close>

text \<open>What the loop reads of an answer: both operations have the first three, \<open>apply-timed\<close> the terms.\<close>

record apply_answer =
  ans_err :: string
  ans_busy :: bool
  ans_retry_after_ms :: int
  ans_terms :: "int list"

definition plain_answer :: "pb_client_apply_response \<Rightarrow> apply_answer" where
  "plain_answer rsp = \<lparr>ans_err = pcr_err rsp, ans_busy = pcr_busy rsp,
     ans_retry_after_ms = pcr_retry_after_ms rsp, ans_terms = []\<rparr>"

text \<open>The terms in the order of \<open>kTimedTerms\<close>; the last is what the seven terms of the identity leave.\<close>

definition timed_answer :: "pb_client_apply_timed_response \<Rightarrow> apply_answer" where
  "timed_answer rsp =
     (let sum7 = ptr_l_handler_nanos rsp + ptr_l_persist_nanos rsp + ptr_ae_net_nanos rsp +
            ptr_f_handler_nanos rsp + ptr_repl_net_nanos rsp + ptr_replication_nanos rsp +
            ptr_quorum_wait_nanos rsp
      in \<lparr>ans_err = ptr_err rsp, ans_busy = ptr_busy rsp, ans_retry_after_ms = ptr_retry_after_ms rsp,
          ans_terms = [ptr_total_nanos rsp, ptr_l_handler_nanos rsp, ptr_l_persist_nanos rsp,
            ptr_ae_net_nanos rsp, ptr_f_handler_nanos rsp, ptr_repl_net_nanos rsp,
            ptr_replication_nanos rsp, ptr_quorum_wait_nanos rsp, ptr_mutex_nanos rsp,
            ptr_commit_wait_nanos rsp, ptr_total_nanos rsp - sum7]\<rparr>)"

text \<open>\<open>sent\<close> lists the commands of the requests that were accepted, \<open>slept\<close> the pauses after busy answers.\<close>

record apply_run =
  run_remaining :: int
  run_applied :: u64
  busy_retries :: u64
  run_samples :: "int list list"
  run_sent :: "string list list"
  run_slept :: "int list"

fun client_apply_loop ::
  "string \<Rightarrow> int \<Rightarrow> string \<Rightarrow> apply_answer call_result list \<Rightarrow> apply_run \<Rightarrow> apply_run outcome option" where
  "client_apply_loop op batch payload answers st =
     (if run_remaining st > 0 then
        let this_batch = (if run_remaining st < batch then run_remaining st else batch) in
        case answers of
          [] \<Rightarrow> None
        | DialThrows e # _ \<Rightarrow> Some (Exc e)
        | CallThrows e # _ \<Rightarrow> Some (Exc e)
        | Answers a # answers \<Rightarrow>
            if ans_busy a then
              client_apply_loop op batch payload answers (st\<lparr>busy_retries := busy_retries st + 1,
                run_slept := run_slept st @ [if ans_retry_after_ms a > 0 then ans_retry_after_ms a else 5]\<rparr>)
            else if ans_err a \<noteq> [] then
              Some (Exc ((if op = ''apply-timed'' then ''apply-timed: '' else ''apply: '') @ ans_err a))
            else
              client_apply_loop op batch payload answers (st\<lparr>
                run_samples := (if op = ''apply-timed'' then run_samples st @ [ans_terms a] else run_samples st),
                run_sent := run_sent st @ [replicate (nat this_batch) payload],
                run_applied := run_applied st + word_of_int this_batch,
                run_remaining := run_remaining st - this_batch\<rparr>)
      else Some (Ret st))"

declare client_apply_loop.simps [simp del]

definition apply_start :: "int \<Rightarrow> leader \<Rightarrow> apply_run" where
  "apply_start n l = \<lparr>run_remaining = n, run_applied = probe_commands l, busy_retries = 0,
     run_samples = [], run_sent = [], run_slept = []\<rparr>"

section \<open>Asking every node\<close>

text \<open>\<open>%-22s\<close>\<close>

definition pad22 :: "string \<Rightarrow> string" where
  "pad22 s = s @ replicate (22 - length s) (CHR '' '')"

definition commit_index_text :: "pb_client_get_commit_index_response \<Rightarrow> string" where
  "commit_index_text rsp = ''commit_index='' @ to_string (uint (pir_commit_index rsp))"

definition hash_text :: "pb_client_get_hash_response \<Rightarrow> string" where
  "hash_text rsp = ''hash='' @ phr_hash rsp @ '' count='' @ to_string (uint (phr_count rsp)) @
     (if phr_err rsp = [] then [] else ''  err='') @ phr_err rsp"

definition ae_stats_text :: "pb_client_get_ae_batch_stats_response \<Rightarrow> string" where
  "ae_stats_text rsp = ''ae_count='' @ to_string (uint (psr_ae_count rsp)) @
     '' ae_entries='' @ to_string (uint (psr_ae_entries rsp))"

text \<open>
  The lines printed, and the exit code. A node that cannot be dialled gets a line; a call that throws
  ends the program.
\<close>

fun query_nodes :: "('r \<Rightarrow> string) \<Rightarrow> (string \<times> 'r call_result) list \<Rightarrow> string list \<times> int" where
  "query_nodes text [] = ([], 0)"
| "query_nodes text ((addr, r) # rest) =
     (case r of
        DialThrows e \<Rightarrow>
          (case query_nodes text rest of (ls, c) \<Rightarrow> ((pad22 addr @ '' unreachable ('' @ e @ '')'') # ls, c))
      | CallThrows e \<Rightarrow> ([], 1)
      | Answers rsp \<Rightarrow>
          (case query_nodes text rest of (ls, c) \<Rightarrow> ((pad22 addr @ '' '' @ text rsp) # ls, c)))"

section \<open>The program\<close>

text \<open>\<open>std::string(size, c)\<close>: a negative size is a huge one and the constructor throws.\<close>

definition payload_of :: "int \<Rightarrow> char \<Rightarrow> string outcome" where
  "payload_of sz c = (if sz < 0 then Exc ''length_error'' else Ret (replicate (nat sz) c))"

fun echo_calls :: "nat \<Rightarrow> 'r call_result list \<Rightarrow> unit outcome option" where
  "echo_calls 0 rs = Some (Ret ())"
| "echo_calls (Suc k) [] = None"
| "echo_calls (Suc k) (r # rs) =
     (case r of Answers _ \<Rightarrow> echo_calls k rs | DialThrows e \<Rightarrow> Some (Exc e) | CallThrows e \<Rightarrow> Some (Exc e))"

text \<open>
  The nodes as the program sees them: the answer of the node at each place of the address list, the
  clock and the answers in each round of the search, and the leader's answers to the batches.
\<close>

record client_world =
  w_commit :: "nat \<Rightarrow> pb_client_get_commit_index_response call_result"
  w_hash :: "u64 \<Rightarrow> nat \<Rightarrow> pb_client_get_hash_response call_result"
  w_stats :: "nat \<Rightarrow> pb_client_get_ae_batch_stats_response call_result"
  w_echo_dial :: "unit outcome"
  w_echo :: "pb_client_echo_response call_result list"
  w_now :: int
  w_rounds :: "(int \<times> (nat \<Rightarrow> pb_client_apply_response call_result)) list"
  w_apply :: "pb_client_apply_response call_result list"
  w_timed :: "pb_client_apply_timed_response call_result list"

text \<open>The exit code with the lines of a query, or the leader and the run of a successful apply.\<close>

datatype client_end = ClientExits int "string list" | ClientApplied leader apply_run

definition ask_all :: "('r \<Rightarrow> string) \<Rightarrow> (nat \<Rightarrow> 'r call_result) \<Rightarrow> string list \<Rightarrow> client_end" where
  "ask_all text answer_at nodes =
     (case query_nodes text (map (\<lambda>(i, addr). (addr, answer_at i)) (enumerate 0 nodes)) of
        (ls, c) \<Rightarrow> ClientExits c ls)"

definition search_rounds :: "client_world \<Rightarrow> string list \<Rightarrow> (int \<times> pb_client_apply_response call_result list) list" where
  "search_rounds w nodes = map (\<lambda>(t, f). (t, map f [0..<length nodes])) (w_rounds w)"

definition apply_answers :: "client_world \<Rightarrow> string \<Rightarrow> apply_answer call_result list" where
  "apply_answers w op =
     (if op = ''apply-timed'' then map (map_call_result timed_answer) (w_timed w)
      else map (map_call_result plain_answer) (w_apply w))"

definition client_echo :: "client_world \<Rightarrow> client_args \<Rightarrow> client_end option" where
  "client_echo w a =
     (case obind (w_echo_dial w) (\<lambda>_. payload_of (ca_size a) (CHR ''e'')) of
        Ret payload \<Rightarrow>
          map_option (\<lambda>r. ClientExits (case r of Ret _ \<Rightarrow> 0 | _ \<Rightarrow> 1) []) (echo_calls (nat (ca_n a)) (w_echo w))
      | _ \<Rightarrow> Some (ClientExits 1 []))"

definition client_apply :: "client_world \<Rightarrow> client_args \<Rightarrow> string list \<Rightarrow> client_end option" where
  "client_apply w a nodes =
     (case find_leader (w_now w + 1000000000 * ca_timeout_s a) (search_rounds w nodes) of
        None \<Rightarrow> None
      | Some (Ret l) \<Rightarrow>
          (case payload_of (ca_size a) (CHR ''x'') of
             Ret payload \<Rightarrow>
               map_option (\<lambda>r. case r of Ret st \<Rightarrow> ClientApplied l st | _ \<Rightarrow> ClientExits 1 [])
                 (client_apply_loop (ca_op a) (ca_batch a) payload (apply_answers w (ca_op a)) (apply_start (ca_n a) l))
           | _ \<Rightarrow> Some (ClientExits 1 []))
      | Some _ \<Rightarrow> Some (ClientExits 1 []))"

definition client_main :: "bool \<Rightarrow> client_world \<Rightarrow> string list \<Rightarrow> client_end option" where
  "client_main rdma_devices_available w argv =
     (case client_setup rdma_devices_available argv of
        Exits c \<Rightarrow> Some (ClientExits c [])
      | Parsed (a, nodes, kind) \<Rightarrow>
          if ca_op a = ''commit-index'' then Some (ask_all commit_index_text (w_commit w) nodes)
          else if ca_op a = ''hash'' then Some (ask_all hash_text (w_hash w (ca_at_count a)) nodes)
          else if ca_op a = ''ae-stats'' then Some (ask_all ae_stats_text (w_stats w) nodes)
          else if ca_op a = ''echo'' then client_echo w a
          else client_apply w a nodes)"

section \<open>Every command is sent once\<close>

lemma client_apply_loop_run:
  "client_apply_loop op batch payload answers st = Some (Ret st') \<Longrightarrow> 1 \<le> batch \<Longrightarrow>
   \<exists>new. run_sent st' = run_sent st @ new \<and> concat new = replicate (nat (run_remaining st)) payload \<and>
      list_all (\<lambda>req. 1 \<le> length req \<and> int (length req) \<le> batch) new \<and>
      run_applied st' = run_applied st + word_of_int (max 0 (run_remaining st)) \<and>
      length (run_samples st') = length (run_samples st) + (if op = ''apply-timed'' then length new else 0)"
proof (induction op batch payload answers st rule: client_apply_loop.induct)
  case (1 op batch payload answers st)
  note run = 1(3) [unfolded client_apply_loop.simps [of op batch payload answers st] Let_def]
  show ?case
  proof (cases "run_remaining st > 0")
    case more: True
    let ?b = "if run_remaining st < batch then run_remaining st else batch"
    from run more obtain a rest where ans: "answers = Answers a # rest"
      by (auto split: list.splits call_result.splits)
    show ?thesis
    proof (cases "ans_busy a")
      case True
      from 1(1) [OF more refl ans refl True] run 1(4) more ans True show ?thesis by simp
    next
      case False
      with run more ans have e: "ans_err a = []" by (auto split: if_splits)
      let ?s = "st\<lparr>run_samples := (if op = ''apply-timed'' then run_samples st @ [ans_terms a] else run_samples st),
        run_sent := run_sent st @ [replicate (nat ?b) payload], run_applied := run_applied st + word_of_int ?b,
        run_remaining := run_remaining st - ?b\<rparr>"
      have rest: "client_apply_loop op batch payload rest ?s = Some (Ret st')" "0 \<le> run_remaining ?s"
        using run more ans False e by simp_all
      have "\<not> ans_err a \<noteq> []" using e by simp
      from 1(2) [OF more refl ans refl False this rest(1) 1(4)] obtain new where
        n: "run_sent st' = (run_sent st @ [replicate (nat ?b) payload]) @ new"
          "concat new = replicate (nat (run_remaining st - ?b)) payload"
          "list_all (\<lambda>req. 1 \<le> length req \<and> int (length req) \<le> batch) new"
          "run_applied st' = run_applied ?s + word_of_int (run_remaining st - ?b)"
          "length (run_samples st') = length (run_samples ?s) + (if op = ''apply-timed'' then length new else 0)"
        using rest(2) by auto
      have w: "word_of_int ?b + word_of_int (run_remaining st - ?b) = (word_of_int (run_remaining st) :: u64)"
        by (simp flip: of_int_add)
      have "nat ?b + nat (run_remaining st - ?b) = nat (run_remaining st)" "1 \<le> ?b" "?b \<le> batch"
        using more 1(4) by auto
      then have "concat (replicate (nat ?b) payload # new) = replicate (nat (run_remaining st)) payload"
        "1 \<le> nat ?b" "int (nat ?b) \<le> batch"
        by (simp_all add: n(2) flip: replicate_add)
      with n w more show ?thesis
        by (intro exI [of _ "replicate (nat ?b) payload # new"]) (simp add: add.assoc max_def)
    qed
  next
    case False
    with run show ?thesis by auto
  qed
qed

text \<open>Enough accepted answers, and no failures, and the loop ends.\<close>

fun accepts :: "apply_answer call_result \<Rightarrow> bool" where
  "accepts (Answers a) = (\<not> ans_busy a)"
| "accepts _ = False"

fun no_failure :: "apply_answer call_result \<Rightarrow> bool" where
  "no_failure (Answers a) = (ans_busy a \<or> ans_err a = [])"
| "no_failure _ = False"

lemma client_apply_loop_ends:
  "list_all no_failure answers \<Longrightarrow> 1 \<le> batch \<Longrightarrow>
   nat (run_remaining st) \<le> length (filter accepts answers) \<Longrightarrow>
   \<exists>st'. client_apply_loop op batch payload answers st = Some (Ret st')"
proof (induction answers arbitrary: st)
  case Nil
  then show ?case by (subst client_apply_loop.simps) auto
next
  case (Cons r answers)
  show ?case
  proof (cases "run_remaining st > 0")
    case more: True
    from Cons.prems(1) obtain a where r: "r = Answers a" "ans_busy a \<or> ans_err a = []"
      by (cases r) auto
    have tl: "list_all no_failure answers" using Cons.prems(1) by simp
    show ?thesis
    proof (cases "ans_busy a")
      case True
      let ?s = "st\<lparr>busy_retries := busy_retries st + 1,
        run_slept := run_slept st @ [if ans_retry_after_ms a > 0 then ans_retry_after_ms a else 5]\<rparr>"
      have "nat (run_remaining ?s) \<le> length (filter accepts answers)"
        using Cons.prems(3) r True by simp
      from Cons.IH [OF tl Cons.prems(2) this] show ?thesis
        using more r True by (subst client_apply_loop.simps) simp
    next
      case False
      let ?b = "if run_remaining st < batch then run_remaining st else batch"
      let ?s = "st\<lparr>run_samples := (if op = ''apply-timed'' then run_samples st @ [ans_terms a] else run_samples st),
        run_sent := run_sent st @ [replicate (nat ?b) payload], run_applied := run_applied st + word_of_int ?b,
        run_remaining := run_remaining st - ?b\<rparr>"
      have "nat (run_remaining ?s) \<le> length (filter accepts answers)"
        using Cons.prems(2,3) r False more by auto
      from Cons.IH [OF tl Cons.prems(2) this] show ?thesis
        using more r False by (subst client_apply_loop.simps) (simp add: Let_def)
    qed
  qed (subst client_apply_loop.simps, simp)
qed

section \<open>The leader that is found\<close>

lemma probe_round_Some:
  "probe_round i rs p = Some l \<Longrightarrow>
   \<exists>k rsp. lead_index l = i + k \<and> k < length rs \<and> rs ! k = Answers rsp \<and>
     (pcr_busy rsp \<and> probe_commands l = p \<or> pcr_err rsp = [] \<and> \<not> pcr_busy rsp \<and> probe_commands l = p + 1) \<and>
     (\<forall>j < k. \<forall>r. rs ! j = Answers r \<longrightarrow> pcr_err r \<noteq> [] \<and> \<not> pcr_busy r)"
proof (induction i rs p rule: probe_round.induct)
  case (2 i r rs p)
  have later: ?case if "probe_round (i + 1) rs p = Some l" "\<forall>x. r = Answers x \<longrightarrow> pcr_err x \<noteq> [] \<and> \<not> pcr_busy x"
  proof -
    have "\<exists>k rsp. lead_index l = i + 1 + k \<and> k < length rs \<and> rs ! k = Answers rsp \<and>
     (pcr_busy rsp \<and> probe_commands l = p \<or> pcr_err rsp = [] \<and> \<not> pcr_busy rsp \<and> probe_commands l = p + 1) \<and>
     (\<forall>j < k. \<forall>r. rs ! j = Answers r \<longrightarrow> pcr_err r \<noteq> [] \<and> \<not> pcr_busy r)"
      using 2(1-3) that by (cases r) auto
    then obtain k rsp where k: "lead_index l = i + 1 + k" "k < length rs" "rs ! k = Answers rsp"
      "pcr_busy rsp \<and> probe_commands l = p \<or> pcr_err rsp = [] \<and> \<not> pcr_busy rsp \<and> probe_commands l = p + 1"
      "\<forall>j < k. \<forall>r. rs ! j = Answers r \<longrightarrow> pcr_err r \<noteq> [] \<and> \<not> pcr_busy r" by blast
    with that(2) show ?thesis
      by (intro exI [of _ "Suc k"] exI [of _ rsp]) (auto simp: nth_Cons split: nat.splits)
  qed
  show ?case
  proof (cases "\<exists>x. r = Answers x \<and> (pcr_err x = [] \<or> pcr_busy x)")
    case True
    then obtain x where x: "r = Answers x" "pcr_err x = [] \<or> pcr_busy x" by blast
    with 2(4) show ?thesis by (intro exI [of _ 0] exI [of _ x]) (auto split: if_splits)
  next
    case False
    with 2(4) show ?thesis by (intro later) (auto split: call_result.splits if_splits)
  qed
qed simp

lemma probe_round_None:
  "probe_round i rs p = None \<Longrightarrow> Answers r \<in> set rs \<Longrightarrow> pcr_err r \<noteq> [] \<and> \<not> pcr_busy r"
  by (induction i rs p rule: probe_round.induct) (auto split: call_result.splits if_splits)

text \<open>
  The search: the node it returns answered the probe of a round that began before the deadline, by
  applying it or by being busy, and every node asked before it, in that round or an earlier one, failed
  or refused; the probe is counted exactly when it was applied.
\<close>

definition refuses :: "pb_client_apply_response call_result \<Rightarrow> bool" where
  "refuses r \<longleftrightarrow> (\<forall>rsp. r = Answers rsp \<longrightarrow> pcr_err rsp \<noteq> [] \<and> \<not> pcr_busy rsp)"

definition first_leader ::
  "(int \<times> pb_client_apply_response call_result list) list \<Rightarrow> nat \<Rightarrow> int \<Rightarrow> pb_client_apply_response \<Rightarrow> bool" where
  "first_leader rounds i t rsp \<longleftrightarrow> (\<exists>pre rs post. rounds = pre @ (t, rs) # post \<and> i < length rs \<and>
     rs ! i = Answers rsp \<and> (pcr_busy rsp \<or> pcr_err rsp = []) \<and> (\<forall>j < i. refuses (rs ! j)) \<and>
     (\<forall>(t', rs') \<in> set pre. \<forall>r \<in> set rs'. refuses r))"

theorem find_leader_found:
  assumes "find_leader deadline rounds = Some (Ret l)"
  shows "\<exists>t rsp. first_leader rounds (lead_index l) t rsp \<and> t < deadline \<and>
    probe_commands l = (if pcr_busy rsp then 0 else 1)"
  using assms
proof (induction deadline rounds rule: find_leader.induct)
  case (2 deadline t rs rounds)
  show ?case
  proof (cases "t < deadline \<and> probe_round 0 rs 0 = Some l")
    case True
    from probe_round_Some [of 0 rs 0 l] True obtain rsp where
      r: "lead_index l < length rs" "rs ! lead_index l = Answers rsp"
      "pcr_busy rsp \<and> probe_commands l = 0 \<or> pcr_err rsp = [] \<and> \<not> pcr_busy rsp \<and> probe_commands l = 1"
      "\<forall>j < lead_index l. refuses (rs ! j)" by (auto simp: refuses_def)
    then have "first_leader ((t, rs) # rounds) (lead_index l) t rsp"
      unfolding first_leader_def by (intro exI [of _ "[]"] exI [of _ rs] exI [of _ rounds]) auto
    then show ?thesis using True r by (intro exI [of _ t] exI [of _ rsp]) auto
  next
    case False
    with 2(2) have n: "t < deadline" "probe_round 0 rs 0 = None" "find_leader deadline rounds = Some (Ret l)"
      by (auto split: if_splits option.splits)
    from 2(1) [OF this] obtain t' rsp pre rs' post where u: "t' < deadline" "probe_commands l = (if pcr_busy rsp then 0 else 1)"
      "rounds = pre @ (t', rs') # post" "lead_index l < length rs'" "rs' ! lead_index l = Answers rsp"
      "pcr_busy rsp \<or> pcr_err rsp = []" "\<forall>j < lead_index l. refuses (rs' ! j)" "\<forall>(t', rs') \<in> set pre. \<forall>r \<in> set rs'. refuses r"
      unfolding first_leader_def by blast
    have "\<forall>r \<in> set rs. refuses r" using probe_round_None [OF n(2)] by (auto simp: refuses_def)
    then have "first_leader ((t, rs) # rounds) (lead_index l) t' rsp"
      unfolding first_leader_def using u
      by (intro exI [of _ "(t, rs) # pre"] exI [of _ rs'] exI [of _ post]) auto
    with u show ?thesis by blast
  qed
qed simp

text \<open>Which node is found, and with which answer, is determined by the rounds.\<close>

lemma first_leader_unique:
  assumes "first_leader rounds i t rsp" "first_leader rounds i' t' rsp'"
  shows "i = i' \<and> t = t' \<and> rsp = rsp'"
proof -
  have lin: "i = i'" if "\<forall>j < i. refuses (rs ! j)" "rs ! i = Answers x" "\<not> refuses (Answers x)"
    "\<forall>j < i'. refuses (rs ! j)" "rs ! i' = Answers y" "\<not> refuses (Answers y)" for rs x y
    using that by (metis linorder_neqE_nat)
  obtain pre rs post where a: "rounds = pre @ (t, rs) # post" "i < length rs" "rs ! i = Answers rsp" "\<not> refuses (Answers rsp)"
    "\<forall>j < i. refuses (rs ! j)" "\<forall>(t', rs') \<in> set pre. \<forall>r \<in> set rs'. refuses r"
    using assms(1) by (auto simp: first_leader_def refuses_def)
  obtain pre' rs' post' where b: "rounds = pre' @ (t', rs') # post'" "i' < length rs'" "rs' ! i' = Answers rsp'"
    "\<not> refuses (Answers rsp')" "\<forall>j < i'. refuses (rs' ! j)" "\<forall>(t', rs') \<in> set pre'. \<forall>r \<in> set rs'. refuses r"
    using assms(2) by (auto simp: first_leader_def refuses_def)
  have "(t, rs) \<notin> set pre'" "(t', rs') \<notin> set pre" using a b nth_mem by fastforce+
  moreover have "length pre = length pre'"
  proof (rule ccontr)
    assume "length pre \<noteq> length pre'"
    then consider "length pre < length pre'" | "length pre' < length pre" by linarith
    then show False
    proof cases
      case 1
      then have "pre' ! length pre = (t, rs)" using a(1) b(1) by (metis nth_append nth_append_length)
      with 1 calculation(1) show False by (metis nth_mem)
    next
      case 2
      then have "pre ! length pre' = (t', rs')" using a(1) b(1) by (metis nth_append nth_append_length)
      with 2 calculation(2) show False by (metis nth_mem)
    qed
  qed
  ultimately have "t = t'" "rs = rs'" using a(1) b(1) by auto
  with lin [of rs rsp rsp'] a b show ?thesis by auto
qed

definition sample_rounds :: "(int \<times> pb_client_apply_response call_result list) list" where
  "sample_rounds =
     [(5, [DialThrows ''refused'', Answers \<lparr>pcr_err = ''not leader'', pcr_busy = False, pcr_retry_after_ms = 0\<rparr>]),
      (50, [CallThrows ''timeout'', Answers \<lparr>pcr_err = [], pcr_busy = False, pcr_retry_after_ms = 0\<rparr>])]"

theorem find_leader_found_witness:
  "find_leader 100 sample_rounds = Some (Ret \<lparr>lead_index = 1, probe_commands = 1\<rparr>) \<and>
   (\<exists>t rsp. first_leader sample_rounds 1 t rsp \<and> t < 100 \<and> \<not> pcr_busy rsp)"
proof -
  have f: "find_leader 100 sample_rounds = Some (Ret \<lparr>lead_index = 1, probe_commands = 1\<rparr>)"
    by (simp add: sample_rounds_def)
  from find_leader_found [OF f] f show ?thesis by (auto split: if_splits)
qed

lemma client_setup_batch: "client_setup rdma argv = Parsed (a, nodes, kind) \<Longrightarrow> 1 \<le> ca_batch a \<and> nodes \<noteq> []"
  by (auto simp: client_setup_def Let_def split: parsed.splits if_splits option.splits)

lemma client_apply_Applied:
  assumes run: "client_apply w a nodes = Some (ClientApplied l st)" and b: "1 \<le> ca_batch a"
  shows "concat (run_sent st) = replicate (nat (ca_n a)) (replicate (nat (ca_size a)) (CHR ''x'')) \<and>
    list_all (\<lambda>req. 1 \<le> length req \<and> int (length req) \<le> ca_batch a) (run_sent st) \<and>
    (\<exists>t rsp. first_leader (search_rounds w nodes) (lead_index l) t rsp \<and> t < w_now w + 1000000000 * ca_timeout_s a \<and>
       run_applied st = (if pcr_busy rsp then 0 else 1) + word_of_int (max 0 (ca_n a))) \<and>
    (ca_op a = ''apply-timed'' \<longrightarrow> length (run_samples st) = length (run_sent st))"
proof -
  from run have f: "find_leader (w_now w + 1000000000 * ca_timeout_s a) (search_rounds w nodes) = Some (Ret l)"
    and r: "client_apply_loop (ca_op a) (ca_batch a) (replicate (nat (ca_size a)) (CHR ''x''))
      (apply_answers w (ca_op a)) (apply_start (ca_n a) l) = Some (Ret st)"
    by (auto simp: client_apply_def payload_of_def split: option.splits outcome.splits if_splits)
      (metis outcome.exhaust)+
  from client_apply_loop_run [OF r b] find_leader_found [OF f] show ?thesis by (auto simp: apply_start_def)
qed

text \<open>
  C26. The client applies exactly what it was asked to. Once a leader is found, answers without a
  failure and with enough acceptances make the program end successfully; busy answers may come in
  between. Whenever it ends successfully, the accepted requests together hold \<open>-n\<close> commands of \<open>-size\<close>
  bytes, none is empty or larger than \<open>-batch\<close>, the leader is the first node that did not refuse the
  probe, the total it reports is \<open>-n\<close> plus one if that node applied the probe and \<open>-n\<close> if it was busy,
  and \<open>apply-timed\<close> has one sample for each accepted request.
\<close>

theorem client_applies:
  assumes args: "client_setup rdma argv = Parsed (a, nodes, kind)"
    and op: "ca_op a \<in> {''apply'', ''apply-timed''}"
  shows "((\<exists>l. find_leader (w_now w + 1000000000 * ca_timeout_s a) (search_rounds w nodes) = Some (Ret l)) \<and>
      0 \<le> ca_size a \<and> list_all no_failure (apply_answers w (ca_op a)) \<and>
      nat (ca_n a) \<le> length (filter accepts (apply_answers w (ca_op a))) \<longrightarrow>
      (\<exists>l st. client_main rdma w argv = Some (ClientApplied l st))) \<and>
    (\<forall>l st. client_main rdma w argv = Some (ClientApplied l st) \<longrightarrow>
      concat (run_sent st) = replicate (nat (ca_n a)) (replicate (nat (ca_size a)) (CHR ''x'')) \<and>
      list_all (\<lambda>req. 1 \<le> length req \<and> int (length req) \<le> ca_batch a) (run_sent st) \<and>
      (\<exists>t rsp. first_leader (search_rounds w nodes) (lead_index l) t rsp \<and> t < w_now w + 1000000000 * ca_timeout_s a \<and>
         run_applied st = (if pcr_busy rsp then 0 else 1) + word_of_int (max 0 (ca_n a))) \<and>
      (ca_op a = ''apply-timed'' \<longrightarrow> length (run_samples st) = length (run_sent st)))"
    (is "(?found \<and> _ \<longrightarrow> ?ends) \<and> _")
proof -
  have m: "client_main rdma w argv = client_apply w a nodes"
    using args op by (auto simp: client_main_def)
  note b = client_setup_batch [OF args, THEN conjunct1]
  show ?thesis
  proof (intro conjI [OF impI] allI impI, elim conjE exE)
    fix l
    assume l: "find_leader (w_now w + 1000000000 * ca_timeout_s a) (search_rounds w nodes) = Some (Ret l)"
      "0 \<le> ca_size a" "list_all no_failure (apply_answers w (ca_op a))"
      "nat (ca_n a) \<le> length (filter accepts (apply_answers w (ca_op a)))"
    from client_apply_loop_ends [OF l(3) b, of "apply_start (ca_n a) l"] l
    show ?ends by (fastforce simp: m client_apply_def payload_of_def apply_start_def)
  next
    fix l st
    assume "client_main rdma w argv = Some (ClientApplied l st)"
    then have "client_apply w a nodes = Some (ClientApplied l st)" by (simp add: m)
    from client_apply_Applied [OF this b]
    show "concat (run_sent st) = replicate (nat (ca_n a)) (replicate (nat (ca_size a)) (CHR ''x'')) \<and>
      list_all (\<lambda>req. 1 \<le> length req \<and> int (length req) \<le> ca_batch a) (run_sent st) \<and>
      (\<exists>t rsp. first_leader (search_rounds w nodes) (lead_index l) t rsp \<and> t < w_now w + 1000000000 * ca_timeout_s a \<and>
         run_applied st = (if pcr_busy rsp then 0 else 1) + word_of_int (max 0 (ca_n a))) \<and>
      (ca_op a = ''apply-timed'' \<longrightarrow> length (run_samples st) = length (run_sent st))" .
  qed
qed

text \<open>Five commands in batches of two: the first node is no leader, the second is busy once.\<close>

definition sample_world :: client_world where
  "sample_world =
     (let ok = Answers \<lparr>pcr_err = [], pcr_busy = False, pcr_retry_after_ms = 0\<rparr>;
          no = Answers \<lparr>pcr_err = ''not leader'', pcr_busy = False, pcr_retry_after_ms = 0\<rparr>;
          busy = Answers \<lparr>pcr_err = [], pcr_busy = True, pcr_retry_after_ms = 7\<rparr>
      in \<lparr>w_commit = \<lambda>_. DialThrows [], w_hash = \<lambda>_ _. DialThrows [], w_stats = \<lambda>_. DialThrows [],
          w_echo_dial = Exc [], w_echo = [], w_now = 0,
          w_rounds = [(1, \<lambda>i. if i = 0 then no else ok)], w_apply = [ok, busy, ok, ok, ok, ok], w_timed = []\<rparr>)"

theorem client_applies_witness:
  "\<exists>l st. client_main False sample_world [''raft_client'', ''-addrs'', ''a:1,b:2'', ''-n'', ''5'', ''-batch'', ''2'',
       ''-size'', ''3'', ''-transport'', ''tcp''] = Some (ClientApplied l st) \<and>
     concat (run_sent st) = replicate 5 ''xxx'' \<and> run_applied st = 6"
proof -
  let ?argv = "[''raft_client'', ''-addrs'', ''a:1,b:2'', ''-n'', ''5'', ''-batch'', ''2'',
       ''-size'', ''3'', ''-transport'', ''tcp'']"
  let ?a = "client_defaults\<lparr>ca_addrs := ''a:1,b:2'', ca_n := 5, ca_batch := 2, ca_size := 3, ca_transport := ''tcp''\<rparr>"
  have args: "client_setup False ?argv = Parsed (?a, [''a:1'', ''b:2''], Tcp)" by code_simp
  have fields: "ca_op ?a = ''apply''" "ca_n ?a = 5" "ca_size ?a = 3" "ca_timeout_s ?a = 15"
    by (simp_all add: client_defaults_def)
  have l: "\<exists>l. find_leader (w_now sample_world + 1000000000 * 15) (search_rounds sample_world [''a:1'', ''b:2'']) = Some (Ret l)"
    by (simp add: sample_world_def search_rounds_def Let_def upt_rec)
  have as: "list_all no_failure (apply_answers sample_world ''apply'')"
    "nat 5 \<le> length (filter accepts (apply_answers sample_world ''apply''))"
    by (simp_all add: sample_world_def apply_answers_def plain_answer_def Let_def)
  note c = client_applies [OF args, of sample_world]
  from c l as fields obtain l st where
    m: "client_main False sample_world ?argv = Some (ClientApplied l st)" by auto
  let ?ok = "\<lparr>pcr_err = [], pcr_busy = False, pcr_retry_after_ms = 0\<rparr>"
  have fl: "first_leader (search_rounds sample_world [''a:1'', ''b:2'']) 1 1 ?ok"
    unfolding first_leader_def
    by (intro exI [of _ "[]"] exI [of _ "map (snd (hd (w_rounds sample_world))) [0..<2]"])
      (auto simp: sample_world_def search_rounds_def refuses_def Let_def upt_rec less_Suc_eq)
  from c m fields obtain t rsp where r: "first_leader (search_rounds sample_world [''a:1'', ''b:2'']) (lead_index l) t rsp"
    "run_applied st = (if pcr_busy rsp then 0 else 1) + 5" "concat (run_sent st) = replicate (nat 5) (replicate (nat 3) (CHR ''x''))"
    by auto
  have "run_applied st = 6" using first_leader_unique [OF fl r(1)] r(2) by auto
  with m r(3) show ?thesis by (intro exI [of _ l] exI [of _ st]) (simp add: numeral_eq_Suc)
qed

end
