(* ===== verification/ScaleMain.thy ===== *)
theory ScaleMain
  imports ClientMain
begin

text \<open>
  \<open>apps/raft_blkcopy_scale_main.cpp\<close>: the program that measures the storage node. It overwrites a
  region of the destination device, so what matters is where its copies go. The answers of the
  storage node come as a list with the time each took. The floating-point summary is left out.
\<close>

section \<open>Arguments\<close>

definition kAlign_scale :: u64 where
  "kAlign_scale = 4096"

text \<open>\<open>strtoull\<close> with its end pointer and \<open>errno\<close>: the whole text must be a number that fits.\<close>

definition parse_bytes :: "string \<Rightarrow> u64 option" where
  "parse_bytes s =
     (let t = dropWhile white s;
          u = (case t of c # r \<Rightarrow> if c = CHR ''-'' \<or> c = CHR ''+'' then r else t | [] \<Rightarrow> []);
          v = atoi s
      in if takeWhile digit u = [] \<or> dropWhile digit u \<noteq> [] \<or> \<bar>v\<bar> \<ge> 2 ^ 64 then None
         else Some (word_of_int v))"

record scale_args =
  storage_addr :: string
  csv_path :: string
  sc_label :: string
  sc_arm :: string
  sc_transport :: string
  sc_src_dev :: int
  sc_dst_dev :: int
  chunk :: u64
  src_off :: u64
  dst_off :: u64
  region :: u64
  stride :: u64
  target_bytes :: u64
  sc_batch :: int
  sc_workers :: int
  min_iters :: int
  max_iters :: int
  warmup :: int
  confirmed :: bool

definition scale_defaults :: scale_args where
  "scale_defaults = \<lparr>storage_addr = [], csv_path = [], sc_label = ''unnamed'', sc_arm = ''unnamed'',
     sc_transport = ''rdma'', sc_src_dev = - 1, sc_dst_dev = - 1, chunk = 0,
     src_off = 4 * 1073741824, dst_off = 4 * 1073741824, region = 32 * 1073741824, stride = 0,
     target_bytes = 2 * 1073741824, sc_batch = 1, sc_workers = 0, min_iters = 30, max_iters = 2000,
     warmup = - 1, confirmed = False\<rparr>"

definition scale_flag :: "string \<Rightarrow> scale_args flag" where
  "scale_flag a =
     (let num = (\<lambda>upd. TakesChecked (\<lambda>v p. map_option (\<lambda>n. upd n p) (parse_bytes v))) in
      if a = ''-storage'' then TakesValue (\<lambda>v p. p\<lparr>storage_addr := v\<rparr>)
      else if a = ''-src-dev'' then TakesValue (\<lambda>v p. p\<lparr>sc_src_dev := atoi v\<rparr>)
      else if a = ''-dst-dev'' then TakesValue (\<lambda>v p. p\<lparr>sc_dst_dev := atoi v\<rparr>)
      else if a = ''-chunk'' then num (\<lambda>n p. p\<lparr>chunk := n\<rparr>)
      else if a = ''-batch'' then TakesValue (\<lambda>v p. p\<lparr>sc_batch := atoi v\<rparr>)
      else if a = ''-workers'' then TakesValue (\<lambda>v p. p\<lparr>sc_workers := atoi v\<rparr>)
      else if a = ''-target-bytes'' then num (\<lambda>n p. p\<lparr>target_bytes := n\<rparr>)
      else if a = ''-min-iters'' then TakesValue (\<lambda>v p. p\<lparr>min_iters := atoi v\<rparr>)
      else if a = ''-max-iters'' then TakesValue (\<lambda>v p. p\<lparr>max_iters := atoi v\<rparr>)
      else if a = ''-warmup'' then TakesValue (\<lambda>v p. p\<lparr>warmup := atoi v\<rparr>)
      else if a = ''-src-off'' then num (\<lambda>n p. p\<lparr>src_off := n\<rparr>)
      else if a = ''-dst-off'' then num (\<lambda>n p. p\<lparr>dst_off := n\<rparr>)
      else if a = ''-region'' then num (\<lambda>n p. p\<lparr>region := n\<rparr>)
      else if a = ''-stride'' then num (\<lambda>n p. p\<lparr>stride := n\<rparr>)
      else if a = ''-csv'' then TakesValue (\<lambda>v p. p\<lparr>csv_path := v\<rparr>)
      else if a = ''-label'' then TakesValue (\<lambda>v p. p\<lparr>sc_label := v\<rparr>)
      else if a = ''-transport'' then TakesValue (\<lambda>v p. p\<lparr>sc_transport := v\<rparr>)
      else if a = ''-arm'' then TakesValue (\<lambda>v p. p\<lparr>sc_arm := v\<rparr>)
      else if a = ''-yes-destroy-dst'' then Plain (\<lambda>p. p\<lparr>confirmed := True\<rparr>)
      else if a = ''-h'' \<or> a = ''--help'' then Help
      else Unknown)"

section \<open>The measurement\<close>

text \<open>The arguments that pass the checks, with the stride filled in.\<close>

definition scale_checked :: "bool \<Rightarrow> scale_args \<Rightarrow> scale_args option" where
  "scale_checked rdma_devices_available p =
     (case parse_transport_kind (sc_transport p) of
        None \<Rightarrow> None
      | Some kind \<Rightarrow>
          if kind = Rdma \<and> \<not> rdma_devices_available then None
          else if storage_addr p = [] \<or> sc_src_dev p < 0 \<or> sc_dst_dev p < 0 \<or> chunk p = 0 then None
          else if chunk p mod kAlign_scale \<noteq> 0 \<or> src_off p mod kAlign_scale \<noteq> 0 \<or> dst_off p mod kAlign_scale \<noteq> 0 then None
          else if sc_batch p < 1 then None
          else if min_iters p < 1 \<or> max_iters p < min_iters p then None
          else
            let p = (if stride p = 0 then p\<lparr>stride := chunk p\<rparr> else p) in
            if stride p mod kAlign_scale \<noteq> 0 then None
            else if chunk p > region p then None
            else Some p)"

definition bytes_per_rpc :: "scale_args \<Rightarrow> u64" where
  "bytes_per_rpc p = word_of_int (sc_batch p) * chunk p"

definition iters_of :: "scale_args \<Rightarrow> int" where
  "iters_of p =
     (let derived = target_bytes p div bytes_per_rpc p;
          derived = (if derived < word_of_int (min_iters p) then word_of_int (min_iters p) else derived);
          derived = (if derived > word_of_int (max_iters p) then word_of_int (max_iters p) else derived)
      in uint derived)"

definition warmup_of :: "int \<Rightarrow> int \<Rightarrow> int" where
  "warmup_of w iters =
     (if w < 0 then (let w = iters div 10 in if w < 10 then 10 else w) else w)"

definition span_of :: "scale_args \<Rightarrow> u64" where
  "span_of p = (let span = region p - chunk p + stride p in if span < stride p then stride p else span)"

text \<open>The chunks of one request from the cursor on, as source, destination and length.\<close>

fun scale_chunks :: "scale_args \<Rightarrow> nat \<Rightarrow> u64 \<Rightarrow> (u64 \<times> u64 \<times> u64) list \<times> u64" where
  "scale_chunks p 0 cursor = ([], cursor)"
| "scale_chunks p (Suc b) cursor =
     (let rel = cursor mod span_of p;
          (rel, cursor) = (if rel + chunk p > region p then (0, 0) else (rel, cursor));
          (cs, cursor) = scale_chunks p b (cursor + stride p)
      in ((src_off p + rel, dst_off p + rel, chunk p) # cs, cursor))"

definition scale_request :: "scale_args \<Rightarrow> (u64 \<times> u64 \<times> u64) list \<Rightarrow> pb_write_pba_batch_request" where
  "scale_request p cs = \<lparr>pwq_pba_srcs = map fst cs, pwq_pba_dsts = map (fst \<circ> snd) cs,
     pwq_nbytes = map (snd \<circ> snd) cs, pwq_block_size = 0, pwq_src_dev = sc_src_dev p, pwq_dst_dev = sc_dst_dev p\<rparr>"

record scale_sample =
  wall_ns :: int
  copy_ns :: int
  read_ns :: int
  write_ns :: int

text \<open>How the measuring loop stands: waiting for an answer, ended by a failure, or all samples there.\<close>

datatype scale_status = Waiting | Failed | Collected "scale_sample list"

fun add_sample :: "scale_sample \<Rightarrow> scale_status \<Rightarrow> scale_status" where
  "add_sample x (Collected xs) = Collected (x # xs)"
| "add_sample x st = st"

text \<open>
  The rounds from number \<open>it\<close> on, \<open>left\<close> of them: the requests that were sent, and the status. The
  first \<open>wu\<close> rounds are not recorded.
\<close>

fun scale_loop ::
  "scale_args \<Rightarrow> int \<Rightarrow> nat \<Rightarrow> int \<Rightarrow> u64 \<Rightarrow> (pb_write_pba_batch_response call_result \<times> int) list \<Rightarrow>
   pb_write_pba_batch_request list \<times> scale_status" where
  "scale_loop p wu 0 it cursor rs = ([], Collected [])"
| "scale_loop p wu (Suc left) it cursor rs =
     (let (cs, cursor) = scale_chunks p (nat (sc_batch p)) cursor;
          req = scale_request p cs
      in case rs of
           [] \<Rightarrow> ([req], Waiting)
         | (Answers rsp, wall) # rs \<Rightarrow>
             if pwr_err rsp \<noteq> [] then ([req], Failed)
             else
               let (reqs, st) = scale_loop p wu left (it + 1) cursor rs;
                   x = \<lparr>wall_ns = wall, copy_ns = pwr_copy_nanos rsp, read_ns = pwr_read_nanos rsp,
                        write_ns = pwr_write_nanos rsp\<rparr>
               in (req # reqs, if it \<ge> wu then add_sample x st else st)
         | _ # _ \<Rightarrow> ([req], Failed))"

record scale_run =
  sr_args :: scale_args
  sr_requests :: "pb_write_pba_batch_request list"
  sr_status :: scale_status

text \<open>
  The program until its samples are there. A product \<open>batch * chunk\<close> that wraps to 0 is divided by, and
  a sum of rounds outside \<open>int\<close> overflows: both are undefined.
\<close>

definition scale_main ::
  "bool \<Rightarrow> bool \<Rightarrow> string list \<Rightarrow> (pb_write_pba_batch_response call_result \<times> int) list \<Rightarrow> scale_run program_end" where
  "scale_main rdma_devices_available connects argv rs =
     (case arg_loop scale_flag argv 1 scale_defaults of
        Exits c \<Rightarrow> ProgramExits c
      | Parsed p \<Rightarrow>
          (case scale_checked rdma_devices_available p of
             None \<Rightarrow> ProgramExits 1
           | Some p \<Rightarrow>
               if bytes_per_rpc p = 0 then ProgramUndefined
               else
                 let iters = iters_of p;
                     wu = warmup_of (warmup p) iters
                 in if \<not> confirmed p \<or> \<not> connects then ProgramExits 1
                    else if wu + iters \<ge> 2 ^ 31 then ProgramUndefined
                    else
                      let (reqs, st) = scale_loop p wu (nat (wu + iters)) 0 0 rs
                      in ProgramRuns \<lparr>sr_args = p, sr_requests = reqs, sr_status = st\<rparr>))"

text \<open>The raw samples, one line each under a heading.\<close>

definition csv_lines :: "scale_args \<Rightarrow> scale_sample list \<Rightarrow> string list" where
  "csv_lines p xs =
     ''label,arm,workers,batch,chunk,iter,wall_ns,copy_ns,read_ns,write_ns'' #
     map (\<lambda>(i, x). concat (sc_label p # map (\<lambda>s. CHR '','' # s)
       [sc_arm p, to_string (sc_workers p), to_string (sc_batch p), to_string (uint (chunk p)),
        to_string (int i), to_string (wall_ns x), to_string (copy_ns x), to_string (read_ns x),
        to_string (write_ns x)])) (enumerate 0 xs)"

section \<open>Where the copies go\<close>

text \<open>
  What the program does not check: that the ends of the two regions, and the region with the stride, fit
  into 64 bits.
\<close>

definition scale_sane :: "scale_args \<Rightarrow> bool" where
  "scale_sane p \<longleftrightarrow>
     unat (region p) + unat (stride p) < 18446744073709551616 \<and>
     unat (src_off p) + unat (region p) < 18446744073709551616 \<and>
     unat (dst_off p) + unat (region p) < 18446744073709551616"

lemma mod_kAlign_scale: "(w :: u64) mod kAlign_scale = 0 \<longleftrightarrow> 4096 dvd unat w"
proof -
  have "(w mod kAlign_scale = 0) = (unat (w mod kAlign_scale) = 0)" by (simp add: unat_eq_0)
  then show ?thesis by (simp add: kAlign_scale_def unat_u64_mod unat_u64_numeral mod_eq_0_iff_dvd)
qed

lemma scale_checked_Some:
  assumes "scale_checked rdma p = Some q"
  shows "4096 dvd unat (chunk q) \<and> 4096 dvd unat (src_off q) \<and> 4096 dvd unat (dst_off q) \<and>
    4096 dvd unat (stride q) \<and> stride q \<noteq> 0 \<and> chunk q \<noteq> 0 \<and> unat (chunk q) \<le> unat (region q) \<and> 1 \<le> sc_batch q \<and>
    1 \<le> min_iters q \<and> min_iters q \<le> max_iters q \<and> confirmed q = confirmed p"
  using assms
  by (auto simp: scale_checked_def Let_def mod_kAlign_scale word_le_nat_alt not_less split: option.splits if_splits)

lemma unat_span_of:
  assumes "unat (chunk p) \<le> unat (region p)" "scale_sane p"
  shows "unat (span_of p) = unat (region p) - unat (chunk p) + unat (stride p)"
proof -
  have d: "unat (region p - chunk p) = unat (region p) - unat (chunk p)"
    using assms(1) by (simp add: unat_u64_sub word_le_nat_alt)
  with assms have "unat (region p - chunk p + stride p) = unat (region p) - unat (chunk p) + unat (stride p)"
    by (subst unat_u64_add) (auto simp: scale_sane_def)
  then show ?thesis by (auto simp: span_of_def Let_def word_less_nat_alt)
qed

text \<open>The cursor is aligned, and so is its remainder by the span.\<close>

definition cursor_ok :: "scale_args \<Rightarrow> u64 \<Rightarrow> bool" where
  "cursor_ok p c \<longleftrightarrow> 4096 dvd unat c \<and> (4096 dvd unat (span_of p) \<or> unat c < unat (span_of p))"

lemma dvd_unat_add: "4096 dvd unat (a :: u64) \<Longrightarrow> 4096 dvd unat (b :: u64) \<Longrightarrow> 4096 dvd unat (a + b)"
proof -
  assume "4096 dvd unat a" "4096 dvd unat b"
  moreover have "(4096 :: nat) dvd 18446744073709551616" by simp
  ultimately have "4096 dvd (unat a + unat b) mod 18446744073709551616"
    by (intro iffD2 [OF dvd_mod_iff]) simp_all
  then show ?thesis by (simp add: unat_word_ariths)
qed

lemma scale_rel:
  fixes p cursor
  defines "rel0 \<equiv> cursor mod span_of p"
  defines "rel \<equiv> if rel0 + chunk p > region p then 0 else rel0"
    and "cur \<equiv> if rel0 + chunk p > region p then 0 else cursor"
  assumes p: "scale_sane p" "4096 dvd unat (stride p)" "unat (chunk p) \<le> unat (region p)" "stride p \<noteq> 0"
    and c: "cursor_ok p cursor"
  shows "unat rel + unat (chunk p) \<le> unat (region p)" "4096 dvd unat rel" "cursor_ok p (cur + stride p)"
proof -
  note sp = unat_span_of [OF p(3,1)]
  have pos: "0 < unat (stride p)" "0 < unat (span_of p)" using p(4) sp by (simp_all add: unat_gt_0)
  have r0: "unat rel0 = unat cursor mod unat (span_of p)" by (simp add: rel0_def unat_u64_mod)
  then have lt: "unat rel0 < unat (span_of p)" using pos by simp
  have sum: "unat (rel0 + chunk p) = unat rel0 + unat (chunk p)"
    using lt sp p(1,3) by (intro unat_u64_add) (auto simp: scale_sane_def)
  then show "unat rel + unat (chunk p) \<le> unat (region p)"
    using p(3) by (auto simp: rel_def word_less_nat_alt not_less)
  have "4096 dvd unat rel0"
    using c by (auto simp: cursor_ok_def r0 dvd_mod)
  then show "4096 dvd unat rel" by (simp add: rel_def)
  have al: "4096 dvd unat (cur + stride p)"
    using c p(2) by (auto simp: cur_def cursor_ok_def intro: dvd_unat_add)
  show "cursor_ok p (cur + stride p)"
  proof (cases "4096 dvd unat (span_of p)")
    case False
    with c have "unat cursor < unat (span_of p)" by (simp add: cursor_ok_def)
    then have "rel0 = cursor" by (simp add: r0 word_unat_eq_iff)
    then have "unat cur + unat (chunk p) \<le> unat (region p)"
      using sum p(3) by (auto simp: cur_def word_less_nat_alt not_less)
    then have le: "unat cur + unat (stride p) \<le> unat (span_of p)" using sp by simp
    then have "unat (cur + stride p) = unat cur + unat (stride p)"
      using unat_u64_less [of "span_of p"] by (intro unat_u64_add) (simp only: le_less_trans)
    with le al False show ?thesis by (auto simp: cursor_ok_def le_less)
  qed (use al in \<open>simp add: cursor_ok_def\<close>)
qed

text \<open>A chunk inside both regions, aligned, at the same place of each.\<close>

definition chunk_ok :: "scale_args \<Rightarrow> u64 \<times> u64 \<times> u64 \<Rightarrow> bool" where
  "chunk_ok p = (\<lambda>(s, d, n).
     unat (src_off p) \<le> unat s \<and> unat s + unat n \<le> unat (src_off p) + unat (region p) \<and>
     unat (dst_off p) \<le> unat d \<and> unat d + unat n \<le> unat (dst_off p) + unat (region p) \<and>
     unat s - unat (src_off p) = unat d - unat (dst_off p) \<and>
     4096 dvd unat s \<and> 4096 dvd unat d \<and> 4096 dvd unat n \<and> n \<noteq> 0)"

lemma chunk_at_ok:
  assumes "scale_sane p" "unat rel + unat (chunk p) \<le> unat (region p)" "4096 dvd unat rel" "chunk p \<noteq> 0"
    "4096 dvd unat (src_off p)" "4096 dvd unat (dst_off p)" "4096 dvd unat (chunk p)"
  shows "chunk_ok p (src_off p + rel, dst_off p + rel, chunk p)"
proof -
  have "unat (src_off p + rel) = unat (src_off p) + unat rel" "unat (dst_off p + rel) = unat (dst_off p) + unat rel"
    using assms(1,2) by (auto intro!: unat_u64_add simp: scale_sane_def)
  with assms show ?thesis by (auto simp: chunk_ok_def)
qed

lemma scale_chunks_ok:
  assumes p: "scale_sane p" "4096 dvd unat (stride p)" "unat (chunk p) \<le> unat (region p)" "stride p \<noteq> 0"
    "chunk p \<noteq> 0" "4096 dvd unat (src_off p)" "4096 dvd unat (dst_off p)" "4096 dvd unat (chunk p)"
  shows "cursor_ok p c \<Longrightarrow> scale_chunks p b c = (cs, c') \<Longrightarrow>
    length cs = b \<and> list_all (chunk_ok p) cs \<and> cursor_ok p c'"
proof (induction b arbitrary: c cs)
  case (Suc b)
  note r = scale_rel [OF p(1-4) Suc.prems(1)]
  note k = chunk_at_ok [OF p(1) r(1,2) p(5-8)]
  obtain ds where ds: "scale_chunks p b ((if c mod span_of p + chunk p > region p then 0 else c) + stride p) = (ds, c')"
    and cs: "cs = (let rel = if c mod span_of p + chunk p > region p then 0 else c mod span_of p in
      (src_off p + rel, dst_off p + rel, chunk p)) # ds"
    using Suc.prems(2) by (auto simp: Let_def split: if_splits prod.splits)
  from Suc.IH [OF r(3) ds] k cs show ?case by (simp add: Let_def)
qed simp

text \<open>Every request so far holds one batch of such chunks.\<close>

definition request_ok :: "scale_args \<Rightarrow> pb_write_pba_batch_request \<Rightarrow> bool" where
  "request_ok p req \<longleftrightarrow> length (pwq_pba_srcs req) = nat (sc_batch p) \<and>
     length (pwq_pba_dsts req) = nat (sc_batch p) \<and> length (pwq_nbytes req) = nat (sc_batch p) \<and>
     pwq_src_dev req = sc_src_dev p \<and> pwq_dst_dev req = sc_dst_dev p \<and>
     list_all (chunk_ok p) (zip (pwq_pba_srcs req) (zip (pwq_pba_dsts req) (pwq_nbytes req)))"

lemma scale_request_ok:
  "length cs = nat (sc_batch p) \<Longrightarrow> list_all (chunk_ok p) cs \<Longrightarrow> request_ok p (scale_request p cs)"
proof -
  have "zip (map fst cs) (zip (map (fst \<circ> snd) cs) (map (snd \<circ> snd) cs)) = cs"
    for cs :: "(u64 \<times> u64 \<times> u64) list" by (induction cs) auto
  then show "length cs = nat (sc_batch p) \<Longrightarrow> list_all (chunk_ok p) cs \<Longrightarrow> ?thesis"
    by (simp add: request_ok_def scale_request_def)
qed

lemma scale_loop_Suc:
  assumes "scale_chunks p (nat (sc_batch p)) c = (cs, c')"
  shows "fst (scale_loop p wu (Suc left) it c rs) = scale_request p cs #
      (case rs of (Answers rsp, w) # rs \<Rightarrow> if pwr_err rsp = [] then fst (scale_loop p wu left (it + 1) c' rs) else []
       | _ \<Rightarrow> [])"
  using assms by (auto simp: Let_def split: list.split call_result.split prod.split)

lemma scale_loop_requests:
  assumes p: "scale_sane p" "4096 dvd unat (stride p)" "unat (chunk p) \<le> unat (region p)" "stride p \<noteq> 0"
    "chunk p \<noteq> 0" "4096 dvd unat (src_off p)" "4096 dvd unat (dst_off p)" "4096 dvd unat (chunk p)"
  shows "cursor_ok p c \<Longrightarrow> list_all (request_ok p) (fst (scale_loop p wu left it c rs))"
proof (induction left arbitrary: it c rs)
  case (Suc left)
  obtain cs c' where cs: "scale_chunks p (nat (sc_batch p)) c = (cs, c')" by fastforce
  note k = scale_chunks_ok [OF p Suc.prems cs]
  then show ?case
    using Suc.IH unfolding scale_loop_Suc [OF cs]
    by (auto intro: scale_request_ok split: list.split call_result.split)
qed simp

fun answer_ok :: "pb_write_pba_batch_response call_result \<times> int \<Rightarrow> bool" where
  "answer_ok (Answers rsp, w) = (pwr_err rsp = [])"
| "answer_ok _ = False"

lemma scale_loop_collects:
  "list_all answer_ok rs \<Longrightarrow> left \<le> length rs \<Longrightarrow>
   length (fst (scale_loop p wu left it c rs)) = left \<and>
   (\<exists>xs. snd (scale_loop p wu left it c rs) = Collected xs \<and> length xs = nat (it + int left - max it wu))"
proof (induction left arbitrary: it c rs)
  case (Suc left)
  from Suc.prems obtain rsp w rs' where rs: "rs = (Answers rsp, w) # rs'" "pwr_err rsp = []"
    "list_all answer_ok rs'" "left \<le> length rs'"
    by (cases rs; cases "hd rs"; cases "fst (hd rs)") auto
  obtain cs c' where cs: "scale_chunks p (nat (sc_batch p)) c = (cs, c')" by fastforce
  from Suc.IH [OF rs(3,4), of "it + 1" c'] obtain reqs xs where
    ih: "scale_loop p wu left (it + 1) c' rs' = (reqs, Collected xs)" "length reqs = left"
      "length xs = nat (it + 1 + int left - max (it + 1) wu)"
    by (cases "scale_loop p wu left (it + 1) c' rs'") auto
  then show ?case by (auto simp: rs(1,2) cs max_def nat_eq_iff)
qed (simp add: max_def)

lemma iters_of_bounds:
  assumes "1 \<le> min_iters p" "min_iters p \<le> max_iters p" "max_iters p < 2 ^ 31"
  shows "min_iters p \<le> iters_of p \<and> iters_of p \<le> max_iters p"
proof -
  have u: "uint (word_of_int (min_iters p) :: u64) = min_iters p" "uint (word_of_int (max_iters p) :: u64) = max_iters p"
    using assms by (auto simp: uint_word_of_int intro!: mod_pos_pos_trivial)
  show ?thesis using assms(2) by (auto simp: iters_of_def Let_def word_less_def u)
qed

text \<open>
  C27. The measuring program writes only where it was told to, provided that neither end of a region
  nor the region with the stride passes \<open>2\<^sup>6\<^sup>4\<close>, which it does not check. Without \<open>-yes-destroy-dst\<close> it sends
  nothing. Every request it sends, however long it runs and whatever the storage node answers, holds
  \<open>-batch\<close> chunks of \<open>-chunk\<close> bytes that lie inside the region from \<open>-dst-off\<close> (the source inside the
  one from \<open>-src-off\<close>), at the same place of both, aligned to 4096 bytes, although the cursor wraps
  around. With enough good answers it ends with one sample per measured round.
\<close>

theorem scale_stays_in_region:
  assumes run: "scale_main rdma_ok connects argv rs = ProgramRuns sr" and sane: "scale_sane (sr_args sr)"
  shows "confirmed (sr_args sr) \<and> list_all (request_ok (sr_args sr)) (sr_requests sr) \<and>
    (list_all answer_ok rs \<and> nat (warmup_of (warmup (sr_args sr)) (iters_of (sr_args sr)) + iters_of (sr_args sr)) \<le> length rs \<and>
      max_iters (sr_args sr) < 2 ^ 31 \<longrightarrow>
      (\<exists>xs. sr_status sr = Collected xs \<and> int (length xs) = iters_of (sr_args sr) \<and> xs \<noteq> []))"
proof -
  let ?p = "sr_args sr"
  let ?i = "iters_of ?p"
  let ?w = "warmup_of (warmup ?p) ?i"
  from run obtain q where q: "scale_checked rdma_ok q = Some ?p" "confirmed ?p" "?w + ?i < 2 ^ 31"
    and l: "scale_loop ?p ?w (nat (?w + ?i)) 0 0 rs = (sr_requests sr, sr_status sr)"
    by (auto simp: scale_main_def Let_def not_le split: parsed.splits option.splits if_splits prod.splits)
  note c = scale_checked_Some [OF q(1)]
  then have st: "stride ?p \<noteq> 0" by simp
  have "0 < unat (stride ?p)" using st by (simp add: unat_gt_0)
  then have "cursor_ok ?p 0" using unat_span_of [of ?p] c sane by (simp add: cursor_ok_def trans_less_add2)
  from scale_loop_requests [OF sane _ _ st, OF _ _ _ _ _ _ this, of ?w "nat (?w + ?i)" 0 rs] c l
  have r: "list_all (request_ok ?p) (sr_requests sr)" by simp
  have "\<exists>xs. sr_status sr = Collected xs \<and> int (length xs) = ?i \<and> xs \<noteq> []"
    if a: "list_all answer_ok rs" "nat (?w + ?i) \<le> length rs" "max_iters ?p < 2 ^ 31"
  proof -
    have i: "1 \<le> ?i" using iters_of_bounds [OF _ _ a(3)] c by auto
    have w: "0 \<le> ?w" by (simp add: warmup_of_def Let_def)
    from scale_loop_collects [OF a(1,2), of ?p ?w 0 0] l i w show ?thesis by auto
  qed
  with q(2) r show ?thesis by blast
qed

text \<open>Two chunks of a page per request in a region of three pages, one round to warm up and two to measure.\<close>

definition scale_line :: "string list" where
  "scale_line = ''raft_blkcopy_scale'' # words_of [(''-storage'', Some ''s:5050''), (''-src-dev'', Some ''0''),
     (''-dst-dev'', Some ''1'')] @ [''-chunk'', ''4096'', ''-region'', ''12288'', ''-src-off'', ''0'', ''-dst-off'', ''8192'',
     ''-batch'', ''2'', ''-min-iters'', ''2'', ''-max-iters'', ''2'', ''-warmup'', ''1'', ''-transport'', ''tcp'', ''-yes-destroy-dst'']"

definition good_answer :: "pb_write_pba_batch_response call_result \<times> int" where
  "good_answer = (Answers \<lparr>pwr_err = [], pwr_copy_nanos = 9, pwr_read_nanos = 4, pwr_write_nanos = 5\<rparr>, 20)"

definition scale_sample_args :: scale_args where
  "scale_sample_args = scale_defaults\<lparr>storage_addr := ''s:5050'', sc_src_dev := 0, sc_dst_dev := 1, chunk := 4096,
     region := 12288, src_off := 0, dst_off := 8192, stride := 4096, sc_batch := 2, min_iters := 2, max_iters := 2,
     warmup := 1, sc_transport := ''tcp'', confirmed := True\<rparr>"

lemma scale_line_parsed:
  "arg_loop scale_flag scale_line 1 scale_defaults = Parsed (scale_sample_args\<lparr>stride := 0\<rparr>)"
  "scale_checked False (scale_sample_args\<lparr>stride := 0\<rparr>) = Some scale_sample_args"
  "bytes_per_rpc scale_sample_args = 8192" "iters_of scale_sample_args = 2"
  by code_simp+

theorem scale_stays_in_region_witness:
  "\<exists>sr. scale_main False True scale_line [good_answer, good_answer, good_answer] = ProgramRuns sr \<and>
     list_all (request_ok scale_sample_args) (sr_requests sr) \<and>
     (\<exists>xs. sr_status sr = Collected xs \<and> length xs = 2)"
proof -
  have w: "warmup_of (warmup scale_sample_args) 2 = 1" "confirmed scale_sample_args" "max_iters scale_sample_args = 2"
    "scale_sane scale_sample_args"
    by (simp_all add: scale_sample_args_def warmup_of_def scale_sane_def unat_u64_numeral)
  let ?rs = "[good_answer, good_answer, good_answer]"
  obtain sr where sr: "scale_main False True scale_line ?rs = ProgramRuns sr" "sr_args sr = scale_sample_args"
    using scale_line_parsed w(1,2) by (simp add: scale_main_def Let_def split_beta)
  from scale_stays_in_region [OF sr(1)] sr(2) w scale_line_parsed(4)
  show ?thesis using sr(1) by (intro exI [of _ sr]) (auto simp: good_answer_def)
qed

text \<open>A negative stride.\<close>

definition backward_line :: "string list" where
  "backward_line = ''raft_blkcopy_scale'' # words_of [(''-storage'', Some ''s:5050''), (''-src-dev'', Some ''0''),
     (''-dst-dev'', Some ''1'')] @ [''-chunk'', ''8192'', ''-region'', ''65536'', ''-src-off'', ''65536'', ''-dst-off'', ''65536'',
     ''-stride'', ''-4096'', ''-batch'', ''3'', ''-min-iters'', ''1'', ''-max-iters'', ''1'', ''-warmup'', ''0'',
     ''-transport'', ''tcp'', ''-yes-destroy-dst'']"

definition backward_args :: scale_args where
  "backward_args = scale_defaults\<lparr>storage_addr := ''s:5050'', sc_src_dev := 0, sc_dst_dev := 1, chunk := 8192,
     region := 65536, src_off := 65536, dst_off := 65536, stride := - 4096, sc_batch := 3, min_iters := 1, max_iters := 1,
     warmup := 0, sc_transport := ''tcp'', confirmed := True\<rparr>"


lemma backward_parsed:
  "arg_loop scale_flag backward_line 1 scale_defaults = Parsed backward_args"
  "scale_checked False backward_args = Some backward_args"
  "bytes_per_rpc backward_args = 24576" "iters_of backward_args = 1" "map (fst \<circ> snd) (fst (scale_chunks backward_args 3 0)) = [65536, 65536, 57344]"
  by code_simp+

text \<open>
  Without that condition it does not: \<open>strtoull\<close> takes \<open>-stride -4096\<close> for \<open>2\<^sup>6\<^sup>4 - 4096\<close>, a multiple of
  4096, so the program accepts it, and the third chunk of its first request overwrites the destination
  8192 bytes below the region it was given.
\<close>

theorem scale_leaves_region:
  "\<exists>sr req. scale_main False True backward_line [] = ProgramRuns sr \<and> sr_args sr = backward_args \<and> sr_requests sr = [req] \<and>
     dst_off backward_args = 65536 \<and> pwq_pba_dsts req = [65536, 65536, 57344] \<and> pwq_nbytes req = [8192, 8192, 8192]"
proof -
  have w: "warmup_of (warmup backward_args) 1 = 0" "confirmed backward_args" "sc_batch backward_args = 3"
    "dst_off backward_args = 65536"
    by (simp_all add: backward_args_def warmup_of_def)
  let ?cs = "fst (scale_chunks backward_args 3 0)"
  have n: "map (snd \<circ> snd) ?cs = [8192, 8192, 8192]" by code_simp
  have l: "scale_loop backward_args 0 (nat (0 + 1)) 0 0 [] = ([scale_request backward_args ?cs], Waiting)"
    using w(3) by (simp add: eval_nat_numeral split_beta Let_def)
  then show ?thesis using backward_parsed w n by (simp add: scale_main_def Let_def scale_request_def)
qed

end
