(* ===== verification/Doubles.thy ===== *)
theory Doubles
  imports Complex_Main "HOL-Library.Log_Nat"
begin

text \<open>
  The C++ type \<open>double\<close> as far as the statistics need it: a finite value is a rational number, and
  every operation gives the exact result rounded to 53 bits, to the nearest, ties to the even
  significand. The values here are counts, nanoseconds of 64 bits, their sums and squares, and
  quotients of those, all far from the ends of the exponent range; so infinities, subnormal numbers
  and NaN do not arise and the exponent is not bounded.
\<close>

type_synonym double = rat

section \<open>Rounding\<close>

definition round_even :: "rat \<Rightarrow> int" where
  "round_even q =
     (let f = \<lfloor>q\<rfloor>; r = q - of_int f
      in if r < 1 / 2 \<or> (r = 1 / 2 \<and> even f) then f else f + 1)"

text \<open>The exponent at which the absolute value of a number has 53 bits before the point.\<close>

definition binade :: "rat \<Rightarrow> int" where
  "binade q =
     (let (n, d) = quotient_of \<bar>q\<bar>;
          e = int (floorlog 2 (nat n)) - int (floorlog 2 (nat d)) - 53
      in if \<bar>q\<bar> / 2 powi e < 2 ^ 53 then e else e + 1)"

definition double_of :: "rat \<Rightarrow> double" where
  "double_of q = (if q = 0 then 0 else of_int (round_even (q / 2 powi binade q)) * 2 powi binade q)"

lemma round_even_near:
  assumes "\<bar>q - of_int i\<bar> < 1 / 2"
  shows "round_even q = i"
proof (cases "of_int i \<le> q")
  case True
  with assms have "\<lfloor>q\<rfloor> = i" by (simp add: floor_eq_iff)
  with assms True show ?thesis by (simp add: round_even_def)
next
  case False
  with assms have "\<lfloor>q\<rfloor> = i - 1" by (simp add: floor_eq_iff)
  with assms False show ?thesis by (simp add: round_even_def Let_def)
qed

lemma round_even_of_int [simp]: "round_even (of_int i) = i"
  by (rule round_even_near) simp

lemma round_even_err: "\<bar>of_int (round_even q) - q\<bar> \<le> 1 / 2"
proof -
  have "of_int \<lfloor>q\<rfloor> \<le> q" "q < of_int \<lfloor>q\<rfloor> + 1" by linarith+
  then show ?thesis by (auto simp: round_even_def Let_def)
qed

lemma round_even_mono:
  assumes "p \<le> q"
  shows "round_even p \<le> round_even q"
proof (cases "\<lfloor>p\<rfloor> = \<lfloor>q\<rfloor>")
  case True
  then show ?thesis using assms by (auto simp: round_even_def Let_def)
next
  case False
  then have "\<lfloor>p\<rfloor> + 1 \<le> \<lfloor>q\<rfloor>" using floor_mono [OF assms] by linarith
  moreover have "round_even p \<le> \<lfloor>p\<rfloor> + 1" "\<lfloor>q\<rfloor> \<le> round_even q" by (auto simp: round_even_def Let_def)
  ultimately show ?thesis by linarith
qed

section \<open>The exponent\<close>

lemma quotient_bounds:
  assumes "q > 0" "quotient_of q = (n, d)"
  shows "q = of_int n / of_int d" "n > 0" "d > 0"
proof -
  show q: "q = of_int n / of_int d" by (rule quotient_of_div [OF assms(2)])
  show d: "d > 0" by (rule quotient_of_denom_pos [OF assms(2)])
  show "n > 0" using assms(1) d unfolding q by (simp add: zero_less_divide_iff)
qed

lemma floorlog_rat:
  assumes "n > (0 :: int)"
  shows "2 powi (int (floorlog 2 (nat n)) - 1) \<le> (of_int n :: rat)" "(of_int n :: rat) < 2 powi int (floorlog 2 (nat n))"
proof -
  let ?a = "floorlog 2 (nat n)"
  have b: "2 ^ (?a - 1) \<le> nat n" "nat n < 2 ^ ?a" using floorlog_bounds [of "nat n" 2] assms by auto
  have a: "?a > 0" using b(2) assms by (cases ?a) auto
  have "int (2 ^ (?a - 1)) \<le> n" "n < int (2 ^ ?a)" using b assms by (simp_all add: le_nat_iff nat_less_iff)
  then have "(of_int (int (2 ^ (?a - 1))) :: rat) \<le> of_int n" "(of_int n :: rat) < of_int (int (2 ^ ?a))"
    by (simp_all only: of_int_le_iff of_int_less_iff)
  with a show "2 powi (int ?a - 1) \<le> (of_int n :: rat)" "(of_int n :: rat) < 2 powi int ?a"
    by (simp_all add: power_int_def nat_diff_distrib)
qed

lemma less_scaled: "(x :: rat) / 2 powi e < 2 ^ 53 \<longleftrightarrow> x < 2 powi (53 + e)"
  by (simp add: pos_divide_less_eq power_int_add)

lemma binade_bounds:
  assumes "q \<noteq> 0"
  shows "2 powi (52 + binade q) \<le> \<bar>q\<bar>" "\<bar>q\<bar> < 2 powi (53 + binade q)"
proof -
  obtain n d where nd: "quotient_of \<bar>q\<bar> = (n, d)" by fastforce
  have "\<bar>q\<bar> > 0" using assms by simp
  note pos = quotient_bounds [OF this nd]
  let ?a = "int (floorlog 2 (nat n))" and ?b = "int (floorlog 2 (nat d))"
  let ?e = "?a - ?b - 53"
  note n = floorlog_rat [OF pos(2)] and d = floorlog_rat [OF pos(3)]
  have d0: "(of_int d :: rat) > 0" using pos(3) by simp
  have "2 powi (52 + ?e) * (of_int d :: rat) \<le> 2 powi (52 + ?e) * 2 powi ?b"
    using d(2) by (intro mult_left_mono) auto
  also have "\<dots> = 2 powi (?a - 1)" by (subst power_int_add [symmetric]) (simp_all only: algebra_simps, simp_all)
  also have "\<dots> \<le> of_int n" by (rule n(1))
  finally have lo: "2 powi (52 + ?e) \<le> \<bar>q\<bar>" using d0 unfolding pos(1) by (simp add: pos_le_divide_eq)
  have "(of_int n :: rat) < 2 powi ?a" by (rule n(2))
  also have "\<dots> = 2 powi (54 + ?e) * 2 powi (?b - 1)" by (simp flip: power_int_add)
  also have "\<dots> \<le> 2 powi (54 + ?e) * (of_int d :: rat)" using d(1) by (intro mult_left_mono) auto
  finally have hi: "\<bar>q\<bar> < 2 powi (54 + ?e)" using d0 unfolding pos(1) by (simp add: pos_divide_less_eq)
  have s: "\<bar>q\<bar> / 2 powi ?e < 2 ^ 53 \<longleftrightarrow> \<bar>q\<bar> < 2 powi (53 + ?e)"
    by (rule less_scaled)
  show "2 powi (52 + binade q) \<le> \<bar>q\<bar>" "\<bar>q\<bar> < 2 powi (53 + binade q)"
    using lo hi s unfolding binade_def nd by (auto simp: Let_def not_less add.assoc add.commute)
qed

lemma binade_scaled:
  assumes "q \<noteq> 0"
  shows "2 ^ 52 \<le> \<bar>q / 2 powi binade q\<bar>" "\<bar>q / 2 powi binade q\<bar> < 2 ^ 53"
  using binade_bounds [OF assms]
  by (simp_all add: power_int_add pos_le_divide_eq pos_divide_less_eq abs_divide)

lemma binade_mono:
  assumes "p \<noteq> 0" "\<bar>p\<bar> \<le> \<bar>q\<bar>"
  shows "binade p \<le> binade q"
proof -
  have "q \<noteq> 0" using assms by auto
  then have "2 powi (52 + binade p) < (2 :: rat) powi (53 + binade q)"
    using binade_bounds [of p] binade_bounds [of q] assms by linarith
  then have "\<not> 53 + binade q \<le> 52 + binade p"
    using power_int_increasing [of "53 + binade q" "52 + binade p" "2 :: rat"] by auto
  then show ?thesis by simp
qed

section \<open>Laws of rounding\<close>

lemma double_of_0 [simp]: "double_of 0 = 0"
  by (simp add: double_of_def)

lemma double_of_err: "\<bar>double_of q - q\<bar> \<le> \<bar>q\<bar> / 2 ^ 53"
proof (cases "q = 0")
  case False
  let ?u = "2 powi binade q :: rat"
  have u: "?u > 0" by simp
  have "double_of q - q = (of_int (round_even (q / ?u)) - q / ?u) * ?u"
    using False by (simp add: double_of_def left_diff_distrib)
  then have "\<bar>double_of q - q\<bar> = \<bar>of_int (round_even (q / ?u)) - q / ?u\<bar> * ?u" by (simp add: abs_mult)
  also have "\<dots> \<le> 1 / 2 * ?u" using round_even_err [of "q / ?u"] u by (intro mult_right_mono) auto
  also have "\<dots> = 2 powi (52 + binade q) / 2 ^ 53" by (simp add: power_int_add)
  also have "\<dots> \<le> \<bar>q\<bar> / 2 ^ 53" using binade_bounds(1) [OF False] by (intro divide_right_mono) auto
  finally show ?thesis .
qed simp

text \<open>A number that is closer than half a unit in the last place to a value of that grid rounds to it.\<close>

lemma double_of_near:
  assumes "q \<noteq> 0" "k = of_int i * 2 powi binade q" "\<bar>q - k\<bar> < 2 powi binade q / 2"
  shows "double_of q = k"
proof -
  let ?u = "2 powi binade q :: rat"
  have "q / ?u - of_int i = (q - k) / ?u" by (simp add: assms(2) diff_divide_distrib)
  then have "\<bar>q / ?u - of_int i\<bar> < 1 / 2" using assms(3) by (simp add: pos_divide_less_eq)
  then show ?thesis using round_even_near assms(1,2) by (simp add: double_of_def)
qed

lemma double_of_pos: "q > 0 \<Longrightarrow> double_of q > 0"
proof -
  assume q: "q > 0"
  have "\<bar>double_of q - q\<bar> \<le> q / 2 ^ 53" using double_of_err [of q] q by simp
  moreover have "q / 2 ^ 53 < q" using q by simp
  ultimately show "double_of q > 0" by linarith
qed

lemma double_of_mono:
  assumes "0 \<le> p" "p \<le> q"
  shows "double_of p \<le> double_of q"
proof (cases "p = 0")
  case True
  then show ?thesis using assms double_of_pos [of q] by (cases "q = 0") (auto simp: le_less)
next
  case False
  then have pq: "0 < p" "q \<noteq> 0" "0 < q" using assms by auto
  let ?u = "2 powi binade p :: rat" and ?v = "2 powi binade q :: rat"
  have le: "binade p \<le> binade q" using binade_mono [of p q] assms pq by simp
  show ?thesis
  proof (cases "binade p = binade q")
    case True
    have "p / ?v \<le> q / ?v" using assms by (intro divide_right_mono) auto
    then have "round_even (p / ?v) \<le> round_even (q / ?v)" by (rule round_even_mono)
    then show ?thesis using True pq False by (simp add: double_of_def)
  next
    case False
    have "round_even (p / ?u) \<le> round_even (of_int (2 ^ 53))"
      using binade_scaled(2) [OF \<open>p \<noteq> 0\<close>] pq by (intro round_even_mono) (simp add: abs_if split: if_splits)
    then have "(of_int (round_even (p / ?u)) :: rat) \<le> of_int (2 ^ 53)" unfolding round_even_of_int by (simp only: of_int_le_iff)
    then have "double_of p \<le> of_int (2 ^ 53) * ?u" using \<open>p \<noteq> 0\<close> by (simp add: double_of_def)
    also have "\<dots> = 2 powi (53 + binade p)" by (simp add: power_int_add)
    also have "\<dots> \<le> 2 powi (52 + binade q)" using le False by (intro power_int_increasing) auto
    also have "\<dots> = of_int (2 ^ 52) * ?v" by (simp add: power_int_add)
    also have "\<dots> \<le> double_of q"
    proof -
      have "round_even (of_int (2 ^ 52)) \<le> round_even (q / ?v)"
        using binade_scaled(1) [OF pq(2)] pq by (intro round_even_mono) (simp add: abs_of_pos)
      then have "(of_int (2 ^ 52) :: rat) \<le> of_int (round_even (q / ?v))" unfolding round_even_of_int by (simp only: of_int_le_iff)
      then show ?thesis using pq by (simp add: double_of_def)
    qed
    finally show ?thesis .
  qed
qed

lemma round_even_minus: "round_even (- q) = - round_even q"
proof (cases "q = of_int \<lfloor>q\<rfloor>")
  case True
  then show ?thesis by (metis of_int_minus round_even_of_int)
next
  case False
  moreover have "of_int \<lfloor>q\<rfloor> \<le> q" "q < of_int \<lfloor>q\<rfloor> + 1" by linarith+
  ultimately have "of_int \<lfloor>q\<rfloor> < q" "q < of_int \<lfloor>q\<rfloor> + 1" by (metis le_less, simp)
  then have "\<lfloor>- q\<rfloor> = - \<lfloor>q\<rfloor> - 1" by (simp add: floor_eq_iff)
  then show ?thesis by (auto simp: round_even_def Let_def)
qed

lemma double_of_minus: "double_of (- q) = - double_of q"
  by (simp add: double_of_def binade_def round_even_minus)

lemma double_of_le:
  assumes "p \<le> q"
  shows "double_of p \<le> double_of q"
proof -
  consider "0 \<le> p" | "q \<le> 0" | "p < 0" "0 < q" by linarith
  then show ?thesis
  proof cases
    case 2
    then show ?thesis using double_of_mono [of "- q" "- p"] assms by (simp add: double_of_minus)
  next
    case 3
    then show ?thesis using double_of_pos [of q] double_of_pos [of "- p"] by (simp add: double_of_minus)
  qed (use assms double_of_mono in auto)
qed

lemma double_of_nonneg: "0 \<le> q \<Longrightarrow> 0 \<le> double_of q"
  using double_of_le [of 0 q] by simp

text \<open>Integers below \<open>2\<^sup>53\<close> are values of the type.\<close>

lemma integer_on_grid:
  assumes "binade q \<le> 0"
  shows "of_int i = of_int (i * 2 ^ nat (- binade q)) * (2 powi binade q :: rat)"
proof -
  have "(2 :: rat) ^ nat (- binade q) * 2 powi binade q = 2 powi (- binade q + binade q)"
    using assms by (subst power_int_add) (simp_all add: power_int_def)
  then show ?thesis by (simp add: mult.assoc)
qed

lemma binade_small: "0 < \<bar>q\<bar> \<Longrightarrow> \<bar>q\<bar> < 2 ^ 53 \<Longrightarrow> binade q \<le> 0"
proof (rule ccontr)
  assume q: "0 < \<bar>q\<bar>" "\<bar>q\<bar> < 2 ^ 53" and "\<not> binade q \<le> 0"
  then have "(2 :: rat) powi 53 \<le> 2 powi (52 + binade q)" by (intro power_int_increasing) auto
  also have "\<dots> \<le> \<bar>q\<bar>" using binade_bounds(1) [of q] q(1) by simp
  finally show False using q(2) by (simp add: power_int_def)
qed

lemma double_of_int:
  assumes "\<bar>i\<bar> < 2 ^ 53"
  shows "double_of (of_int i) = of_int i"
proof (cases "i = 0")
  case False
  have "\<bar>of_int i :: rat\<bar> < 2 ^ 53" using assms by (metis of_int_abs of_int_less_iff of_int_numeral of_int_power)
  then have "binade (of_int i) \<le> 0" using False by (intro binade_small) auto
  then show ?thesis using False by (intro double_of_near [OF _ integer_on_grid]) simp_all
qed simp

lemma double_of_nat: "n < 2 ^ 53 \<Longrightarrow> double_of (of_nat n) = of_nat n"
  using double_of_int [of "int n"] by (simp add: nat_less_real_le)

text \<open>The value of a rounding from its exponent and significand.\<close>

lemma binade_eqI:
  assumes "2 powi (52 + e) \<le> \<bar>q\<bar>" "\<bar>q\<bar> < 2 powi (53 + e)"
  shows "binade q = e"
proof -
  have "(0 :: rat) < 2 powi (52 + e)" by simp
  then have "0 < \<bar>q\<bar>" using assms(1) by (rule less_le_trans)
  then have "q \<noteq> 0" by simp
  from binade_bounds [OF this] assms have
    "2 powi (52 + e) < (2 :: rat) powi (53 + binade q)" "2 powi (52 + binade q) < (2 :: rat) powi (53 + e)" by linarith+
  then have "\<not> 53 + binade q \<le> 52 + e" "\<not> 53 + e \<le> 52 + binade q"
    using power_int_increasing [of "53 + binade q" "52 + e" "2 :: rat"]
      power_int_increasing [of "53 + e" "52 + binade q" "2 :: rat"] by auto
  then show ?thesis by linarith
qed

lemma double_of_eqI:
  assumes "2 powi (52 + e) \<le> \<bar>q\<bar>" "\<bar>q\<bar> < 2 powi (53 + e)" "\<bar>q - of_int i * 2 powi e\<bar> < 2 powi e / 2"
  shows "double_of q = of_int i * 2 powi e"
proof -
  have "(0 :: rat) < 2 powi (52 + e)" by simp
  then have "0 < \<bar>q\<bar>" using assms(1) by (rule less_le_trans)
  then have "q \<noteq> 0" by simp
  with assms show ?thesis by (intro double_of_near) (simp_all add: binade_eqI)
qed

text \<open>The integer above a rounded number.\<close>

lemma ceiling_double:
  assumes "0 < x" "x \<le> of_int m" "of_int m - 1 < x - x / 2 ^ 53" "m < 2 ^ 53"
  shows "\<lceil>double_of x\<rceil> = m"
proof -
  have "(0 :: rat) < of_int m" using assms(1,2) by linarith
  then have "double_of (of_int m) = of_int m" using assms(4) by (intro double_of_int) simp
  then have "double_of x \<le> of_int m" using double_of_mono [of x "of_int m"] assms(1,2) by simp
  moreover have "of_int m - 1 < double_of x" using double_of_err [of x] assms(1,3) by linarith
  ultimately show ?thesis by (simp add: ceiling_eq_iff)
qed

lemma double_of_above:
  assumes "0 < k" "of_int k \<le> x" "x < of_int k + of_int k / 2 ^ 54" "x < 2 ^ 53"
  shows "double_of x = of_int k"
proof -
  have x: "0 < x" using assms(1,2) by (meson less_le_trans of_int_0_less_iff)
  have "(of_int k :: rat) / 2 ^ 54 < 2 powi (53 + binade x) / 2 ^ 54"
    using binade_bounds(2) [of x] x assms(2) by (intro divide_strict_right_mono) auto
  also have "\<dots> = 2 powi binade x / 2" by (simp add: power_int_add)
  finally have "\<bar>x - of_int k\<bar> < 2 powi binade x / 2" using assms(2,3) by linarith
  moreover have "binade x \<le> 0" using x assms(4) by (intro binade_small) simp_all
  ultimately show ?thesis using x by (intro double_of_near [OF _ integer_on_grid]) simp_all
qed

end
