(* ===== verification/Stats.thy ===== *)
theory Stats
  imports Doubles "HOL-Library.Multiset"
begin

text \<open>
  \<open>raft_stats.h\<close>: percentiles and summary of a vector of nanosecond samples, with the arithmetic of
  \<open>double\<close> as the code has it. \<open>std::sqrt\<close> is an argument of \<open>summarize\<close>: nothing here depends on its
  value.
\<close>

section \<open>Percentiles\<close>

definition pct_rank :: "double \<Rightarrow> nat \<Rightarrow> nat" where
  "pct_rank p n =
     (let rank = nat \<lceil>double_of (double_of (p / 100) * double_of (of_nat n))\<rceil>;
          rank = (if rank = 0 then 1 else rank)
      in if rank > n then n else rank)"

definition pct :: "int list \<Rightarrow> double \<Rightarrow> int" where
  "pct v p = (if v = [] then 0 else v ! (pct_rank p (length v) - 1))"

text \<open>The literal \<open>99.9\<close>, which is no value of the type.\<close>

definition p999_literal :: double where
  "p999_literal = double_of (999 / 10)"

section \<open>Summary\<close>

record stats =
  st_n :: nat
  st_mean :: double
  st_stddev :: double
  st_min :: int
  st_p50 :: int
  st_p90 :: int
  st_p99 :: int
  st_p999 :: int
  st_max :: int

definition sum_double :: "int list \<Rightarrow> double" where
  "sum_double v = foldl (\<lambda>s x. double_of (s + double_of (of_int x))) 0 v"

definition sum_squares :: "double \<Rightarrow> int list \<Rightarrow> double" where
  "sum_squares m v = foldl (\<lambda>a x. let d = double_of (double_of (of_int x) - m)
     in double_of (a + double_of (d * d))) 0 v"

definition summarize :: "(double \<Rightarrow> double) \<Rightarrow> int list \<Rightarrow> stats" where
  "summarize sqrt_double v =
     (if v = [] then \<lparr>st_n = 0, st_mean = 0, st_stddev = 0, st_min = 0, st_p50 = 0, st_p90 = 0, st_p99 = 0,
        st_p999 = 0, st_max = 0\<rparr>
      else
        let v = sort v;
            n = double_of (of_nat (length v));
            m = double_of (sum_double v / n);
            acc = sum_squares m v
        in \<lparr>st_n = length v, st_mean = m, st_stddev = sqrt_double (double_of (acc / n)),
            st_min = hd v, st_p50 = pct v 50, st_p90 = pct v 90, st_p99 = pct v 99, st_p999 = pct v p999_literal,
            st_max = last v\<rparr>)"

section \<open>The ranks\<close>

lemma fractions:
  "double_of (50 / 100) = 1 / 2"
  "double_of (90 / 100) = 8106479329266893 / 9007199254740992"
  "double_of (99 / 100) = 4458563631096791 / 4503599627370496"
  "p999_literal = 3514918771674317 / 35184372088832"
  "double_of (p999_literal / 100) = 2249548013871563 / 2251799813685248"
proof -
  show "double_of (50 / 100) = 1 / 2"
    using double_of_eqI [of "-53" "50 / 100" 4503599627370496] by (simp add: power_int_def power_divide)
  show "double_of (90 / 100) = 8106479329266893 / 9007199254740992"
    using double_of_eqI [of "-53" "90 / 100" 8106479329266893] by (simp add: power_int_def power_divide)
  show "double_of (99 / 100) = 4458563631096791 / 4503599627370496"
    using double_of_eqI [of "-53" "99 / 100" 8917127262193582] by (simp add: power_int_def power_divide)
  show l: "p999_literal = 3514918771674317 / 35184372088832"
    using double_of_eqI [of "-46" "999 / 10" 7029837543348634] by (simp add: power_int_def power_divide p999_literal_def)
  show "double_of (p999_literal / 100) = 2249548013871563 / 2251799813685248"
    unfolding l using double_of_eqI [of "-53" "3514918771674317 / 35184372088832 / 100" 8998192055486252]
    by (simp add: power_int_def power_divide)
qed

text \<open>The nearest rank of the fraction \<open>a / d\<close>.\<close>

definition nearest_rank :: "nat \<Rightarrow> nat \<Rightarrow> nat \<Rightarrow> nat" where
  "nearest_rank a d n = (a * n + (d - 1)) div d"

lemma nearest_rank_bounds:
  assumes "0 < d" "0 < a" "0 < n"
  shows "a * n \<le> d * nearest_rank a d n" "d * nearest_rank a d n < a * n + d" "0 < nearest_rank a d n"
proof -
  let ?m = "a * n + (d - 1)"
  have m: "d * nearest_rank a d n + ?m mod d = ?m" by (simp add: nearest_rank_def)
  have "?m mod d < d" using assms(1) by simp
  with m assms(1) show 1: "a * n \<le> d * nearest_rank a d n" "d * nearest_rank a d n < a * n + d" by linarith+
  have "0 < a * n" using assms by simp
  with 1(1) show "0 < nearest_rank a d n" by (cases "nearest_rank a d n") auto
qed

lemma nearest_rank_le: "0 < d \<Longrightarrow> a \<le> d \<Longrightarrow> nearest_rank a d n \<le> n"
proof -
  assume d: "0 < d" "a \<le> d"
  then have "a * n + (d - 1) < d * n + d" by (intro add_le_less_mono mult_right_mono) auto
  also have "\<dots> = Suc n * d" by (simp add: algebra_simps)
  finally have "nearest_rank a d n < Suc n" unfolding nearest_rank_def by (rule less_mult_imp_div_less)
  then show ?thesis by simp
qed

text \<open>
  A fraction that is off by at most \<open>2\<^sup>-\<^sup>51\<close> gives the nearest rank, unless the rank is exact and the
  fraction too large.
\<close>

lemma ceiling_rank:
  assumes n: "0 < n" "n < 2 ^ 40" and a: "0 < a" "a \<le> d" "d \<le> 1000"
    and c: "\<bar>c - of_nat a / of_nat d\<bar> \<le> (1 :: rat) / 2 ^ 51" "\<not> d dvd a * n \<or> c \<le> of_nat a / of_nat d"
  shows "\<lceil>double_of (c * of_nat n)\<rceil> = int (nearest_rank a d n)"
proof -
  let ?k = "nearest_rank a d n" and ?x = "c * of_nat n" and ?y = "of_nat (a * n) / of_nat d :: rat"
  have d: "0 < d" "(0 :: rat) < of_nat d" using a by simp_all
  note k = nearest_rank_bounds [OF d(1) a(1) n(1)] and le = nearest_rank_le [OF d(1) a(2), of n]
  have nn: "(0 :: rat) < of_nat n" "(of_nat n :: rat) \<le> 2 ^ 40"
    using n by (simp, metis less_imp_le of_nat_le_iff of_nat_numeral of_nat_power)
  have gap: "(1 :: rat) / 1000 \<le> 1 / of_nat d" using a(3) d by (simp add: frac_le)
  have "\<bar>?x - ?y\<bar> \<le> 1 / 2048"
  proof -
    have "?x - ?y = (c - of_nat a / of_nat d) * of_nat n" by (simp add: algebra_simps)
    then have "\<bar>?x - ?y\<bar> = \<bar>c - of_nat a / of_nat d\<bar> * of_nat n" using nn by (simp add: abs_mult)
    also have "\<dots> \<le> 1 / 2 ^ 51 * 2 ^ 40" using c(1) nn by (intro mult_mono) auto
    finally show ?thesis by simp
  qed
  then have x: "?x - ?y \<le> 1 / 2048" "?y - ?x \<le> 1 / 2048" by linarith+
  have yk: "?y \<le> of_nat ?k" using k(1) d by (simp add: pos_divide_le_eq flip: of_nat_mult) (simp add: mult.commute)
  have "d * ?k + 1 \<le> a * n + d" using k(2) by simp
  then have "(of_nat (d * ?k + 1) :: rat) \<le> of_nat (a * n + d)" by (simp only: of_nat_le_iff)
  then have "of_nat ?k - 1 + 1 / of_nat d \<le> (of_nat (a * n + d) - of_nat d) / (of_nat d :: rat)"
    using d by (simp add: pos_le_divide_eq distrib_right left_diff_distrib) (simp add: mult.commute)
  then have lo: "of_nat ?k - 1 + 1 / of_nat d \<le> ?y" by simp
  have xk: "?x \<le> of_nat ?k"
  proof (cases "c \<le> of_nat a / of_nat d")
    case True
    then have "?x \<le> of_nat a / of_nat d * of_nat n" using nn by (intro mult_right_mono) auto
    then have "?x \<le> ?y" by simp
    with yk show ?thesis by linarith
  next
    case False
    then have "a * n \<noteq> d * ?k" using c(2) by (metis dvd_triv_left)
    then have "a * n + 1 \<le> d * ?k" using k(1) by simp
    then have "(of_nat (a * n + 1) :: rat) \<le> of_nat (d * ?k)" by (simp only: of_nat_le_iff)
    then have "?y + 1 / of_nat d \<le> of_nat ?k"
      using d by (simp add: pos_divide_le_eq mult.commute flip: add_divide_distrib)
    with x gap show ?thesis by linarith
  qed
  have kn: "(of_nat ?k :: rat) \<le> 2 ^ 40" using le nn(2) by (meson of_nat_mono order_trans)
  have "?x / 2 ^ 53 \<le> 2 ^ 40 / 2 ^ 53" using xk kn by (intro divide_right_mono) auto
  also have "\<dots> = 1 / 8192" by simp
  finally have "of_nat ?k - 1 < ?x - ?x / 2 ^ 53" using lo x gap by linarith
  moreover have "(1 :: rat) \<le> of_nat ?k" using k(3) by simp
  then have "0 < ?x" using x lo gap by linarith
  moreover have "int ?k < 2 ^ 53" using le n(2) by simp
  ultimately show ?thesis using ceiling_double [of ?x "int ?k"] xk by simp
qed

lemma rank_is_nearest:
  assumes n: "0 < n" "n < 2 ^ 40" and a: "0 < a" "a \<le> d" and c: "double_of (p / 100) = c"
    and k: "\<lceil>double_of (c * of_nat n)\<rceil> = int (nearest_rank a d n)"
  shows "pct_rank p n = nearest_rank a d n"
  using k nearest_rank_bounds(3) [of d a n] nearest_rank_le [of d a n] n a double_of_nat [of n]
  by (simp add: pct_rank_def c)

lemmas rank_below = rank_is_nearest [OF _ _ _ _ _ ceiling_rank]

text \<open>The fraction \<open>0.9\<close> is a little too large, but a product with a multiple of ten rounds to the integer.\<close>

lemma ceiling_90:
  assumes "0 < j" "10 * j < 2 ^ 40"
  shows "\<lceil>double_of (8106479329266893 / 9007199254740992 * of_nat (10 * j))\<rceil> = int (nearest_rank 9 10 (10 * j))"
proof -
  let ?x = "8106479329266893 / 9007199254740992 * of_nat (10 * j) :: rat"
  have j: "(0 :: rat) < of_nat j" using assms(1) by simp
  have "(of_nat (10 * j) :: rat) < of_nat (2 ^ 40)" using assms(2) by (simp only: of_nat_less_iff)
  then have "(of_nat j :: rat) < 2 ^ 40" by simp
  then have "double_of ?x = of_int (9 * int j)" using j assms(1) by (intro double_of_above) simp_all
  moreover have "nearest_rank 9 10 (10 * j) = 9 * j" by (simp add: nearest_rank_def)
  ultimately show ?thesis by (metis ceiling_of_int int_ops(7) of_nat_numeral)
qed

lemma rank_999_multiple:
  assumes "0 < j" "1000 * j < 2 ^ 40"
  shows "nearest_rank 999 1000 (1000 * j) = 999 * j"
    "pct_rank p999_literal (1000 * j) = 999 * j \<or> pct_rank p999_literal (1000 * j) = 999 * j + 1"
proof -
  let ?x = "2249548013871563 / 2251799813685248 * of_nat (1000 * j) :: rat"
  show "nearest_rank 999 1000 (1000 * j) = 999 * j" by (simp add: nearest_rank_def)
  have j: "(0 :: rat) < of_nat j" using assms(1) by simp
  have "(of_nat (1000 * j) :: rat) < of_nat (2 ^ 40)" using assms(2) by (simp only: of_nat_less_iff)
  then have b: "(of_nat j :: rat) < 2 ^ 40" by simp
  have e: "double_of (of_int (999 * int j)) = of_int (999 * int j)"
    "double_of (of_int (999 * int j + 1)) = of_int (999 * int j + 1)"
    using assms by (intro double_of_int; simp)+
  have "of_int (999 * int j) \<le> ?x" "?x \<le> of_int (999 * int j + 1)" using j b by simp_all
  then have "double_of (of_int (999 * int j)) \<le> double_of ?x" "double_of ?x \<le> double_of (of_int (999 * int j + 1))"
    using j by (intro double_of_mono; simp)+
  then have "999 * int j \<le> \<lceil>double_of ?x\<rceil>" "\<lceil>double_of ?x\<rceil> \<le> 999 * int j + 1"
    unfolding e by (simp_all add: ceiling_le_iff le_ceiling_iff)
  moreover have nj: "double_of (of_nat (1000 * j)) = of_nat (1000 * j)" using assms(2) by (intro double_of_nat) simp
  ultimately have "\<lceil>double_of ?x\<rceil> = 999 * int j \<or> \<lceil>double_of ?x\<rceil> = 999 * int j + 1" by linarith
  then show "pct_rank p999_literal (1000 * j) = 999 * j \<or> pct_rank p999_literal (1000 * j) = 999 * j + 1"
    unfolding pct_rank_def fractions(5) nj
    using assms(1) by (elim disjE) (simp_all add: nat_add_distrib nat_mult_distrib)
qed

lemma rank_999_of_1000: "pct_rank p999_literal 1000 = 1000"
proof -
  have n: "double_of (of_nat 1000) = of_nat 1000" by (rule double_of_nat) simp
  have "double_of (2249548013871563 / 2251799813685248 * of_nat 1000) = of_int 8787296929185793 * 2 powi (- 43)"
    by (rule double_of_eqI) (simp_all add: power_int_def power_divide)
  then have c: "\<lceil>double_of (2249548013871563 / 2251799813685248 * of_nat 1000)\<rceil> = 1000"
    by (simp only:) (simp add: power_int_def power_divide ceiling_eq_iff)
  show ?thesis unfolding pct_rank_def fractions(5) n c by simp
qed

text \<open>
  C28. The percentiles take the nearest rank the comment promises: of \<open>n\<close> samples, \<open>p50\<close>, \<open>p90\<close> and \<open>p99\<close>
  are number \<open>n/2\<close>, \<open>9n/10\<close> and \<open>99n/100\<close>, rounded up, for every \<open>n\<close> below \<open>2\<^sup>40\<close>, although \<open>0.9\<close> and \<open>0.99\<close> are no values
  of \<open>double\<close>. So is \<open>p99.9\<close> when \<open>n\<close> is no multiple of 1000; for a multiple it can be one
  too high, and for 1000 samples it is: their maximum is reported.
\<close>

theorem pct_nearest_rank:
  assumes n: "0 < n" "n < 2 ^ 40"
  shows "pct_rank 50 n = nearest_rank 1 2 n \<and> pct_rank 90 n = nearest_rank 9 10 n \<and> pct_rank 99 n = nearest_rank 99 100 n \<and>
    (\<not> 1000 dvd n \<longrightarrow> pct_rank p999_literal n = nearest_rank 999 1000 n) \<and>
    (1000 dvd n \<longrightarrow> pct_rank p999_literal n \<in> {nearest_rank 999 1000 n, nearest_rank 999 1000 n + 1}) \<and>
    pct_rank p999_literal 1000 = nearest_rank 999 1000 1000 + 1"
proof (intro conjI impI)
  show "pct_rank 50 n = nearest_rank 1 2 n" by (rule rank_below [OF n _ _ fractions(1) n]) simp_all
  show "pct_rank 99 n = nearest_rank 99 100 n" by (rule rank_below [OF n _ _ fractions(3) n]) simp_all
  show "pct_rank 90 n = nearest_rank 9 10 n"
  proof (cases "10 dvd n")
    case True
    then obtain j where j: "n = 10 * j" by blast
    show ?thesis unfolding j using n j by (intro rank_is_nearest [OF _ _ _ _ fractions(2)] ceiling_90) simp_all
  next
    case False
    then have "\<not> 10 dvd 9 * n" using coprime_dvd_mult_right_iff [of 10 9 n] by (simp add: coprime_iff_gcd_eq_1 gcd_non_0_nat)
    then show ?thesis by (intro rank_below [OF n _ _ fractions(2) n]) simp_all
  qed
  show "pct_rank p999_literal n = nearest_rank 999 1000 n" if "\<not> 1000 dvd n"
  proof -
    have "\<not> 1000 dvd 999 * n"
      using that coprime_dvd_mult_right_iff [of 1000 999 n] by (simp add: coprime_iff_gcd_eq_1 gcd_non_0_nat)
    then show ?thesis by (intro rank_below [OF n _ _ fractions(5) n]) simp_all
  qed
  show "pct_rank p999_literal n \<in> {nearest_rank 999 1000 n, nearest_rank 999 1000 n + 1}" if "1000 dvd n"
  proof -
    from that obtain j where j: "n = 1000 * j" by blast
    show ?thesis using rank_999_multiple [of j] n unfolding j by auto
  qed
  show "pct_rank p999_literal 1000 = nearest_rank 999 1000 1000 + 1"
    by (simp add: rank_999_of_1000 nearest_rank_def)
qed

theorem pct_nearest_rank_witness: "pct_rank 90 40 = 36 \<and> pct_rank p999_literal 40 = 40"
  using pct_nearest_rank [of 40] by (simp add: nearest_rank_def)

section \<open>The summary\<close>

lemma pct_rank_range: "0 < n \<Longrightarrow> 0 < pct_rank p n \<and> pct_rank p n \<le> n"
  by (simp add: pct_rank_def Let_def)

lemma pct_rank_mono:
  assumes "p \<le> q"
  shows "pct_rank p n \<le> pct_rank q n"
proof -
  have n: "0 \<le> double_of (of_nat n)" using double_of_le [of 0 "of_nat n"] by simp
  have "double_of (p / 100) \<le> double_of (q / 100)" using assms by (intro double_of_le) simp
  then have "nat \<lceil>double_of (double_of (p / 100) * double_of (of_nat n))\<rceil> \<le>
      nat \<lceil>double_of (double_of (q / 100) * double_of (of_nat n))\<rceil>"
    using n by (intro nat_mono ceiling_mono double_of_le [OF mult_right_mono])
  moreover have "(if (if a = 0 then 1 else a) > n then n else if a = 0 then 1 else a) \<le>
      (if (if b = 0 then 1 else b) > n then n else if b = 0 then 1 else b)" if "a \<le> b" for a b :: nat
    using that by auto
  ultimately show ?thesis unfolding pct_rank_def Let_def by blast
qed

lemma pct_mem: "v \<noteq> [] \<Longrightarrow> pct v p \<in> set v"
  using pct_rank_range [of "length v" p] by (auto simp: pct_def intro!: nth_mem)

lemma pct_mono:
  assumes "sorted v" "p \<le> q"
  shows "pct v p \<le> pct v q"
proof (cases "v = []")
  case False
  then have "0 < pct_rank q (length v)" "pct_rank q (length v) \<le> length v" using pct_rank_range by simp_all
  then show ?thesis using pct_rank_mono [OF assms(2), of "length v"] False
    by (simp add: pct_def sorted_nth_mono [OF assms(1)])
qed (simp add: pct_def)

text \<open>The running sum is exact while the samples add up to less than \<open>2\<^sup>53\<close>.\<close>

lemma foldl_sum_exact:
  "\<bar>a\<bar> + (\<Sum>x\<leftarrow>v. \<bar>x\<bar>) < 2 ^ 53 \<Longrightarrow>
   foldl (\<lambda>s x. double_of (s + double_of (of_int x))) (of_int a) v = of_int (a + sum_list v)"
proof (induction v arbitrary: a)
  case (Cons x v)
  have "0 \<le> (\<Sum>x\<leftarrow>v. \<bar>x\<bar>)" by (rule sum_list_nonneg) auto
  with Cons.prems have b: "\<bar>x\<bar> < 2 ^ 53" "\<bar>a + x\<bar> < 2 ^ 53" "\<bar>a + x\<bar> + (\<Sum>x\<leftarrow>v. \<bar>x\<bar>) < 2 ^ 53"
    by simp_all
  from Cons.IH [OF b(3)] double_of_int [OF b(1)] double_of_int [OF b(2)] show ?case by (simp add: add.assoc)
qed simp

lemma sum_double_exact: "(\<Sum>x\<leftarrow>v. \<bar>x\<bar>) < 2 ^ 53 \<Longrightarrow> sum_double v = of_int (sum_list v)"
  using foldl_sum_exact [of 0 v] by (simp add: sum_double_def)

lemma sum_list_bounds:
  assumes "\<forall>x \<in> set v. (lo :: int) \<le> x \<and> x \<le> hi"
  shows "int (length v) * lo \<le> sum_list v" "sum_list v \<le> int (length v) * hi"
  using assms by (induction v) (auto simp: algebra_simps)

lemma sorted_ends:
  assumes "sorted v" "v \<noteq> []"
  shows "hd v \<in> set v" "last v \<in> set v" "\<forall>x \<in> set v. hd v \<le> x \<and> x \<le> last v"
proof -
  show "hd v \<in> set v" "last v \<in> set v" using assms(2) by simp_all
  have "v = butlast v @ [last v]" using assms(2) by simp
  then have "\<forall>x \<in> set v. x \<le> last v" using assms(1) by (metis UnE set_append sorted_append empty_set list.set_intros(1) list.simps(15) singletonD order_refl)
  moreover have "\<forall>x \<in> set v. hd v \<le> x" using assms by (cases v) auto
  ultimately show "\<forall>x \<in> set v. hd v \<le> x \<and> x \<le> last v" by blast
qed

lemma mean_between:
  assumes v: "v \<noteq> []" "length v < 2 ^ 53" "(\<Sum>x\<leftarrow>v. \<bar>x\<bar>) < 2 ^ 53" and b: "\<forall>x \<in> set v. lo \<le> x \<and> x \<le> hi" "lo \<in> set v" "hi \<in> set v"
  defines "m \<equiv> double_of (sum_double v / double_of (of_nat (length v)))"
  shows "m = double_of (of_int (sum_list v) / of_nat (length v))" "of_int lo \<le> m" "m \<le> of_int hi"
proof -
  have n: "(0 :: rat) < of_nat (length v)" using v(1) by simp
  show m: "m = double_of (of_int (sum_list v) / of_nat (length v))"
    unfolding m_def sum_double_exact [OF v(3)] double_of_nat [OF v(2)] ..
  have small: "\<bar>x\<bar> < 2 ^ 53" if "x \<in> set v" for x
    using v(3) member_le_sum_list [of "\<bar>x\<bar>" "map abs v"] that by fastforce
  have "(of_int (int (length v) * lo) :: rat) \<le> of_int (sum_list v)" "(of_int (sum_list v) :: rat) \<le> of_int (int (length v) * hi)"
    using sum_list_bounds [OF b(1)] by (simp_all only: of_int_le_iff)
  then have "of_int lo \<le> (of_int (sum_list v) / of_nat (length v) :: rat)" "(of_int (sum_list v) / of_nat (length v) :: rat) \<le> of_int hi"
    using n by (simp_all add: pos_le_divide_eq pos_divide_le_eq mult.commute)
  then have "double_of (of_int lo) \<le> m" "m \<le> double_of (of_int hi)" unfolding m by (simp_all add: double_of_le)
  then show "of_int lo \<le> m" "m \<le> of_int hi" using small b(2,3) by (simp_all add: double_of_int)
qed

text \<open>
  What a summary says of its samples. It depends on the samples and not on their order; the six
  order statistics are samples, the first and last of them the least and the greatest, and they are in
  order; while the absolute values add up to less than \<open>2\<^sup>53\<close> nanoseconds (104 days) the mean is the
  exact mean rounded once, between the least and the greatest sample.
\<close>

theorem summarize_ordered:
  fixes sqrt_double :: "double \<Rightarrow> double"
  assumes v: "v \<noteq> []" and w: "mset w = mset v"
  defines "s \<equiv> summarize sqrt_double v"
  shows "summarize sqrt_double w = s \<and> st_n s = length v \<and>
    {st_min s, st_p50 s, st_p90 s, st_p99 s, st_p999 s, st_max s} \<subseteq> set v \<and>
    (\<forall>x \<in> set v. st_min s \<le> x \<and> x \<le> st_max s) \<and>
    sorted [st_min s, st_p50 s, st_p90 s, st_p99 s, st_p999 s, st_max s] \<and>
    (length v < 2 ^ 53 \<and> (\<Sum>x\<leftarrow>v. \<bar>x\<bar>) < 2 ^ 53 \<longrightarrow>
      st_mean s = double_of (of_int (sum_list v) / of_nat (length v)) \<and>
      of_int (st_min s) \<le> st_mean s \<and> st_mean s \<le> of_int (st_max s))"
proof -
  let ?v = "sort v"
  have ne: "?v \<noteq> []" "w \<noteq> []" using v w by (metis set_sort set_empty, auto)
  have sw: "sort w = ?v" using w by (metis properties_for_sort sorted_sort mset_sort)
  have f: "st_n s = length v" "st_min s = hd ?v" "st_max s = last ?v" "st_p50 s = pct ?v 50" "st_p90 s = pct ?v 90"
    "st_p99 s = pct ?v 99" "st_p999 s = pct ?v p999_literal"
    "st_mean s = double_of (sum_double ?v / double_of (of_nat (length ?v)))"
    using v by (simp_all add: s_def summarize_def Let_def)
  have ext: "hd ?v \<in> set v" "last ?v \<in> set v" "\<forall>x \<in> set v. hd ?v \<le> x \<and> x \<le> last ?v"
    using sorted_ends [OF sorted_sort ne(1)] by simp_all
  have mem: "pct ?v p \<in> set v" for p using pct_mem [OF ne(1)] by simp
  have inc: "pct ?v 50 \<le> pct ?v 90" "pct ?v 90 \<le> pct ?v 99" "pct ?v 99 \<le> pct ?v p999_literal"
    by (intro pct_mono; simp add: fractions)+
  have "(\<Sum>x\<leftarrow>?v. \<bar>x\<bar>) = (\<Sum>x\<leftarrow>v. \<bar>x\<bar>)" "sum_list ?v = sum_list v"
    by (metis mset_sort mset_map sum_mset_sum_list)+
  then have mean: "length v < 2 ^ 53 \<and> (\<Sum>x\<leftarrow>v. \<bar>x\<bar>) < 2 ^ 53 \<longrightarrow>
      st_mean s = double_of (of_int (sum_list v) / of_nat (length v)) \<and>
      of_int (st_min s) \<le> st_mean s \<and> st_mean s \<le> of_int (st_max s)"
    using mean_between [OF ne(1), of "hd ?v" "last ?v"] ext unfolding f by simp
  have sd: "sorted [st_min s, st_p50 s, st_p90 s, st_p99 s, st_p999 s, st_max s]"
    using inc ext mem [of 50] mem [of 90] mem [of 99] mem [of p999_literal] unfolding f by auto
  have eq: "summarize sqrt_double w = s" using v ne(2) by (simp add: s_def summarize_def sw)
  show ?thesis using mem ext by (intro conjI eq mean sd) (auto simp: f)
qed

theorem summarize_ordered_witness:
  "st_n (summarize id [3, 1, 2]) = 3 \<and> st_mean (summarize id [3, 1, 2]) = 2 \<and> summarize id [2, 1, 3] = summarize id [3, 1, 2]"
proof -
  have m: "double_of 2 = 2" using double_of_int [of 2] by simp
  have v: "[3, 1, 2 :: int] \<noteq> []" "mset [2, 1, 3] = mset [3, 1, 2 :: int]" by simp_all
  from summarize_ordered [OF v, of id] have "summarize id [2, 1, 3] = summarize id [3, 1, 2]"
    "st_n (summarize id [3, 1, 2]) = 3" "st_mean (summarize id [3, 1, 2]) = double_of 2" by simp_all
  with m show ?thesis by simp
qed

section \<open>What is printed\<close>

text \<open>
  The numbers in the two lines: nanoseconds become microseconds, in \<open>print_stats\<close> the order statistics
  by the integer division that cuts towards zero.
\<close>

definition cut_us :: "int \<Rightarrow> int" where
  "cut_us x = sgn x * (\<bar>x\<bar> div 1000)"

definition print_stats :: "stats \<Rightarrow> nat \<times> double list \<times> int list" where
  "print_stats s = (st_n s, [double_of (st_mean s / 1000), double_of (st_stddev s / 1000)],
     map cut_us [st_p50 s, st_p90 s, st_p99 s, st_p999 s, st_min s, st_max s])"

definition print_stats_brief :: "stats \<Rightarrow> double list" where
  "print_stats_brief s = [double_of (st_mean s / 1000), double_of (double_of (of_int (st_p50 s)) / 1000),
     double_of (double_of (of_int (st_p99 s)) / 1000)]"

lemma cut_us_mono:
  assumes "x \<le> y"
  shows "cut_us x \<le> cut_us y"
proof -
  have "\<bar>y\<bar> div 1000 \<le> \<bar>x\<bar> div 1000" if "y < 0" using assms that by (intro zdiv_mono1) auto
  moreover have "\<bar>x\<bar> div 1000 \<le> \<bar>y\<bar> div 1000" if "0 \<le> x" using assms that by (intro zdiv_mono1) auto
  moreover have "0 \<le> \<bar>x\<bar> div 1000" "0 \<le> \<bar>y\<bar> div 1000" by simp_all
  ultimately show ?thesis using assms by (auto simp: cut_us_def sgn_if)
qed

end
