(* ===== verification/Reports.thy ===== *)
theory Reports
  imports ScaleMain Stats
begin

text \<open>
  What the two measuring programs report at their end: the throughput and the parallelism of
  \<open>raft_blkcopy_scale\<close>, and the summary of \<open>raft_client -op apply-timed\<close>. The numbers are the arguments
  of the \<open>printf\<close> calls, before they are formatted.
\<close>

section \<open>The copy measurement\<close>

text \<open>Mebibytes per second, always from the elapsed time.\<close>

definition mib_per_s :: "u64 \<Rightarrow> int \<Rightarrow> double" where
  "mib_per_s b ns =
     (if ns \<le> 0 then 0
      else double_of (double_of (double_of (of_int (uint b)) * 1000000000) /
             double_of (double_of (double_of (of_int ns) * 1024) * 1024)))"

text \<open>A sum of \<open>int64_t\<close>: overflow is undefined.\<close>

fun sum_i64 :: "int \<Rightarrow> int list \<Rightarrow> int outcome" where
  "sum_i64 a [] = Ret a"
| "sum_i64 a (x # xs) = (if - (2 ^ 63) \<le> a + x \<and> a + x < 2 ^ 63 then sum_i64 (a + x) xs else Ub)"

record scale_report =
  rep_total_bytes :: u64
  rep_aggregate :: double
  rep_at_p50 :: double
  rep_at_p99 :: double
  rep_eff_workers :: double
  rep_expected_par :: int
  rep_wall_seconds :: double
  rep_read :: stats
  rep_write :: stats
  rep_copy :: stats
  rep_wall :: stats

definition scale_report_of :: "(double \<Rightarrow> double) \<Rightarrow> scale_args \<Rightarrow> scale_sample list \<Rightarrow> scale_report outcome" where
  "scale_report_of sqrt_double p xs =
     obind (sum_i64 0 (map wall_ns xs)) (\<lambda>wall_sum.
     obind (sum_i64 0 (map copy_ns xs)) (\<lambda>copy_sum.
       let wall_s = summarize sqrt_double (map wall_ns xs);
           total_bytes = bytes_per_rpc p * of_nat (length xs)
       in Ret \<lparr>rep_total_bytes = total_bytes, rep_aggregate = mib_per_s total_bytes wall_sum,
            rep_at_p50 = mib_per_s (bytes_per_rpc p) (st_p50 wall_s),
            rep_at_p99 = mib_per_s (bytes_per_rpc p) (st_p99 wall_s),
            rep_eff_workers = (if wall_sum > 0
              then double_of (double_of (of_int copy_sum) / double_of (of_int wall_sum)) else 0),
            rep_expected_par = (if sc_workers p > 0 then min (sc_workers p) (sc_batch p) else sc_batch p),
            rep_wall_seconds = double_of (double_of (of_int wall_sum) / 1000000000),
            rep_read = summarize sqrt_double (map read_ns xs), rep_write = summarize sqrt_double (map write_ns xs),
            rep_copy = summarize sqrt_double (map copy_ns xs), rep_wall = wall_s\<rparr>))"

text \<open>
  The line the scripts read: arm, workers, batch, chunk, three rates, the median and the 99th percentile
  in microseconds, the number of samples.
\<close>

definition summary_line :: "scale_args \<Rightarrow> scale_report \<Rightarrow> string \<times> int \<times> int \<times> u64 \<times> double list \<times> int list \<times> nat" where
  "summary_line p r = (sc_arm p, sc_workers p, sc_batch p, chunk p, [rep_aggregate r, rep_at_p50 r, rep_eff_workers r],
     [cut_us (st_p50 (rep_wall r)), cut_us (st_p99 (rep_wall r))], st_n (rep_wall r))"

text \<open>
  The end of the program: the report, the lines of the CSV file when one was asked for and could be
  opened, the exit code.
\<close>

definition scale_finish ::
  "(double \<Rightarrow> double) \<Rightarrow> bool \<Rightarrow> scale_run \<Rightarrow> (scale_report option \<times> string list option \<times> int) outcome option" where
  "scale_finish sqrt_double csv_opens r =
     (case sr_status r of
        Waiting \<Rightarrow> None
      | Failed \<Rightarrow> Some (Ret (None, None, 1))
      | Collected xs \<Rightarrow>
          if xs = [] then Some (Ret (None, None, 1))
          else Some (obind (scale_report_of sqrt_double (sr_args r) xs) (\<lambda>rep. Ret (
            if csv_path (sr_args r) = [] then (Some rep, None, 0)
            else if \<not> csv_opens then (Some rep, None, 1)
            else (Some rep, Some (csv_lines (sr_args r) xs), 0)))))"

lemma mib_per_s_antimono:
  assumes "0 < a" "a \<le> b"
  shows "mib_per_s n b \<le> mib_per_s n a"
proof -
  let ?d = "\<lambda>x :: int. double_of (double_of (double_of (of_int x) * 1024) * 1024)"
  have pos: "0 < ?d a" using assms by (intro double_of_pos mult_pos_pos) simp_all
  have "?d a \<le> ?d b" using assms by (intro double_of_le mult_right_mono) simp_all
  moreover have "(0 :: rat) \<le> of_int (uint n)" by (simp only: of_int_0_le_iff unsigned_greater_eq)
  then have "0 \<le> double_of (double_of (of_int (uint n)) * 1000000000)"
    by (intro double_of_nonneg mult_nonneg_nonneg) simp_all
  ultimately show ?thesis using assms pos unfolding mib_per_s_def
    by (auto intro!: double_of_le divide_left_mono mult_pos_pos)
qed

lemma sum_i64_Ret: "sum_i64 a xs = Ret b \<Longrightarrow> b = a + sum_list xs"
  by (induction a xs rule: sum_i64.induct) (auto split: if_splits)

text \<open>
  A report is over all samples: the rate at the 99th percentile is at most the one at the median, and
  the exit code is 0 exactly if the samples were written where they should be.
\<close>

lemma scale_finish_report:
  assumes "scale_finish sqrt_double csv_opens r = Some (Ret (Some rep, csv, code))"
  shows "\<exists>xs. sr_status r = Collected xs \<and> st_n (rep_wall rep) = length xs \<and> xs \<noteq> [] \<and>
    (0 < st_p50 (rep_wall rep) \<longrightarrow> rep_at_p99 rep \<le> rep_at_p50 rep) \<and>
    (code = 0 \<longleftrightarrow> csv_path (sr_args r) = [] \<or> csv = Some (csv_lines (sr_args r) xs)) \<and>
    rep_total_bytes rep = bytes_per_rpc (sr_args r) * of_nat (length xs)"
proof -
  from assms obtain xs where xs: "sr_status r = Collected xs" "xs \<noteq> []"
    and rep: "scale_report_of sqrt_double (sr_args r) xs = Ret rep"
    and csv: "code = 0 \<longleftrightarrow> csv_path (sr_args r) = [] \<or> csv = Some (csv_lines (sr_args r) xs)"
    by (auto simp: scale_finish_def obind_eq_Ret split: scale_status.splits if_splits)
  let ?w = "summarize sqrt_double (map wall_ns xs)"
  have w: "rep_wall rep = ?w" "rep_at_p50 rep = mib_per_s (bytes_per_rpc (sr_args r)) (st_p50 ?w)"
    "rep_at_p99 rep = mib_per_s (bytes_per_rpc (sr_args r)) (st_p99 ?w)"
    "rep_total_bytes rep = bytes_per_rpc (sr_args r) * of_nat (length xs)"
    using rep by (auto simp: scale_report_of_def obind_eq_Ret Let_def)
  have "st_n ?w = length xs" "st_p50 ?w \<le> st_p99 ?w"
    using xs(2) pct_mono [of "sort (map wall_ns xs)" 50 99] by (simp_all add: summarize_def Let_def)
  with xs csv w mib_per_s_antimono [of "st_p50 ?w" "st_p99 ?w"] show ?thesis by auto
qed

section \<open>The apply measurement\<close>

definition kTimedTerms :: "string list" where
  "kTimedTerms = [''Total'', ''LHandler'', ''LPersist'', ''AENet'', ''FHandler'', ''ReplNet'', ''StorageIO'',
     ''QuorumWait'', ''Mutex'', ''CommitWait'', ''residual'']"

text \<open>One line per term, each over all samples of the run.\<close>

definition timed_summary :: "(double \<Rightarrow> double) \<Rightarrow> string \<Rightarrow> apply_run \<Rightarrow> (string \<times> double list) list" where
  "timed_summary sqrt_double op st =
     (if op = ''apply-timed'' \<and> run_samples st \<noteq> [] then
        map (\<lambda>k. (kTimedTerms ! k, print_stats_brief (summarize sqrt_double (map (\<lambda>t. t ! k) (run_samples st)))))
          [0..<length kTimedTerms]
      else [])"

text \<open>Commands applied, milliseconds in all, microseconds per command, busy answers.\<close>

definition applied_line :: "int \<Rightarrow> int \<Rightarrow> apply_run \<Rightarrow> u64 \<times> double \<times> double \<times> u64" where
  "applied_line n ns st =
     (run_applied st, double_of (double_of (of_int ns) / 1000000),
      double_of (double_of (double_of (of_int ns) / 1000) / of_int (if n > 0 then n else 1)), busy_retries st)"

text \<open>Microseconds per call of \<open>-op echo\<close>.\<close>

definition echo_line :: "int \<Rightarrow> int \<Rightarrow> int \<times> double" where
  "echo_line n ns = (n, double_of (double_of (double_of (of_int ns) / 1000) / of_int (if n > 0 then n else 1)))"

text \<open>The line of one \<open>apply-timed\<close> answer, without the residual.\<close>

definition timed_line :: "int \<Rightarrow> apply_answer \<Rightarrow> int \<times> double list" where
  "timed_line this_batch a = (this_batch, map (\<lambda>t. double_of (double_of (of_int t) / 1000)) (butlast (ans_terms a)))"

end
