(* ===== verification/Spec2Isabelle.thy ===== *)
theory Spec2Isabelle
  imports ElectionSafety Replication RingData Acknowledge Diagnostics CopyPath Memory Serving Reports
begin

text \<open>
  A model of Raft over NVMe-oF. A Raft node keeps its log in a ring file on a block device. The
  leader sends the followers only metadata: terms and lengths of entries and the physical block
  address of the data. A follower asks a storage node to copy the blocks into its own ring, on the
  device, so the data never passes through the nodes.

  \<^bold>\<open>Parts and how they interact.\<close> \<open>blockio/\<close> opens the ring file, maps file offsets to device
  addresses and reads and writes. \<open>core/\<close> is the algorithm: elections, replication, commit, apply,
  the ring of slots and its garbage collection, and three permanent threads that drive them under
  one lock. \<open>net/\<close> carries the calls between nodes as framed remote calls with protobuf bodies.
  \<open>storage/\<close> is the storage node that copies blocks. The programs in \<open>apps/\<close> put these together.

  \<^bold>\<open>State and effects.\<close> A function of the code on shared state is a function from a state to an
  \<^term>\<open>Ret\<close>, an exception text or undefined behaviour, with the state it leaves
  (\<open>'a outcome \<times> server\<close>, theory \<open>Prelude\<close>). A function that releases the lock is one definition per
  critical section, and theories \<open>Node\<close>, \<open>Cluster\<close>, \<open>Clients\<close> and \<open>Storage\<close> interleave the sections
  freely. 64-bit, 32-bit and 16-bit numbers are words and wrap; times and device indices are integers. System calls
  follow scripts: a list or function of their results, which the theorems quantify over. Clock
  readings, random numbers, FIEMAP, protobuf serialisation and dialling are parameters.

  \<^bold>\<open>Theories.\<close>
    \<^item> \<open>Prelude\<close>: outcomes, sequencing, lemma collections, lists and words. \<open>Samples\<close>: concrete states.
    \<^item> \<open>Basics\<close>: \<open>raft_constants.h\<close>, \<open>raft_basics.h\<close>, \<open>block_geometry.h\<close>. Little-endian fields round
      trip and do not overlap.
    \<^item> \<open>Extents\<close>: the extent cache of \<open>cached_fd.cpp\<close>. Building it ends and is exact; both searches
      agree with the map from file bytes to device bytes.
    \<^item> \<open>Device\<close>: reads, writes, \<open>fdatasync\<close>, \<open>AlignedBuffer\<close>, with the contents of the medium and the
      stable contents apart.
    \<^item> \<open>State\<close>: the records of \<open>raft_state.h\<close>, \<open>raft_entry.h\<close>, \<open>raft_server.h\<close>, \<open>raft_timings.h\<close>.
    \<^item> \<open>Ring\<close>: \<open>raft_ring_helpers.cpp\<close>. Admitted batches stay inside the ring, and off live slots
      when no entry is longer than the stretch from \<open>head_slot\<close> to the ring end.
    \<^item> \<open>Persist\<close>: \<open>raft_persist.cpp\<close>, \<open>raft_pba.cpp\<close>. What a persist leaves on the device.
    \<^item> \<open>RingData\<close>: the bytes in the ring file. An admitted batch that cannot wrap twice
      (\<open>safe_batch\<close>) is durable in its slots, the live entries are untouched, and the direct device read
      gives each entry back; a batch that the code admits and that wraps twice overwrites live slots.
    \<^item> \<open>Election\<close>: \<open>raft_election.cpp\<close>. Grants are exactly those Raft allows and durable while the
      cache of the persisted header is true; a failed \<open>fdatasync\<close> makes it false. Promotion.
    \<^item> \<open>PbaCopy\<close>: \<open>do_pba_copy\<close>. The chunks cover the range byte for byte around the ring end.
    \<^item> \<open>LeaderAE\<close>, \<open>FollowerAE\<close>: \<open>raft_append_entries.cpp\<close>, \<open>raft_handle_append_entries.cpp\<close>. Contents
      of a request, effect of an answer, back-off; the follower's log after every success, whole entries,
      invariant and liveness.
    \<^item> \<open>Replication\<close>: leader and follower together. The follower keeps its old log and appends; this is the
      rule of the Raft paper for AppendEntries exactly when no entry conflicts, and the leader's match
      index is right exactly then.
    \<^item> \<open>Commit\<close>: \<open>raft_commit.cpp\<close>. Majority rule, order of application, slot GC, trimming.
    \<^item> \<open>Timings\<close>, \<open>Apply\<close>: \<open>raft_apply.cpp\<close> and the time break-down of \<open>raft_types.cpp\<close>.
    \<^item> \<open>Lifecycle\<close>: \<open>raft_lifecycle.cpp\<close> with \<open>create_ring_file\<close> and \<open>CachedFD::open\<close>.
    \<^item> \<open>Node\<close>: all critical sections of a node as one step relation; one vote per term.
    \<^item> \<open>Acknowledge\<close>: commit signals through all sections of a node. A successful client call had its own
      last entry passed by the commit index of a leader.
    \<^item> \<open>NodeInv\<close>: the log indices of a node stay consistent along every run in which the
      append-entries handler finds the tail where it left it; without that, overlapping handlers
      corrupt the log.
    \<^item> \<open>Cluster\<close>, \<open>ElectionSafety\<close>: nodes with messages in flight. The votes of every run of the code
      (\<open>code_step\<close>) implement an abstract voting specification. With two guards that the code lacks
      (\<open>network_step\<close>: answers are counted in the term of their request, only candidates are promoted) the
      promotions are its elections, at most one leader per term; a run of the code breaks that.
    \<^item> \<open>Wire\<close>: \<open>raft_wire_codec.cpp\<close>. Frames round trip over a socket that moves any number of bytes.
    \<^item> \<open>Rpc\<close>: the handshake, the connection loop of \<open>raft_rpc_listener.cpp\<close>, \<open>rpc_invoke\<close>. A remote
      call is a call of the dispatcher.
    \<^item> \<open>ProtoConv\<close>: \<open>raft_proto_conv.h\<close>. Every pair of conversions is a bijection, by one locale.
    \<^item> \<open>StateMachines\<close>: the hash and the no-operation machine, by one locale.
    \<^item> \<open>Clients\<close>: \<open>raft_rpc_clients.cpp\<close>. Lazy dialling, back-off, invalidation.
    \<^item> \<open>Dispatch\<close>: \<open>raft_tcp_server.cpp\<close>, \<open>raft_blockcopy_net.cpp\<close>. Remote Raft calls are handler calls.
    \<^item> \<open>Storage\<close>: \<open>raft_blockcopy_server.cpp\<close>. The buffer pool hands out live blocks; a batch reported
      as done has copied every entry that overlaps no other, under every interleaving of its workers.
    \<^item> \<open>Memory\<close>: \<open>AlignedBuffer\<close> as owner of its memory, the destructors of the storage node. No double
      free, no access outside a block, no leak.
    \<^item> \<open>Rdma\<close>, \<open>RdmaSetup\<close>: \<open>raft_rdma_transport.cpp\<close>. Frames, waiting for completions, calls; both
      transports give the same answers for messages that fit the registered buffers in a run without
      timeouts, and waits end. Dialling and tearing down: everything the library handed out is
      released once, in a safe order.
    \<^item> \<open>CopyPath\<close>: follower, wire and storage node together.
    \<^item> \<open>Cli\<close>: \<open>raft_cli.cpp\<close>. Splitting undoes joining, parsing undoes printing.
    \<^item> \<open>TcpSetup\<close>: dialling in \<open>raft_tcp_transport.cpp\<close>, the listener of \<open>raft_rpc_listener.cpp\<close>. Which
      descriptors are open afterwards, and the one a failed handshake leaves behind.
    \<^item> \<open>NodeMain\<close>: \<open>raft_node_main.cpp\<close>, \<open>raft_blockcopy_server_main.cpp\<close>. From a command line to running
      threads; a node that runs is well formed and keeps the invariant of \<open>NodeInv\<close>.
    \<^item> \<open>ClientMain\<close>: \<open>raft_client_main.cpp\<close>. Finding the leader, applying every command once.
    \<^item> \<open>ScaleMain\<close>: \<open>raft_blkcopy_scale_main.cpp\<close>. Its copies stay inside the regions it was given
      while the offsets do not pass \<open>2\<^sup>6\<^sup>4\<close>; a negative stride leaves them.
    \<^item> \<open>Connections\<close>: \<open>raft_rpc_conn.cpp\<close>. A connection of either transport gives back what it took.
    \<^item> \<open>Serving\<close>: the listeners of a node and of a storage node on their dispatchers, and the factories.
      The state after a connection does not depend on the transport.
    \<^item> \<open>Doubles\<close>, \<open>Stats\<close>: floating-point rounding and \<open>raft_stats.h\<close>. Which sample a percentile is; a
      summary is of the samples, in order, with the exact mean rounded once.
    \<^item> \<open>Reports\<close>: what the two measuring programs print at their end.
    \<^item> \<open>Diagnostics\<close>: \<open>log_skip_pba_diag\<close>. The warning is throttled and changes nothing else.

  \<^bold>\<open>Loops and fuel.\<close> Loops with a measure are total functions. The write loop of a frame and the
  connection loop may run for ever (a peer may never close, \<open>write\<close> may move nothing) and are partial
  functions with \<open>None\<close> for not ending; the theorems prove \<open>Some\<close> for connections whose calls make
  progress. A batch of the storage node takes a schedule in place of fuel: two calls per entry and
  one final step for each worker are enough, whatever the order. The poll of a hash state machine
  makes the code's own 2000 rounds. The accept loop, the leader search and the client's apply loop
  have no bound; they consume a script of results, and \<open>None\<close> is a loop still running when the script
  ends. Theory \<open>ClientMain\<close> says which scripts are long enough.

  \<^bold>\<open>Not modelled.\<close> Generated protobuf classes, numbers outside the range of an \<open>int\<close> on a command
  line (\<open>atoi\<close> is unbounded), two descriptors of one device path as aliases (the contents of devices are
  kept by descriptor), the digits \<open>printf\<close> makes of a \<open>double\<close>, usage texts and progress messages on the terminal.
  \<open>std::sqrt\<close> is a parameter. Weak memory effects do not arise: shared state is under
  locks, and the atomics are flags and counters.

  \<^bold>\<open>Plan.\<close> An invariant of the ring and the slot map over all node steps. Theory \<open>RingData\<close> is about a
  ring file in one extent: with several, the admission test does not count the slots that the persist
  loop skips at the end of an extent, so the same theorem would need a corrected test. Log matching across the
  cluster fails as the code stands (theory \<open>Replication\<close>); with a handler that removes a conflicting
  suffix it would be the next theorem.
\<close>

end
